(* ===== verification/Prelude.thy ===== *)
theory Prelude
  imports Main "HOL-Library.Word"
begin

text \<open>
  Shared vocabulary of the development: the machine integer types of the C++ sources,
  the faults a run can end in, raw memory with its little-endian loads and stores, network
  byte order, and the generic lemmas the component theories use.

  Sizes and positions that the code keeps in a \<^verbatim>\<open>size_t\<close> and that stay far below
  \<open>2 ^ 64\<close> are \<^typ>\<open>nat\<close>; every field whose width matters is a word of that width.
\<close>

unbundle bit_operations_syntax

type_synonym u8 = "8 word"
type_synonym u16 = "16 word"
type_synonym u32 = "32 word"
type_synonym u64 = "64 word"

named_theorems mem_simps \<open>loads from updated memory\<close>
named_theorems model_defs \<open>definitions a component unfolds as a whole\<close>

subsection \<open>Faults and fallible results\<close>

text \<open>
  \<open>AssertFail\<close>: \<^verbatim>\<open>RT_ASSERT\<close>, \<^verbatim>\<open>LS_ASSERT\<close> and \<^verbatim>\<open>assert\<close> stop the process (a
  store through a null pointer or an abort). \<open>OutOfBounds\<close>: an access outside the object
  the code addresses. \<open>Deadlock\<close>: a lock that is never granted. \<open>Diverges\<close>: a loop that
  did not end within the fuel it was given.
  \<open>BadIterator\<close>: use of an iterator or pointer to something that is gone.
  \<open>Thrown\<close>: a C++ exception leaves the function. \<open>Undefined\<close>: a call outside the domain its
  documentation gives it.
\<close>

datatype fault = AssertFail | OutOfBounds | Deadlock | Diverges | BadIterator | Thrown | Undefined

type_synonym 'a res = "fault + 'a"

definition rbind :: "'a res \<Rightarrow> ('a \<Rightarrow> 'b res) \<Rightarrow> 'b res" where
  "rbind m f = (case m of Inl e \<Rightarrow> Inl e | Inr x \<Rightarrow> f x)"

definition rassert :: "bool \<Rightarrow> unit res" where
  "rassert b = (if b then Inr () else Inl AssertFail)"

lemma rbind_simps [simp]:
  "rbind (Inl e) f = Inl e"
  "rbind (Inr x) f = f x"
  by (simp_all add: rbind_def)

lemma rbind_Inr_iff: "rbind m f = Inr y \<longleftrightarrow> (\<exists>x. m = Inr x \<and> f x = Inr y)"
  by (cases m) auto

lemma rbind_Inl_iff: "rbind m f = Inl e \<longleftrightarrow> m = Inl e \<or> (\<exists>x. m = Inr x \<and> f x = Inl e)"
  by (cases m) auto

lemma rassert_simps [simp]:
  "rassert True = Inr ()"
  "rassert False = Inl AssertFail"
  by (simp_all add: rassert_def)

lemma rassert_Inr_iff [simp]: "rassert b = Inr u \<longleftrightarrow> b"
  by (simp add: rassert_def)

subsection \<open>Words and naturals\<close>

lemma unat_word_of_nat: "n < 2 ^ LENGTH('a) \<Longrightarrow> unat (word_of_nat n :: 'a::len word) = n"
  by (simp add: unsigned_of_nat take_bit_nat_eq_self)

lemma unat_drop_bit: "unat (drop_bit n (w :: 'a::len word)) = unat w div 2 ^ n"
  by (simp only: drop_bit_eq_div [symmetric] unsigned_drop_bit_eq)
     (simp add: take_bit_nat_eq_self unsigned_less)

lemma unat_take_bit: "unat (take_bit n (w :: 'a::len word)) = unat w mod 2 ^ n"
  by (simp only: unsigned_take_bit_eq) (simp add: take_bit_eq_mod)

subsection \<open>Raw memory\<close>

text \<open>A pointer into raw memory: the byte at every offset from it.\<close>

type_synonym mem = "nat \<Rightarrow> u8"

definition ld16 :: "mem \<Rightarrow> nat \<Rightarrow> u16" where
  "ld16 m a = word_cat (m (a + 1)) (m a)"

definition ld32 :: "mem \<Rightarrow> nat \<Rightarrow> u32" where
  "ld32 m a = word_cat (ld16 m (a + 2)) (ld16 m a)"

definition st8 :: "nat \<Rightarrow> u8 \<Rightarrow> mem \<Rightarrow> mem" where
  "st8 a b m = m(a := b)"

definition st16 :: "nat \<Rightarrow> u16 \<Rightarrow> mem \<Rightarrow> mem" where
  "st16 a w m = m(a := ucast w, a + 1 := ucast (drop_bit 8 w))"

text \<open>\<^verbatim>\<open>memcpy\<close> into raw memory, and the bytes \<^verbatim>\<open>[a, a + n)\<close>.\<close>

definition memcpy :: "nat \<Rightarrow> u8 list \<Rightarrow> mem \<Rightarrow> mem" where
  "memcpy a bs m = (\<lambda>i. if a \<le> i \<and> i < a + length bs then bs ! (i - a) else m i)"

definition slice :: "mem \<Rightarrow> nat \<Rightarrow> nat \<Rightarrow> u8 list" where
  "slice m a n = map m [a ..< a + n]"

lemma length_slice [simp]: "length (slice m a n) = n"
  by (simp add: slice_def)

lemma slice_0 [simp]: "slice m a 0 = []"
  by (simp add: slice_def)

lemma slice_nth: "i < n \<Longrightarrow> slice m a n ! i = m (a + i)"
  by (simp add: slice_def)

lemma slice_cong: "(\<And>i. a \<le> i \<Longrightarrow> i < a + n \<Longrightarrow> m i = m' i) \<Longrightarrow> slice m a n = slice m' a n"
  by (simp add: slice_def)

lemma slice_memcpy_same [mem_simps]: "n = length bs \<Longrightarrow> slice (memcpy a bs m) a n = bs"
  by (rule nth_equalityI) (auto simp: slice_nth memcpy_def)

lemma memcpy_other: "i < a \<or> a + length bs \<le> i \<Longrightarrow> memcpy a bs m i = m i"
  by (auto simp: memcpy_def)

lemma st16_other: "i < a \<or> a + 2 \<le> i \<Longrightarrow> st16 a w m i = m i"
  by (auto simp: st16_def)

lemma ld16_cong: "m a = m' a \<Longrightarrow> m (a + 1) = m' (a + 1) \<Longrightarrow> ld16 m a = ld16 m' a"
  by (simp add: ld16_def)

lemma word_cat_split8: "word_cat (ucast (drop_bit 8 w) :: u8) (ucast w :: u8) = (w :: u16)"
  by (rule bit_word_eqI) (auto simp: bit_simps)

lemma ld16_st16_same [mem_simps]: "ld16 (st16 a w m) a = w"
  by (simp add: ld16_def st16_def word_cat_split8)

subsection \<open>Network byte order\<close>

text \<open>\<^verbatim>\<open>LS_ntohs\<close> and \<^verbatim>\<open>LS_ntohl\<close> on the little-endian hosts the sources target.\<close>

definition LS_ntohs :: "u16 \<Rightarrow> u16" where
  "LS_ntohs w = word_cat (ucast w :: u8) (ucast (drop_bit 8 w) :: u8)"

definition LS_ntohl :: "u32 \<Rightarrow> u32" where
  "LS_ntohl w = word_cat (LS_ntohs (ucast w)) (LS_ntohs (ucast (drop_bit 16 w)))"

lemma LS_ntohs_involution [simp]: "LS_ntohs (LS_ntohs w) = w"
  by (rule bit_word_eqI) (auto simp: LS_ntohs_def bit_simps)

lemma LS_ntohl_involution [simp]: "LS_ntohl (LS_ntohl w) = w"
proof -
  have lo: "ucast (LS_ntohl w) = LS_ntohs (ucast (drop_bit 16 w))"
    by (rule bit_word_eqI) (auto simp: LS_ntohl_def bit_simps)
  have hi: "ucast (drop_bit 16 (LS_ntohl w)) = LS_ntohs (ucast w)"
    by (rule bit_word_eqI) (auto simp: LS_ntohl_def bit_simps)
  have "LS_ntohl (LS_ntohl w) = word_cat (ucast (drop_bit 16 w) :: u16) (ucast w :: u16)"
    by (subst LS_ntohl_def) (simp add: lo hi)
  also have "\<dots> = w"
    by (rule bit_word_eqI) (auto simp: bit_simps)
  finally show ?thesis .
qed

lemma unat_ucast_u8: "unat (ucast (x :: u8) :: u32) = unat x"
proof -
  have "unat x < 2 ^ 8" using unsigned_less [of x] by simp
  then have "unat x < 2 ^ 32" by simp
  then show ?thesis by (simp add: unsigned_ucast_eq take_bit_nat_eq_self)
qed

text \<open>Two bytes in network order.\<close>

lemma ntohs_ld16: "unat (LS_ntohs (ld16 m a)) = unat (m a) * 256 + unat (m (a + 1))"
proof -
  have "LS_ntohs (ld16 m a) = word_cat (m a) (m (a + 1))"
    by (rule bit_word_eqI) (auto simp: LS_ntohs_def ld16_def bit_simps)
  moreover have "unat (word_cat x y :: u16) = unat x * 256 + unat y" for x y :: u8
  proof -
    have "unat x < 256" "unat y < 256" using unsigned_less [of x] unsigned_less [of y] by simp_all
    then have "unat x * 256 + unat y < 2 ^ LENGTH(16)" by simp
    moreover have "word_cat x y = (word_of_nat (unat x * 256 + unat y) :: u16)"
      by (simp add: word_cat_eq push_bit_eq_mult)
    ultimately show ?thesis by (simp only: unat_word_of_nat)
  qed
  ultimately show ?thesis by simp
qed

subsection \<open>Decimal numbers\<close>

text \<open>\<^verbatim>\<open>%d\<close> and \<^verbatim>\<open>%u\<close> of a value that is not negative.\<close>

fun dec :: "nat \<Rightarrow> string" where
  "dec n = (if n < 10 then [char_of (48 + n)] else dec (n div 10) @ [char_of (48 + n mod 10)])"

declare dec.simps [simp del]

lemma dec_length: "n < 10 ^ k \<Longrightarrow> 0 < k \<Longrightarrow> length (dec n) \<le> k"
proof (induction n arbitrary: k rule: dec.induct)
  case (1 n)
  show ?case
  proof (cases "n < 10")
    case True
    with 1 show ?thesis by (simp add: dec.simps)
  next
    case False
    with 1 obtain j where k: "k = Suc j" "0 < j" by (cases k; cases "k - 1") auto
    with 1(2) have "n div 10 < 10 ^ j" by (simp add: less_mult_imp_div_less mult.commute)
    from 1(1) [OF False this k(2)] False k show ?thesis by (simp add: dec.simps [of n])
  qed
qed

text \<open>Reading a decimal number back.\<close>

definition undec :: "string \<Rightarrow> nat" where
  "undec s = foldl (\<lambda>n c. n * 10 + (of_char c - 48)) 0 s"

lemma undec_dec: "undec (dec n) = n"
proof (induction n rule: dec.induct)
  case (1 n)
  show ?case
  proof (cases "n < 10")
    case True
    then show ?thesis by (simp add: dec.simps undec_def of_char_of)
  next
    case False
    moreover have "n mod 10 < 10" by simp
    ultimately show ?thesis using 1 by (simp add: dec.simps [of n] undec_def of_char_of)
  qed
qed

end
