(* ===== verification/Cycle_Buffer.thy ===== *)
theory Cycle_Buffer
  imports Prelude
begin

text \<open>
  \<^verbatim>\<open>lib/libshared/CycleBuffer.h\<close>: the single-producer single-consumer byte ring that
  carries length-prefixed frames between the server and its clients, and
  \<^verbatim>\<open>lib/libshared/SharedCycleBuffer.h\<close>, its wrapper in a shared memory segment.

  The contract of the ring is the locale \<open>frame_queue\<close> below: a queue of frames in
  which an accepted write appends and a read takes the oldest frame. It is discharged for
  \<open>write1\<close> and \<open>read1\<close> by the abstraction \<open>ring_repr\<close>, which says where the unread
  frames lie in the bytes of the ring.
\<close>

subsection \<open>The descriptor and the buffer\<close>

record CycleBufferDescriptor =
  head :: nat
  tmp_head :: u64
  tail :: nat
  tmp_tail :: u64
  dsize :: nat

record CycleBuffer =
  desc :: CycleBufferDescriptor
  desc_offset :: nat
  buffer :: mem
  msize :: nat
  freeMem :: bool

text \<open>Two cache lines of 64 bytes and the \<^verbatim>\<open>size\<close> field.\<close>

definition sizeof_descriptor :: nat where
  "sizeof_descriptor = 136"

text \<open>\<^verbatim>\<open>size - sizeof(CycleBufferDescriptor)\<close> in \<^verbatim>\<open>size_t\<close>.\<close>

definition cb_payload_size :: "nat \<Rightarrow> nat" where
  "cb_payload_size sz = (sz + 2 ^ 64 - sizeof_descriptor) mod 2 ^ 64"

text \<open>
  \<^verbatim>\<open>set\<close> places the descriptor over the last bytes of the memory it is given, keeps what
  the descriptor holds there (\<open>d\<close>) and flushes the two asynchronous markers.
\<close>

definition cb_set :: "mem \<Rightarrow> CycleBufferDescriptor \<Rightarrow> nat \<Rightarrow> bool \<Rightarrow> CycleBuffer" where
  "cb_set m d sz fm =
     \<lparr>desc = d\<lparr>tmp_head := -1, tmp_tail := -1\<rparr>,
      desc_offset = cb_payload_size sz,
      buffer = m, msize = cb_payload_size sz, freeMem = fm\<rparr>"

definition cb_clear :: "CycleBuffer \<Rightarrow> CycleBuffer" where
  "cb_clear cb = cb\<lparr>desc := \<lparr>head = 0, tmp_head = -1, tail = 0, tmp_tail = -1, dsize = msize cb\<rparr>\<rparr>"

definition cb_length :: "CycleBuffer \<Rightarrow> nat" where
  "cb_length cb =
     (let d = desc cb
      in if tail d \<le> head d then head d - tail d else dsize d - tail d + head d)"

text \<open>\<^verbatim>\<open>static_cast<int>(tail)\<close>: the low 32 bits, read as two's complement.\<close>

definition int_cast :: "nat \<Rightarrow> int" where
  "int_cast n = sint (word_of_nat n :: u32)"

subsection \<open>write1 and read1\<close>

definition write1 :: "u8 list \<Rightarrow> CycleBuffer \<Rightarrow> bool \<times> CycleBuffer" where
  "write1 data cb =
     (let d = desc cb; len = length data; pos = head d + 2
      in if (tail d \<le> head d \<and> pos + len \<ge> dsize d \<and> int_cast (tail d) \<le> int len + 2) \<or>
            (tail d > head d \<and> pos + len \<ge> tail d)
         then (False, cb)
         else let (pos, m) =
                (if head d + 1 = dsize d
                 then (2, st16 0 (word_of_nat len) (buffer cb))
                 else (if pos + len \<ge> dsize d then 0 else pos,
                       st16 (pos - 2) (word_of_nat len) (buffer cb)))
              in (True, cb\<lparr>buffer := memcpy pos data m, desc := d\<lparr>head := pos + len\<rparr>\<rparr>))"

text \<open>\<open>read1\<close> returns the offset and the length of the frame, which stays in the ring.\<close>

definition read1 :: "CycleBuffer \<Rightarrow> (nat \<times> nat) option \<times> CycleBuffer" where
  "read1 cb =
     (let d = desc cb; pos = tail d + 2
      in if tail d \<le> head d \<and> pos > head d
         then (None, cb)
         else let (pos, len) =
                (if tail d + 1 = dsize d
                 then (2, unat (ld16 (buffer cb) 0))
                 else let len = unat (ld16 (buffer cb) (pos - 2))
                      in (if pos + len \<ge> dsize d then 0 else pos, len))
              in (Some (pos, len), cb\<lparr>desc := d\<lparr>tail := pos + len\<rparr>\<rparr>))"

text \<open>The frame the consumer sees when it copies it out at once.\<close>

definition read_frame :: "CycleBuffer \<Rightarrow> u8 list option \<times> CycleBuffer" where
  "read_frame cb =
     (case read1 cb of
        (None, cb') \<Rightarrow> (None, cb')
      | (Some (pos, len), cb') \<Rightarrow> (Some (slice (buffer cb') pos len), cb'))"

subsection \<open>The contract: a queue of frames\<close>

locale frame_queue =
  fixes enq :: "'x \<Rightarrow> 'q \<Rightarrow> bool \<times> 'q"
    and deq :: "'q \<Rightarrow> 'x option \<times> 'q"
    and repr :: "'q \<Rightarrow> 'x list \<Rightarrow> bool"
    and fits :: "'x \<Rightarrow> bool"
  assumes enq_accept: "repr q fs \<Longrightarrow> fits x \<Longrightarrow> enq x q = (True, q') \<Longrightarrow> repr q' (fs @ [x])"
    and enq_reject: "enq x q = (False, q') \<Longrightarrow> q' = q"
    and deq_empty: "repr q [] \<Longrightarrow> deq q = (None, q)"
    and deq_front: "repr q (f # fs) \<Longrightarrow> \<exists>q'. deq q = (Some f, q') \<and> repr q' fs"

datatype 'x queue_op = Push 'x | Pop

text \<open>Run pushes and pops; collect the accepted pushes and the frames popped.\<close>

fun run_queue :: "('x \<Rightarrow> 'q \<Rightarrow> bool \<times> 'q) \<Rightarrow> ('q \<Rightarrow> 'x option \<times> 'q) \<Rightarrow> 'x queue_op list \<Rightarrow> 'q
    \<Rightarrow> 'x list \<times> 'x list \<times> 'q" where
  "run_queue enq deq [] q = ([], [], q)"
| "run_queue enq deq (Push x # ops) q =
     (case enq x q of (ok, q') \<Rightarrow>
        case run_queue enq deq ops q' of (acc, outs, q'') \<Rightarrow>
          (if ok then x # acc else acc, outs, q''))"
| "run_queue enq deq (Pop # ops) q =
     (case deq q of (r, q') \<Rightarrow>
        case run_queue enq deq ops q' of (acc, outs, q'') \<Rightarrow>
          (acc, (case r of None \<Rightarrow> outs | Some x \<Rightarrow> x # outs), q''))"

context frame_queue begin

lemma run_queue_fifo:
  assumes "repr q fs" and "\<forall>x. Push x \<in> set ops \<longrightarrow> fits x"
    and "run_queue enq deq ops q = (acc, outs, q')"
  shows "\<exists>rest. fs @ acc = outs @ rest \<and> repr q' rest"
  using assms
proof (induction ops arbitrary: q fs acc outs)
  case Nil
  then show ?case by auto
next
  case (Cons op ops)
  show ?case
  proof (cases op)
    case (Push x)
    obtain ok q1 where e: "enq x q = (ok, q1)" by fastforce
    obtain acc1 outs1 q2 where r: "run_queue enq deq ops q1 = (acc1, outs1, q2)"
      by (metis prod_cases3)
    from Cons.prems(3) Push e r
    have res: "acc = (if ok then x # acc1 else acc1)" "outs = outs1" "q' = q2" by auto
    show ?thesis
    proof (cases ok)
      case True
      with e Cons.prems Push have "repr q1 (fs @ [x])" by (auto intro: enq_accept)
      with Cons.IH [of q1 "fs @ [x]"] r Cons.prems(2) Push True res show ?thesis by auto
    next
      case False
      with e have "q1 = q" by (auto dest: enq_reject)
      with Cons.IH [of q fs] r Cons.prems(1,2) False res show ?thesis by auto
    qed
  next
    case Pop
    obtain x q1 where d: "deq q = (x, q1)" by fastforce
    obtain acc1 outs1 q2 where r: "run_queue enq deq ops q1 = (acc1, outs1, q2)"
      by (metis prod_cases3)
    from Cons.prems(3) Pop d r
    have res: "acc = acc1" "outs = (case x of None \<Rightarrow> outs1 | Some y \<Rightarrow> y # outs1)" "q' = q2"
      by auto
    show ?thesis
    proof (cases fs)
      case Nil
      with Cons.prems(1) d have "q1 = q" "x = None" by (auto dest: deq_empty)
      with Cons.IH [of q fs] r Cons.prems(1,2) res show ?thesis by auto
    next
      case (Cons f fs')
      with Cons.prems(1) d have "x = Some f" "repr q1 fs'" by (auto dest: deq_front)
      with Cons.IH [of q1 fs'] r Cons.prems(2) res Cons show ?thesis by auto
    qed
  qed
qed

end

subsection \<open>Where the unread frames lie\<close>

text \<open>
  \<open>lin m t h fs\<close>: the bytes \<open>[t, h)\<close> are exactly the frames \<open>fs\<close>, each a two-byte
  length and its payload. \<open>wrapped m n w f e\<close>: the frame \<open>f\<close> starts at \<open>w\<close> and does not
  fit before the end \<open>n\<close>; its payload starts at 0, or at 2 when there was room for one
  byte of the length only, and ends at \<open>e\<close>.
\<close>

fun lin :: "mem \<Rightarrow> nat \<Rightarrow> nat \<Rightarrow> u8 list list \<Rightarrow> bool" where
  "lin m t h [] = (t = h)"
| "lin m t h (f # fs) =
     (unat (ld16 m t) = length f \<and> slice m (t + 2) (length f) = f \<and> lin m (t + 2 + length f) h fs)"

definition wrapped :: "mem \<Rightarrow> nat \<Rightarrow> nat \<Rightarrow> u8 list \<Rightarrow> nat \<Rightarrow> bool" where
  "wrapped m n w f e \<longleftrightarrow>
     (if w + 1 = n
      then unat (ld16 m 0) = length f \<and> slice m 2 (length f) = f \<and> e = 2 + length f
      else unat (ld16 m w) = length f \<and> w + 2 + length f \<ge> n \<and>
           slice m 0 (length f) = f \<and> e = length f)"

definition ring_repr :: "CycleBuffer \<Rightarrow> u8 list list \<Rightarrow> bool" where
  "ring_repr cb fs \<longleftrightarrow>
     (let m = buffer cb; n = dsize (desc cb); t = tail (desc cb); h = head (desc cb)
      in h < n \<and> t < n \<and>
         ((t \<le> h \<and> lin m t h fs) \<or>
          (h < t \<and> (\<exists>fs1 f fs2 w e. fs = fs1 @ f # fs2 \<and> lin m t w fs1 \<and> w < n \<and>
                      wrapped m n w f e \<and> lin m e h fs2))))"

lemma ring_reprE [consumes 1, case_names straight around]:
  assumes "ring_repr cb fs"
  obtains "tail (desc cb) \<le> head (desc cb)" "head (desc cb) < dsize (desc cb)"
      "lin (buffer cb) (tail (desc cb)) (head (desc cb)) fs"
    | fs1 f fs2 w e where "head (desc cb) < tail (desc cb)" "tail (desc cb) < dsize (desc cb)"
      "fs = fs1 @ f # fs2" "lin (buffer cb) (tail (desc cb)) w fs1" "w < dsize (desc cb)"
      "wrapped (buffer cb) (dsize (desc cb)) w f e" "lin (buffer cb) e (head (desc cb)) fs2"
  using assms unfolding ring_repr_def Let_def by blast

lemma lin_le: "lin m t h fs \<Longrightarrow> t \<le> h"
  by (induction fs arbitrary: t) fastforce+

lemma lin_length: "lin m t h fs \<Longrightarrow> h = t + sum_list (map (\<lambda>f. 2 + length f) fs)"
proof (induction fs arbitrary: t)
  case (Cons f fs)
  then have "lin m (t + 2 + length f) h fs" by simp
  from Cons.IH [OF this] show ?case by simp
qed simp

lemma lin_append: "lin m t h (fs @ gs) \<longleftrightarrow> (\<exists>k. lin m t k fs \<and> lin m k h gs)"
  by (induction fs arbitrary: t) auto

lemma lin_cong:
  assumes "lin m t h fs" and "\<And>i. t \<le> i \<Longrightarrow> i < h \<Longrightarrow> m' i = m i"
  shows "lin m' t h fs"
  using assms
proof (induction fs arbitrary: t)
  case Nil
  then show ?case by simp
next
  case (Cons f fs)
  from Cons.prems(1) have le: "t + 2 + length f \<le> h" by (auto dest: lin_le)
  have "ld16 m' t = ld16 m t"
    using le Cons.prems(2) by (intro ld16_cong) auto
  moreover have "slice m' (t + 2) (length f) = slice m (t + 2) (length f)"
    using le Cons.prems(2) by (intro slice_cong) auto
  moreover have "lin m' (t + 2 + length f) h fs"
    using Cons.prems by (intro Cons.IH) auto
  ultimately show ?case using Cons.prems(1) by simp
qed

lemma wrapped_cong:
  assumes "wrapped m n w f e" and "\<And>i. i < e \<Longrightarrow> m' i = m i"
    and "\<And>i. w \<le> i \<Longrightarrow> m' i = m i"
  shows "wrapped m' n w f e"
proof (cases "w + 1 = n")
  case True
  with assms(1) have e: "e = 2 + length f" by (simp add: wrapped_def)
  have "ld16 m' 0 = ld16 m 0" using e assms(2) by (intro ld16_cong) auto
  moreover have "slice m' 2 (length f) = slice m 2 (length f)"
    using e assms(2) by (intro slice_cong) auto
  ultimately show ?thesis using assms(1) True by (simp add: wrapped_def)
next
  case False
  with assms(1) have e: "e = length f" by (simp add: wrapped_def)
  have "ld16 m' w = ld16 m w" using assms(3) by (intro ld16_cong) auto
  moreover have "slice m' 0 (length f) = slice m 0 (length f)"
    using e assms(2) by (intro slice_cong) auto
  ultimately show ?thesis using assms(1) False by (simp add: wrapped_def)
qed

lemma int_cast_eq: "int_cast n = signed_take_bit 31 (int n)"
  by (simp add: int_cast_def signed_of_nat)

lemma int_cast_le: "int_cast n \<le> int n"
  by (simp add: int_cast_eq signed_take_bit_int_less_eq_self_iff)

lemma int_cast_id: "n < 2 ^ 31 \<Longrightarrow> int_cast n = int n"
  by (simp add: int_cast_eq signed_take_bit_int_eq_self)

subsection \<open>write1 and read1 keep the contract\<close>

definition fits16 :: "u8 list \<Rightarrow> bool" where
  "fits16 data \<longleftrightarrow> length data < 2 ^ 16"

lemma unat_length16: "fits16 data \<Longrightarrow> unat (word_of_nat (length data) :: u16) = length data"
  by (simp add: fits16_def unsigned_of_nat take_bit_nat_eq_self)

lemma write1_reject: "write1 x cb = (False, cb') \<Longrightarrow> cb' = cb"
  by (auto simp: write1_def Let_def split: if_splits prod.splits)

text \<open>An accepted frame that does not wrap.\<close>

lemma lin_snoc_write:
  assumes "lin m t h fs" and "fits16 f"
  shows "lin (memcpy (h + 2) f (st16 h (word_of_nat (length f)) m)) t (h + 2 + length f) (fs @ [f])"
    (is "lin ?m _ _ _")
proof -
  have "lin ?m t h fs"
    using assms(1) by (rule lin_cong) (auto simp: memcpy_def st16_def)
  moreover have "ld16 ?m h = word_of_nat (length f)"
    by (subst ld16_cong [of _ _ "st16 h (word_of_nat (length f)) m"])
       (simp_all add: memcpy_def mem_simps)
  ultimately show ?thesis
    using assms(2) by (auto simp: lin_append unat_length16 mem_simps)
qed

lemma wrapped_write:
  assumes "w < n" and "fits16 f" and "w + 2 + length f \<ge> n" and "length f \<le> w \<or> w + 1 = n"
  shows "w + 1 = n \<Longrightarrow> wrapped (memcpy 2 f (st16 0 (word_of_nat (length f)) m)) n w f (2 + length f)"
    and "w + 1 \<noteq> n \<Longrightarrow> wrapped (memcpy 0 f (st16 w (word_of_nat (length f)) m)) n w f (length f)"
proof -
  have "ld16 (memcpy 2 f (st16 0 (word_of_nat (length f)) m)) 0 = word_of_nat (length f)"
    by (subst ld16_cong [of _ _ "st16 0 (word_of_nat (length f)) m"])
       (simp_all add: memcpy_def mem_simps)
  then show "w + 1 = n \<Longrightarrow> wrapped (memcpy 2 f (st16 0 (word_of_nat (length f)) m)) n w f (2 + length f)"
    using assms by (simp add: wrapped_def unat_length16 mem_simps)
  assume "w + 1 \<noteq> n"
  with assms have "ld16 (memcpy 0 f (st16 w (word_of_nat (length f)) m)) w = word_of_nat (length f)"
    by (subst ld16_cong [of _ _ "st16 w (word_of_nat (length f)) m"])
       (auto simp: memcpy_def mem_simps)
  then show "wrapped (memcpy 0 f (st16 w (word_of_nat (length f)) m)) n w f (length f)"
    using assms \<open>w + 1 \<noteq> n\<close> by (simp add: wrapped_def unat_length16 mem_simps)
qed

text \<open>A write at \<open>h \<ge> t\<close>: straight on when the frame ends before \<open>n\<close>, else around.\<close>

lemma write1_after_tail:
  assumes "lin m t h fs" and "h < n" and "fits16 x"
    and w: "write1 x cb = (True, cb')"
    and cb: "buffer cb = m" "dsize (desc cb) = n" "tail (desc cb) = t" "head (desc cb) = h"
  shows "ring_repr cb' (fs @ [x])"
proof (cases "h + 2 + length x < n")
  case True
  have th: "t \<le> h" using assms(1) by (rule lin_le)
  have "cb' = cb\<lparr>buffer := memcpy (h + 2) x (st16 h (word_of_nat (length x)) m),
          desc := (desc cb)\<lparr>head := h + 2 + length x\<rparr>\<rparr>"
    using w True cb th by (auto simp: write1_def Let_def split: if_splits)
  with lin_snoc_write [OF assms(1,3)] True cb th show ?thesis
    by (simp add: ring_repr_def)
next
  case False
  have th: "t \<le> h" using assms(1) by (rule lin_le)
  have "\<not> int_cast t \<le> int (length x) + 2"
    using w False cb th by (auto simp: write1_def Let_def split: if_splits)
  then have t: "length x + 2 < t" using int_cast_le [of t] by linarith
  show ?thesis
  proof (cases "h + 1 = n")
    case at_end: True
    let ?m = "memcpy 2 x (st16 0 (word_of_nat (length x)) m)"
    have cb': "cb' = cb\<lparr>buffer := ?m, desc := (desc cb)\<lparr>head := 2 + length x\<rparr>\<rparr>"
      using w False cb th at_end by (auto simp: write1_def Let_def split: if_splits)
    have "lin ?m t h fs"
      using assms(1) by (rule lin_cong) (use t in \<open>auto simp: memcpy_def st16_def\<close>)
    moreover have "wrapped ?m n h x (2 + length x)"
      using wrapped_write(1) assms(2,3) False at_end th t by simp
    moreover have "lin ?m (2 + length x) (2 + length x) []" by simp
    ultimately have "\<exists>fs1 f fs2 w e. fs @ [x] = fs1 @ f # fs2 \<and> lin ?m t w fs1 \<and> w < n \<and>
        wrapped ?m n w f e \<and> lin ?m e (2 + length x) fs2"
      using assms(2) by blast
    with assms(2) t th cb cb' show ?thesis by (simp add: ring_repr_def)
  next
    case not_end: False
    let ?m = "memcpy 0 x (st16 h (word_of_nat (length x)) m)"
    have cb': "cb' = cb\<lparr>buffer := ?m, desc := (desc cb)\<lparr>head := length x\<rparr>\<rparr>"
      using w False cb th not_end by (auto simp: write1_def Let_def split: if_splits)
    have "lin ?m t h fs"
      using assms(1) by (rule lin_cong) (use t in \<open>auto simp: memcpy_def st16_def\<close>)
    moreover have "wrapped ?m n h x (length x)"
      using wrapped_write(2) assms(2,3) False not_end th t by simp
    moreover have "lin ?m (length x) (length x) []" by simp
    ultimately have "\<exists>fs1 f fs2 w e. fs @ [x] = fs1 @ f # fs2 \<and> lin ?m t w fs1 \<and> w < n \<and>
        wrapped ?m n w f e \<and> lin ?m e (length x) fs2"
      using assms(2) by blast
    with assms(2) t th cb cb' show ?thesis by (simp add: ring_repr_def)
  qed
qed

text \<open>A write at \<open>h < t\<close> always fits below \<open>t\<close>.\<close>

lemma write1_before_tail:
  assumes "h < t" and "t < n" and "fits16 x"
    and fs: "fs = fs1 @ f # fs2" "lin m t w fs1" "w < n" "wrapped m n w f e" "lin m e h fs2"
    and w: "write1 x cb = (True, cb')"
    and cb: "buffer cb = m" "dsize (desc cb) = n" "tail (desc cb) = t" "head (desc cb) = h"
  shows "ring_repr cb' (fs @ [x])"
proof -
  let ?m = "memcpy (h + 2) x (st16 h (word_of_nat (length x)) m)"
  have room: "h + 2 + length x < t"
    using w assms(1) cb by (auto simp: write1_def Let_def split: if_splits)
  have cb': "cb' = cb\<lparr>buffer := ?m, desc := (desc cb)\<lparr>head := h + 2 + length x\<rparr>\<rparr>"
    using w assms(1,2) cb room by (auto simp: write1_def Let_def split: if_splits)
  have tw: "t \<le> w" using fs(2) by (rule lin_le)
  have eh: "e \<le> h" using fs(5) by (rule lin_le)
  have "lin ?m t w fs1"
    using fs(2) by (rule lin_cong) (use room in \<open>auto simp: memcpy_def st16_def\<close>)
  moreover have "wrapped ?m n w f e"
    using fs(4) by (rule wrapped_cong) (use room tw eh in \<open>auto simp: memcpy_def st16_def\<close>)
  moreover have "lin ?m e (h + 2 + length x) (fs2 @ [x])"
    using fs(5) assms(3) by (rule lin_snoc_write)
  moreover have "fs @ [x] = fs1 @ f # (fs2 @ [x])" using fs(1) by simp
  ultimately have "\<exists>fs1 f fs2 w e. fs @ [x] = fs1 @ f # fs2 \<and> lin ?m t w fs1 \<and> w < n \<and>
      wrapped ?m n w f e \<and> lin ?m e (h + 2 + length x) fs2"
    using fs(3) by blast
  with assms(2) room cb cb' show ?thesis by (simp add: ring_repr_def)
qed

lemma write1_accept:
  assumes "ring_repr cb fs" and "fits16 x" and "write1 x cb = (True, cb')"
  shows "ring_repr cb' (fs @ [x])"
  using assms(1)
proof (cases rule: ring_reprE)
  case straight
  then show ?thesis by (intro write1_after_tail [OF _ _ assms(2,3)]) auto
next
  case (around fs1 f fs2 w e)
  show ?thesis
    by (rule write1_before_tail [OF around(1,2) assms(2) around(3-7) assms(3)]) simp_all
qed

lemma read_frame_empty:
  assumes "ring_repr cb []"
  shows "read_frame cb = (None, cb)"
  using assms by (auto simp: ring_repr_def read_frame_def read1_def Let_def)

lemma read_frame_linear:
  assumes "lin m t h (f # fs)" and "h < n"
    and cb: "buffer cb = m" "dsize (desc cb) = n" "tail (desc cb) = t" "\<not> (t \<le> head (desc cb) \<and> head (desc cb) < t + 2)"
  shows "read_frame cb = (Some f, cb\<lparr>desc := (desc cb)\<lparr>tail := t + 2 + length f\<rparr>\<rparr>)"
proof -
  from assms(1) have le: "t + 2 + length f \<le> h" by (auto dest: lin_le)
  with assms show ?thesis by (auto simp: read_frame_def read1_def Let_def)
qed

lemma read_frame_wrapped:
  assumes "wrapped m n t f e" and "head (desc cb) < t"
    and cb: "buffer cb = m" "dsize (desc cb) = n" "tail (desc cb) = t"
  shows "read_frame cb = (Some f, cb\<lparr>desc := (desc cb)\<lparr>tail := e\<rparr>\<rparr>)"
  using assms by (auto simp: read_frame_def read1_def Let_def wrapped_def split: if_splits)

lemma read_frame_front:
  assumes "ring_repr cb (f # fs)"
  shows "\<exists>cb'. read_frame cb = (Some f, cb') \<and> ring_repr cb' fs"
proof -
  define m n t h where d: "m = buffer cb" "n = dsize (desc cb)" "t = tail (desc cb)" "h = head (desc cb)"
  from assms show ?thesis
  proof (cases rule: ring_reprE)
    case straight
    then have "t + 2 + length f \<le> h" by (auto dest: lin_le simp: d)
    moreover from this straight
    have "read_frame cb = (Some f, cb\<lparr>desc := (desc cb)\<lparr>tail := t + 2 + length f\<rparr>\<rparr>)"
      by (intro read_frame_linear [where m = m and n = n and h = h]) (auto simp: d)
    ultimately show ?thesis using straight by (auto simp: ring_repr_def d)
  next
    case (around fs1 g fs2 w e)
    note ar = around [folded d]
    show ?thesis
    proof (cases fs1)
      case Nil
      with ar have "w = t" "g = f" "fs2 = fs" by auto
      with ar have "read_frame cb = (Some f, cb\<lparr>desc := (desc cb)\<lparr>tail := e\<rparr>\<rparr>)"
        by (intro read_frame_wrapped [where m = m and n = n]) (auto simp: d)
      moreover have "e \<le> h" using ar(7) by (rule lin_le)
      ultimately show ?thesis using ar \<open>fs2 = fs\<close> by (auto simp: ring_repr_def d)
    next
      case (Cons g' fs1')
      with ar have g': "fs = fs1' @ g # fs2" "lin m t w (f # fs1')" by auto
      from g'(2) have le: "t + 2 + length f \<le> w" by (auto dest: lin_le)
      from g'(2) ar have "read_frame cb = (Some f, cb\<lparr>desc := (desc cb)\<lparr>tail := t + 2 + length f\<rparr>\<rparr>)"
        by (intro read_frame_linear [where m = m and n = n and h = w]) (auto simp: d)
      moreover have "lin m (t + 2 + length f) w fs1'" using g'(2) by simp
      with g'(1) ar have "\<exists>fs1 f' fs2 w e. fs = fs1 @ f' # fs2 \<and> lin m (t + 2 + length f) w fs1 \<and>
          w < n \<and> wrapped m n w f' e \<and> lin m e h fs2"
        by blast
      ultimately show ?thesis using ar le by (auto simp: ring_repr_def d)
    qed
  qed
qed

interpretation ring: frame_queue write1 read_frame ring_repr fits16
  by unfold_locales (auto intro: write1_accept write1_reject read_frame_empty read_frame_front)

subsection \<open>SharedCircularBuffer\<close>

text \<open>
  What the segment hands to the
  constructor, which \<open>Shared_Segment\<close> takes from \<open>SharedIO\<close>, is its argument \<open>seg\<close>: \<open>None\<close> for a null pointer from \<^verbatim>\<open>construct\<close> or
  \<^verbatim>\<open>find\<close>, else the bytes at \<^verbatim>\<open>_mem\<close> and what they hold where the descriptor is laid.
  \<open>scb_array_len\<close> is the number of bytes the creating side asks the segment for.
\<close>

record SharedCircularBuffer =
  mem_name :: string
  mem_set :: bool
  cb :: CycleBuffer

definition scb_array_len :: "nat \<Rightarrow> nat" where
  "scb_array_len len = (len + 2 ^ 64 - 1024) mod 2 ^ 64"

definition scb_ctor :: "string \<Rightarrow> nat \<Rightarrow> (mem \<times> CycleBufferDescriptor) option
    \<Rightarrow> SharedCircularBuffer res" where
  "scb_ctor name len seg =
     (case seg of
        None \<Rightarrow> Inl Thrown
      | Some (m, d) \<Rightarrow>
          Inr \<lparr>mem_name = name, mem_set = True, cb = cb_clear (cb_set m d len False)\<rparr>)"

text \<open>\<open>data\<close> holds the \<^verbatim>\<open>length\<close> bytes passed; \<^verbatim>\<open>write1\<close> takes the length as \<^verbatim>\<open>uint16_t\<close>.\<close>

definition scb_push :: "u8 list \<Rightarrow> SharedCircularBuffer \<Rightarrow> (bool \<times> SharedCircularBuffer) res" where
  "scb_push data s =
     (if \<not> mem_set s then Inl Thrown
      else case write1 (take (length data mod 2 ^ 16) data) (cb s) of
             (ok, c) \<Rightarrow> Inr (ok, s\<lparr>cb := c\<rparr>))"

definition scb_pop :: "SharedCircularBuffer
    \<Rightarrow> ((nat \<times> nat) option \<times> SharedCircularBuffer) res" where
  "scb_pop s =
     (if \<not> mem_set s then Inl Thrown
      else case read1 (cb s) of (r, c) \<Rightarrow> Inr (r, s\<lparr>cb := c\<rparr>))"

lemma ring_repr_clear: "0 < msize c \<Longrightarrow> ring_repr (cb_clear c) []"
  by (simp add: ring_repr_def cb_clear_def)

lemma write1_frame:
  assumes "write1 x c = (ok, c')" and "head (desc c) < dsize (desc c)" and "tail (desc c) < dsize (desc c)"
  shows "\<forall>i \<ge> dsize (desc c). buffer c' i = buffer c i"
    and "head (desc c') < dsize (desc c') \<and> dsize (desc c') = dsize (desc c) \<and> tail (desc c') = tail (desc c)"
  using assms int_cast_le [of "tail (desc c)"]
  by (auto simp: write1_def Let_def memcpy_def st16_def split: if_splits)

lemma empty_ring_accepts_aux:
  assumes "ring_repr c []" and "2 * (length x + 2) < dsize (desc c)" and "dsize (desc c) \<le> 2 ^ 31"
  shows "fst (write1 x c)"
proof -
  have eq: "head (desc c) = tail (desc c)" "tail (desc c) < dsize (desc c)"
    using assms(1) by (auto simp: ring_repr_def Let_def)
  then have "int_cast (tail (desc c)) = int (tail (desc c))"
    using assms(3) by (intro int_cast_id) simp
  with eq assms(2) show ?thesis by (auto simp: write1_def Let_def)
qed

definition demo_ring :: CycleBuffer where
  "demo_ring = \<lparr>desc = \<lparr>head = 0, tmp_head = 0, tail = 0, tmp_tail = 0, dsize = 0\<rparr>,
     desc_offset = 0, buffer = (\<lambda>_. 0), msize = 12, freeMem = False\<rparr>"

subsection \<open>Properties of the ring\<close>

text \<open>C1. The ring is a first-in first-out queue: over any sequence of writes and reads that
  starts on a cleared ring, the frames read are, byte for byte and in order, a prefix of the
  frames whose write was accepted, and what is left is exactly what the ring still holds.\<close>

theorem ring_fifo:
  assumes "0 < msize c" and "\<forall>x. Push x \<in> set ops \<longrightarrow> length x < 2 ^ 16"
  shows "case run_queue write1 read_frame ops (cb_clear c) of
           (acc, outs, c') \<Rightarrow> \<exists>rest. acc = outs @ rest \<and> ring_repr c' rest"
proof -
  obtain acc outs c' where r: "run_queue write1 read_frame ops (cb_clear c) = (acc, outs, c')"
    by (metis prod_cases3)
  with ring.run_queue_fifo [OF ring_repr_clear [OF assms(1)] _ r] assms(2)
  show ?thesis by (simp add: fits16_def)
qed

theorem ring_fifo_witness:
  "(case run_queue write1 read_frame [Push [7, 8], Pop, Push [9]] (cb_clear demo_ring) of
      (acc, outs, c') \<Rightarrow> \<exists>rest. acc = outs @ rest \<and> ring_repr c' rest)
   \<and> fst (snd (run_queue write1 read_frame [Push [7, 8], Pop, Push [9]] (cb_clear demo_ring))) = [[7, 8]]"
  using ring_fifo [of demo_ring "[Push [7, 8], Pop, Push [9]]"]
  by (simp add: demo_ring_def cb_clear_def write1_def read_frame_def read1_def Let_def int_cast_eq
      ld16_def memcpy_def st16_def slice_def)

text \<open>Writes stay inside the ring: whatever the data, \<open>write1\<close> changes no byte at or beyond
  the payload size, and the head it leaves is again a position of the ring.\<close>

theorem write1_in_bounds:
  assumes "head (desc c) < dsize (desc c)" and "tail (desc c) < dsize (desc c)"
  shows "(\<forall>i \<ge> dsize (desc c). buffer (snd (write1 x c)) i = buffer c i) \<and>
         head (desc (snd (write1 x c))) < dsize (desc c)"
  using write1_frame [OF _ assms, of x "fst (write1 x c)" "snd (write1 x c)"] by simp

theorem write1_in_bounds_witness:
  "buffer (snd (write1 [1, 2, 3] (cb_clear demo_ring))) 12 = 0 \<and>
   head (desc (snd (write1 [1, 2, 3] (cb_clear demo_ring)))) < 12"
  using write1_in_bounds [of "cb_clear demo_ring" "[1, 2, 3]"]
  by (simp add: demo_ring_def cb_clear_def)

text \<open>An empty ring accepts every frame that needs less than half of it, wherever head and
  tail have come to rest; the payload may not exceed what \<^verbatim>\<open>int\<close> can hold.\<close>

theorem empty_ring_accepts:
  assumes "ring_repr c []" and "2 * (length x + 2) < dsize (desc c)" and "dsize (desc c) \<le> 2 ^ 31"
  shows "fst (write1 x c)"
  using assms by (rule empty_ring_accepts_aux)

theorem empty_ring_accepts_witness:
  "fst (write1 [1, 2] (cb_clear demo_ring))"
  using empty_ring_accepts [of "cb_clear demo_ring" "[1, 2]"]
  by (simp add: demo_ring_def ring_repr_def cb_clear_def)

text \<open>A read gives its slot up at once: there is a run in which the bytes that \<open>read1\<close>
  pointed the consumer to are overwritten by the next accepted write, before a consumer
  that did not copy them first has seen them.\<close>

theorem read1_slot_reused:
  "let (_, c1) = write1 [1, 1, 1, 1] (cb_clear demo_ring);
       (r1, c2) = read1 c1;
       (_, c3) = write1 [2, 2] c2;
       (r2, c4) = read1 c3;
       (ok, c5) = write1 [3, 3, 3, 3] c4
   in r1 = Some (2, 4) \<and> slice (buffer c2) 2 4 = [1, 1, 1, 1] \<and> ok \<and>
      slice (buffer c5) 2 4 \<noteq> [1, 1, 1, 1]"
  by (simp add: demo_ring_def cb_clear_def write1_def read1_def Let_def int_cast_eq
      ld16_def memcpy_def st16_def slice_def upt_rec)



text \<open>\<open>push\<close> keeps only the low 16 bits of the length: a push of 65536 bytes on an empty
  ring reports success and delivers an empty frame.\<close>

theorem scb_push_truncates:
  assumes "mem_set s" and "ring_repr (cb s) []" and "dsize (desc (cb s)) \<le> 2 ^ 31"
    and "5 \<le> dsize (desc (cb s))" and "length data = 65536"
  shows "\<exists>s'. scb_push data s = Inr (True, s') \<and> ring_repr (cb s') [[]]"
proof -
  obtain ok c where w: "write1 [] (cb s) = (ok, c)" by fastforce
  have ok using empty_ring_accepts_aux [of "cb s" "[]"] assms(2-4) w by simp
  moreover have "ring_repr c [[]]"
    using ring.enq_accept [OF assms(2), of "[]" c] w calculation by (simp add: fits16_def)
  ultimately show ?thesis using assms(1,5) w by (simp add: scb_push_def)
qed

theorem scb_push_truncates_witness:
  "\<exists>s'. scb_push (replicate 65536 1) \<lparr>mem_name = ''m'', mem_set = True, cb = cb_clear demo_ring\<rparr>
     = Inr (True, s') \<and> ring_repr (cb s') [[]]"
  by (rule scb_push_truncates)
     (simp_all add: demo_ring_def ring_repr_def cb_clear_def)

text \<open>Opening a ring empties it: the constructor clears the descriptor on the attaching
  side too, so frames that the other process had written and nobody has read are lost.\<close>

theorem scb_attach_discards:
  assumes "ring_repr \<lparr>desc = d, desc_offset = k, buffer = m, msize = dsize d, freeMem = False\<rparr> fs"
    and "136 < len" and "len < 2 ^ 64" and "scb_ctor name len (Some (m, d)) = Inr s"
  shows "ring_repr (cb s) [] \<and> fst (read_frame (cb s)) = None"
proof -
  have "0 < msize (cb_set m d len False)"
    using assms(2,3) by (simp add: cb_set_def cb_payload_size_def sizeof_descriptor_def mod_if)
  moreover have "cb s = cb_clear (cb_set m d len False)"
    using assms(4) by (auto simp: scb_ctor_def)
  ultimately have "ring_repr (cb s) []" by (simp add: ring_repr_clear)
  then show ?thesis by (simp add: ring.deq_empty)
qed

theorem scb_attach_discards_witness:
  "let c = snd (write1 [5, 6] (cb_clear demo_ring))
   in ring_repr c [[5, 6]] \<and>
      fst (read_frame (cb (projr (scb_ctor ''m'' 148 (Some (buffer c, desc c)))))) = None"
proof -
  let ?c = "snd (write1 [5, 6] (cb_clear demo_ring))"
  have "write1 [5, 6] (cb_clear demo_ring) = (True, ?c)"
    by (simp add: demo_ring_def cb_clear_def write1_def)
  then have r: "ring_repr ?c [[5, 6]]"
    using ring.enq_accept [of "cb_clear demo_ring" "[]" "[5, 6]" ?c] ring_repr_clear [of demo_ring]
    by (simp add: demo_ring_def fits16_def)
  then have "ring_repr \<lparr>desc = desc ?c, desc_offset = 0, buffer = buffer ?c,
      msize = dsize (desc ?c), freeMem = False\<rparr> [[5, 6]]"
    by (simp add: ring_repr_def)
  from scb_attach_discards [OF this, of 148 "''m''"] r show ?thesis
    by (simp add: scb_ctor_def Let_def)
qed

end
