(* ===== verification/Ring_Threads.thy ===== *)
theory Ring_Threads
  imports Cycle_Buffer "HOL-Library.Sublist"
begin

text \<open>
  The ring of \<^verbatim>\<open>lib/libshared/CycleBuffer.h\<close> between threads: \<open>write1\<close> and \<open>read1\<close> cut at their accesses to the shared
  descriptor and buffer. The fields of the descriptor are \<^verbatim>\<open>volatile\<close>, so every mention of one is a read of its own:
  the guard of \<open>write1\<close> reads \<^verbatim>\<open>tail\<close> up to four times and that of \<open>read1\<close> reads \<^verbatim>\<open>head\<close> twice, while the
  other side runs. Only the producer writes \<^verbatim>\<open>head\<close> and only a consumer \<^verbatim>\<open>tail\<close>. Steps happen one after the other, in
  the order of the code; a copy of the payload is one step.

  Consumers are numbered: the library is used with one, \<^verbatim>\<open>app/example.cpp\<close> starts three on one ring.
\<close>

subsection \<open>Steps\<close>

text \<open>The producer: idle, before one of the reads of \<^verbatim>\<open>tail\<close> in the guard, before the store of the length, before the
  copy, before the store of \<^verbatim>\<open>head\<close>.\<close>

datatype producer = PIdle | Tail1 "u8 list" | Tail2 "u8 list" | Tail3 "u8 list" | Tail4 "u8 list"
  | Store "u8 list" | Copy "u8 list" | Publish "u8 list"

text \<open>A consumer: idle, before one of the reads of \<^verbatim>\<open>head\<close>, before the read of the length, before the store of \<^verbatim>\<open>tail\<close>.\<close>

datatype consumer = CIdle | Head1 | Head2 | Take | Release nat nat

record threads =
  ring :: CycleBuffer
  prod :: producer
  cons :: "nat \<Rightarrow> consumer"
  todo :: "u8 list list"
  accepted :: "u8 list list"
  delivered :: "u8 list list"
  raced :: bool

text \<open>Where \<open>write1\<close> puts the length and the payload; the end of the payload is the new head.\<close>

definition length_at :: "CycleBuffer \<Rightarrow> nat" where
  "length_at c = (if head (desc c) + 1 = dsize (desc c) then 0 else head (desc c))"

definition payload_at :: "u8 list \<Rightarrow> CycleBuffer \<Rightarrow> nat" where
  "payload_at x c =
     (if head (desc c) + 1 = dsize (desc c) then 2
      else if head (desc c) + 2 + length x \<ge> dsize (desc c) then 0 else head (desc c) + 2)"

definition store_length :: "u8 list \<Rightarrow> CycleBuffer \<Rightarrow> CycleBuffer" where
  "store_length x c = c\<lparr>buffer := st16 (length_at c) (word_of_nat (length x)) (buffer c)\<rparr>"

definition copy_payload :: "u8 list \<Rightarrow> CycleBuffer \<Rightarrow> CycleBuffer" where
  "copy_payload x c = c\<lparr>buffer := memcpy (payload_at x c) x (buffer c)\<rparr>"

definition publish :: "u8 list \<Rightarrow> CycleBuffer \<Rightarrow> CycleBuffer" where
  "publish x c = c\<lparr>desc := (desc c)\<lparr>head := payload_at x c + length x\<rparr>\<rparr>"

text \<open>The guard of \<open>write1\<close>, evaluated at once.\<close>

definition no_room :: "u8 list \<Rightarrow> CycleBuffer \<Rightarrow> bool" where
  "no_room x c \<longleftrightarrow>
     (let d = desc c; stop = head d + 2 + length x
      in (tail d \<le> head d \<and> stop \<ge> dsize d \<and> int_cast (tail d) \<le> int (length x) + 2) \<or> (tail d > head d \<and> stop \<ge> tail d))"

text \<open>\<open>raced\<close> records that the producer went on to store although the guard holds by now.\<close>

definition producer_step :: "threads \<Rightarrow> threads" where
  "producer_step s =
     (let c = ring s; d = desc c in
      case prod s of
        PIdle \<Rightarrow> (case todo s of [] \<Rightarrow> s | x # xs \<Rightarrow> s\<lparr>prod := Tail1 x, todo := xs\<rparr>)
      | Tail1 x \<Rightarrow> s\<lparr>prod := if tail d \<le> head d \<and> head d + 2 + length x \<ge> dsize d then Tail2 x else Tail3 x\<rparr>
      | Tail2 x \<Rightarrow> s\<lparr>prod := if int_cast (tail d) \<le> int (length x) + 2 then PIdle else Tail3 x\<rparr>
      | Tail3 x \<Rightarrow> if tail d > head d then s\<lparr>prod := Tail4 x\<rparr> else s\<lparr>prod := Store x, raced := (raced s \<or> no_room x c)\<rparr>
      | Tail4 x \<Rightarrow> s\<lparr>prod := if head d + 2 + length x \<ge> tail d then PIdle else Store x\<rparr>
      | Store x \<Rightarrow> s\<lparr>ring := store_length x c, prod := Copy x\<rparr>
      | Copy x \<Rightarrow> s\<lparr>ring := copy_payload x c, prod := Publish x\<rparr>
      | Publish x \<Rightarrow> s\<lparr>ring := publish x c, prod := PIdle, accepted := accepted s @ [x]\<rparr>)"

text \<open>Where \<open>read1\<close> finds the frame, and the store of \<^verbatim>\<open>tail\<close>.\<close>

definition frame_at :: "CycleBuffer \<Rightarrow> nat \<times> nat" where
  "frame_at c =
     (let d = desc c
      in if tail d + 1 = dsize d then (2, unat (ld16 (buffer c) 0))
         else let len = unat (ld16 (buffer c) (tail d)) in (if tail d + 2 + len \<ge> dsize d then 0 else tail d + 2, len))"

definition release :: "nat \<Rightarrow> CycleBuffer \<Rightarrow> CycleBuffer" where
  "release t c = c\<lparr>desc := (desc c)\<lparr>tail := t\<rparr>\<rparr>"

text \<open>The frame that is delivered is what its place holds when \<open>read1\<close> returns it. The source computes \<open>pos\<close> from
  \<^verbatim>\<open>tail\<close> once; here every step reads \<^verbatim>\<open>tail\<close> for itself, which is the same for one consumer, the only one to write it, and for
  consumers that are all between the same two stores of \<^verbatim>\<open>tail\<close>.\<close>

definition consumer_step :: "nat \<Rightarrow> threads \<Rightarrow> threads" where
  "consumer_step i s =
     (let c = ring s; d = desc c; go = (\<lambda>p. s\<lparr>cons := (cons s)(i := p)\<rparr>) in
      case cons s i of
        CIdle \<Rightarrow> go Head1
      | Head1 \<Rightarrow> go (if tail d \<le> head d then Head2 else Take)
      | Head2 \<Rightarrow> go (if tail d + 2 > head d then CIdle else Take)
      | Take \<Rightarrow> go (case frame_at c of (pos, len) \<Rightarrow> Release pos len)
      | Release pos len \<Rightarrow> (go CIdle)\<lparr>ring := release (pos + len) c, delivered := delivered s @ [slice (buffer c) pos len]\<rparr>)"

datatype actor = Producer | Consumer nat

fun step :: "actor \<Rightarrow> threads \<Rightarrow> threads" where
  "step Producer s = producer_step s"
| "step (Consumer i) s = consumer_step i s"

definition start :: "CycleBuffer \<Rightarrow> u8 list list \<Rightarrow> threads" where
  "start c xs = \<lparr>ring = cb_clear c, prod = PIdle, cons = (\<lambda>_. CIdle), todo = xs, accepted = [], delivered = [], raced = False\<rparr>"

subsection \<open>Without interruption\<close>

text \<open>The steps of one side in a row are \<open>write1\<close> and \<open>read1\<close>.\<close>

definition write_body :: "u8 list \<Rightarrow> CycleBuffer \<Rightarrow> CycleBuffer" where
  "write_body x c = publish x (copy_payload x (store_length x c))"

lemma write1_body: "write1 x c = (if no_room x c then (False, c) else (True, write_body x c))"
  by (simp add: write1_def no_room_def write_body_def publish_def copy_payload_def store_length_def payload_at_def length_at_def Let_def)

lemma read1_at: "read1 c =
  (if tail (desc c) \<le> head (desc c) \<and> tail (desc c) + 2 > head (desc c) then (None, c)
   else (Some (frame_at c), release (fst (frame_at c) + snd (frame_at c)) c))"
  by (simp add: read1_def frame_at_def release_def Let_def)


subsection \<open>Room\<close>

text \<open>What a write needs: its bytes lie behind the unread frames, or around the end below them.\<close>

definition free :: "u8 list \<Rightarrow> CycleBuffer \<Rightarrow> bool" where
  "free x c \<longleftrightarrow>
     (let d = desc c; stop = head d + 2 + length x
      in (tail d \<le> head d \<and> (stop < dsize d \<or> length x + 2 < tail d)) \<or> (head d < tail d \<and> stop < tail d))"

lemma no_room_free: "tail (desc c) < dsize (desc c) \<Longrightarrow> dsize (desc c) \<le> 2 ^ 31 \<Longrightarrow> no_room x c \<longleftrightarrow> \<not> free x c"
  using int_cast_id [of "tail (desc c)"] by (auto simp: no_room_def free_def Let_def)

definition written :: "u8 list \<Rightarrow> CycleBuffer \<Rightarrow> nat set" where
  "written x c = {length_at c ..< length_at c + 2} \<union> {payload_at x c ..< payload_at x c + length x}"

lemma written_free:
  assumes "free x c" and "i \<in> written x c" and "head (desc c) < dsize (desc c)" and "tail (desc c) < dsize (desc c)"
  shows "if tail (desc c) \<le> head (desc c) then head (desc c) \<le> i \<or> i < tail (desc c)
    else head (desc c) \<le> i \<and> i < tail (desc c)"
  using assms by (auto simp: free_def written_def length_at_def payload_at_def Let_def split: if_splits)

lemma ring_repr_bounds: "ring_repr c fs \<Longrightarrow> head (desc c) < dsize (desc c) \<and> tail (desc c) < dsize (desc c)"
  by (simp add: ring_repr_def Let_def)

text \<open>Bytes that a write may touch are not those of unread frames.\<close>

lemma free_bytes:
  assumes "ring_repr c fs" and "free x c" and "\<And>i. i \<notin> written x c \<Longrightarrow> m i = buffer c i"
  shows "ring_repr (c\<lparr>buffer := m\<rparr>) fs"
proof -
  note b = ring_repr_bounds [OF assms(1)]
  have other: "m i = buffer c i"
    if "\<not> (if tail (desc c) \<le> head (desc c) then head (desc c) \<le> i \<or> i < tail (desc c) else head (desc c) \<le> i \<and> i < tail (desc c))" for i
    using that written_free [OF assms(2)] b assms(3) by blast
  from assms(1) show ?thesis
  proof (cases rule: ring_reprE)
    case straight
    have "lin m (tail (desc c)) (head (desc c)) fs" using straight(3) by (rule lin_cong) (use straight(1) in \<open>auto intro: other\<close>)
    with straight b show ?thesis by (simp add: ring_repr_def)
  next
    case (around fs1 f fs2 w e)
    have tw: "tail (desc c) \<le> w" using around(4) by (rule lin_le)
    have eh: "e \<le> head (desc c)" using around(7) by (rule lin_le)
    have "lin m (tail (desc c)) w fs1" using around(4) by (rule lin_cong) (use around(1) in \<open>auto intro: other\<close>)
    moreover have "wrapped m (dsize (desc c)) w f e"
      using around(6) by (rule wrapped_cong) (use around(1) tw eh in \<open>auto intro: other\<close>)
    moreover have "lin m e (head (desc c)) fs2" using around(7) by (rule lin_cong) (use around(1) in \<open>auto intro: other\<close>)
    ultimately have "\<exists>fs1 f fs2 w e. fs = fs1 @ f # fs2 \<and> lin m (tail (desc c)) w fs1 \<and> w < dsize (desc c) \<and>
        wrapped m (dsize (desc c)) w f e \<and> lin m e (head (desc c)) fs2"
      using around(3,5) by blast
    with around(1,2) b show ?thesis by (simp add: ring_repr_def)
  qed
qed

subsection \<open>The front frame\<close>

definition front_at :: "nat \<Rightarrow> nat \<Rightarrow> nat \<Rightarrow> nat \<times> nat" where
  "front_at t n len = (if t + 1 = n then (2, len) else (if t + 2 + len \<ge> n then 0 else t + 2, len))"

text \<open>The place of the front frame depends on its length only, and taking it moves the tail forward.\<close>

lemma front_frame:
  assumes "ring_repr c (f # fs)"
  shows "frame_at c = front_at (tail (desc c)) (dsize (desc c)) (length f)"
    and "slice (buffer c) (fst (frame_at c)) (snd (frame_at c)) = f"
    and "ring_repr (release (fst (frame_at c) + snd (frame_at c)) c) fs"
    and "\<not> (tail (desc c) \<le> head (desc c) \<and> tail (desc c) + 2 > head (desc c))"
proof -
  obtain c' where c': "read_frame c = (Some f, c')" "ring_repr c' fs" using read_frame_front [OF assms] by blast
  then have ne: "\<not> (tail (desc c) \<le> head (desc c) \<and> tail (desc c) + 2 > head (desc c))"
    by (auto simp: read_frame_def read1_at split: if_splits)
  then show "\<not> (tail (desc c) \<le> head (desc c) \<and> tail (desc c) + 2 > head (desc c))" .
  have *: "slice (buffer c) (fst (frame_at c)) (snd (frame_at c)) = f" "c' = release (fst (frame_at c) + snd (frame_at c)) c"
    using c'(1) ne by (auto simp: read_frame_def read1_at release_def split: prod.splits)
  then show "slice (buffer c) (fst (frame_at c)) (snd (frame_at c)) = f"
    "ring_repr (release (fst (frame_at c) + snd (frame_at c)) c) fs" using c'(2) by simp_all
  have "snd (frame_at c) = length f" using arg_cong [OF *(1), of length] by simp
  then show "frame_at c = front_at (tail (desc c)) (dsize (desc c)) (length f)"
    by (auto simp: frame_at_def front_at_def Let_def split: if_splits)
qed

lemma release_frees:
  assumes "ring_repr c (f # fs)" and "free x c"
  shows "free x (release (fst (frame_at c) + snd (frame_at c)) c)"
proof -
  let ?d = "desc c"
  have fr: "frame_at c = front_at (tail ?d) (dsize ?d) (length f)" by (rule front_frame(1) [OF assms(1)])
  from assms(1) show ?thesis
  proof (cases rule: ring_reprE)
    case straight
    then have "tail ?d + 2 + length f \<le> head ?d" by (auto dest: lin_le)
    with straight assms(2) show ?thesis by (auto simp: fr front_at_def free_def release_def Let_def)
  next
    case (around fs1 g fs2 w e)
    show ?thesis
    proof (cases fs1)
      case Nil
      with around have "wrapped (buffer c) (dsize ?d) (tail ?d) f e" by auto
      then have "fst (frame_at c) + snd (frame_at c) = e" by (auto simp: fr front_at_def wrapped_def split: if_splits)
      moreover have "e \<le> head ?d" using around(7) by (rule lin_le)
      ultimately show ?thesis using around(1,2) assms(2) by (auto simp: free_def release_def Let_def)
    next
      case (Cons g' fs1')
      with around have "lin (buffer c) (tail ?d) w (f # fs1')" by auto
      then have "tail ?d + 2 + length f \<le> w" by (auto dest: lin_le)
      with around(1,2,5) assms(2) show ?thesis by (auto simp: fr front_at_def free_def release_def Let_def)
    qed
  qed
qed

lemma unread_frames:
  assumes "ring_repr c fs"
  shows "head (desc c) < tail (desc c) \<Longrightarrow> fs \<noteq> []" and "tail (desc c) + 2 \<le> head (desc c) \<Longrightarrow> fs \<noteq> []"
  using assms by (auto simp: ring_repr_def Let_def)

text \<open>A store of the producer leaves the front frame where it is.\<close>

lemma front_stays:
  assumes "ring_repr c fs" and "ring_repr c' fs'" and "fs \<noteq> []" and "fs' \<noteq> []" and "hd fs' = hd fs"
    and "tail (desc c') = tail (desc c)" and "dsize (desc c') = dsize (desc c)"
  shows "frame_at c' = frame_at c"
proof -
  obtain f gs gs' where "fs = f # gs" "fs' = f # gs'" using assms(3-5) by (cases fs; cases fs') auto
  with assms front_frame(1) [of c f gs] front_frame(1) [of c' f gs'] show ?thesis by simp
qed


subsection \<open>One producer and one consumer\<close>

fun pending :: "producer \<Rightarrow> u8 list list" where
  "pending PIdle = []"
| "pending (Tail1 x) = [x]" | "pending (Tail2 x) = [x]" | "pending (Tail3 x) = [x]" | "pending (Tail4 x) = [x]"
| "pending (Store x) = [x]" | "pending (Copy x) = [x]" | "pending (Publish x) = [x]"

text \<open>Between the guard and the store of \<^verbatim>\<open>head\<close> there is room, and the bytes stored so far are in place.\<close>

fun producing :: "CycleBuffer \<Rightarrow> producer \<Rightarrow> bool" where
  "producing c (Store x) = free x c"
| "producing c (Copy x) = (free x c \<and> (\<exists>m. buffer c = st16 (length_at c) (word_of_nat (length x)) m \<and>
     (\<forall>i. i \<notin> written x c \<longrightarrow> m i = buffer c i)))"
| "producing c (Publish x) = (free x c \<and> (\<exists>m. buffer c = memcpy (payload_at x c) x (st16 (length_at c) (word_of_nat (length x)) m) \<and>
     (\<forall>i. i \<notin> written x c \<longrightarrow> m i = buffer c i)))"
| "producing c _ = True"

fun consuming :: "CycleBuffer \<Rightarrow> u8 list list \<Rightarrow> consumer \<Rightarrow> bool" where
  "consuming c rest Take = (rest \<noteq> [])"
| "consuming c rest (Release pos len) = (rest \<noteq> [] \<and> frame_at c = (pos, len))"
| "consuming c rest _ = True"

definition consistent :: "u8 list list \<Rightarrow> u8 list list \<Rightarrow> threads \<Rightarrow> bool" where
  "consistent xs rest s \<longleftrightarrow>
     accepted s = delivered s @ rest \<and> ring_repr (ring s) rest \<and> dsize (desc (ring s)) \<le> 2 ^ 31 \<and>
     producing (ring s) (prod s) \<and> consuming (ring s) rest (cons s 0) \<and>
     subseq (delivered s @ rest @ pending (prod s) @ todo s) xs \<and> list_all fits16 (pending (prod s) @ todo s)"

lemma written_bytes:
  "i \<notin> written x c \<Longrightarrow> st16 (length_at c) w m i = m i"
  "i \<notin> written x c \<Longrightarrow> memcpy (payload_at x c) x m i = m i"
  by (auto simp: written_def st16_def memcpy_def)

lemma head_only [simp]:
  "length_at (c\<lparr>buffer := m\<rparr>) = length_at c" "payload_at x (c\<lparr>buffer := m\<rparr>) = payload_at x c"
  "written x (c\<lparr>buffer := m\<rparr>) = written x c" "free x (c\<lparr>buffer := m\<rparr>) = free x c"
  "length_at (release t c) = length_at c" "payload_at x (release t c) = payload_at x c" "written x (release t c) = written x c"
  by (simp_all add: length_at_def payload_at_def written_def free_def release_def)

lemma release_fields [simp]:
  "buffer (release t c) = buffer c" "dsize (desc (release t c)) = dsize (desc c)" "head (desc (release t c)) = head (desc c)"
  "tail (desc (release t c)) = t"
  by (simp_all add: release_def)

text \<open>Publishing a complete frame is an accepted \<open>write1\<close>.\<close>

lemma published:
  assumes "ring_repr c rest" and "dsize (desc c) \<le> 2 ^ 31" and "producing c (Publish x)" and "fits16 x"
  shows "ring_repr (publish x c) (rest @ [x])"
proof -
  from assms(3) obtain m where m: "buffer c = memcpy (payload_at x c) x (st16 (length_at c) (word_of_nat (length x)) m)"
    "\<And>i. i \<notin> written x c \<Longrightarrow> m i = buffer c i" and free: "free x c" by auto
  let ?c = "c\<lparr>buffer := m\<rparr>"
  have repr: "ring_repr ?c rest" using assms(1) free m(2) by (rule free_bytes)
  have "\<not> no_room x ?c" using no_room_free [of ?c x] ring_repr_bounds [OF repr] assms(2) free by simp
  moreover have "write_body x ?c = publish x c"
    using m(1) by (simp add: write_body_def publish_def copy_payload_def store_length_def payload_at_def)
  ultimately have "write1 x ?c = (True, publish x c)" by (simp add: write1_body)
  with repr assms(4) show ?thesis by (rule write1_accept)
qed

lemma consuming_stays:
  assumes "consuming c rest k" and "ring_repr c rest" and "ring_repr c' rest'" and "rest \<noteq> [] \<longrightarrow> rest' \<noteq> [] \<and> hd rest' = hd rest"
    and "tail (desc c') = tail (desc c)" and "dsize (desc c') = dsize (desc c)"
  shows "consuming c' rest' k"
  using assms front_stays [of c rest c' rest'] by (cases k) auto

lemma store_keeps:
  assumes "consistent xs rest s" and "prod s = Store x"
  shows "consistent xs rest (producer_step s)"
proof -
  let ?c = "store_length x (ring s)"
  have c: "ring_repr (ring s) rest" "free x (ring s)" using assms by (simp_all add: consistent_def)
  have repr: "ring_repr ?c rest"
    unfolding store_length_def using c by (rule free_bytes) (rule written_bytes)
  have "producing ?c (Copy x)"
    using c(2) by (auto simp: store_length_def written_bytes intro!: exI [of _ "buffer (ring s)"])
  moreover have "consuming ?c rest (cons s 0)"
    using assms(1) by (intro consuming_stays [OF _ c(1) repr]) (simp_all add: consistent_def store_length_def)
  ultimately show ?thesis
    using assms repr by (simp add: consistent_def producer_step_def) (simp add: store_length_def)
qed

lemma copy_keeps:
  assumes "consistent xs rest s" and "prod s = Copy x"
  shows "consistent xs rest (producer_step s)"
proof -
  let ?c = "copy_payload x (ring s)"
  have c: "ring_repr (ring s) rest" "free x (ring s)" using assms by (simp_all add: consistent_def)
  obtain m where m: "buffer (ring s) = st16 (length_at (ring s)) (word_of_nat (length x)) m"
    "\<And>i. i \<notin> written x (ring s) \<Longrightarrow> m i = buffer (ring s) i" using assms by (auto simp: consistent_def)
  have repr: "ring_repr ?c rest"
    unfolding copy_payload_def using c by (rule free_bytes) (rule written_bytes)
  have "producing ?c (Publish x)"
    using c(2) m by (auto simp: copy_payload_def written_bytes intro!: exI [of _ m])
  moreover have "consuming ?c rest (cons s 0)"
    using assms(1) by (intro consuming_stays [OF _ c(1) repr]) (simp_all add: consistent_def copy_payload_def)
  ultimately show ?thesis
    using assms repr by (simp add: consistent_def producer_step_def) (simp add: copy_payload_def)
qed

lemma publish_keeps:
  assumes "consistent xs rest s" and "prod s = Publish x"
  shows "consistent xs (rest @ [x]) (producer_step s)"
proof -
  let ?c = "publish x (ring s)"
  have c: "ring_repr (ring s) rest" "fits16 x" using assms by (simp_all add: consistent_def)
  have repr: "ring_repr ?c (rest @ [x])"
    using c(1) _ _ c(2) by (rule published) (use assms in \<open>auto simp: consistent_def\<close>)
  have "consuming ?c (rest @ [x]) (cons s 0)"
    using assms(1) by (intro consuming_stays [OF _ c(1) repr]) (auto simp: consistent_def publish_def)
  with assms repr show ?thesis by (simp add: consistent_def producer_step_def) (simp add: publish_def)
qed

lemma subseq_drop: "subseq (as @ bs @ x # cs) xs \<Longrightarrow> subseq (as @ bs @ cs) xs"
proof (rule subseq_order.trans [of _ "as @ bs @ x # cs"])
  show "subseq (as @ bs @ cs) (as @ bs @ x # cs)" by (intro list_emb_append_mono) auto
qed

text \<open>The other steps of the producer leave the ring alone.\<close>

lemma moves:
  assumes "consistent xs rest s" and "producing (ring s) p" and "pending p @ t = pending (prod s) @ todo s"
  shows "consistent xs rest (s\<lparr>prod := p, todo := t, raced := r\<rparr>)"
proof -
  have "list_all fits16 (pending p @ t)" unfolding assms(3) using assms(1) by (simp add: consistent_def)
  moreover have "subseq (delivered s @ rest @ pending p @ t) xs" unfolding assms(3) using assms(1) by (simp add: consistent_def)
  ultimately show ?thesis using assms(1,2) by (simp add: consistent_def)
qed

lemma gives_up: "consistent xs rest s \<Longrightarrow> pending (prod s) = [x] \<Longrightarrow> consistent xs rest (s\<lparr>prod := PIdle\<rparr>)"
  using subseq_drop [of "delivered s" rest x "todo s" xs] by (simp add: consistent_def)

lemma guard_keeps:
  assumes "consistent xs rest s" and "\<not> raced (producer_step s)" and "prod s \<in> {PIdle, Tail1 x, Tail2 x, Tail3 x, Tail4 x}"
  shows "consistent xs rest (producer_step s)"
proof -
  let ?d = "desc (ring s)"
  have b: "tail ?d < dsize ?d" "dsize ?d \<le> 2 ^ 31"
    using assms(1) ring_repr_bounds [of "ring s" rest] by (auto simp: consistent_def)
  have move: "consistent xs rest (s\<lparr>prod := p\<rparr>)" if "producing (ring s) p" "pending p = pending (prod s)" for p
    using moves [OF assms(1) that(1), of "todo s" "raced s"] that(2) by simp
  from assms(3) consider "prod s = PIdle" | "prod s = Tail1 x" | "prod s = Tail2 x" | "prod s = Tail3 x" | "prod s = Tail4 x" by blast
  then show ?thesis
  proof cases
    case 1
    show ?thesis
    proof (cases "todo s")
      case (Cons y ys)
      with moves [OF assms(1), of "Tail1 y" ys "raced s"] 1 show ?thesis by (simp add: producer_step_def)
    qed (use assms(1) 1 in \<open>simp add: producer_step_def\<close>)
  next
    case 2
    with move [of "Tail2 x"] move [of "Tail3 x"] show ?thesis by (simp add: producer_step_def Let_def)
  next
    case 3
    with gives_up [OF assms(1), of x] move [of "Tail3 x"] show ?thesis by (simp add: producer_step_def Let_def)
  next
    case 4
    show ?thesis
    proof (cases "tail ?d > head ?d")
      case True
      with 4 move [of "Tail4 x"] show ?thesis by (simp add: producer_step_def Let_def)
    next
      case False
      then have "free x (ring s)" using assms(2) 4 no_room_free [OF b, of x] by (simp add: producer_step_def Let_def)
      with False 4 moves [OF assms(1), of "Store x" "todo s" "raced s \<or> no_room x (ring s)"] show ?thesis
        by (simp add: producer_step_def Let_def)
    qed
  next
    case 5
    show ?thesis
    proof (cases "head ?d + 2 + length x \<ge> tail ?d")
      case True
      with 5 gives_up [OF assms(1), of x] show ?thesis by (simp add: producer_step_def Let_def)
    next
      case False
      then have "free x (ring s)" by (simp add: free_def Let_def)
      with False 5 move [of "Store x"] show ?thesis by (simp add: producer_step_def Let_def)
    qed
  qed
qed

lemma producer_keeps:
  assumes "consistent xs rest s" and "\<not> raced (producer_step s)"
  shows "\<exists>rest. consistent xs rest (producer_step s)"
proof (cases "prod s")
  case (Store x)
  with store_keeps [OF assms(1)] show ?thesis by blast
next
  case (Copy x)
  with copy_keeps [OF assms(1)] show ?thesis by blast
next
  case (Publish x)
  with publish_keeps [OF assms(1)] show ?thesis by blast
qed (use guard_keeps [OF assms] in blast)+

lemma consumer_keeps:
  assumes "consistent xs rest s"
  shows "\<exists>rest. consistent xs rest (consumer_step 0 s)"
proof (cases "cons s 0")
  case (Release pos len)
  have repr: "ring_repr (ring s) rest" and fr: "frame_at (ring s) = (pos, len)" and "rest \<noteq> []"
    using assms Release by (simp_all add: consistent_def)
  then obtain f fs where rest: "rest = f # fs" by (cases rest) auto
  note front = front_frame [OF repr [unfolded rest]]
  have "producing (release (pos + len) (ring s)) (prod s)"
    using assms release_frees [OF repr [unfolded rest]] fr
    by (cases "prod s") (auto simp: consistent_def)
  then have "consistent xs fs (consumer_step 0 s)"
    using assms Release front(2,3) fr rest by (simp add: consistent_def consumer_step_def Let_def)
  then show ?thesis by blast
qed (use assms unread_frames [of "ring s" rest] in
    \<open>auto simp: consistent_def consumer_step_def Let_def case_prod_unfold intro!: exI [of _ rest]\<close>)

lemma raced_stays: "raced s \<Longrightarrow> raced (step a s)"
  by (cases a) (auto simp: producer_step_def consumer_step_def Let_def split: producer.splits consumer.splits list.splits)

lemma consistent_accepted: "consistent xs rest s \<Longrightarrow> subseq (accepted s) xs"
proof -
  assume c: "consistent xs rest s"
  have "subseq (accepted s) (accepted s @ pending (prod s) @ todo s)" by (intro prefix_imp_subseq) simp
  also have "subseq \<dots> xs" using c by (simp add: consistent_def)
  finally show ?thesis .
qed

lemma run_consistent:
  assumes "set sched \<subseteq> {Producer, Consumer 0}" and "consistent xs rest s" and "\<not> raced (fold step sched s)"
  shows "\<exists>rest. consistent xs rest (fold step sched s)"
  using assms
proof (induction sched arbitrary: s rest)
  case (Cons a as)
  have "\<not> raced (step a s)"
  proof
    assume "raced (step a s)"
    then have "raced (fold step as (step a s))" by (induction as arbitrary: a s) (auto dest: raced_stays)
    with Cons.prems show False by simp
  qed
  then have "\<exists>rest. consistent xs rest (step a s)"
    using Cons.prems(1,2) producer_keeps consumer_keeps by (cases a) auto
  then obtain rest' where "consistent xs rest' (step a s)" by blast
  with Cons.IH Cons.prems(1,3) show ?case by simp
qed auto

lemma start_consistent:
  assumes "0 < msize c" and "msize c \<le> 2 ^ 31" and "list_all fits16 xs"
  shows "consistent xs [] (start c xs)"
  using assms ring_repr_clear [of c] by (simp add: consistent_def start_def cb_clear_def)


subsection \<open>Properties\<close>

lemma no_room_wrap: "no_room x c \<Longrightarrow> tail (desc c) \<le> head (desc c) \<Longrightarrow>
  head (desc c) + 2 + length x \<ge> dsize (desc c) \<and> int_cast (tail (desc c)) \<le> int (length x) + 2"
  by (auto simp: no_room_def Let_def)

lemma producer_runs:
  assumes "prod s = PIdle" and "todo s = x # xs"
  shows "\<exists>k \<le> 8. (producer_step ^^ k) s =
    (let (ok, c) = write1 x (ring s) in s\<lparr>todo := xs, ring := c, accepted := accepted s @ (if ok then [x] else [])\<rparr>)"
proof -
  let ?d = "desc (ring s)" let ?stop = "head ?d + 2 + length x"
  let ?s = "\<lambda>p. s\<lparr>todo := xs, prod := p\<rparr>"
  note ps = producer_step_def Let_def
  have 0: "producer_step s = ?s (Tail1 x)" using assms by (simp add: ps)
  have body: "(producer_step ^^ 3) (?s (Store x)) = s\<lparr>todo := xs, prod := PIdle, ring := write_body x (ring s), accepted := accepted s @ [x]\<rparr>"
    by (simp add: numeral_3_eq_3 ps write_body_def)
  have idle: "s\<lparr>todo := xs, prod := PIdle, ring := r, accepted := a\<rparr> = s\<lparr>todo := xs, ring := r, accepted := a\<rparr>" for r a
    using assms(1) by simp
  have guard: "\<exists>k \<le> 4. (producer_step ^^ k) (?s (Tail1 x)) = ?s (if no_room x (ring s) then PIdle else Store x)"
  proof (cases "tail ?d \<le> head ?d")
    case True
    show ?thesis
    proof (cases "?stop \<ge> dsize ?d")
      case around: True
      show ?thesis
        using True around by (intro exI [of _ "if no_room x (ring s) then 2 else 3"])
          (auto simp: ps numeral_2_eq_2 numeral_3_eq_3 no_room_def)
    next
      case False
      then show ?thesis
        using True by (intro exI [of _ 2]) (auto simp: ps numeral_2_eq_2 no_room_def)
    qed
  next
    case False
    then show ?thesis
      by (intro exI [of _ 3]) (auto simp: ps numeral_3_eq_3 no_room_def)
  qed
  then obtain k where k: "k \<le> 4" "(producer_step ^^ k) (?s (Tail1 x)) = ?s (if no_room x (ring s) then PIdle else Store x)" by blast
  show ?thesis
  proof (cases "no_room x (ring s)")
    case True
    have "(producer_step ^^ Suc k) s = ?s PIdle" using k(2) 0 True by (simp only: funpow_Suc_right o_apply if_True)
    moreover have "?s PIdle = s\<lparr>todo := xs, ring := ring s, accepted := accepted s @ []\<rparr>" using assms(1) by simp
    ultimately show ?thesis using True k(1) by (intro exI [of _ "Suc k"]) (simp add: write1_body)
  next
    case False
    have "(producer_step ^^ (3 + k)) (producer_step s) = (producer_step ^^ 3) (?s (Store x))"
      using k(2) 0 False by (simp only: funpow_add o_apply if_False)
    then have "(producer_step ^^ Suc (3 + k)) s = s\<lparr>todo := xs, ring := write_body x (ring s), accepted := accepted s @ [x]\<rparr>"
      by (simp only: funpow_Suc_right o_apply body idle)
    with False k(1) show ?thesis by (intro exI [of _ "Suc (3 + k)"]) (simp add: write1_body)
  qed
qed

lemma consumer_runs:
  assumes "cons s i = CIdle"
  shows "\<exists>k \<le> 5. (consumer_step i ^^ k) s =
    (let (r, c) = read_frame (ring s) in s\<lparr>ring := c, delivered := delivered s @ (case r of None \<Rightarrow> [] | Some f \<Rightarrow> [f])\<rparr>)"
proof -
  let ?d = "desc (ring s)"
  note cs = consumer_step_def Let_def
  have idle: "(cons s)(i := CIdle) = cons s" using assms by auto
  show ?thesis
  proof (cases "tail ?d \<le> head ?d")
    case True
    show ?thesis
    proof (cases "tail ?d + 2 > head ?d")
      case empty: True
      with True assms idle show ?thesis
        by (intro exI [of _ 3]) (simp add: numeral_3_eq_3 cs read_frame_def read1_at)
    next
      case False
      with True assms idle show ?thesis
        by (intro exI [of _ 5]) (simp add: numeral_eq_Suc cs read_frame_def read1_at split: prod.splits)
    qed
  next
    case False
    with assms idle show ?thesis
      by (intro exI [of _ 4]) (simp add: numeral_eq_Suc cs read_frame_def read1_at split: prod.splits)
  qed
qed

text \<open>Left alone, the steps of the producer are one \<open>write1\<close> and those of a consumer one \<open>read1\<close>: the guard that
  is read piece by piece comes to the same, and never races.\<close>

theorem threads_alone:
  assumes "prod s = PIdle" and "todo s = x # xs" and "cons s i = CIdle"
  shows "(\<exists>k \<le> 8. (producer_step ^^ k) s =
      (let (ok, c) = write1 x (ring s) in s\<lparr>todo := xs, ring := c, accepted := accepted s @ (if ok then [x] else [])\<rparr>)) \<and>
    (\<exists>k \<le> 5. (consumer_step i ^^ k) s =
      (let (r, c) = read_frame (ring s) in s\<lparr>ring := c, delivered := delivered s @ (case r of None \<Rightarrow> [] | Some f \<Rightarrow> [f])\<rparr>))"
  using producer_runs [OF assms(1,2)] consumer_runs [OF assms(3)] by blast

theorem threads_alone_witness:
  "\<exists>k \<le> 8. accepted ((producer_step ^^ k) (start demo_ring [[7, 8]])) = [[7, 8]]"
proof -
  have "fst (write1 [7, 8] (cb_clear demo_ring))" by (simp add: write1_def demo_ring_def cb_clear_def)
  moreover have "prod (start demo_ring [[7, 8]]) = PIdle" "todo (start demo_ring [[7, 8]]) = [[7, 8]]"
    "cons (start demo_ring [[7, 8]]) 0 = CIdle" "ring (start demo_ring [[7, 8]]) = cb_clear demo_ring" "accepted (start demo_ring [[7, 8]]) = []"
    by (simp_all add: start_def)
  ultimately show ?thesis
    using threads_alone [of "start demo_ring [[7, 8]]" "[7, 8]" "[]" 0]
    by (auto simp: case_prod_unfold)
qed

text \<open>C2. With one producer and one consumer that interleave in any way the ring is a queue, as long as no store
  follows a guard that no longer fails: what was delivered is, byte for byte and in order, a prefix of what was accepted,
  the ring holds the rest, and only frames that were written are accepted, in their order.\<close>

theorem spsc_fifo:
  assumes "set sched \<subseteq> {Producer, Consumer 0}" and "0 < msize c" and "msize c \<le> 2 ^ 31" and "list_all fits16 xs"
    and "\<not> raced (fold step sched (start c xs))"
  shows "\<exists>rest. accepted (fold step sched (start c xs)) = delivered (fold step sched (start c xs)) @ rest \<and>
    ring_repr (ring (fold step sched (start c xs))) rest \<and> subseq (accepted (fold step sched (start c xs))) xs"
proof -
  let ?s = "fold step sched (start c xs)"
  obtain rest where "consistent xs rest ?s"
    using run_consistent [OF assms(1) start_consistent [OF assms(2-4)] assms(5)] by blast
  then show ?thesis using consistent_accepted by (auto simp: consistent_def)
qed

lemmas threads_eval = start_def producer_step_def consumer_step_def store_length_def copy_payload_def publish_def length_at_def payload_at_def
  frame_at_def release_def no_room_def cb_clear_def demo_ring_def int_cast_eq ld16_def st16_def memcpy_def slice_def

definition demo_schedule :: "actor list" where
  "demo_schedule = replicate 6 Producer @ [Consumer 0, Producer, Consumer 0, Producer, Consumer 0, Producer, Consumer 0, Producer, Consumer 0]"

theorem spsc_fifo_witness:
  "\<exists>rest. accepted (fold step demo_schedule (start demo_ring [[7, 8], [9]])) =
     delivered (fold step demo_schedule (start demo_ring [[7, 8], [9]])) @ rest"
proof -
  have "\<not> raced (fold step demo_schedule (start demo_ring [[7, 8], [9]]))"
    by code_simp
  moreover have "set demo_schedule \<subseteq> {Producer, Consumer 0}" by (simp add: demo_schedule_def)
  ultimately show ?thesis
    using spsc_fifo [of demo_schedule demo_ring "[[7, 8], [9]]"] by (auto simp: demo_ring_def fits16_def)
qed

text \<open>One frame after the other: the consumer alone takes the front frame within five steps.\<close>

lemma consumer_takes:
  assumes "consistent xs (f # fs) s"
  shows "\<exists>k \<le> 5. consistent xs fs ((consumer_step 0 ^^ k) s) \<and> accepted ((consumer_step 0 ^^ k) s) = accepted s \<and>
    delivered ((consumer_step 0 ^^ k) s) = delivered s @ [f]"
proof -
  have repr: "ring_repr (ring s) (f # fs)" using assms by (simp add: consistent_def)
  note front = front_frame [OF repr]
  have keeps: "\<exists>rest. consistent xs rest ((consumer_step 0 ^^ k) s)" for k
  proof (induction k)
    case (Suc k)
    then obtain rest where "consistent xs rest ((consumer_step 0 ^^ k) s)" by blast
    from consumer_keeps [OF this] show ?case by simp
  qed (use assms in auto)
  have ends: ?thesis if "k \<le> 5" "delivered ((consumer_step 0 ^^ k) s) = delivered s @ [f]" "accepted ((consumer_step 0 ^^ k) s) = accepted s" for k
  proof -
    obtain rest where c: "consistent xs rest ((consumer_step 0 ^^ k) s)" using keeps by blast
    then have "delivered s @ f # fs = (delivered s @ [f]) @ rest" using that(2,3) assms by (simp add: consistent_def)
    then have "rest = fs" by simp
    with c that show ?thesis by blast
  qed
  let ?d = "desc (ring s)"
  note cs = consumer_step_def Let_def
  let ?at = "\<lambda>t. cons t 0 = Take \<and> ring t = ring s \<and> delivered t = delivered s \<and> accepted t = accepted s"
  have take: "delivered ((consumer_step 0 ^^ (2 + j)) s) = delivered s @ [f] \<and> accepted ((consumer_step 0 ^^ (2 + j)) s) = accepted s"
    if "?at ((consumer_step 0 ^^ j) s)" for j
    using that front(2) by (simp add: numeral_2_eq_2 cs case_prod_unfold)
  have finish: ?thesis if "j \<le> 3" "?at ((consumer_step 0 ^^ j) s)" for j
    using take [OF that(2)] that(1) by (intro ends [of "2 + j"]) auto
  show ?thesis
  proof (cases "cons s 0")
    case CIdle
    then show ?thesis using front(4)
      by (intro finish [of "if tail ?d \<le> head ?d then 3 else 2"]) (auto simp: numeral_2_eq_2 numeral_3_eq_3 cs)
  next
    case Head1
    then show ?thesis using front(4)
      by (intro finish [of "if tail ?d \<le> head ?d then 2 else 1"]) (auto simp: numeral_2_eq_2 cs)
  next
    case Head2
    then show ?thesis using front(4)
      by (intro finish [of "if tail ?d \<le> head ?d then 1 else 3"]) (auto simp: numeral_3_eq_3 cs)
  next
    case Take
    then show ?thesis by (intro finish [of 0]) simp_all
  next
    case (Release pos len)
    then have "frame_at (ring s) = (pos, len)" using assms by (simp add: consistent_def)
    with Release front(2) show ?thesis by (intro ends [of 1]) (simp_all add: cs)
  qed
qed

lemma consumer_drains:
  "consistent xs rest s \<Longrightarrow> \<exists>k \<le> 5 * length rest. delivered ((consumer_step 0 ^^ k) s) = delivered s @ rest"
proof (induction rest arbitrary: s)
  case (Cons f fs)
  obtain k where k: "k \<le> 5" "consistent xs fs ((consumer_step 0 ^^ k) s)" "delivered ((consumer_step 0 ^^ k) s) = delivered s @ [f]"
    using consumer_takes [OF Cons.prems] by blast
  obtain j where "j \<le> 5 * length fs" "delivered ((consumer_step 0 ^^ j) ((consumer_step 0 ^^ k) s)) = delivered s @ f # fs"
    using Cons.IH [OF k(2)] k(3) by auto
  with k(1) show ?case by (intro exI [of _ "j + k"]) (simp add: funpow_add)
qed (intro exI [of _ 0], simp)

text \<open>C4. Nothing that was accepted stays behind: from every state that two threads reach without a store that follows a guard
  that no longer fails (the race of the guard), wherever both of them are stopped, the consumer alone delivers every accepted frame within five of its steps for each.\<close>

theorem consumer_catches_up:
  assumes "set sched \<subseteq> {Producer, Consumer 0}" and "0 < msize c" and "msize c \<le> 2 ^ 31" and "list_all fits16 xs"
    and "\<not> raced (fold step sched (start c xs))"
  shows "\<exists>k \<le> 5 * (length (accepted (fold step sched (start c xs))) - length (delivered (fold step sched (start c xs)))).
    delivered ((consumer_step 0 ^^ k) (fold step sched (start c xs))) = accepted (fold step sched (start c xs))"
proof -
  let ?s = "fold step sched (start c xs)"
  obtain rest where c: "consistent xs rest ?s"
    using run_consistent [OF assms(1) start_consistent [OF assms(2-4)] assms(5)] by blast
  then have "accepted ?s = delivered ?s @ rest" by (simp add: consistent_def)
  with consumer_drains [OF c] show ?thesis by simp
qed

theorem consumer_catches_up_witness:
  "\<exists>k \<le> 10. delivered ((consumer_step 0 ^^ k) (fold step (replicate 12 Producer) (start demo_ring [[7, 8], [9]]))) = [[7, 8], [9]]"
proof -
  let ?s = "fold step (replicate 12 Producer) (start demo_ring [[7, 8], [9]])"
  have "\<not> raced ?s" "accepted ?s = [[7, 8], [9]]" "delivered ?s = []" by code_simp+
  then show ?thesis
    using consumer_catches_up [of "replicate 12 Producer" demo_ring "[[7, 8], [9]]"] by (simp add: demo_ring_def fits16_def)
qed

text \<open>The frame is too large for the room behind the head and for the room below the tail, so the ring cannot hold it
  behind what is unread.\<close>

lemma wrapped_store_loses:
  assumes "ring_repr c rest" and "tail (desc c) \<le> head (desc c)" and "dsize (desc c) \<le> head (desc c) + 2 + length x"
    and "tail (desc c) \<le> length x"
  shows "\<not> ring_repr (write_body x c) (rest @ [x])"
proof
  let ?w = "write_body x c"
  assume repr: "ring_repr ?w (rest @ [x])"
  have w: "tail (desc ?w) = tail (desc c)" "dsize (desc ?w) = dsize (desc c)" "head (desc ?w) = payload_at x c + length x"
    by (simp_all add: write_body_def publish_def copy_payload_def store_length_def payload_at_def)
  have old: "lin (buffer c) (tail (desc c)) (head (desc c)) rest"
    using assms(1,2) by (auto elim: ring_reprE)
  have above: "tail (desc ?w) \<le> head (desc ?w)" using w assms(4) by simp
  have "lin (buffer ?w) (tail (desc ?w)) (head (desc ?w)) (rest @ [x])"
    using repr above by (auto elim: ring_reprE)
  then have "head (desc ?w) = tail (desc c) + sum_list (map (\<lambda>f. 2 + length f) rest) + 2 + length x"
    using w(1) by (auto dest: lin_length)
  moreover have "head (desc c) = tail (desc c) + sum_list (map (\<lambda>f. 2 + length f) rest)" using old by (rule lin_length)
  ultimately have h: "payload_at x c = head (desc c) + 2" using w(3) by simp
  show False
  proof (cases "head (desc c) + 1 = dsize (desc c)")
    case True
    with h have "dsize (desc c) = 1" by (simp add: payload_at_def)
    then show False using ring_repr_bounds [OF repr] w(2,3) by (simp add: h)
  qed (use h assms(3) in \<open>simp add: payload_at_def\<close>)
qed

lemma consumers_leave_producer:
  "prod (fold step (map Consumer is) s) = prod s" "accepted (fold step (map Consumer is) s) = accepted s"
  by (induction "is" arbitrary: s) (simp_all add: consumer_step_def Let_def split: consumer.split prod.split)

text \<open>C38. The guard of \<open>write1\<close> is not safe against a consumer. When its first read of \<^verbatim>\<open>tail\<close> finds it above the head, and consumers
  then bring the tail around the end before the third read, the producer looks neither at the room below the tail nor at
  that above the head: from every such state, whatever the consumers did, a frame that fits into neither is stored and
  counted as accepted by the next four steps of the producer, although \<open>write1\<close> would refuse it, and the ring then
  does not hold what was unread and the new frame.\<close>

theorem guard_race_loses:
  assumes "prod s = Tail1 x" and "head (desc (ring s)) < tail (desc (ring s))"
    and "t = fold step (map Consumer is) (producer_step s)" and "ring_repr (ring t) rest" and "dsize (desc (ring t)) \<le> 2 ^ 31"
    and "tail (desc (ring t)) \<le> head (desc (ring t))" and "dsize (desc (ring t)) \<le> head (desc (ring t)) + 2 + length x"
    and "tail (desc (ring t)) \<le> length x"
  shows "write1 x (ring t) = (False, ring t) \<and> prod ((producer_step ^^ 4) t) = PIdle \<and>
    accepted ((producer_step ^^ 4) t) = accepted s @ [x] \<and> \<not> ring_repr (ring ((producer_step ^^ 4) t)) (rest @ [x])"
proof -
  have t: "prod t = Tail3 x" "accepted t = accepted s"
    using assms(1-3) by (simp_all add: consumers_leave_producer producer_step_def Let_def)
  have "\<not> free x (ring t)" using assms(6-8) by (simp add: free_def Let_def)
  then have "no_room x (ring t)" using no_room_free ring_repr_bounds [OF assms(4)] assms(5) by blast
  moreover have "(producer_step ^^ 4) t = t\<lparr>prod := PIdle, raced := (raced t \<or> no_room x (ring t)),
      ring := write_body x (ring t), accepted := accepted t @ [x]\<rparr>"
    using t(1) assms(6) by (simp add: numeral_eq_Suc producer_step_def Let_def write_body_def)
  ultimately show ?thesis
    using t(2) wrapped_store_loses [OF assms(4,6-8)] by (simp add: write1_body)
qed

definition race_start :: "actor list" where
  "race_start = replicate 6 Producer @ replicate 5 (Consumer 0) @ replicate 6 Producer @ replicate 5 (Consumer 0) @
     replicate 7 Producer @ replicate 7 Producer @ [Producer]"

definition race_frames :: "u8 list list" where
  "race_frames = [[1, 1, 1, 1], [2, 2], [3, 3, 3], [4], [5, 5, 5, 5]]"

theorem guard_race_loses_witness:
  "let t = fold step (race_start @ [Producer] @ replicate 4 (Consumer 0)) (start demo_ring race_frames)
   in write1 [5, 5, 5, 5] (ring t) = (False, ring t) \<and> accepted ((producer_step ^^ 4) t) = race_frames \<and> length (delivered t) = 3"
proof -
  define s where "s = fold step race_start (start demo_ring race_frames)"
  define t where "t = fold step (map Consumer [0, 0, 0, 0]) (producer_step s)"
  have t_eq: "t = fold step (race_start @ [Producer] @ replicate 4 (Consumer 0)) (start demo_ring race_frames)"
    by (simp add: t_def s_def numeral_eq_Suc)
  have s: "prod s = Tail1 [5, 5, 5, 5]" "head (desc (ring s)) < tail (desc (ring s))" "accepted s = take 4 race_frames"
    unfolding s_def by code_simp+
  have t: "\<not> raced t" "dsize (desc (ring t)) = 12" "tail (desc (ring t)) \<le> head (desc (ring t))"
    "dsize (desc (ring t)) \<le> head (desc (ring t)) + 2 + 4" "tail (desc (ring t)) \<le> 4" "length (delivered t) = 3"
    unfolding t_eq by code_simp+
  have "set (race_start @ [Producer] @ replicate 4 (Consumer 0)) \<subseteq> {Producer, Consumer 0}" by (auto simp: race_start_def)
  moreover have "consistent race_frames [] (start demo_ring race_frames)"
    by (rule start_consistent) (simp_all add: demo_ring_def race_frames_def fits16_def)
  ultimately obtain rest where "consistent race_frames rest t"
    using run_consistent t(1) unfolding t_eq by blast
  then have "ring_repr (ring t) rest" by (simp add: consistent_def)
  from guard_race_loses [OF s(1,2) t_def this _ t(3)] t(2,4-6) s(3) show ?thesis
    by (simp add: t_eq race_frames_def)
qed

subsection \<open>Several consumers\<close>

lemma others_idle:
  "set sched \<subseteq> {Producer, Consumer 0} \<Longrightarrow> i \<noteq> 0 \<Longrightarrow> cons (fold step sched s) i = cons s i"
proof (induction sched arbitrary: s)
  case (Cons a as)
  then have "cons (step a s) i = cons s i"
    by (auto simp: producer_step_def consumer_step_def Let_def split: producer.split consumer.split list.split prod.split)
  with Cons show ?case by simp
qed simp

text \<open>A second consumer reads the length of the front frame while the tail is still in front of it.\<close>

lemma second_takes:
  assumes "ring_repr (ring s) (f # fs)" and "cons s i = CIdle"
  shows "\<exists>k \<le> 4. (consumer_step i ^^ k) s = s\<lparr>cons := (cons s)(i := Release (fst (frame_at (ring s))) (snd (frame_at (ring s))))\<rparr>"
proof -
  have ne: "\<not> (tail (desc (ring s)) \<le> head (desc (ring s)) \<and> tail (desc (ring s)) + 2 > head (desc (ring s)))"
    by (rule front_frame(4) [OF assms(1)])
  show ?thesis
  proof (cases "tail (desc (ring s)) \<le> head (desc (ring s))")
    case True
    with ne assms(2) show ?thesis
      by (intro exI [of _ 4]) (simp add: numeral_eq_Suc consumer_step_def Let_def case_prod_unfold)
  next
    case False
    with assms(2) show ?thesis
      by (intro exI [of _ 3]) (simp add: numeral_eq_Suc consumer_step_def Let_def case_prod_unfold)
  qed
qed

text \<open>C13. The ring is not one for several consumers, as the example program has three: whenever a first one has read the length of a
  frame and not yet stored the tail, in whatever state producer and consumer reached this, a second one that runs now gets the
  same frame within four steps; both deliver it, so that one accepted frame comes out twice.\<close>

theorem two_consumers_same_frame:
  assumes "set sched \<subseteq> {Producer, Consumer 0}" and "0 < msize c" and "msize c \<le> 2 ^ 31" and "list_all fits16 xs"
    and "s = fold step sched (start c xs)" and "\<not> raced s" and "cons s 0 = Release pos len" and "i \<noteq> 0"
  shows "\<exists>f rest k t. k \<le> 4 \<and> t = fold step (replicate k (Consumer i) @ [Consumer 0, Consumer i]) s \<and>
    accepted s = delivered s @ f # rest \<and> accepted t = accepted s \<and> delivered t = delivered s @ [f, f] \<and> ring_repr (ring t) rest"
proof -
  obtain fs where c: "consistent xs fs s"
    using run_consistent [OF assms(1) start_consistent [OF assms(2-4)]] assms(5,6) by blast
  then obtain f rest where fs: "fs = f # rest" using assms(7) by (cases fs) (auto simp: consistent_def)
  have repr: "ring_repr (ring s) (f # rest)" and fr: "frame_at (ring s) = (pos, len)" and acc: "accepted s = delivered s @ f # rest"
    using c assms(7) fs by (simp_all add: consistent_def)
  have "cons s i = CIdle" using others_idle [OF assms(1,8)] assms(5) by (simp add: start_def)
  from second_takes [OF repr this] obtain k where k: "k \<le> 4"
    "(consumer_step i ^^ k) s = s\<lparr>cons := (cons s)(i := Release pos len)\<rparr>" by (auto simp: fr)
  have run: "step (Consumer i) = consumer_step i" by (rule ext) simp
  have "release (pos + len) (release (pos + len) (ring s)) = release (pos + len) (ring s)" by (simp add: release_def)
  moreover have "slice (buffer (ring s)) pos len = f" "ring_repr (release (pos + len) (ring s)) rest"
    using front_frame(2,3) [OF repr] fr by simp_all
  ultimately have "accepted (step (Consumer i) (step (Consumer 0) ((consumer_step i ^^ k) s))) = accepted s \<and>
      delivered (step (Consumer i) (step (Consumer 0) ((consumer_step i ^^ k) s))) = delivered s @ [f, f] \<and>
      ring_repr (ring (step (Consumer i) (step (Consumer 0) ((consumer_step i ^^ k) s)))) rest"
    using assms(7,8) by (simp add: k(2) consumer_step_def Let_def)
  with k(1) acc show ?thesis
    by (intro exI [of _ f] exI [of _ rest] exI [of _ k] exI [of _ "fold step (replicate k (Consumer i) @ [Consumer 0, Consumer i]) s"])
      (simp add: run)
qed

theorem two_consumers_same_frame_witness:
  "\<exists>f rest k t. k \<le> 4 \<and>
    t = fold step (replicate k (Consumer 1) @ [Consumer 0, Consumer 1]) (fold step (replicate 6 Producer @ replicate 4 (Consumer 0)) (start demo_ring [[7]])) \<and>
    [[7]] = f # rest \<and> delivered t = [f, f]"
proof -
  let ?sched = "replicate 6 Producer @ replicate 4 (Consumer 0)"
  let ?s = "fold step ?sched (start demo_ring [[7]])"
  have s: "\<not> raced ?s" "cons ?s 0 = Release 2 1" "accepted ?s = [[7]]" "delivered ?s = []" by code_simp+
  have "set ?sched \<subseteq> {Producer, Consumer 0}" by auto
  from two_consumers_same_frame [OF this _ _ _ refl s(1,2), of 1] s(3,4) show ?thesis
    by (auto simp: demo_ring_def fits16_def)
qed

end
