(* ===== verification/Store_Buffers.thy ===== *)
theory Store_Buffers
  imports Ring_Threads
begin

text \<open>
  The ring of \<^verbatim>\<open>lib/libshared/CycleBuffer.h\<close> between two processors. \<^verbatim>\<open>read1\<close> relies on an order of the stores of
  \<^verbatim>\<open>write1\<close> (``if len is written this means data is completely written too''), which a processor does not give
  for nothing: what a thread stores goes into a buffer of its own, from which it reaches the shared memory later.
  A thread reads its own stores first and memory otherwise.

  The steps are those of \<open>Ring_Threads\<close>, each taken on what its thread sees. A store buffer is a list, the oldest store
  first, and drains one store at a time, at any moment. Where it drains from the front (x86) the ring stays a queue;
  where a younger store may overtake (ARM) it does not.
\<close>

subsection \<open>Stores on their way\<close>

datatype put = PutLength nat u16 | PutByte nat u8 | PutHead nat | PutTail nat

fun put_into :: "put \<Rightarrow> CycleBuffer \<Rightarrow> CycleBuffer" where
  "put_into (PutLength i w) c = c\<lparr>buffer := st16 i w (buffer c)\<rparr>"
| "put_into (PutByte i b) c = c\<lparr>buffer := (buffer c)(i := b)\<rparr>"
| "put_into (PutHead h) c = c\<lparr>desc := (desc c)\<lparr>head := h\<rparr>\<rparr>"
| "put_into (PutTail t) c = release t c"

text \<open>What a thread sees: memory behind its own stores.\<close>

definition seen :: "put list \<Rightarrow> CycleBuffer \<Rightarrow> CycleBuffer" where
  "seen ps c = fold put_into ps c"

fun put_bytes :: "nat \<Rightarrow> u8 list \<Rightarrow> put list" where
  "put_bytes i [] = []"
| "put_bytes i (b # bs) = PutByte i b # put_bytes (i + 1) bs"

text \<open>\<open>memory\<close> holds in \<open>ring\<close> what has reached the shared memory.\<close>

record processors =
  memory :: threads
  pbuf :: "put list"
  cbuf :: "put list"

subsection \<open>Steps\<close>

text \<open>The stores of a step of \<open>write1\<close>, and of \<open>read1\<close>. The payload is stored byte by byte.\<close>

fun producer_puts :: "producer \<Rightarrow> CycleBuffer \<Rightarrow> put list" where
  "producer_puts (Store x) c = [PutLength (length_at c) (word_of_nat (length x))]"
| "producer_puts (Copy x) c = put_bytes (payload_at x c) x"
| "producer_puts (Publish x) c = [PutHead (payload_at x c + length x)]"
| "producer_puts _ c = []"

fun consumer_puts :: "consumer \<Rightarrow> put list" where
  "consumer_puts (Release pos len) = [PutTail (pos + len)]"
| "consumer_puts _ = []"

text \<open>A step on what the thread sees; its stores go into the buffer and memory stays as it is.\<close>

definition producer_runs_on :: "processors \<Rightarrow> processors" where
  "producer_runs_on s =
     (let c = seen (pbuf s) (ring (memory s)); t = producer_step ((memory s)\<lparr>ring := c\<rparr>)
      in s\<lparr>memory := t\<lparr>ring := ring (memory s)\<rparr>, pbuf := pbuf s @ producer_puts (prod (memory s)) c\<rparr>)"

definition consumer_runs_on :: "processors \<Rightarrow> processors" where
  "consumer_runs_on s =
     (let c = seen (cbuf s) (ring (memory s)); t = consumer_step 0 ((memory s)\<lparr>ring := c\<rparr>)
      in s\<lparr>memory := t\<lparr>ring := ring (memory s)\<rparr>, cbuf := cbuf s @ consumer_puts (cons (memory s) 0)\<rparr>)"

text \<open>The store at place \<open>k\<close> of a buffer reaches memory.\<close>

definition store_drains :: "put \<Rightarrow> threads \<Rightarrow> threads" where
  "store_drains p t = t\<lparr>ring := put_into p (ring t)\<rparr>"

datatype move = ProducerRuns | ConsumerRuns | ProducerDrains nat | ConsumerDrains nat

fun moves_to :: "move \<Rightarrow> processors \<Rightarrow> processors" where
  "moves_to ProducerRuns s = producer_runs_on s"
| "moves_to ConsumerRuns s = consumer_runs_on s"
| "moves_to (ProducerDrains k) s =
     (if k < length (pbuf s) then s\<lparr>memory := store_drains (pbuf s ! k) (memory s), pbuf := take k (pbuf s) @ drop (k + 1) (pbuf s)\<rparr> else s)"
| "moves_to (ConsumerDrains k) s =
     (if k < length (cbuf s) then s\<lparr>memory := store_drains (cbuf s ! k) (memory s), cbuf := take k (cbuf s) @ drop (k + 1) (cbuf s)\<rparr> else s)"

definition processors_start :: "CycleBuffer \<Rightarrow> u8 list list \<Rightarrow> processors" where
  "processors_start c xs = \<lparr>memory = start c xs, pbuf = [], cbuf = []\<rparr>"

text \<open>Buffers that drain in order.\<close>

definition in_order :: "move list \<Rightarrow> bool" where
  "in_order ms \<longleftrightarrow> set ms \<subseteq> {ProducerRuns, ConsumerRuns, ProducerDrains 0, ConsumerDrains 0}"

subsection \<open>What is seen\<close>

lemma seen_simps [simp]:
  "seen [] c = c" "seen (p # ps) c = seen ps (put_into p c)" "seen (ps @ qs) c = seen qs (seen ps c)"
  by (simp_all add: seen_def)

lemma put_bytes_memcpy: "seen (put_bytes i bs) c = c\<lparr>buffer := memcpy i bs (buffer c)\<rparr>"
proof (induction bs arbitrary: i c)
  case (Cons b bs)
  have "memcpy (i + 1) bs ((buffer c)(i := b)) = memcpy i (b # bs) (buffer c)"
    by (rule ext) (auto simp: memcpy_def nth_Cons')
  with Cons show ?case by (simp add: fun_upd_def)
next
  case Nil
  have "memcpy i [] (buffer c) = buffer c" by (rule ext) (auto simp: memcpy_def)
  then show ?case by simp
qed

text \<open>The producer sees what the step would have done to memory.\<close>

lemma producer_puts_seen: "ring (producer_step t) = seen (producer_puts (prod t) (ring t)) (ring t)"
  by (cases "prod t")
     (simp_all add: producer_step_def Let_def store_length_def copy_payload_def publish_def put_bytes_memcpy split: list.splits)

subsection \<open>Stores that arrive in order\<close>

text \<open>
  Memory holds the frames \<open>fs\<close> at every moment while the stores \<open>ps\<close> arrive one after the other, and each store of
  \<^verbatim>\<open>head\<close> adds the next of the frames \<open>xs\<close>.
\<close>

fun replay :: "CycleBuffer \<Rightarrow> put list \<Rightarrow> u8 list list \<Rightarrow> u8 list list \<Rightarrow> bool" where
  "replay c [] fs xs = (ring_repr c fs \<and> xs = [])"
| "replay c (PutHead h # ps) fs xs =
     (ring_repr c fs \<and> (case xs of [] \<Rightarrow> False | x # xs' \<Rightarrow> replay (put_into (PutHead h) c) ps (fs @ [x]) xs'))"
| "replay c (PutTail t # ps) fs xs = False"
| "replay c (PutLength i w # ps) fs xs = (ring_repr c fs \<and> replay (put_into (PutLength i w) c) ps fs xs)"
| "replay c (PutByte i b # ps) fs xs = (ring_repr c fs \<and> replay (put_into (PutByte i b) c) ps fs xs)"

lemma replay_repr: "replay c ps fs xs \<Longrightarrow> ring_repr c fs"
  by (induction c ps fs xs rule: replay.induct) auto

lemma replay_append:
  "replay c ps fs xs \<Longrightarrow> replay (seen ps c) qs (fs @ xs) ys \<Longrightarrow> replay c (ps @ qs) fs (xs @ ys)"
  by (induction c ps fs xs rule: replay.induct) (auto split: list.splits)

lemma replay_fields: "replay c ps fs xs \<Longrightarrow> tail (desc (seen ps c)) = tail (desc c) \<and> dsize (desc (seen ps c)) = dsize (desc c)"
  by (induction c ps fs xs rule: replay.induct) (auto split: list.splits)

definition front_end :: "nat \<Rightarrow> nat \<Rightarrow> nat \<Rightarrow> nat" where
  "front_end t n len = fst (front_at t n len) + snd (front_at t n len)"

lemma front_released:
  assumes "ring_repr c (f # fs)"
  shows "ring_repr (release (front_end (tail (desc c)) (dsize (desc c)) (length f)) c) fs"
  using front_frame(3) [OF assms] front_frame(1) [OF assms] by (simp add: front_end_def)

text \<open>A store of \<^verbatim>\<open>tail\<close> and the stores of the producer do not touch each other.\<close>

lemma replay_release:
  "replay c ps (f # fs) xs \<Longrightarrow> t = front_end (tail (desc c)) (dsize (desc c)) (length f) \<Longrightarrow> replay (release t c) ps fs xs"
proof (induction c ps "f # fs" xs arbitrary: fs rule: replay.induct)
  case (1 c xs)
  then show ?case using front_released by auto
next
  case (2 c h ps xs)
  then obtain x xs' where xs: "xs = x # xs'" "replay (put_into (PutHead h) c) ps (f # fs @ [x]) xs'" "ring_repr c (f # fs)"
    by (auto split: list.splits)
  have "release t (put_into (PutHead h) c) = put_into (PutHead h) (release t c)" by (simp add: release_def)
  with 2(1) [OF xs(1), of "fs @ [x]"] xs 2(3) front_released [OF xs(3)] show ?case by simp
next
  case (4 c i w ps xs)
  have "release t (put_into (PutLength i w) c) = put_into (PutLength i w) (release t c)" by (simp add: release_def)
  with 4 front_released [of c f fs] show ?case by simp
next
  case (5 c i b ps xs)
  have "release t (put_into (PutByte i b) c) = put_into (PutByte i b) (release t c)" by (simp add: release_def)
  with 5 front_released [of c f fs] show ?case by simp
qed simp

lemma seen_release:
  "replay c ps fs xs \<Longrightarrow> seen ps (release t c) = release t (seen ps c)"
proof (induction c ps fs xs rule: replay.induct)
  case (2 c h ps fs xs)
  have "put_into (PutHead h) (release t c) = release t (put_into (PutHead h) c)" by (simp add: release_def)
  with 2 show ?case by (auto split: list.splits)
next
  case (4 c i w ps fs xs)
  have "put_into (PutLength i w) (release t c) = release t (put_into (PutLength i w) c)" by (simp add: release_def)
  with 4 show ?case by simp
next
  case (5 c i b ps fs xs)
  have "put_into (PutByte i b) (release t c) = release t (put_into (PutByte i b) c)" by (simp add: release_def)
  with 5 show ?case by simp
qed auto

text \<open>The stores of a copy touch no unread frame, one by one.\<close>

lemma replay_bytes:
  assumes "ring_repr c fs" and "free x c" and "{i ..< i + length bs} \<subseteq> written x c"
  shows "replay c (put_bytes i bs) fs []"
  using assms
proof (induction bs arbitrary: i c)
  case (Cons b bs)
  let ?c = "c\<lparr>buffer := (buffer c)(i := b)\<rparr>"
  have "i \<in> written x c" using Cons.prems(3) by auto
  with Cons.prems(1,2) have "ring_repr ?c fs" by (intro free_bytes) auto
  moreover have "{i + 1 ..< i + 1 + length bs} \<subseteq> written x ?c" using Cons.prems(3) by auto
  ultimately have "replay ?c (put_bytes (i + 1) bs) fs []" using Cons.prems(2) by (intro Cons.IH) simp_all
  with Cons.prems(1) show ?case by simp
qed simp

text \<open>The frames that the consumer has taken while its stores of \<^verbatim>\<open>tail\<close> are under way.\<close>

fun taken :: "nat \<Rightarrow> nat \<Rightarrow> put list \<Rightarrow> u8 list list \<Rightarrow> bool" where
  "taken t n [] [] = True"
| "taken t n (PutTail u # ps) (f # fs) = (u = front_end t n (length f) \<and> taken u n ps fs)"
| "taken t n _ _ = False"

lemma taken_repr:
  "taken t n ps gone \<Longrightarrow> t = tail (desc c) \<Longrightarrow> n = dsize (desc c) \<Longrightarrow> ring_repr c (gone @ fs) \<Longrightarrow>
    ring_repr (seen ps c) fs \<and> head (desc (seen ps c)) = head (desc c) \<and> dsize (desc (seen ps c)) = n \<and> buffer (seen ps c) = buffer c"
proof (induction t n ps gone arbitrary: c rule: taken.induct)
  case (2 t n u ps f gone)
  with front_released [of c f "gone @ fs"] show ?case by auto
qed simp_all

lemma taken_snoc:
  "taken t n ps gone \<Longrightarrow> t = tail (desc c) \<Longrightarrow> u = front_end (tail (desc (seen ps c))) n (length f) \<Longrightarrow>
    taken t n (ps @ [PutTail u]) (gone @ [f])"
proof (induction t n ps gone arbitrary: c rule: taken.induct)
  case (2 t n v ps g gone)
  from 2(2) have v: "v = front_end t n (length g)" and ps: "taken v n ps gone" by auto
  have "u = front_end (tail (desc (seen ps (release v c)))) n (length f)" using 2(4) by simp
  from 2(1) [OF ps _ this] have "taken v n (ps @ [PutTail u]) (gone @ [f])" by simp
  with v show ?case by simp
qed simp_all

lemma taken_tail:
  "taken t n ps gone \<Longrightarrow> tail (desc c) = tail (desc c') \<Longrightarrow> tail (desc (seen ps c)) = tail (desc (seen ps c'))"
  by (induction t n ps gone arbitrary: c c' rule: taken.induct) auto

subsection \<open>The invariant\<close>

text \<open>
  The frames are, in this order: \<open>d\<close>, taken from memory; \<open>gone\<close>, taken by the consumer, whose stores of \<^verbatim>\<open>tail\<close> are
  under way; \<open>avail\<close>, in memory; \<open>coming\<close>, accepted, whose stores are under way. To the producer, which sees none of the
  consumer's stores under way, the ring is the one of \<open>Ring_Threads\<close> with the frames from \<open>gone\<close> on.
\<close>

definition producer_side :: "u8 list list \<Rightarrow> processors \<Rightarrow> threads" where
  "producer_side d s = (memory s)\<lparr>ring := seen (pbuf s) (ring (memory s)), cons := (\<lambda>_. CIdle), delivered := d\<rparr>"

definition ordered :: "u8 list list \<Rightarrow> u8 list list \<Rightarrow> u8 list list \<Rightarrow> u8 list list \<Rightarrow> u8 list list \<Rightarrow> processors \<Rightarrow> bool" where
  "ordered xs d gone avail coming s \<longleftrightarrow>
     (let m = ring (memory s)
      in delivered (memory s) = d @ gone \<and> replay m (pbuf s) (gone @ avail) coming \<and>
         taken (tail (desc m)) (dsize (desc m)) (cbuf s) gone \<and>
         consistent xs (gone @ avail @ coming) (producer_side d s) \<and>
         consuming (seen (cbuf s) m) avail (cons (memory s) 0))"

lemma consistent_rest: "consistent xs rest s \<Longrightarrow> consistent xs rest' s \<Longrightarrow> rest' = rest"
  by (simp add: consistent_def)

lemma producer_step_frame:
  "producer_step (s\<lparr>cons := k, delivered := d\<rparr>) = (producer_step s)\<lparr>cons := k, delivered := d\<rparr>"
  by (cases "prod s") (simp_all add: producer_step_def Let_def split: list.splits)

lemma producer_step_others: "cons (producer_step s) = cons s" "delivered (producer_step s) = delivered s"
  by (cases "prod s"; simp add: producer_step_def Let_def split: list.splits)+

fun new_frame :: "producer \<Rightarrow> u8 list list" where
  "new_frame (Publish x) = [x]"
| "new_frame _ = []"

lemma producer_step_accepts: "accepted (producer_step s) = accepted s @ new_frame (prod s)"
  by (cases "prod s") (simp_all add: producer_step_def Let_def split: list.splits)

lemma producer_side_step: "producer_side d (producer_runs_on s) = producer_step (producer_side d s)"
proof -
  let ?c = "seen (pbuf s) (ring (memory s))"
  let ?t = "(memory s)\<lparr>ring := ?c\<rparr>"
  have "producer_step (producer_side d s) = (producer_step ?t)\<lparr>cons := (\<lambda>_. CIdle), delivered := d\<rparr>"
    using producer_step_frame [where s = ?t and k = "\<lambda>_. CIdle" and d = d] by (simp add: producer_side_def)
  also have "\<dots> = producer_side d (producer_runs_on s)"
    using producer_puts_seen [of ?t] by (simp add: producer_side_def producer_runs_on_def Let_def)
  finally show ?thesis ..
qed

lemma puts_replay:
  assumes "consistent xs rest t" and "consistent xs (rest @ new_frame (prod t)) (producer_step t)"
  shows "replay (ring t) (producer_puts (prod t) (ring t)) rest (new_frame (prod t))"
proof -
  have repr: "ring_repr (ring t) rest" "ring_repr (seen (producer_puts (prod t) (ring t)) (ring t)) (rest @ new_frame (prod t))"
    using assms by (simp_all add: consistent_def producer_puts_seen)
  show ?thesis
  proof (cases "prod t")
    case (Copy x)
    then have "free x (ring t)" using assms(1) by (simp add: consistent_def)
    with repr(1) Copy show ?thesis by (auto intro!: replay_bytes simp: written_def)
  qed (use repr in auto)
qed

lemma producer_ordered:
  assumes "ordered xs d gone avail coming s" and "\<not> raced (memory (producer_runs_on s))"
  shows "\<exists>coming. ordered xs d gone avail coming (producer_runs_on s)"
proof -
  let ?t = "producer_side d s" let ?new = "new_frame (prod (memory s))"
  have c: "consistent xs (gone @ avail @ coming) ?t" using assms(1) by (simp add: ordered_def Let_def)
  have "raced (producer_step ?t) = raced (memory (producer_runs_on s))"
    unfolding producer_side_step [symmetric] by (simp add: producer_side_def)
  with producer_keeps [OF c] assms(2) obtain rest where rest: "consistent xs rest (producer_step ?t)" by auto
  then have "d @ rest = accepted ?t @ ?new"
    by (simp add: consistent_def producer_step_accepts producer_step_others) (simp add: producer_side_def)
  with c have "rest = (gone @ avail @ coming) @ ?new" by (simp add: consistent_def producer_side_def)
  with rest have c': "consistent xs ((gone @ avail @ coming) @ ?new) (producer_step ?t)" by simp
  have side: "prod ?t = prod (memory s)" "ring ?t = seen (pbuf s) (ring (memory s))" by (simp_all add: producer_side_def)
  have "replay (ring (memory s)) (pbuf s @ producer_puts (prod (memory s)) (ring ?t)) (gone @ avail) (coming @ ?new)"
    using puts_replay [OF c] c' assms(1) by (intro replay_append) (simp_all add: side ordered_def Let_def)
  with assms(1) c' show ?thesis
    by (intro exI [of _ "coming @ ?new"])
       (simp add: ordered_def Let_def producer_side_step,
        simp add: producer_runs_on_def Let_def side producer_step_others)
qed

lemma consumer_ordered:
  assumes "ordered xs d gone avail coming s"
  shows "\<exists>gone avail. ordered xs d gone avail coming (consumer_runs_on s)"
proof -
  let ?m = "ring (memory s)" let ?c = "seen (cbuf s) ?m"
  note A = assms [unfolded ordered_def Let_def]
  have repr: "ring_repr ?c avail" and n: "dsize (desc ?c) = dsize (desc ?m)"
    using taken_repr [of _ _ "cbuf s" gone ?m avail] A replay_repr by blast+
  have side: "producer_side d (consumer_runs_on s) = producer_side d s"
    by (cases "cons (memory s) 0") (simp_all add: producer_side_def consumer_runs_on_def consumer_step_def Let_def split: prod.splits)
  show ?thesis
  proof (cases "cons (memory s) 0")
    case (Release pos len)
    then have fr: "frame_at ?c = (pos, len)" and "avail \<noteq> []" using A by simp_all
    then obtain f fs where avail: "avail = f # fs" by (cases avail) auto
    note front = front_frame [OF repr [unfolded avail]]
    have "front_at (tail (desc ?c)) (dsize (desc ?m)) (length f) = (pos, len)" using front(1) fr n by simp
    then have "pos + len = front_end (tail (desc ?c)) (dsize (desc ?m)) (length f)" by (simp add: front_end_def)
    then have "taken (tail (desc ?m)) (dsize (desc ?m)) (cbuf s @ [PutTail (pos + len)]) (gone @ [f])"
      using A by (intro taken_snoc [of _ _ _ _ ?m]) auto
    moreover have "delivered (memory (consumer_runs_on s)) = d @ gone @ [f]"
      using A Release front(2) fr by (simp add: consumer_runs_on_def consumer_step_def Let_def)
    moreover have "consistent xs ((gone @ [f]) @ fs @ coming) (producer_side d (consumer_runs_on s))"
      using A by (simp add: side avail)
    ultimately have "ordered xs d (gone @ [f]) fs coming (consumer_runs_on s)"
      using A Release by (simp add: ordered_def Let_def avail) (simp add: consumer_runs_on_def consumer_step_def Let_def)
    then show ?thesis by blast
  qed (use A side unread_frames [OF repr] in
      \<open>auto simp: ordered_def Let_def consumer_runs_on_def consumer_step_def case_prod_unfold intro!: exI [of _ gone] exI [of _ avail]\<close>)
qed

lemma taken_empty: "taken t n ps gone \<Longrightarrow> ps = [] \<longleftrightarrow> gone = []"
  by (cases ps; cases gone) (auto elim: taken.elims)

lemma producer_drains_ordered:
  assumes "ordered xs d gone avail coming s"
  shows "\<exists>avail coming. ordered xs d gone avail coming (moves_to (ProducerDrains 0) s)"
proof (cases "pbuf s")
  case Nil
  with assms show ?thesis by auto
next
  case (Cons p ps)
  let ?m = "ring (memory s)" let ?m' = "put_into p ?m"
  note A = assms [unfolded ordered_def Let_def]
  obtain new coming' where new: "coming = new @ coming'" "replay ?m' ps (gone @ avail @ new) coming'"
    and desc: "tail (desc ?m') = tail (desc ?m)" "dsize (desc ?m') = dsize (desc ?m)"
  proof (cases p)
    case (PutHead h)
    with A Cons obtain x xs' where "coming = x # xs'" "replay ?m' ps (gone @ avail @ [x]) xs'"
      by (auto split: list.splits)
    with PutHead that [of "[x]" xs'] show ?thesis by simp
  qed (use A Cons that [of "[]" coming] in auto)
  have t: "taken (tail (desc ?m)) (dsize (desc ?m)) (cbuf s) gone" using A by simp
  have "ring_repr ?m (gone @ avail)" using A replay_repr by blast
  note old = taken_repr [OF t refl refl this]
  have "ring_repr ?m' (gone @ avail @ new)" using new(2) by (rule replay_repr)
  note now = taken_repr [OF t desc [symmetric] this]
  have "tail (desc (seen (cbuf s) ?m')) = tail (desc (seen (cbuf s) ?m))"
    by (rule taken_tail [OF t]) (rule desc(1))
  then have "consuming (seen (cbuf s) ?m') (avail @ new) (cons (memory s) 0)"
    by (intro consuming_stays [OF _ conjunct1 [OF old] conjunct1 [OF now]]) (use A old now in auto)
  moreover have "producer_side d (moves_to (ProducerDrains 0) s) = producer_side d s"
    using Cons by (simp add: producer_side_def store_drains_def)
  ultimately have "ordered xs d gone (avail @ new) coming' (moves_to (ProducerDrains 0) s)"
    using A Cons new t desc by (simp add: ordered_def Let_def) (simp add: store_drains_def)
  then show ?thesis by blast
qed

lemma consumer_drains_ordered:
  assumes "ordered xs d gone avail coming s"
  shows "\<exists>d gone. ordered xs d gone avail coming (moves_to (ConsumerDrains 0) s)"
proof (cases "cbuf s")
  case Nil
  with assms show ?thesis by auto
next
  case (Cons p cs)
  let ?m = "ring (memory s)" let ?t = "producer_side d s"
  note A = assms [unfolded ordered_def Let_def]
  from A Cons obtain u f fs where p: "p = PutTail u" "gone = f # fs" "u = front_end (tail (desc ?m)) (dsize (desc ?m)) (length f)"
    "taken u (dsize (desc ?m)) cs fs" by (cases p; cases gone) auto
  have replay: "replay ?m (pbuf s) (f # fs @ avail) coming" using A p(2) by simp
  note replay' = replay_release [OF replay p(3)]
  have c: "consistent xs (f # fs @ avail @ coming) ?t" using A p(2) by simp
  then have repr: "ring_repr (ring ?t) (f # fs @ avail @ coming)" by (simp add: consistent_def)
  obtain pos len where fr: "frame_at (ring ?t) = (pos, len)" by (cases "frame_at (ring ?t)")
  have "front_at (tail (desc ?m)) (dsize (desc ?m)) (length f) = (pos, len)"
    using front_frame(1) [OF repr] fr replay_fields [OF replay] by (simp add: producer_side_def)
  then have u: "u = pos + len" by (simp add: p(3) front_end_def)
  have "consistent xs (f # fs @ avail @ coming) (?t\<lparr>cons := (\<lambda>_. CIdle)(0 := Release pos len)\<rparr>)"
    using c fr by (simp add: consistent_def)
  then obtain rest where rest: "consistent xs rest (consumer_step 0 (?t\<lparr>cons := (\<lambda>_. CIdle)(0 := Release pos len)\<rparr>))"
    using consumer_keeps by blast
  moreover have "consumer_step 0 (?t\<lparr>cons := (\<lambda>_. CIdle)(0 := Release pos len)\<rparr>) =
      producer_side (d @ [f]) (moves_to (ConsumerDrains 0) s)"
    using Cons p(1) u front_frame(2) [OF repr] fr seen_release [OF replay]
    by (simp add: consumer_step_def Let_def) (simp add: producer_side_def store_drains_def fun_upd_idem)
  ultimately have side: "consistent xs rest (producer_side (d @ [f]) (moves_to (ConsumerDrains 0) s))" by simp
  have "accepted (producer_side (d @ [f]) (moves_to (ConsumerDrains 0) s)) = accepted ?t"
    using Cons by (simp add: producer_side_def store_drains_def)
  with side c have "rest = fs @ avail @ coming" by (simp add: consistent_def producer_side_def)
  with side have "ordered xs (d @ [f]) fs avail coming (moves_to (ConsumerDrains 0) s)"
    using A Cons p replay' by (simp add: ordered_def Let_def) (simp add: store_drains_def)
  then show ?thesis by blast
qed

subsection \<open>Runs\<close>

lemma moves_raced: "raced (memory s) \<Longrightarrow> raced (memory (moves_to a s))"
proof (cases a)
  case ProducerRuns
  assume "raced (memory s)"
  with raced_stays [of "(memory s)\<lparr>ring := seen (pbuf s) (ring (memory s))\<rparr>" Producer] ProducerRuns show ?thesis
    by (simp add: producer_runs_on_def Let_def)
next
  case ConsumerRuns
  assume "raced (memory s)"
  with raced_stays [of "(memory s)\<lparr>ring := seen (cbuf s) (ring (memory s))\<rparr>" "Consumer 0"] ConsumerRuns show ?thesis
    by (simp add: consumer_runs_on_def Let_def)
qed (simp_all add: store_drains_def)

lemma run_ordered:
  assumes "in_order ms" and "ordered xs d gone avail coming s" and "\<not> raced (memory (fold moves_to ms s))"
  shows "\<exists>d gone avail coming. ordered xs d gone avail coming (fold moves_to ms s)"
  using assms
proof (induction ms arbitrary: s d gone avail coming)
  case (Cons a as)
  have "\<not> raced (memory (moves_to a s))"
  proof
    assume "raced (memory (moves_to a s))"
    then have "raced (memory (fold moves_to as (moves_to a s)))" by (induction as arbitrary: a s) (auto dest: moves_raced)
    with Cons.prems show False by simp
  qed
  moreover have "a \<in> {ProducerRuns, ConsumerRuns, ProducerDrains 0, ConsumerDrains 0}" "in_order as"
    using Cons.prems(1) by (auto simp: in_order_def)
  ultimately have "\<exists>d gone avail coming. ordered xs d gone avail coming (moves_to a s)"
    using producer_ordered [OF Cons.prems(2)] consumer_ordered [OF Cons.prems(2)]
      producer_drains_ordered [OF Cons.prems(2)] consumer_drains_ordered [OF Cons.prems(2)]
    by (elim insertE) (simp_all only: moves_to.simps(1,2) empty_iff, blast+)
  then obtain d' gone' avail' coming' where "ordered xs d' gone' avail' coming' (moves_to a s)" by blast
  from Cons.IH [OF \<open>in_order as\<close> this] Cons.prems(3) show ?case by simp
qed auto

lemma start_ordered:
  assumes "0 < msize c" and "msize c \<le> 2 ^ 31" and "list_all fits16 xs"
  shows "ordered xs [] [] [] [] (processors_start c xs)"
  using start_consistent [OF assms] ring_repr_clear [of c] assms(1)
  by (simp add: ordered_def processors_start_def producer_side_def start_def)

text \<open>With both buffers empty memory is a state of \<open>Ring_Threads\<close> that two threads can reach.\<close>

lemma drained_consistent:
  assumes "ordered xs d gone avail coming s" and "pbuf s = []" and "cbuf s = []"
  shows "consistent xs avail (memory s)"
proof -
  have "gone = []" using assms by (cases gone) (auto simp: ordered_def)
  then show ?thesis using assms by (auto simp: ordered_def Let_def consistent_def producer_side_def)
qed

text \<open>C3. Store buffers do not disturb the queue. With one producer and one consumer on processors whose stores reach
  memory late but in their order, however the two run and whenever their buffers drain, the ring is a queue as long as no
  store follows a guard that no longer fails: what was delivered is, byte for byte and in order, a prefix of what was accepted,
  the rest is in the ring once the stores under way have arrived, and only frames that were written are accepted, in
  their order.\<close>

theorem buffered_fifo:
  assumes "in_order ms" and "0 < msize c" and "msize c \<le> 2 ^ 31" and "list_all fits16 xs"
    and "\<not> raced (memory (fold moves_to ms (processors_start c xs)))"
  shows "\<exists>rest. accepted (memory (fold moves_to ms (processors_start c xs))) = delivered (memory (fold moves_to ms (processors_start c xs))) @ rest \<and>
    (let s = fold moves_to ms (processors_start c xs) in ring_repr (seen (pbuf s @ cbuf s) (ring (memory s))) rest) \<and>
    subseq (accepted (memory (fold moves_to ms (processors_start c xs)))) xs"
proof -
  let ?s = "fold moves_to ms (processors_start c xs)"
  obtain d gone avail coming where o: "ordered xs d gone avail coming ?s"
    using run_ordered [OF assms(1) start_ordered [OF assms(2-4)] assms(5)] by blast
  note A = o [unfolded ordered_def Let_def]
  have c: "consistent xs (gone @ avail @ coming) (producer_side d ?s)" using A by simp
  have "ring_repr (seen (pbuf ?s) (ring (memory ?s))) (gone @ avail @ coming)"
    using c by (simp add: consistent_def producer_side_def)
  moreover have "tail (desc (ring (memory ?s))) = tail (desc (seen (pbuf ?s) (ring (memory ?s))))"
    "dsize (desc (ring (memory ?s))) = dsize (desc (seen (pbuf ?s) (ring (memory ?s))))"
    using A replay_fields by metis+
  ultimately have "ring_repr (seen (cbuf ?s) (seen (pbuf ?s) (ring (memory ?s)))) (avail @ coming)"
    using A taken_repr [of _ _ "cbuf ?s" gone "seen (pbuf ?s) (ring (memory ?s))"] by blast
  moreover have "accepted (memory ?s) = delivered (memory ?s) @ avail @ coming"
    using A c by (simp add: consistent_def) (simp add: producer_side_def)
  moreover have "subseq (accepted (memory ?s)) xs"
    using consistent_accepted [OF c] by (simp add: producer_side_def)
  ultimately show ?thesis by (auto simp: Let_def)
qed

text \<open>The stores of two frames arrive while the consumer runs; its last store of \<^verbatim>\<open>tail\<close> is still under way.\<close>

definition demo_moves :: "move list" where
  "demo_moves = replicate 6 ProducerRuns @ replicate 4 (ProducerDrains 0) @ replicate 3 ConsumerRuns @ replicate 6 ProducerRuns @
     replicate 2 ConsumerRuns @ replicate 2 (ProducerDrains 0) @ [ConsumerDrains 0, ProducerDrains 0] @ replicate 5 ConsumerRuns"

lemmas buffers_eval = processors_start_def producer_runs_on_def consumer_runs_on_def store_drains_def

theorem buffered_fifo_witness:
  "\<exists>rest. [[7, 8], [9]] = [[7, 8], [9]] @ rest \<and>
     (let s = fold moves_to demo_moves (processors_start demo_ring [[7, 8], [9]])
      in pbuf s = [] \<and> length (cbuf s) = 1 \<and> ring_repr (seen (pbuf s @ cbuf s) (ring (memory s))) rest)"
proof -
  let ?s = "fold moves_to demo_moves (processors_start demo_ring [[7, 8], [9]])"
  have "\<not> raced (memory ?s)" "accepted (memory ?s) = [[7, 8], [9]]" "delivered (memory ?s) = [[7, 8], [9]]" "pbuf ?s = []"
    "length (cbuf ?s) = 1" by code_simp+
  moreover have "in_order demo_moves" by (simp add: in_order_def demo_moves_def)
  ultimately show ?thesis
    using buffered_fifo [of demo_moves demo_ring "[[7, 8], [9]]"] by (auto simp: demo_ring_def fits16_def Let_def)
qed

text \<open>The order is needed. On a processor whose stores may overtake each other nothing in \<^verbatim>\<open>write1\<close> keeps the store of
  \<^verbatim>\<open>head\<close> behind those of the payload: in a run without a race the consumer sees the length and the head first, and
  delivers what the memory held before.\<close>

theorem overtaking_head_delivers_garbage:
  "let s = fold moves_to (replicate 6 ProducerRuns @ [ProducerDrains 0, ProducerDrains 2] @ replicate 5 ConsumerRuns)
     (processors_start demo_ring [[7, 8]])
   in \<not> raced (memory s) \<and> accepted (memory s) = [[7, 8]] \<and> delivered (memory s) = [[0, 0]]"
  by code_simp

end
