(* ===== verification/Shared_Segment.thy ===== *)
theory Shared_Segment
  imports Cycle_Buffer
begin

text \<open>
  \<^verbatim>\<open>lib/libshared/SharedIO.h\<close> and the rest of \<^verbatim>\<open>SharedCycleBuffer.h\<close>: the segment of shared memory behind a ring, seen from
  two processes. The bytes of a ring live in the world \<open>'w\<close> that the processes share; what a process has for itself is a
  handle.

  Boost.Interprocess is the record \<open>interprocess\<close> of functions on the world: removing a shared memory object by its
  name, the two ways to open a segment (\<open>None\<close> when the constructor throws), \<^verbatim>\<open>construct\<close> and \<^verbatim>\<open>find\<close> of a named array in a
  segment, and access to the memory at an address. The ring of length \<open>n\<close> uses more of that memory than the array it was
  constructed as (\<open>Cycle_Buffer.scb_outside_array\<close>), so nothing that holds of the contents of an array is relied on here. \<open>no_segment\<close> is a default constructed segment.
\<close>

subsection \<open>Segments\<close>

record ('w, 's) interprocess =
  shm_remove :: "string \<Rightarrow> 'w \<Rightarrow> 'w"
  create_only :: "string \<Rightarrow> nat \<Rightarrow> 'w \<Rightarrow> 's option \<times> 'w"
  open_or_create :: "string \<Rightarrow> nat \<Rightarrow> 'w \<Rightarrow> 's option \<times> 'w"
  no_segment :: 's
  seg_construct :: "'s \<Rightarrow> string \<Rightarrow> nat \<Rightarrow> 'w \<Rightarrow> nat option \<times> 'w"
  seg_find :: "'s \<Rightarrow> string \<Rightarrow> 'w \<Rightarrow> nat option"
  load_at :: "nat \<Rightarrow> 'w \<Rightarrow> mem \<times> CycleBufferDescriptor"
  store_at :: "nat \<Rightarrow> mem \<times> CycleBufferDescriptor \<Rightarrow> 'w \<Rightarrow> 'w"

text \<open>The constructor of \<open>SharedIO\<close>: an exception removes the object of that name and is swallowed.\<close>

definition new_SharedIO :: "('w, 's) interprocess \<Rightarrow> string \<Rightarrow> nat \<Rightarrow> bool \<Rightarrow> 'w \<Rightarrow> 's \<times> 'w" where
  "new_SharedIO B filename len create w =
     (let (seg, w) = (if create then create_only B filename len (shm_remove B filename w) else open_or_create B filename len w)
      in case seg of Some s \<Rightarrow> (s, w) | None \<Rightarrow> (no_segment B, shm_remove B filename w))"

text \<open>Moving swaps the segments.\<close>

definition move_SharedIO :: "'s \<times> 's \<Rightarrow> 's \<times> 's" where
  "move_SharedIO = (\<lambda>(to, from). (from, to))"

subsection \<open>Handles\<close>

text \<open>What the object in a process holds: its segment, \<^verbatim>\<open>_mem_name\<close>, \<^verbatim>\<open>_mem\<close>, and address and size of its \<^verbatim>\<open>_cb\<close>.\<close>

record 's ring_handle =
  h_segment :: 's
  h_name :: string
  h_mem :: "nat option"
  h_cb :: "(nat \<times> nat) option"

definition ring_in :: "('w, 's) interprocess \<Rightarrow> nat \<times> nat \<Rightarrow> 'w \<Rightarrow> CycleBuffer" where
  "ring_in B = (\<lambda>(a, n) w. case load_at B a w of (m, d) \<Rightarrow> \<lparr>desc = d, desc_offset = n, buffer = m, msize = n, freeMem = False\<rparr>)"

definition put_ring :: "('w, 's) interprocess \<Rightarrow> nat \<times> nat \<Rightarrow> CycleBuffer \<Rightarrow> 'w \<Rightarrow> 'w" where
  "put_ring B = (\<lambda>(a, n) c. store_at B a (buffer c, desc c))"

definition new_ring :: "('w, 's) interprocess \<Rightarrow> string \<Rightarrow> nat \<Rightarrow> bool \<Rightarrow> 'w \<Rightarrow> ('s ring_handle \<times> 'w) res" where
  "new_ring B filename len create w =
     (let (seg, w) = new_SharedIO B filename len create w;
          (mem, w) = (if create then seg_construct B seg (filename @ ''_cb'') (scb_array_len len) w
                      else (seg_find B seg (filename @ ''_cb'') w, w))
      in rbind (scb_ctor filename len (map_option (\<lambda>a. load_at B a w) mem)) (\<lambda>s.
           let at = (the mem, msize (cb s))
           in Inr (\<lparr>h_segment = seg, h_name = filename, h_mem = mem, h_cb = Some at\<rparr>, put_ring B at (cb s) w)))"

text \<open>The move constructor passes the segment only; \<open>raw\<close> is what an uninitialised \<^verbatim>\<open>_mem\<close> holds.\<close>

definition move_ring :: "nat option \<Rightarrow> 's \<Rightarrow> 's ring_handle \<Rightarrow> 's ring_handle \<times> 's ring_handle" where
  "move_ring raw none h = (let (to, from) = move_SharedIO (none, h_segment h)
     in (\<lparr>h_segment = to, h_name = [], h_mem = raw, h_cb = None\<rparr>, h\<lparr>h_segment := from\<rparr>))"

definition assign_ring :: "'s ring_handle \<Rightarrow> 's ring_handle \<Rightarrow> 's ring_handle \<times> 's ring_handle" where
  "assign_ring h from = (let (s, s') = move_SharedIO (h_segment h, h_segment from)
     in (h\<lparr>h_segment := s, h_mem := h_mem from, h_cb := h_cb from\<rparr>, from\<lparr>h_segment := s', h_mem := None\<rparr>))"

definition ring_push :: "('w, 's) interprocess \<Rightarrow> 's ring_handle \<Rightarrow> u8 list \<Rightarrow> 'w \<Rightarrow> (bool \<times> 'w) res" where
  "ring_push B h data w =
     (if h_mem h = None then Inl Thrown
      else case h_cb h of
             None \<Rightarrow> Inl BadIterator
           | Some at \<Rightarrow> rbind (scb_push data \<lparr>mem_name = h_name h, mem_set = True, cb = ring_in B at w\<rparr>) (\<lambda>(ok, s).
               Inr (ok, put_ring B at (cb s) w)))"

text \<open>A frame is taken as the bytes it holds when \<open>pop\<close> returns.\<close>

definition ring_pop :: "('w, 's) interprocess \<Rightarrow> 's ring_handle \<Rightarrow> 'w \<Rightarrow> (u8 list option \<times> 'w) res" where
  "ring_pop B h w =
     (if h_mem h = None then Inl Thrown
      else case h_cb h of
             None \<Rightarrow> Inl BadIterator
           | Some at \<Rightarrow> rbind (scb_pop \<lparr>mem_name = h_name h, mem_set = True, cb = ring_in B at w\<rparr>) (\<lambda>(r, s).
               Inr (map_option (\<lambda>(pos, len). slice (buffer (cb s)) pos len) r, put_ring B at (cb s) w)))"

subsection \<open>What goes wrong\<close>

text \<open>When opening throws, the shared memory object of that name is removed, whoever else uses it; without a
  segment no array is found and the ring is not constructed.\<close>

lemma failed_open_removes:
  assumes "open_or_create B name len w = (None, w1)" and "seg_find B (no_segment B) (name @ ''_cb'') (shm_remove B name w1) = None"
  shows "new_SharedIO B name len False w = (no_segment B, shm_remove B name w1) \<and> new_ring B name len False w = Inl Thrown"
  using assms by (simp add: new_SharedIO_def new_ring_def scb_ctor_def)

text \<open>A ring that was moved into a new object cannot be used, whatever the new \<^verbatim>\<open>_mem\<close> holds; one that was assigned can, and the old object
  reports it.\<close>

lemma moved_ring:
  "isl (ring_push B (fst (move_ring raw none h)) x w) \<and> ring_push B (fst (assign_ring g h)) x w =
     (if h_mem h = None then Inl Thrown else ring_push B h x w) \<and> ring_push B (snd (assign_ring g h)) x w = Inl Thrown"
  by (simp add: move_ring_def assign_ring_def move_SharedIO_def ring_push_def scb_push_def split: option.split prod.split)

end
