(* ===== verification/Shared_Socket.thy ===== *)
theory Shared_Socket
  imports Prelude
begin

text \<open>
  The control connection: \<^verbatim>\<open>lib/libshared/SharedSocket.h\<close> and \<^verbatim>\<open>.cpp\<close> (the protocol, the
  read and write loops) and \<^verbatim>\<open>SharedClient.cpp\<close> (the requests a client builds). The kernel
  is the list of answers its \<^verbatim>\<open>recv\<close> and \<^verbatim>\<open>send\<close> calls give.
\<close>

subsection \<open>Bytes and strings\<close>

definition chars :: "string \<Rightarrow> u8 list" where
  "chars s = map of_char s"

definition unchars :: "u8 list \<Rightarrow> string" where
  "unchars bs = map (\<lambda>b. char_of (unat b)) bs"

text \<open>The C string at the start of a buffer; without a NUL in it the scan runs on.\<close>

definition c_str :: "u8 list \<Rightarrow> string res" where
  "c_str bs = (if 0 \<in> set bs then Inr (unchars (takeWhile (\<lambda>b. b \<noteq> 0) bs)) else Inl OutOfBounds)"

definition le32 :: "u32 \<Rightarrow> u8 list" where
  "le32 w = [ucast w, ucast (drop_bit 8 w), ucast (drop_bit 16 w), ucast (drop_bit 24 w)]"

definition le64 :: "u64 \<Rightarrow> u8 list" where
  "le64 w = le32 (ucast w) @ le32 (ucast (drop_bit 32 w))"

definition of_le32 :: "u8 list \<Rightarrow> u32" where
  "of_le32 bs = ld32 (\<lambda>i. bs ! i) 0"

definition of_le64 :: "u8 list \<Rightarrow> u64" where
  "of_le64 bs = word_cat (of_le32 (drop 4 bs)) (of_le32 bs)"

text \<open>\<^verbatim>\<open>memcpy\<close> to the start of an array of \<open>n\<close> zero bytes.\<close>

definition fill_text :: "nat \<Rightarrow> u8 list \<Rightarrow> u8 list res" where
  "fill_text n bs = (if length bs \<le> n then Inr (bs @ replicate (n - length bs) 0) else Inl OutOfBounds)"

subsection \<open>The protocol\<close>

datatype ss_proto = SS_INIT | SS_ACK | SS_NACK | SS_NEWRCHAN | SS_NEWWCHAN | SS_BINDCHAN | SS_CLOSECHAN

fun proto_code :: "ss_proto \<Rightarrow> u64" where
  "proto_code SS_INIT = 0"
| "proto_code SS_ACK = 1"
| "proto_code SS_NACK = 2"
| "proto_code SS_NEWRCHAN = 3"
| "proto_code SS_NEWWCHAN = 4"
| "proto_code SS_BINDCHAN = 5"
| "proto_code SS_CLOSECHAN = 6"

datatype ss_direction = SS_UNDEFINED | SS_READ | SS_WRITE

record ss_cmd =
  cmd :: u64
  cmd_id :: u64
  cmd_text :: "u8 list"

definition text_size :: nat where "text_size = 128"

definition sizeof_ss_cmd :: nat where "sizeof_ss_cmd = 8 + 8 + text_size"

text \<open>A command on the wire, and the cast of a buffer of 144 bytes to \<^verbatim>\<open>ss_cmd\<close>.\<close>

definition cmd_bytes :: "ss_cmd \<Rightarrow> u8 list" where
  "cmd_bytes c = le64 (cmd c) @ le64 (cmd_id c) @ cmd_text c"

definition cmd_of :: "u8 list \<Rightarrow> ss_cmd" where
  "cmd_of bs = \<lparr>cmd = of_le64 (take 8 bs), cmd_id = of_le64 (take 8 (drop 8 bs)), cmd_text = drop 16 bs\<rparr>"

text \<open>An \<^verbatim>\<open>ss_cmd\<close> initialised with braces: what is not named is zero.\<close>

definition plain_cmd :: "ss_proto \<Rightarrow> u64 \<Rightarrow> ss_cmd" where
  "plain_cmd p i = \<lparr>cmd = proto_code p, cmd_id = i, cmd_text = replicate text_size 0\<rparr>"

definition INIT_KEYWORD :: string where
  "INIT_KEYWORD = ''hi!''"

lemma of_le32_le32 [simp]: "of_le32 (le32 w) = w"
  by (rule bit_word_eqI)
     (auto simp: of_le32_def le32_def ld32_def ld16_def bit_simps numeral_2_eq_2 numeral_3_eq_3)

lemma length_le32 [simp]: "length (le32 w) = 4" by (simp add: le32_def)
lemma length_le64 [simp]: "length (le64 w) = 8" by (simp add: le64_def)

lemma of_le32_append: "length bs = 4 \<Longrightarrow> of_le32 (bs @ cs) = of_le32 bs"
  by (simp add: of_le32_def ld32_def ld16_def nth_append)

lemma of_le64_le64 [simp]: "of_le64 (le64 w) = w"
proof -
  have "of_le64 (le64 w) = word_cat (ucast (drop_bit 32 w) :: u32) (ucast w :: u32)"
    by (simp add: of_le64_def le64_def of_le32_append)
  also have "\<dots> = w" by (rule bit_word_eqI) (auto simp: bit_simps)
  finally show ?thesis .
qed

lemma cmd_of_bytes [simp]: "cmd_of (cmd_bytes c) = c"
  by (simp add: cmd_of_def cmd_bytes_def)

lemma length_cmd_bytes: "length (cmd_bytes c) = 16 + length (cmd_text c)"
  by (simp add: cmd_bytes_def)

subsection \<open>The read and write loops\<close>

text \<open>What \<^verbatim>\<open>recv\<close> finds: an error, nothing for now, or bytes (no bytes: the peer has closed).\<close>

datatype recv_ev = RErr | RWouldBlock | RData "u8 list"

text \<open>
  \<open>need\<close> is \<^verbatim>\<open>read_size - read_bytes\<close>. A segment longer than that stays in the kernel. With
  nothing left, a socket with a receive timeout answers \<^verbatim>\<open>EWOULDBLOCK\<close>, one without waits for
  ever. None is \<^verbatim>\<open>SOCKET_ERROR\<close>, otherwise the bytes stored.
\<close>

fun read_loop :: "bool \<Rightarrow> recv_ev list \<Rightarrow> nat \<Rightarrow> u8 list \<Rightarrow> (u8 list option \<times> recv_ev list) res" where
  "read_loop waits [] need acc = (if waits then Inl Diverges else Inr (Some acc, []))"
| "read_loop waits (RErr # evs) need acc = Inr (None, evs)"
| "read_loop waits (RWouldBlock # evs) need acc = Inr (Some acc, evs)"
| "read_loop waits (RData bs # evs) need acc =
     (if bs = [] \<or> need = 0 then Inr (None, RData bs # evs)
      else if length bs = need then Inr (Some (acc @ bs), evs)
      else if need < length bs then Inr (Some (acc @ take need bs), RData (drop need bs) # evs)
      else read_loop waits evs (need - length bs) (acc @ bs))"

definition ss_read :: "bool \<Rightarrow> recv_ev list \<Rightarrow> nat \<Rightarrow> (u8 list option \<times> recv_ev list) res" where
  "ss_read waits evs read_size = read_loop waits evs read_size []"

datatype send_ev = SErr | STakes nat

text \<open>
  The result of \<^verbatim>\<open>write\<close> (-1 or the size of the last chunk), what the kernel took, and the
  answers left. With no answer left the kernel takes everything.
\<close>

fun write_loop :: "send_ev list \<Rightarrow> u8 list \<Rightarrow> u8 list \<Rightarrow> int \<times> u8 list \<times> send_ev list" where
  "write_loop evs gone [] = (-1, gone, evs)"
| "write_loop [] gone (b # bs) = (int (length (b # bs)), gone @ b # bs, [])"
| "write_loop (SErr # evs) gone (b # bs) = (-1, gone, evs)"
| "write_loop (STakes k # evs) gone (b # bs) =
     (if length (b # bs) \<le> k then (int (length (b # bs)), gone @ b # bs, evs)
      else write_loop evs (gone @ take k (b # bs)) (drop k (b # bs)))"

definition ss_write :: "int \<Rightarrow> send_ev list \<Rightarrow> u8 list \<Rightarrow> int \<times> u8 list \<times> send_ev list" where
  "ss_write sock evs bs = (if sock = -1 then (-1, [], evs) else write_loop evs [] bs)"

subsection \<open>The client\<close>

record client =
  c_sock :: int
  c_rx :: "recv_ev list"
  c_tx :: "send_ev list"
  c_out :: "u8 list"

text \<open>\<^verbatim>\<open>return SharedSocket::write(...)\<close> from a function that returns \<^verbatim>\<open>bool\<close>.\<close>

definition client_send :: "ss_cmd \<Rightarrow> client \<Rightarrow> bool \<times> client" where
  "client_send c s =
     (let (rc, bs, evs) = ss_write (c_sock s) (c_tx s) (cmd_bytes c)
      in (rc \<noteq> 0, s\<lparr>c_tx := evs, c_out := c_out s @ bs\<rparr>))"

definition client_init :: "client \<Rightarrow> (bool \<times> client) res" where
  "client_init s =
     rbind (fill_text text_size (chars INIT_KEYWORD @ [0])) (\<lambda>t.
       Inr (client_send ((plain_cmd SS_INIT 0)\<lparr>cmd_text := t\<rparr>) s))"

definition newchan_text :: "string \<Rightarrow> u64 \<Rightarrow> u8 list res" where
  "newchan_text prefix shm_size = fill_text text_size (take 4 (le64 shm_size) @ chars prefix)"

definition client_newRChan :: "string \<Rightarrow> u64 \<Rightarrow> client \<Rightarrow> (bool \<times> client) res" where
  "client_newRChan prefix shm_size s =
     rbind (newchan_text prefix shm_size) (\<lambda>t.
       Inr (client_send ((plain_cmd SS_NEWRCHAN 0)\<lparr>cmd_text := t\<rparr>) s))"

definition client_newWChan :: "string \<Rightarrow> u64 \<Rightarrow> client \<Rightarrow> (bool \<times> client) res" where
  "client_newWChan prefix shm_size s =
     rbind (newchan_text prefix shm_size) (\<lambda>t.
       Inr (client_send ((plain_cmd SS_NEWWCHAN 0)\<lparr>cmd_text := t\<rparr>) s))"

definition client_bindChan :: "u64 \<Rightarrow> u64 \<Rightarrow> client \<Rightarrow> (bool \<times> client) res" where
  "client_bindChan i hash s =
     rbind (fill_text text_size (le64 hash)) (\<lambda>t.
       Inr (client_send ((plain_cmd SS_BINDCHAN i)\<lparr>cmd_text := t\<rparr>) s))"

definition client_closeChan :: "u64 \<Rightarrow> client \<Rightarrow> bool \<times> client" where
  "client_closeChan i s = client_send (plain_cmd SS_CLOSECHAN i) s"

definition client_closeSocket :: "client \<Rightarrow> client" where
  "client_closeSocket s = s\<lparr>c_sock := -1\<rparr>"

text \<open>\<open>pton\<close> is \<^verbatim>\<open>inet_pton\<close>, \<open>fd\<close> and \<open>linked\<close> are the answers of \<^verbatim>\<open>socket\<close> and \<^verbatim>\<open>connect\<close>; the port goes to
  \<^verbatim>\<open>connect\<close> in network byte order. A socket that is open already is forgotten.\<close>

definition client_connectoToServer :: "int \<Rightarrow> (u16 \<times> u32 \<Rightarrow> bool) \<Rightarrow> u16 \<times> u32 \<Rightarrow> client \<Rightarrow> bool \<times> client" where
  "client_connectoToServer fd linked addr s =
     (let s = s\<lparr>c_sock := fd\<rparr>
      in if fd < 0 then (False, s)
         else if \<not> linked addr then (False, client_closeSocket s)
         else (True, s))"

definition client_create :: "(string \<Rightarrow> u32 option) \<Rightarrow> int \<Rightarrow> (u16 \<times> u32 \<Rightarrow> bool) \<Rightarrow> string \<Rightarrow> u16 \<Rightarrow> client \<Rightarrow> bool \<times> client" where
  "client_create pton fd linked ip port s =
     (case pton ip of None \<Rightarrow> (False, s) | Some a \<Rightarrow> client_connectoToServer fd linked (LS_ntohs port, a) s)"

text \<open>The client's socket has no receive timeout. None: \<^verbatim>\<open>cmd\<close> is not filled.\<close>

definition client_waitAck :: "client \<Rightarrow> (ss_cmd option \<times> client) res" where
  "client_waitAck s =
     rbind (ss_read True (c_rx s) sizeof_ss_cmd) (\<lambda>(r, evs).
       case r of
         Some bs \<Rightarrow> if length bs = sizeof_ss_cmd then Inr (Some (cmd_of bs), s\<lparr>c_rx := evs\<rparr>)
                    else Inr (None, client_closeSocket (s\<lparr>c_rx := evs\<rparr>))
       | None \<Rightarrow> Inr (None, client_closeSocket (s\<lparr>c_rx := evs\<rparr>)))"

subsection \<open>What the loops deliver\<close>

text \<open>The bytes on their way in a list of answers, up to the first error.\<close>

fun stream :: "recv_ev list \<Rightarrow> u8 list" where
  "stream [] = []"
| "stream (RErr # evs) = []"
| "stream (RWouldBlock # evs) = stream evs"
| "stream (RData bs # evs) = bs @ stream evs"

lemma read_loop_stream:
  "read_loop waits evs need acc = Inr (Some r, evs') \<Longrightarrow>
     \<exists>x. r = acc @ x \<and> length x \<le> need \<and> stream evs = x @ stream evs'"
proof (induction evs arbitrary: need acc)
  case (Cons e evs)
  show ?case
  proof (cases e)
    case (RData bs)
    show ?thesis
    proof (cases "length bs < need \<and> bs \<noteq> []")
      case True
      with Cons.prems RData have "read_loop waits evs (need - length bs) (acc @ bs) = Inr (Some r, evs')"
        by auto
      from Cons.IH [OF this] True RData show ?thesis by force
    next
      case False
      with Cons.prems RData show ?thesis by (auto split: if_splits)
    qed
  qed (use Cons in auto)
qed (auto split: if_splits)

lemma write_loop_all:
  "write_loop evs gone bs = (rc, out, evs') \<Longrightarrow>
     \<exists>k. out = gone @ take k bs \<and> (rc = -1 \<or> out = gone @ bs \<and> 0 < rc) \<and> (bs = [] \<longrightarrow> rc = -1)"
proof (induction evs gone bs arbitrary: rc out evs' rule: write_loop.induct)
  case (4 k evs gone b bs)
  show ?case
  proof (cases "length (b # bs) \<le> k")
    case True
    with 4(2) show ?thesis by (auto intro: exI [of _ "length (b # bs)"])
  next
    case False
    with 4(2) have w: "write_loop evs (gone @ take k (b # bs)) (drop k (b # bs)) = (rc, out, evs')" by simp
    from 4(1) [OF False w] obtain j where j: "out = (gone @ take k (b # bs)) @ take j (drop k (b # bs))"
      "rc = -1 \<or> out = (gone @ take k (b # bs)) @ drop k (b # bs) \<and> 0 < rc" by blast
    have "out = gone @ take (k + j) (b # bs)" using j(1) by (simp add: take_add)
    with j(2) show ?thesis by (metis append.assoc append_take_drop_id list.discI)
  qed
next
  case (2 gone b bs)
  then show ?case by (auto intro: exI [of _ "length (b # bs)"])
qed (auto intro: exI [of _ 0])

lemma ss_write_cases:
  assumes "ss_write sock evs bs = (rc, out, evs')" and "bs \<noteq> []"
  shows "rc \<noteq> 0 \<and> (\<exists>k. out = take k bs) \<and> (rc = -1 \<or> sock \<noteq> -1 \<and> out = bs)"
proof (cases "sock = -1")
  case True
  with assms show ?thesis by (auto simp: ss_write_def intro: exI [of _ 0])
next
  case False
  with assms write_loop_all [of evs "[]" bs rc out evs'] show ?thesis by (auto simp: ss_write_def)
qed

text \<open>A read never invents, drops or reorders a byte: when it returns bytes, they are the next bytes
  of the stream, no more than asked for, and the rest of the stream is still to come; a
  write that does not report an error has handed over every byte, and otherwise a prefix.\<close>

theorem socket_io_faithful:
  shows "(ss_read waits evs n = Inr (Some r, evs') \<longrightarrow> length r \<le> n \<and> stream evs = r @ stream evs') \<and>
    (ss_write sock evs2 bs = (rc, out, evs3) \<longrightarrow> bs \<noteq> [] \<longrightarrow>
       (\<exists>k. out = take k bs) \<and> (rc = -1 \<or> out = bs))"
  using read_loop_stream [of waits evs n "[]" r evs'] ss_write_cases [of sock evs2 bs rc out evs3]
  by (auto simp: ss_read_def)

theorem socket_io_faithful_witness:
  "ss_read False [RData [1, 2, 3], RWouldBlock, RData [4, 5]] 5 = Inr (Some [1, 2, 3], [RData [4, 5]]) \<and>
   stream [RData [1, 2, 3], RWouldBlock, RData [4, 5]] = [1, 2, 3] @ stream [RData [4, 5]]"
  using socket_io_faithful [of False "[RData [1, 2, 3], RWouldBlock, RData [4, 5]]" 5 "[1, 2, 3]" "[RData [4, 5]]"]
  by (simp add: ss_read_def)

lemma unchars_chars: "unchars (chars s) = s"
proof -
  have "char_of (unat (of_char c :: u8)) = c" for c
  proof -
    have "(of_char c :: nat) = of_char c mod 256" using of_char_of [of "of_char c :: nat"] by simp
    moreover have "(of_char c :: nat) mod 256 < 256" by simp
    ultimately have "(of_char c :: nat) < 2 ^ LENGTH(8)" by simp
    then have "unat (word_of_nat (of_char c) :: u8) = of_char c" by (rule unat_word_of_nat)
    then show ?thesis by (simp only: of_nat_of_char char_of_char)
  qed
  then show ?thesis by (simp add: unchars_def chars_def comp_def)
qed

lemma c_str_filled:
  assumes "0 \<notin> set (chars s)" and "0 < n"
  shows "c_str (chars s @ replicate n 0) = Inr s"
proof -
  have "takeWhile (\<lambda>b. b \<noteq> 0) (chars s @ replicate n 0) = chars s"
    using assms by (subst takeWhile_append2) (auto simp: gr0_conv_Suc)
  then show ?thesis using assms(2) by (simp add: c_str_def unchars_chars)
qed

lemma length_chars [simp]: "length (chars s) = length s"
  by (simp add: chars_def)

lemma newchan_text_parse:
  assumes "0 \<notin> set (chars prefix)"
  shows "if length prefix \<le> 123
    then \<exists>t. newchan_text prefix n = Inr t \<and> length t = text_size \<and>
           c_str (drop 4 t) = Inr prefix \<and> of_le32 (take 4 t) = ucast n
    else if length prefix = 124
    then \<exists>t. newchan_text prefix n = Inr t \<and> c_str (drop 4 t) = Inl OutOfBounds
    else newchan_text prefix n = Inl OutOfBounds"
proof -
  have h: "take 4 (le64 n) = le32 (ucast n)" by (simp add: le64_def)
  consider "length prefix \<le> 123" | "length prefix = 124" | "124 < length prefix" by linarith
  then show ?thesis
  proof cases
    case 1
    define t where "t = (le32 (ucast n) @ chars prefix) @ replicate (124 - length prefix) 0"
    have "newchan_text prefix n = Inr t"
      using 1 by (simp add: newchan_text_def fill_text_def h t_def text_size_def)
    moreover have "c_str (drop 4 t) = Inr prefix" using 1 assms by (simp add: t_def c_str_filled)
    moreover have "of_le32 (take 4 t) = ucast n" by (simp add: t_def)
    moreover have "length t = text_size" using 1 by (simp add: t_def text_size_def)
    ultimately show ?thesis using 1 by auto
  next
    case 2
    then show ?thesis using assms
      by (simp add: newchan_text_def fill_text_def h text_size_def c_str_def)
  next
    case 3
    then show ?thesis by (simp add: newchan_text_def fill_text_def h text_size_def)
  qed
qed

text \<open>C37. What the client asks for is what the server reads: a prefix of at most 123 characters and no
  NUL survives the text of a request for a channel, with the size modulo \<^verbatim>\<open>2 ^ 32\<close>; a longer
  one overruns the text, except 124 characters, which leave it without a terminator.\<close>

theorem newchan_request_roundtrip:
  assumes "0 \<notin> set (chars prefix)"
  shows "if length prefix \<le> 123
    then \<exists>t. newchan_text prefix n = Inr t \<and> length t = text_size \<and>
           c_str (drop 4 t) = Inr prefix \<and> of_le32 (take 4 t) = ucast n
    else if length prefix = 124
    then \<exists>t. newchan_text prefix n = Inr t \<and> c_str (drop 4 t) = Inl OutOfBounds
    else newchan_text prefix n = Inl OutOfBounds"
  using assms by (rule newchan_text_parse)

theorem newchan_request_roundtrip_witness:
  "(\<exists>t. newchan_text ''probe'' 4096 = Inr t \<and> length t = text_size \<and>
     c_str (drop 4 t) = Inr ''probe'' \<and> of_le32 (take 4 t) = 4096) \<and>
   newchan_text (replicate 125 (CHR ''x'')) 4096 = Inl OutOfBounds"
proof -
  have "0 \<notin> set (chars ''probe'')" "0 \<notin> set (chars (replicate 125 (CHR ''x'')))"
    by (simp_all add: chars_def)
  from newchan_request_roundtrip [OF this(1), of 4096] newchan_request_roundtrip [OF this(2), of 4096]
  show ?thesis by simp
qed

text \<open>Only a connected client has a socket, and only one whose address could be read.\<close>

lemma client_create_socket:
  "client_create pton fd linked ip port s = (ok, s') \<Longrightarrow> pton ip \<noteq> None \<Longrightarrow> (ok \<longleftrightarrow> 0 \<le> c_sock s') \<and> (ok \<longrightarrow> c_sock s' = fd)"
  by (auto simp: client_create_def client_connectoToServer_def client_closeSocket_def Let_def split: if_splits)

text \<open>A client cannot see that its request failed: whatever the kernel answers, a closed socket
  included, the five request functions return true, because they return the -1 of \<^verbatim>\<open>write\<close> as a
  \<^verbatim>\<open>bool\<close>.\<close>

theorem client_reports_success:
  "(case client_newRChan prefix n s of Inr (ok, _) \<Rightarrow> ok | Inl e \<Rightarrow> e = OutOfBounds) \<and>
   (case client_newWChan prefix n s of Inr (ok, _) \<Rightarrow> ok | Inl e \<Rightarrow> e = OutOfBounds) \<and>
   (case client_bindChan i h s of Inr (ok, _) \<Rightarrow> ok | Inl _ \<Rightarrow> False) \<and>
   (case client_init s of Inr (ok, _) \<Rightarrow> ok | Inl _ \<Rightarrow> False) \<and>
   fst (client_closeChan i s) \<and> client_closeChan i (client_closeSocket s) = (True, client_closeSocket s)"
proof -
  have send: "fst (client_send c s)" for c s
  proof -
    have "cmd_bytes c \<noteq> []" by (simp add: cmd_bytes_def le64_def le32_def)
    with ss_write_cases [of "c_sock s" "c_tx s" "cmd_bytes c"] show ?thesis
      by (cases "ss_write (c_sock s) (c_tx s) (cmd_bytes c)") (simp add: client_send_def)
  qed
  then have split: "case client_send c s of (ok, _) \<Rightarrow> ok" for c s by (simp add: case_prod_beta)
  have "client_closeChan i (client_closeSocket s) = (True, client_closeSocket s)"
    by (simp add: client_closeChan_def client_send_def client_closeSocket_def ss_write_def)
  then show ?thesis using send split
    by (simp add: client_newRChan_def client_newWChan_def client_bindChan_def client_init_def newchan_text_def
        client_closeChan_def fill_text_def text_size_def INIT_KEYWORD_def)
qed

end
