(* ===== verification/Shared_Server.thy ===== *)
theory Shared_Server
  imports Shared_Socket Cycle_Buffer
begin

text \<open>
  \<^verbatim>\<open>lib/libshared/SharedServer.h\<close> and \<^verbatim>\<open>.cpp\<close>: the server of the control connections. It
  accepts clients, gathers their commands of 144 bytes, creates shared rings on request
  (\<open>newRChan\<close>, \<open>newWChan\<close>), binds them to flow hashes and routes packets to them (\<open>send\<close>).

  The kernel's answers are part of the state: the connections waiting to be accepted, what
  each socket will receive and how much it will take, and which descriptors are open. The
  shared memory segments are a function from name and size to what the segment constructs.
\<close>

subsection \<open>Channels\<close>

text \<open>The ring of a channel is found by the channel's number, since several maps share one context.\<close>

record SharedCtx =
  sc_name :: string
  sc_id :: u64
  sc_dir :: ss_direction

definition default_shmem_size :: nat where
  "default_shmem_size = 1024 * 1024 * 100"

datatype ss_state = SS_DISCONNECTED | SS_CONNECTED | SS_INITED

datatype accept_ev = ANew int | AErr | AWouldBlock

record SharedServer =
  srv_sock :: int
  ctx_map_sock :: "(int \<times> SharedCtx) list"
  shmid_hash_map :: "u64 \<Rightarrow> u64 list option"
  ctx_map_hash :: "u64 \<Rightarrow> SharedCtx option"
  main_set :: "int set"
  max_sd :: int
  work :: bool
  shm_index :: u64
  curr :: int
  socket_ctx_map :: "int \<Rightarrow> ss_state option"
  partial_data :: "int \<Rightarrow> u8 list option"
  rings :: "u64 \<Rightarrow> SharedCircularBuffer option"
  segment :: "string \<Rightarrow> nat \<Rightarrow> (mem \<times> CycleBufferDescriptor) option"
  pending :: "accept_ev list"
  open_fds :: "int set"
  rx :: "int \<Rightarrow> recv_ev list"
  tx :: "int \<Rightarrow> send_ev list"
  sent :: "(int \<times> u8 list) list"

definition shared_ctx :: "string \<Rightarrow> u64 \<Rightarrow> ss_direction \<Rightarrow> nat \<Rightarrow> SharedServer \<Rightarrow> (SharedCtx \<times> SharedServer) res" where
  "shared_ctx name i dir n s =
     rbind (scb_ctor name n (segment s name n)) (\<lambda>ring.
       Inr (\<lparr>sc_name = name, sc_id = i, sc_dir = dir\<rparr>, s\<lparr>rings := (rings s)(i := Some ring)\<rparr>))"

definition sctx_push :: "SharedCtx \<Rightarrow> u8 list \<Rightarrow> SharedServer \<Rightarrow> (bool \<times> SharedServer) res" where
  "sctx_push c data s =
     (if sc_dir c = SS_WRITE
      then (case rings s (sc_id c) of
              None \<Rightarrow> Inl BadIterator
            | Some r \<Rightarrow> rbind (scb_push data r) (\<lambda>(ok, r').
                Inr (ok, s\<lparr>rings := (rings s)(sc_id c := Some r')\<rparr>)))
      else Inr (False, s))"

text \<open>
  \<^verbatim>\<open>pop(*(uint16_t* )&size)\<close>: only the low 16 bits of the caller's \<^verbatim>\<open>size\<close> are written. The
  result is the position of the frame in the ring, and the size the caller then sees.
\<close>

definition sctx_pop :: "SharedCtx \<Rightarrow> u64 \<Rightarrow> SharedServer \<Rightarrow> (nat option \<times> u64 \<times> SharedServer) res" where
  "sctx_pop c n s =
     (if sc_dir c = SS_READ
      then (case rings s (sc_id c) of
              None \<Rightarrow> Inl BadIterator
            | Some r \<Rightarrow> rbind (scb_pop r) (\<lambda>(x, r').
                let s' = s\<lparr>rings := (rings s)(sc_id c := Some r')\<rparr>
                in case x of
                     None \<Rightarrow> Inr (None, n, s')
                   | Some (pos, len) \<Rightarrow> Inr (Some pos, push_bit 16 (drop_bit 16 n) + word_of_nat len, s')))
      else Inr (None, 0, s))"

subsection \<open>Descriptors\<close>

definition FD_SETSIZE :: int where "FD_SETSIZE = 1024"

definition fd_ok :: "int \<Rightarrow> bool" where
  "fd_ok sd \<longleftrightarrow> 0 \<le> sd \<and> sd < FD_SETSIZE"

text \<open>\<^verbatim>\<open>while (!FD_ISSET(_max_sd, &_main_set)) _max_sd--;\<close>\<close>

function lower_max :: "int set \<Rightarrow> int \<Rightarrow> int res" where
  "lower_max S m =
     (if \<not> fd_ok m then Inl OutOfBounds
      else if m \<in> S then Inr m
      else lower_max S (m - 1))"
  by auto
termination by (relation "measure (\<lambda>(S, m). nat (m + 1))") (auto simp: fd_ok_def)

declare lower_max.simps [simp del]

definition closeConnection :: "int \<Rightarrow> SharedServer \<Rightarrow> SharedServer res" where
  "closeConnection sd s =
     (if \<not> fd_ok sd then Inl OutOfBounds
      else let s = s\<lparr>socket_ctx_map := (socket_ctx_map s)(sd := None), partial_data := (partial_data s)(sd := None),
                     open_fds := open_fds s - {sd}, main_set := main_set s - {sd}\<rparr>
           in if sd = max_sd s
              then rbind (lower_max (main_set s) (max_sd s)) (\<lambda>m. Inr (s\<lparr>max_sd := m\<rparr>))
              else Inr s)"

text \<open>A \<^verbatim>\<open>send\<close> on a descriptor that is not open fails.\<close>

definition writeData :: "int \<Rightarrow> ss_cmd \<Rightarrow> SharedServer \<Rightarrow> SharedServer res" where
  "writeData sd c s =
     (let (rc, bs, evs) = (if sd \<in> open_fds s then ss_write sd (tx s sd) (cmd_bytes c) else (-1, [], tx s sd));
          s = s\<lparr>tx := (tx s)(sd := evs), sent := sent s @ [(sd, bs)]\<rparr>
      in if rc = -1 then closeConnection sd s else Inr s)"

definition getShmemIndex :: "SharedServer \<Rightarrow> u64 \<times> SharedServer" where
  "getShmemIndex s = (shm_index s, s\<lparr>shm_index := shm_index s + 1\<rparr>)"

fun acceptConnections_loop :: "accept_ev list \<Rightarrow> SharedServer \<Rightarrow> (bool \<times> SharedServer) res" where
  "acceptConnections_loop [] s = Inr (True, s\<lparr>pending := []\<rparr>)"
| "acceptConnections_loop (AWouldBlock # evs) s = Inr (True, s\<lparr>pending := evs\<rparr>)"
| "acceptConnections_loop (AErr # evs) s = Inr (False, s\<lparr>pending := evs\<rparr>)"
| "acceptConnections_loop (ANew sd # evs) s =
     (if \<not> fd_ok sd then Inl OutOfBounds
      else acceptConnections_loop evs (s\<lparr>open_fds := insert sd (open_fds s), main_set := insert sd (main_set s),
             max_sd := (if sd > max_sd s then sd else max_sd s),
             socket_ctx_map := (socket_ctx_map s)(sd := Some SS_CONNECTED)\<rparr>))"

definition acceptConnections :: "SharedServer \<Rightarrow> (bool \<times> SharedServer) res" where
  "acceptConnections s = acceptConnections_loop (pending s) s"

subsection \<open>The commands\<close>

text \<open>Filling the text of the answer: name and NUL into 128 zero bytes.\<close>

definition name_ack :: "string \<Rightarrow> u64 \<Rightarrow> ss_cmd res" where
  "name_ack name i = rbind (fill_text text_size (chars name @ [0])) (\<lambda>t.
     Inr ((plain_cmd SS_ACK i)\<lparr>cmd_text := t\<rparr>))"

definition newRChan :: "string \<Rightarrow> nat \<Rightarrow> SharedServer \<Rightarrow> (bool \<times> SharedServer) res" where
  "newRChan prefix shm_size s =
     (let (i, s) = getShmemIndex s;
          name = ''shm_'' @ prefix @ ''_r_'' @ dec (unat i)
      in case shared_ctx name i SS_WRITE (if shm_size \<noteq> 0 then shm_size else default_shmem_size) s of
           Inl _ \<Rightarrow> rbind (writeData (curr s) (plain_cmd SS_NACK 0) s) (\<lambda>s. Inr (False, s))
         | Inr (c, s) \<Rightarrow>
             let s = s\<lparr>ctx_map_sock := ctx_map_sock s @ [(curr s, c)]\<rparr>
             in rbind (name_ack name i) (\<lambda>ack. rbind (writeData (curr s) ack s) (\<lambda>s. Inr (True, s))))"

definition newWChan :: "string \<Rightarrow> nat \<Rightarrow> SharedServer \<Rightarrow> (bool \<times> SharedServer) res" where
  "newWChan prefix shm_size s =
     (let (i, s) = getShmemIndex s;
          name = ''/dev/shm/'' @ prefix @ ''_w_'' @ dec (unat i)
      in case shared_ctx name i SS_READ (if shm_size \<noteq> 0 then shm_size else default_shmem_size) s of
           Inl _ \<Rightarrow> rbind (writeData (curr s) (plain_cmd SS_NACK 0) s) (\<lambda>s. Inr (False, s))
         | Inr (c, s) \<Rightarrow>
             let s = s\<lparr>ctx_map_sock := ctx_map_sock s @ [(curr s, c)]\<rparr>
             in rbind (name_ack name i) (\<lambda>ack. rbind (writeData (curr s) ack s) (\<lambda>s. Inr (True, s))))"

text \<open>\<^verbatim>\<open>_ctx_map_sock.equal_range(sd)\<close>: the channels of one client, in the order they were added.\<close>

definition channels :: "int \<Rightarrow> SharedServer \<Rightarrow> SharedCtx list" where
  "channels sd s = map snd (filter (\<lambda>(k, _). k = sd) (ctx_map_sock s))"

definition emplace :: "'k \<Rightarrow> 'v \<Rightarrow> ('k \<Rightarrow> 'v option) \<Rightarrow> 'k \<Rightarrow> 'v option" where
  "emplace k v m = (case m k of None \<Rightarrow> m(k := Some v) | Some _ \<Rightarrow> m)"

definition bindChan :: "u64 \<Rightarrow> u64 \<Rightarrow> SharedServer \<Rightarrow> (bool \<times> SharedServer) res" where
  "bindChan i hash s =
     (let results = channels (curr s) s
      in rbind (if results = [] then writeData (curr s) (plain_cmd SS_NACK 0) s else Inr s) (\<lambda>s.
           case find (\<lambda>c. sc_id c = i) results of
             Some c \<Rightarrow>
               if ctx_map_hash s hash = None
               then let s = s\<lparr>ctx_map_hash := emplace hash c (ctx_map_hash s),
                              shmid_hash_map := emplace i [hash] (shmid_hash_map s)\<rparr>
                    in rbind (writeData (curr s) (plain_cmd SS_ACK i) s) (\<lambda>s. Inr (True, s))
               else rbind (writeData (curr s) (plain_cmd SS_NACK i) s) (\<lambda>s. Inr (True, s))
           | None \<Rightarrow> rbind (writeData (curr s) (plain_cmd SS_NACK 0) s) (\<lambda>s. Inr (False, s))))"

fun erase_first :: "int \<Rightarrow> u64 \<Rightarrow> (int \<times> SharedCtx) list \<Rightarrow> (int \<times> SharedCtx) list" where
  "erase_first sd i [] = []"
| "erase_first sd i ((k, c) # xs) = (if k = sd \<and> sc_id c = i then xs else (k, c) # erase_first sd i xs)"

definition closeChan :: "u64 \<Rightarrow> SharedServer \<Rightarrow> (bool \<times> SharedServer) res" where
  "closeChan i s =
     (let s = s\<lparr>ctx_map_sock := erase_first (curr s) i (ctx_map_sock s)\<rparr>;
          s = (case shmid_hash_map s i of
                 None \<Rightarrow> s
               | Some hs \<Rightarrow> s\<lparr>ctx_map_hash := foldl (\<lambda>m h. m(h := None)) (ctx_map_hash s) hs\<rparr>);
          s = s\<lparr>shmid_hash_map := (shmid_hash_map s)(i := None)\<rparr>
      in rbind (writeData (curr s) (plain_cmd SS_ACK i) s) (\<lambda>s. Inr (True, s)))"

definition server_send :: "u64 \<Rightarrow> u8 list \<Rightarrow> SharedServer \<Rightarrow> (bool \<times> SharedServer) res" where
  "server_send hash data s =
     (case ctx_map_hash s hash of
        Some c \<Rightarrow> if sc_dir c = SS_WRITE then sctx_push c data s else Inr (False, s)
      | None \<Rightarrow> Inr (False, s))"

definition hasClients :: "SharedServer \<Rightarrow> bool" where
  "hasClients s \<longleftrightarrow> socket_ctx_map s \<noteq> (\<lambda>_. None)"

text \<open>\<^verbatim>\<open>strcmp(cmd.text, INIT_KEYWORD) == 0\<close>\<close>

definition is_keyword :: "u8 list \<Rightarrow> bool" where
  "is_keyword t \<longleftrightarrow> take 4 t = chars INIT_KEYWORD @ [0]"

text \<open>
  \<^verbatim>\<open>(ss_proto)cmd.cmd\<close> keeps the low 32 bits. A socket without context: the iterator is
  \<^verbatim>\<open>end()\<close> and dereferenced.
\<close>

definition processCommands :: "ss_cmd \<Rightarrow> SharedServer \<Rightarrow> SharedServer res" where
  "processCommands c s =
     (if curr s = -1 then Inr s
      else let p = (ucast (cmd c) :: u32)
      in if p = ucast (proto_code SS_INIT)
         then if is_keyword (cmd_text c)
              then (case socket_ctx_map s (curr s) of
                      None \<Rightarrow> Inl BadIterator
                    | Some _ \<Rightarrow> writeData (curr s) (plain_cmd SS_ACK 0)
                        (s\<lparr>socket_ctx_map := (socket_ctx_map s)(curr s := Some SS_INITED)\<rparr>))
              else closeConnection (curr s) s
         else case socket_ctx_map s (curr s) of
                None \<Rightarrow> Inl BadIterator
              | Some st \<Rightarrow>
                  if st \<noteq> SS_INITED then Inr s
                  else if p = ucast (proto_code SS_NEWRCHAN)
                  then rbind (c_str (drop 4 (cmd_text c))) (\<lambda>prefix.
                         rbind (newRChan prefix (unat (of_le32 (take 4 (cmd_text c)))) s) (\<lambda>(_, s). Inr s))
                  else if p = ucast (proto_code SS_NEWWCHAN)
                  then rbind (c_str (drop 4 (cmd_text c))) (\<lambda>prefix.
                         rbind (newWChan prefix (unat (of_le32 (take 4 (cmd_text c)))) s) (\<lambda>(_, s). Inr s))
                  else if p = ucast (proto_code SS_BINDCHAN)
                  then rbind (bindChan (cmd_id c) (of_le64 (take 8 (cmd_text c))) s) (\<lambda>(_, s). Inr s)
                  else if p = ucast (proto_code SS_CLOSECHAN)
                  then rbind (closeChan (cmd_id c) s) (\<lambda>(_, s). Inr s)
                  else closeConnection (curr s) s)"

subsection \<open>The loop\<close>

text \<open>
  One ready client: \<open>partial_data\<close> holds the bytes received so far, whose number is the
  \<^verbatim>\<open>second\<close> of the code's pair; while a complete command is processed it holds the whole
  command. The iterator into it is used after \<^verbatim>\<open>processCommands\<close>.
\<close>

definition handle_bytes :: "int \<Rightarrow> u8 list \<Rightarrow> u8 list \<Rightarrow> SharedServer \<Rightarrow> SharedServer res" where
  "handle_bytes i pd bs s =
     (let s = s\<lparr>partial_data := (partial_data s)(i := Some (pd @ bs))\<rparr>
      in if length pd + length bs = sizeof_ss_cmd
         then rbind (processCommands (cmd_of (pd @ bs)) (s\<lparr>curr := i\<rparr>)) (\<lambda>s.
                if partial_data s i = None then Inl BadIterator
                else Inr (s\<lparr>partial_data := (partial_data s)(i := Some []), curr := -1\<rparr>))
         else Inr s)"

definition received :: "int \<Rightarrow> SharedServer \<Rightarrow> u8 list" where
  "received i s = (case partial_data s i of None \<Rightarrow> [] | Some bs \<Rightarrow> bs)"

definition handle_client :: "int \<Rightarrow> SharedServer \<Rightarrow> SharedServer res" where
  "handle_client i s =
     (let pd = received i s;
          s = s\<lparr>partial_data := (partial_data s)(i := Some pd)\<rparr>
      in rbind (ss_read False (rx s i) (sizeof_ss_cmd - length pd)) (\<lambda>(r, evs).
           case r of
             None \<Rightarrow> closeConnection i (s\<lparr>rx := (rx s)(i := evs)\<rparr>)
           | Some bs \<Rightarrow> handle_bytes i pd bs (s\<lparr>rx := (rx s)(i := evs)\<rparr>)))"

definition closeServerSocket :: "SharedServer \<Rightarrow> SharedServer" where
  "closeServerSocket s = (if srv_sock s \<noteq> -1 then s\<lparr>open_fds := open_fds s - {srv_sock s}, srv_sock := -1\<rparr> else s)"

definition server_stop :: "SharedServer \<Rightarrow> SharedServer" where
  "server_stop s = s\<lparr>work := False\<rparr>"

text \<open>The \<^verbatim>\<open>for\<close> loop over the ready descriptors, in ascending order, while \<^verbatim>\<open>i <= _max_sd\<close>.\<close>

fun handle_ready :: "int list \<Rightarrow> SharedServer \<Rightarrow> SharedServer res" where
  "handle_ready [] s = Inr s"
| "handle_ready (i # is) s =
     (if max_sd s < i then Inr s
      else if i = srv_sock s
      then rbind (acceptConnections s) (\<lambda>(ok, s).
             if ok then handle_ready is s else Inr (server_stop (closeServerSocket s)))
      else rbind (handle_client i s) (handle_ready is))"

text \<open>\<^verbatim>\<open>select\<close> fails, or reports a subset of the descriptors asked for.\<close>

datatype select_ev = SelErr | SelReady "int list"

fun serve :: "select_ev list \<Rightarrow> SharedServer \<Rightarrow> SharedServer res" where
  "serve [] s = Inr s"
| "serve (SelErr # evs) s = Inr (closeServerSocket s)"
| "serve (SelReady fds # evs) s =
     rbind (handle_ready (filter (\<lambda>i. i \<in> main_set s \<and> i \<le> max_sd s) (sort (remdups fds))) s) (\<lambda>s.
       if work s then serve evs s else Inr s)"

definition server_start :: "select_ev list \<Rightarrow> SharedServer \<Rightarrow> SharedServer res" where
  "server_start evs s = serve evs (s\<lparr>work := True\<rparr>)"

text \<open>\<open>create\<close> with the answers of \<^verbatim>\<open>socket\<close>, \<^verbatim>\<open>setsockopt\<close>, \<^verbatim>\<open>ioctl\<close>, \<^verbatim>\<open>bind\<close> and \<^verbatim>\<open>listen\<close>.\<close>

definition server_create :: "int \<Rightarrow> bool list \<Rightarrow> SharedServer \<Rightarrow> (bool \<times> SharedServer) res" where
  "server_create fd steps s =
     (let s = s\<lparr>srv_sock := fd, open_fds := (if fd < 0 then open_fds s else insert fd (open_fds s))\<rparr>
      in if fd < 0 then Inr (False, s)
         else if \<not> list_all (\<lambda>b. b) steps then Inr (False, closeServerSocket s)
         else if \<not> fd_ok fd then Inl OutOfBounds
         else Inr (True, s\<lparr>main_set := {fd}, max_sd := fd\<rparr>))"

subsection \<open>The descriptors the server waits for\<close>

text \<open>
  \<open>L\<close> is the descriptor of the listening socket. It stays in the set after the socket is
  closed, which only happens when the loop ends.
\<close>

definition srv_inv :: "int \<Rightarrow> SharedServer \<Rightarrow> bool" where
  "srv_inv L s \<longleftrightarrow> L \<in> main_set s \<and> max_sd s \<in> main_set s \<and>
     (\<forall>x \<in> main_set s. fd_ok x \<and> x \<le> max_sd s \<and> (x \<noteq> L \<longrightarrow> socket_ctx_map s x \<noteq> None)) \<and>
     (srv_sock s = L \<or> srv_sock s = -1) \<and>
     (\<forall>i bs. partial_data s i = Some bs \<longrightarrow> length bs < sizeof_ss_cmd \<or> i = curr s \<and> i \<noteq> -1)"


lemma lower_max_ok:
  assumes "L \<in> S" and "L \<le> m" and "fd_ok L" and "fd_ok m"
  shows "\<exists>m'. lower_max S m = Inr m' \<and> m' \<in> S \<and> m' \<le> m \<and> (\<forall>x \<in> S. x \<le> m \<longrightarrow> x \<le> m')"
  using assms
proof (induction S m rule: lower_max.induct)
  case (1 S m)
  show ?case
  proof (cases "m \<in> S")
    case True
    with 1 show ?thesis by (simp add: lower_max.simps)
  next
    case False
    with 1(2,3) have "L \<le> m - 1" by (metis dual_order.order_iff_strict zle_diff1_eq)
    moreover from this 1(4,5) have "fd_ok (m - 1)" by (simp add: fd_ok_def)
    ultimately obtain m' where m': "lower_max S (m - 1) = Inr m'" "m' \<in> S" "m' \<le> m - 1"
      "\<forall>x \<in> S. x \<le> m - 1 \<longrightarrow> x \<le> m'"
      using 1 False by blast
    have "x \<le> m - 1" if "x \<in> S" "x \<le> m" for x
      using that False by (metis dual_order.order_iff_strict zle_diff1_eq)
    with m' 1(5) False show ?thesis by (auto simp: lower_max.simps [of S m])
  qed
qed

text \<open>What every operation on the client \<open>i\<close> keeps: the invariant and the client it is about.\<close>

definition keeps :: "int \<Rightarrow> SharedServer \<Rightarrow> SharedServer \<Rightarrow> bool" where
  "keeps L s s' \<longleftrightarrow> srv_inv L s' \<and> curr s' = curr s \<and> pending s' = pending s \<and> srv_sock s' = srv_sock s \<and>
     work s' = work s"

lemma closeConnection_keeps:
  assumes "srv_inv L s" and "sd \<noteq> L" and "fd_ok sd"
  shows "\<exists>s'. closeConnection sd s = Inr s' \<and> keeps L s s' \<and> partial_data s' sd = None"
proof -
  let ?s = "s\<lparr>socket_ctx_map := (socket_ctx_map s)(sd := None), partial_data := (partial_data s)(sd := None),
    open_fds := open_fds s - {sd}, main_set := main_set s - {sd}\<rparr>"
  from assms(1) have L: "L \<in> main_set s - {sd}" "L \<le> max_sd s" "fd_ok L" "fd_ok (max_sd s)"
    using assms(2) by (auto simp: srv_inv_def)
  show ?thesis
  proof (cases "sd = max_sd s")
    case True
    from lower_max_ok [OF L] obtain m where m: "lower_max (main_set s - {sd}) (max_sd s) = Inr m"
      "m \<in> main_set s - {sd}" "m \<le> max_sd s" "\<forall>x \<in> main_set s - {sd}. x \<le> max_sd s \<longrightarrow> x \<le> m" by blast
    have "srv_inv L (?s\<lparr>max_sd := m\<rparr>)"
      using assms(1,2) m(2,4) by (auto simp: srv_inv_def)
    with True m(1) assms(3) show ?thesis by (auto simp: closeConnection_def keeps_def Let_def)
  next
    case False
    have "srv_inv L ?s" using assms(1,2) False by (auto simp: srv_inv_def)
    with False assms(3) show ?thesis by (auto simp: closeConnection_def keeps_def Let_def)
  qed
qed

lemma keeps_trans: "keeps L s s' \<Longrightarrow> keeps L s' s'' \<Longrightarrow> keeps L s s''"
  by (simp add: keeps_def)

lemma writeData_keeps:
  assumes "srv_inv L s" and "sd \<noteq> L" and "fd_ok sd"
  shows "\<exists>s'. writeData sd c s = Inr s' \<and> keeps L s s'"
proof -
  obtain rc bs evs where w: "(if sd \<in> open_fds s then ss_write sd (tx s sd) (cmd_bytes c) else (-1, [], tx s sd)) = (rc, bs, evs)"
    by (metis prod_cases3)
  let ?s = "s\<lparr>tx := (tx s)(sd := evs), sent := sent s @ [(sd, bs)]\<rparr>"
  have inv: "srv_inv L ?s" and "keeps L s ?s" using assms(1) by (simp_all add: srv_inv_def keeps_def)
  with closeConnection_keeps [OF inv assms(2,3)] show ?thesis
    by (auto simp: writeData_def w Let_def intro: keeps_trans)
qed

lemma keeps_refl: "srv_inv L s \<Longrightarrow> keeps L s s"
  by (simp add: keeps_def)

lemma keeps_data [simp]:
  "srv_inv L (s\<lparr>rings := r\<rparr>) = srv_inv L s" "srv_inv L (s\<lparr>shm_index := n\<rparr>) = srv_inv L s"
  "srv_inv L (s\<lparr>ctx_map_sock := cs\<rparr>) = srv_inv L s" "srv_inv L (s\<lparr>ctx_map_hash := h\<rparr>) = srv_inv L s"
  "srv_inv L (s\<lparr>shmid_hash_map := g\<rparr>) = srv_inv L s" "srv_inv L (s\<lparr>rx := e\<rparr>) = srv_inv L s"
  "srv_inv L (s\<lparr>pending := p\<rparr>) = srv_inv L s" "srv_inv L (s\<lparr>work := w\<rparr>) = srv_inv L s"
  "keeps L (s\<lparr>rings := r\<rparr>) s' = keeps L s s'" "keeps L (s\<lparr>shm_index := n\<rparr>) s' = keeps L s s'"
  "keeps L (s\<lparr>ctx_map_sock := cs\<rparr>) s' = keeps L s s'" "keeps L (s\<lparr>ctx_map_hash := h\<rparr>) s' = keeps L s s'"
  "keeps L (s\<lparr>shmid_hash_map := g\<rparr>) s' = keeps L s s'" "keeps L (s\<lparr>rx := e\<rparr>) s' = keeps L s s'"
  by (simp_all add: srv_inv_def keeps_def)

lemma shared_ctx_cases:
  assumes "shared_ctx name i dir n s = Inr (c, s')"
  shows "\<exists>ring. c = \<lparr>sc_name = name, sc_id = i, sc_dir = dir\<rparr> \<and> s' = s\<lparr>rings := (rings s)(i := Some ring)\<rparr>"
  using assms by (auto simp: shared_ctx_def rbind_Inr_iff)

text \<open>An operation on the client \<open>curr\<close>, wherever it succeeds.\<close>

definition op_keeps :: "int \<Rightarrow> (SharedServer \<Rightarrow> (bool \<times> SharedServer) res) \<Rightarrow> bool" where
  "op_keeps L f \<longleftrightarrow> (\<forall>s r s'. srv_inv L s \<and> curr s \<noteq> L \<and> fd_ok (curr s) \<and> f s = Inr (r, s') \<longrightarrow> keeps L s s')"

lemma write_keeps:
  assumes "srv_inv L s" and "curr s \<noteq> L" and "fd_ok (curr s)" and "writeData (curr s) c s = Inr s'"
  shows "keeps L s s'"
  using writeData_keeps [OF assms(1-3), of c] assms(4) by auto

lemma newRChan_keeps: "op_keeps L (newRChan prefix n)"
proof (unfold op_keeps_def, intro allI impI)
  fix s r s'
  assume A: "srv_inv L s \<and> curr s \<noteq> L \<and> fd_ok (curr s) \<and> newRChan prefix n s = Inr (r, s')"
  let ?s = "s\<lparr>shm_index := shm_index s + 1\<rparr>"
  let ?name = "''shm_'' @ prefix @ ''_r_'' @ dec (unat (shm_index s))"
  let ?n = "if n \<noteq> 0 then n else default_shmem_size"
  show "keeps L s s'"
  proof (cases "shared_ctx ?name (shm_index s) SS_WRITE ?n ?s")
    case (Inl e)
    with A have "writeData (curr ?s) (plain_cmd SS_NACK 0) ?s = Inr s'"
      by (auto simp: newRChan_def getShmemIndex_def Let_def rbind_Inr_iff)
    from write_keeps [OF _ _ _ this, of L] A show ?thesis by simp
  next
    case (Inr x)
    obtain c s1 where x: "x = (c, s1)" by (cases x)
    with Inr A obtain ack where "writeData (curr s1) ack (s1\<lparr>ctx_map_sock := ctx_map_sock s1 @ [(curr s1, c)]\<rparr>) = Inr s'"
      by (auto simp: newRChan_def getShmemIndex_def Let_def rbind_Inr_iff)
    with shared_ctx_cases [OF Inr [unfolded x]] A
      write_keeps [of L "s1\<lparr>ctx_map_sock := ctx_map_sock s1 @ [(curr s1, c)]\<rparr>" ack s']
    show ?thesis by auto
  qed
qed

lemma newWChan_keeps: "op_keeps L (newWChan prefix n)"
proof (unfold op_keeps_def, intro allI impI)
  fix s r s'
  assume A: "srv_inv L s \<and> curr s \<noteq> L \<and> fd_ok (curr s) \<and> newWChan prefix n s = Inr (r, s')"
  let ?s = "s\<lparr>shm_index := shm_index s + 1\<rparr>"
  let ?name = "''/dev/shm/'' @ prefix @ ''_w_'' @ dec (unat (shm_index s))"
  let ?n = "if n \<noteq> 0 then n else default_shmem_size"
  show "keeps L s s'"
  proof (cases "shared_ctx ?name (shm_index s) SS_READ ?n ?s")
    case (Inl e)
    with A have "writeData (curr ?s) (plain_cmd SS_NACK 0) ?s = Inr s'"
      by (auto simp: newWChan_def getShmemIndex_def Let_def rbind_Inr_iff)
    from write_keeps [OF _ _ _ this, of L] A show ?thesis by simp
  next
    case (Inr x)
    obtain c s1 where x: "x = (c, s1)" by (cases x)
    with Inr A obtain ack where "writeData (curr s1) ack (s1\<lparr>ctx_map_sock := ctx_map_sock s1 @ [(curr s1, c)]\<rparr>) = Inr s'"
      by (auto simp: newWChan_def getShmemIndex_def Let_def rbind_Inr_iff)
    with shared_ctx_cases [OF Inr [unfolded x]] A
      write_keeps [of L "s1\<lparr>ctx_map_sock := ctx_map_sock s1 @ [(curr s1, c)]\<rparr>" ack s']
    show ?thesis by auto
  qed
qed

lemma bindChan_keeps: "op_keeps L (bindChan i hash)"
proof (unfold op_keeps_def, intro allI impI)
  fix s r s'
  assume A: "srv_inv L s \<and> curr s \<noteq> L \<and> fd_ok (curr s) \<and> bindChan i hash s = Inr (r, s')"
  let ?first = "if channels (curr s) s = [] then writeData (curr s) (plain_cmd SS_NACK 0) s else Inr s"
  from A obtain s1 where first: "?first = Inr s1" by (auto simp: bindChan_def Let_def rbind_Inr_iff)
  have k1: "keeps L s s1"
    using first A write_keeps [of L s _ s1] by (auto simp: keeps_refl split: if_splits)
  then have s1: "srv_inv L s1" "curr s1 \<noteq> L" "fd_ok (curr s1)" using A by (auto simp: keeps_def)
  have "\<exists>c s2. keeps L s1 s2 \<and> writeData (curr s2) c s2 = Inr s'"
  proof (cases "find (\<lambda>c. sc_id c = i) (channels (curr s) s)")
    case None
    with A first have "writeData (curr s1) (plain_cmd SS_NACK 0) s1 = Inr s'"
      by (auto simp: bindChan_def Let_def rbind_Inr_iff)
    with keeps_refl [OF s1(1)] show ?thesis by blast
  next
    case (Some c)
    show ?thesis
    proof (cases "ctx_map_hash s1 hash = None")
      case True
      let ?s2 = "s1\<lparr>ctx_map_hash := emplace hash c (ctx_map_hash s1), shmid_hash_map := emplace i [hash] (shmid_hash_map s1)\<rparr>"
      have "writeData (curr ?s2) (plain_cmd SS_ACK i) ?s2 = Inr s'"
        using A first Some True by (simp add: bindChan_def Let_def rbind_Inr_iff)
      moreover have "keeps L s1 ?s2" using s1(1) by (simp add: keeps_def)
      ultimately show ?thesis by blast
    next
      case False
      with A first Some have "writeData (curr s1) (plain_cmd SS_NACK i) s1 = Inr s'"
        by (auto simp: bindChan_def Let_def rbind_Inr_iff)
      with keeps_refl [OF s1(1)] show ?thesis by blast
    qed
  qed
  then obtain c s2 where "keeps L s1 s2" "writeData (curr s2) c s2 = Inr s'" by blast
  moreover from this(1) s1 have "srv_inv L s2" "curr s2 \<noteq> L" "fd_ok (curr s2)" by (auto simp: keeps_def)
  ultimately show "keeps L s s'" using k1 write_keeps [of L s2 c s'] by (blast intro: keeps_trans)
qed

lemma closeChan_keeps: "op_keeps L (closeChan i)"
proof (unfold op_keeps_def, intro allI impI)
  fix s r s'
  assume A: "srv_inv L s \<and> curr s \<noteq> L \<and> fd_ok (curr s) \<and> closeChan i s = Inr (r, s')"
  define h where "h = (case shmid_hash_map s i of None \<Rightarrow> ctx_map_hash s
    | Some hs \<Rightarrow> foldl (\<lambda>m h. m(h := None)) (ctx_map_hash s) hs)"
  let ?s = "s\<lparr>ctx_map_sock := erase_first (curr s) i (ctx_map_sock s), ctx_map_hash := h,
    shmid_hash_map := (shmid_hash_map s)(i := None)\<rparr>"
  have "closeChan i s = rbind (writeData (curr ?s) (plain_cmd SS_ACK i) ?s) (\<lambda>s. Inr (True, s))"
    by (cases "shmid_hash_map s i") (simp_all add: closeChan_def h_def Let_def)
  with A obtain "writeData (curr ?s) (plain_cmd SS_ACK i) ?s = Inr s'" by (auto simp: rbind_Inr_iff)
  from write_keeps [OF _ _ _ this, of L] A show "keeps L s s'" by simp
qed

lemma processCommands_keeps:
  assumes "srv_inv L s" and "curr s \<noteq> L" and "fd_ok (curr s)" and "processCommands c s = Inr s'"
  shows "keeps L s s'"
proof -
  have w: "keeps L s s'" if "writeData (curr s) c' s = Inr s'" for c'
    using write_keeps [OF assms(1-3) that] .
  have cl: "keeps L s s'" if "closeConnection (curr s) s = Inr s'"
    using closeConnection_keeps [OF assms(1-3)] that by auto
  have op: "keeps L s s'" if "op_keeps L f" "rbind (f s) (\<lambda>(_, s). Inr s) = Inr s'" for f
    using that assms(1-3) by (auto simp: op_keeps_def rbind_Inr_iff)
  show ?thesis
  proof (cases "curr s = -1")
    case True
    with assms(4) show ?thesis using assms(1) by (simp add: processCommands_def keeps_refl)
  next
    case False
    show ?thesis
    proof (cases "(ucast (cmd c) :: u32) = ucast (proto_code SS_INIT)")
      case True
      let ?s = "s\<lparr>socket_ctx_map := (socket_ctx_map s)(curr s := Some SS_INITED)\<rparr>"
      have "srv_inv L ?s" and "keeps L s ?s" using assms(1) by (auto simp: srv_inv_def keeps_def)
      with write_keeps [of L ?s "plain_cmd SS_ACK 0" s'] assms True False cl show ?thesis
        by (auto simp: processCommands_def Let_def split: if_splits option.splits intro: keeps_trans)
    next
      case init: False
      with assms(4) False obtain st where st: "socket_ctx_map s (curr s) = Some st"
        by (auto simp: processCommands_def Let_def split: option.splits)
      show ?thesis
      proof (cases "st = SS_INITED")
        case ni: False
        with assms(4) False init st have "s' = s" by (simp add: processCommands_def Let_def)
        then show ?thesis using assms(1) by (simp add: keeps_refl)
      next
        case True
        with assms(4) False init st cl op [OF bindChan_keeps] op [OF closeChan_keeps]
          op [OF newRChan_keeps] op [OF newWChan_keeps]
        show ?thesis
          by (auto simp: processCommands_def Let_def rbind_Inr_iff [of "c_str _"] split: if_splits)
      qed
    qed
  qed
qed

lemma ss_read_fits: "ss_read w evs n = Inr (Some bs, evs') \<Longrightarrow> length bs \<le> n"
  using read_loop_stream [of w evs n "[]"] by (auto simp: ss_read_def)

lemma handle_bytes_keeps:
  assumes "srv_inv L s" and "curr s = -1" and "i \<noteq> L" and "fd_ok i"
    and "length pd + length bs \<le> sizeof_ss_cmd" and "handle_bytes i pd bs s = Inr s'"
  shows "keeps L s s'"
proof -
  let ?s = "s\<lparr>partial_data := (partial_data s)(i := Some (pd @ bs))\<rparr>"
  have i: "i \<noteq> -1" using assms(4) by (auto simp: fd_ok_def)
  show ?thesis
  proof (cases "length pd + length bs = sizeof_ss_cmd")
    case True
    have "srv_inv L (?s\<lparr>curr := i\<rparr>)" using assms(1,2) i by (auto simp: srv_inv_def)
    moreover obtain s4 where s4: "processCommands (cmd_of (pd @ bs)) (?s\<lparr>curr := i\<rparr>) = Inr s4"
      "s' = s4\<lparr>partial_data := (partial_data s4)(i := Some []), curr := -1\<rparr>"
      using assms(6) True by (auto simp: handle_bytes_def rbind_Inr_iff split: if_splits)
    ultimately have "keeps L (?s\<lparr>curr := i\<rparr>) s4"
      using processCommands_keeps [of L "?s\<lparr>curr := i\<rparr>" "cmd_of (pd @ bs)" s4] assms(3,4) by simp
    moreover have "0 < sizeof_ss_cmd" by (simp add: sizeof_ss_cmd_def)
    ultimately show ?thesis using s4(2) assms(2) by (auto simp: keeps_def srv_inv_def)
  next
    case False
    with assms(6) have "s' = ?s" by (simp add: handle_bytes_def Let_def)
    with False assms(1,5) show ?thesis by (auto simp: keeps_def srv_inv_def)
  qed
qed

lemma handle_client_keeps:
  assumes "srv_inv L s" and "curr s = -1" and "i \<noteq> L" and "fd_ok i" and "handle_client i s = Inr s'"
  shows "keeps L s s'"
proof -
  let ?pd = "received i s"
  have "i \<noteq> -1" using assms(4) by (auto simp: fd_ok_def)
  then have pd: "length ?pd < sizeof_ss_cmd"
    using assms(1,2) by (auto simp: received_def srv_inv_def sizeof_ss_cmd_def split: option.splits)
  from assms(5) obtain r evs where r: "ss_read False (rx s i) (sizeof_ss_cmd - length ?pd) = Inr (r, evs)"
    by (auto simp: handle_client_def Let_def rbind_Inr_iff)
  let ?s = "s\<lparr>partial_data := (partial_data s)(i := Some ?pd), rx := (rx s)(i := evs)\<rparr>"
  have k: "keeps L s ?s" using assms(1) pd by (auto simp: keeps_def srv_inv_def)
  then have inv: "srv_inv L ?s" by (simp add: keeps_def)
  have run: "(case r of None \<Rightarrow> closeConnection i ?s | Some bs \<Rightarrow> handle_bytes i ?pd bs ?s) = Inr s'"
    using assms(5) r by (cases r) (simp_all add: handle_client_def Let_def)
  show ?thesis
  proof (cases r)
    case None
    with run closeConnection_keeps [OF inv assms(3,4)] k show ?thesis by (auto intro: keeps_trans)
  next
    case (Some bs)
    with ss_read_fits [of False "rx s i" _ bs evs] r pd have "length ?pd + length bs \<le> sizeof_ss_cmd"
      by fastforce
    with handle_bytes_keeps [OF inv _ assms(3,4), of ?pd bs s'] run Some k assms(2)
    show ?thesis by (auto intro: keeps_trans)
  qed
qed

lemma acceptConnections_inv:
  assumes "srv_inv L s" and "ANew L \<notin> set evs" and "acceptConnections_loop evs s = Inr (ok, s')"
  shows "srv_inv L s' \<and> curr s' = curr s \<and> srv_sock s' = srv_sock s \<and> work s' = work s \<and>
    set (pending s') \<subseteq> set evs"
  using assms
proof (induction evs arbitrary: s)
  case (Cons e evs)
  show ?case
  proof (cases e)
    case (ANew sd)
    let ?s = "s\<lparr>open_fds := insert sd (open_fds s), main_set := insert sd (main_set s),
      max_sd := (if sd > max_sd s then sd else max_sd s), socket_ctx_map := (socket_ctx_map s)(sd := Some SS_CONNECTED)\<rparr>"
    from Cons.prems(3) ANew have fd: "fd_ok sd" and run: "acceptConnections_loop evs ?s = Inr (ok, s')"
      by (simp_all split: if_splits)
    have "srv_inv L ?s" using Cons.prems(1) fd unfolding srv_inv_def by auto
    from Cons.IH [OF this _ run] Cons.prems(2) show ?thesis by auto
  qed (use Cons.prems in auto)
qed auto

lemma handle_ready_inv:
  assumes "srv_inv L s" and "curr s = -1" and "ANew L \<notin> set (pending s)" and "srv_sock s = L" and "work s"
    and "\<forall>i \<in> set is. fd_ok i" and "handle_ready is s = Inr s'"
  shows "srv_inv L s' \<and> curr s' = -1 \<and> ANew L \<notin> set (pending s') \<and> (work s' \<longrightarrow> srv_sock s' = L)"
  using assms
proof (induction "is" arbitrary: s)
  case (Cons i "is")
  show ?case
  proof (cases "max_sd s < i")
    case True
    with Cons.prems show ?thesis by simp
  next
    case le: False
    show ?thesis
    proof (cases "i = L")
      case True
      with Cons.prems le obtain ok s1 where a: "acceptConnections s = Inr (ok, s1)"
        and rest: "(if ok then handle_ready is s1 else Inr (server_stop (closeServerSocket s1))) = Inr s'"
        by (auto simp: rbind_Inr_iff)
      from acceptConnections_inv [of L s "pending s" ok s1] a Cons.prems(1,3)
      have s1: "srv_inv L s1 \<and> curr s1 = curr s \<and> srv_sock s1 = srv_sock s \<and> work s1 = work s \<and> set (pending s1) \<subseteq> set (pending s)"
        by (simp add: acceptConnections_def)
      show ?thesis
      proof (cases ok)
        case True
        have "ANew L \<notin> set (pending s1)" using s1 Cons.prems(3) by blast
        with Cons.IH [of s1] s1 Cons.prems rest True show ?thesis by simp
      next
        case False
        with rest s1 Cons.prems show ?thesis
          by (auto simp: server_stop_def closeServerSocket_def srv_inv_def split: if_splits)
      qed
    next
      case False
      with Cons.prems le obtain s1 where h: "handle_client i s = Inr s1" "handle_ready is s1 = Inr s'"
        by (auto simp: rbind_Inr_iff)
      from handle_client_keeps [OF Cons.prems(1,2) False _ h(1)] Cons.prems(6)
      have "keeps L s s1" by simp
      with Cons.IH [of s1] Cons.prems h(2) show ?thesis by (simp add: keeps_def)
    qed
  qed
qed simp

text \<open>C8. The set of descriptors the server waits on is always described exactly: through any sequence of
  \<^verbatim>\<open>select\<close> rounds, with any arrivals, commands, partial reads, write errors and closed
  connections, as long as no fault occurs, the listening socket stays in the set, \<^verbatim>\<open>_max_sd\<close> is the
  maximum of the set, every client in it has a context, and no client has a whole command
  buffered.\<close>

theorem server_set_exact:
  assumes "srv_inv L s" and "srv_sock s = L" and "curr s = -1" and "ANew L \<notin> set (pending s)"
    and "server_start evs s = Inr s'"
  shows "srv_inv L s' \<and> L \<in> main_set s' \<and> max_sd s' = Max (main_set s')"
proof -
  have "srv_inv L s'" if "srv_inv L s" "curr s = -1" "ANew L \<notin> set (pending s)" "srv_sock s = L" "work s"
    "serve evs s = Inr s'" for s
    using that
  proof (induction evs arbitrary: s)
    case (Cons e evs)
    show ?case
    proof (cases e)
      case SelErr
      with Cons.prems show ?thesis by (auto simp: closeServerSocket_def srv_inv_def split: if_splits)
    next
      case (SelReady fds)
      let ?is = "filter (\<lambda>i. i \<in> main_set s \<and> i \<le> max_sd s) (sort (remdups fds))"
      from Cons.prems SelReady obtain s1 where s1: "handle_ready ?is s = Inr s1"
        "(if work s1 then serve evs s1 else Inr s1) = Inr s'" by (auto simp: rbind_Inr_iff)
      have "\<forall>i \<in> set ?is. fd_ok i" using Cons.prems(1) by (auto simp: srv_inv_def)
      from handle_ready_inv [OF Cons.prems(1-5) this s1(1)] s1(2) Cons.IH [of s1]
      show ?thesis by (auto split: if_splits)
    qed
  qed simp
  from this [of "s\<lparr>work := True\<rparr>"] assms have inv: "srv_inv L s'"
    by (simp add: server_start_def srv_inv_def)
  moreover have "max_sd s' = Max (main_set s')"
  proof (rule Max_eqI [symmetric])
    have "main_set s' \<subseteq> {0 ..< FD_SETSIZE}" using inv by (auto simp: srv_inv_def fd_ok_def)
    then show "finite (main_set s')" by (rule finite_subset) simp
  qed (use inv in \<open>auto simp: srv_inv_def\<close>)
  ultimately show ?thesis by (simp add: srv_inv_def)
qed

subsection \<open>A server to try things on\<close>

text \<open>Listening on 3, with the clients 4 and 5 connected, client 4 initialised.\<close>

definition demo_server :: SharedServer where
  "demo_server = \<lparr>srv_sock = 3, ctx_map_sock = [], shmid_hash_map = (\<lambda>_. None), ctx_map_hash = (\<lambda>_. None),
     main_set = {3, 4, 5}, max_sd = 5, work = True, shm_index = 0, curr = -1,
     socket_ctx_map = (\<lambda>_. None)(4 := Some SS_INITED, 5 := Some SS_CONNECTED), partial_data = (\<lambda>_. None),
     rings = (\<lambda>_. None),
     segment = (\<lambda>_ _. Some (\<lambda>_. 0, \<lparr>head = 0, tmp_head = 0, tail = 0, tmp_tail = 0, dsize = 0\<rparr>)), pending = [], open_fds = {3, 4, 5},
     rx = (\<lambda>_. []), tx = (\<lambda>_. []), sent = []\<rparr>"

lemma demo_server_inv: "srv_inv 3 demo_server"
  by (simp add: srv_inv_def demo_server_def fd_ok_def FD_SETSIZE_def)

theorem server_set_exact_witness:
  "srv_inv 3 (demo_server\<lparr>main_set := {3, 4}, max_sd := 4, socket_ctx_map := (\<lambda>_. None)(4 := Some SS_INITED),
      open_fds := {3, 4}\<rparr>) \<and>
   Max {3, 4 :: int} = 4"
proof -
  let ?s = "demo_server\<lparr>rx := (\<lambda>_. [])(5 := [RErr])\<rparr>"
  let ?t = "demo_server\<lparr>main_set := {3, 4}, max_sd := 4, socket_ctx_map := (\<lambda>_. None)(4 := Some SS_INITED),
      open_fds := {3, 4}\<rparr>"
  have m: "lower_max {3, 4} 5 = Inr 4"
    by (simp add: lower_max.simps fd_ok_def FD_SETSIZE_def)
  have sets: "{3, 4, 5} - {5 :: int} = {3, 4}" by auto
  have maps: "(\<lambda>_. None)(4 := Some SS_INITED, 5 := None) = ((\<lambda>_. None)(4 := Some SS_INITED) :: int \<Rightarrow> ss_state option)"
    "(\<lambda>_. None)(5 := None) = ((\<lambda>_. None) :: int \<Rightarrow> u8 list option)" "(\<lambda>_. [])(5 := []) = ((\<lambda>_. []) :: int \<Rightarrow> recv_ev list)"
    by auto
  have "server_start [SelReady [5]] ?s = Inr ?t"
    by (simp add: server_start_def demo_server_def handle_client_def received_def ss_read_def
        closeConnection_def fd_ok_def FD_SETSIZE_def Let_def m sets maps)
  moreover have "srv_inv 3 ?s" by (simp add: demo_server_inv)
  moreover have "srv_sock ?s = 3" "curr ?s = -1" "ANew 3 \<notin> set (pending ?s)"
    by (simp_all add: demo_server_def)
  ultimately have "srv_inv 3 ?t \<and> 3 \<in> main_set ?t \<and> max_sd ?t = Max (main_set ?t)"
    by (intro server_set_exact)
  then show ?thesis by simp
qed

subsection \<open>Gathering commands\<close>

text \<open>The bytes of a client, one at a time: what the chunks of the kernel amount to.\<close>

fun feed :: "int \<Rightarrow> u8 list \<Rightarrow> SharedServer \<Rightarrow> SharedServer res" where
  "feed i [] s = Inr s"
| "feed i (b # bs) s = rbind (handle_bytes i (received i s) [b] s) (feed i bs)"

lemma feed_append: "feed i (xs @ ys) s = rbind (feed i xs s) (feed i ys)"
proof (induction xs arbitrary: s)
  case (Cons b xs)
  show ?case
    by (cases "handle_bytes i (received i s) [b] s") (simp_all add: Cons)
qed simp

lemma received_set: "received i (s\<lparr>partial_data := (partial_data s)(i := Some x)\<rparr>) = x"
  by (simp add: received_def)

lemma handle_bytes_set:
  "handle_bytes i pd bs (s\<lparr>partial_data := (partial_data s)(i := Some x)\<rparr>) = handle_bytes i pd bs s"
  by (simp add: handle_bytes_def Let_def)

lemma handle_bytes_short:
  "length pd + length bs < sizeof_ss_cmd \<Longrightarrow>
     handle_bytes i pd bs s = Inr (s\<lparr>partial_data := (partial_data s)(i := Some (pd @ bs))\<rparr>)"
  by (simp add: handle_bytes_def Let_def)

lemma feed_one: "feed i [b] s = handle_bytes i (received i s) [b] s"
  by (cases "handle_bytes i (received i s) [b] s") simp_all

lemma handle_bytes_assoc: "handle_bytes i (pd @ xs) [x] s = handle_bytes i pd (xs @ [x]) s"
  by (simp only: handle_bytes_def append_assoc length_append add.assoc)

text \<open>Bytes that do not complete a command are stored.\<close>

lemma feed_stores:
  assumes "length pd + length xs < sizeof_ss_cmd"
  shows "feed i xs (s\<lparr>partial_data := (partial_data s)(i := Some pd)\<rparr>) =
    Inr (s\<lparr>partial_data := (partial_data s)(i := Some (pd @ xs))\<rparr>)"
  using assms
proof (induction xs rule: rev_induct)
  case (snoc x xs)
  then have "length pd + length xs < sizeof_ss_cmd" by simp
  note IH = snoc.IH [OF this]
  have "handle_bytes i pd (xs @ [x]) s = Inr (s\<lparr>partial_data := (partial_data s)(i := Some (pd @ xs @ [x]))\<rparr>)"
    using snoc.prems by (intro handle_bytes_short) simp
  then show ?case
    by (simp only: IH feed_append rbind_simps feed_one received_set handle_bytes_set handle_bytes_assoc)
qed simp

lemma feed_handles:
  assumes "length pd + length bs \<le> sizeof_ss_cmd" and "bs \<noteq> []"
  shows "handle_bytes i pd bs s = feed i bs (s\<lparr>partial_data := (partial_data s)(i := Some pd)\<rparr>)"
proof -
  obtain xs x where bs: "bs = xs @ [x]" using assms(2) by (metis rev_exhaust)
  with assms(1) have "length pd + length xs < sizeof_ss_cmd" by simp
  from feed_stores [OF this] show ?thesis
    by (simp only: bs feed_append rbind_simps feed_one received_set handle_bytes_set handle_bytes_assoc)
qed

text \<open>C9. Commands are put together from any chunks: when the server serves a ready client, the state it
  reaches is the one reached by taking the client's next bytes one by one, storing each and
  running a command at every 144th; the bytes taken are a prefix of what was sent and the
  rest is still to be read. How the kernel cut the stream does not matter.\<close>

theorem commands_reassembled:
  assumes "handle_client i s = Inr s'" and "partial_data s' i \<noteq> None"
    and "partial_data s i = Some pd" and "length pd < sizeof_ss_cmd"
  shows "\<exists>bs evs. stream (rx s i) = bs @ stream evs \<and>
    feed i bs (s\<lparr>rx := (rx s)(i := evs)\<rparr>) = Inr s'"
proof -
  have pd: "received i s = pd" using assms(3) by (simp add: received_def)
  have same: "(partial_data s)(i := Some pd) = partial_data s" using assms(3) by auto
  from assms(1) obtain r evs where r: "ss_read False (rx s i) (sizeof_ss_cmd - length pd) = Inr (r, evs)"
    by (auto simp: handle_client_def Let_def rbind_Inr_iff pd)
  let ?s = "s\<lparr>rx := (rx s)(i := evs)\<rparr>"
  have run: "(case r of None \<Rightarrow> closeConnection i ?s | Some bs \<Rightarrow> handle_bytes i pd bs ?s) = Inr s'"
    using assms(1) r by (cases r) (simp_all add: handle_client_def Let_def pd same)
  show ?thesis
  proof (cases r)
    case None
    with run have "partial_data s' i = None"
      by (auto simp: closeConnection_def Let_def rbind_Inr_iff split: if_splits)
    with assms(2) show ?thesis by simp
  next
    case (Some bs)
    with read_loop_stream [of False "rx s i" _ "[]" bs evs] r
    have st: "stream (rx s i) = bs @ stream evs" and le: "length bs \<le> sizeof_ss_cmd - length pd"
      by (auto simp: ss_read_def)
    have "handle_bytes i pd bs ?s = feed i bs ?s"
    proof (cases "bs = []")
      case True
      with assms(4) same show ?thesis by (simp add: handle_bytes_def)
    next
      case False
      have "length pd + length bs \<le> sizeof_ss_cmd" using le assms(4) by simp
      with feed_handles [of pd bs i ?s] False same show ?thesis by simp
    qed
    with st run Some show ?thesis by auto
  qed
qed

theorem commands_reassembled_witness:
  "\<exists>bs evs. stream [RData [1, 2], RData [3]] = bs @ stream evs \<and>
     feed 4 bs (demo_server\<lparr>partial_data := (\<lambda>_. None)(4 := Some [9]), rx := (\<lambda>_. [])(4 := evs)\<rparr>) =
     Inr (demo_server\<lparr>partial_data := (\<lambda>_. None)(4 := Some [9, 1, 2, 3]), rx := (\<lambda>_. [])(4 := [])\<rparr>)"
proof -
  let ?s = "demo_server\<lparr>partial_data := (\<lambda>_. None)(4 := Some [9]), rx := (\<lambda>_. [])(4 := [RData [1, 2], RData [3]])\<rparr>"
  have "handle_client 4 ?s = Inr (?s\<lparr>partial_data := (\<lambda>_. None)(4 := Some [9, 1, 2, 3]), rx := (\<lambda>_. [])(4 := [])\<rparr>)"
    by (simp add: handle_client_def received_def ss_read_def handle_bytes_def sizeof_ss_cmd_def text_size_def Let_def)
  from commands_reassembled [OF this, of "[9]"] show ?thesis
    by (simp add: sizeof_ss_cmd_def)
qed

text \<open>A client that greets wrongly makes the server use an erased element: when the first command of
  a connection is an \<^verbatim>\<open>SS_INIT\<close> with another text (and equally when an initialised client sends an
  unknown command), \<^verbatim>\<open>closeConnection\<close> erases the entry of \<^verbatim>\<open>_partial_data\<close> that the loop then
  writes through its iterator.\<close>

theorem spam_uses_erased_entry:
  assumes "srv_inv L s" and "curr s = -1" and "i \<noteq> L" and "i \<in> main_set s" and "received i s = []"
    and "rx s i = RData (cmd_bytes c) # evs" and "length (cmd_text c) = text_size"
    and "(ucast (cmd c) :: u32) = 0 \<and> \<not> is_keyword (cmd_text c) \<or>
      (ucast (cmd c) :: u32) > 6 \<and> socket_ctx_map s i = Some SS_INITED"
  shows "handle_client i s = Inl BadIterator"
proof -
  have fd: "fd_ok i" and i: "i \<noteq> -1" using assms(1,4) by (auto simp: srv_inv_def fd_ok_def)
  have len: "length (cmd_bytes c) = sizeof_ss_cmd"
    using assms(7) by (simp add: length_cmd_bytes sizeof_ss_cmd_def)
  then have ne: "cmd_bytes c \<noteq> []" "0 < sizeof_ss_cmd" by (auto simp: sizeof_ss_cmd_def)
  let ?s = "s\<lparr>rx := (rx s)(i := evs), partial_data := (partial_data s)(i := Some (cmd_bytes c)), curr := i\<rparr>"
  have inv: "srv_inv L ?s"
    using assms(1,2) i by (auto simp: srv_inv_def)
  have "processCommands c ?s = closeConnection i ?s"
  proof (cases "(ucast (cmd c) :: u32) = 0")
    case True
    with assms(8) i show ?thesis by (auto simp: processCommands_def Let_def)
  next
    case False
    with assms(8) have "(ucast (cmd c) :: u32) > 6" "socket_ctx_map s i = Some SS_INITED" by auto
    moreover from this(1) have "(ucast (cmd c) :: u32) \<notin> {0, 3, 4, 5, 6}" by auto
    ultimately show ?thesis using i by (auto simp: processCommands_def Let_def)
  qed
  moreover from closeConnection_keeps [OF inv assms(3) fd] obtain s' where
    "closeConnection i ?s = Inr s'" "partial_data s' i = None" by blast
  ultimately show ?thesis
    using len ne assms(5,6)
    by (simp add: handle_client_def handle_bytes_def ss_read_def Let_def)
qed

theorem spam_uses_erased_entry_witness:
  "handle_client 5 (demo_server\<lparr>rx := (\<lambda>_. [])(5 := [RData (cmd_bytes (plain_cmd SS_INIT 0))])\<rparr>) = Inl BadIterator"
proof (rule spam_uses_erased_entry [where c = "plain_cmd SS_INIT 0" and L = 3])
  show "srv_inv 3 (demo_server\<lparr>rx := (\<lambda>_. [])(5 := [RData (cmd_bytes (plain_cmd SS_INIT 0))])\<rparr>)"
    by (simp add: demo_server_inv)
  have "\<not> is_keyword (replicate text_size 0)" by code_simp
  then show "(ucast (cmd (plain_cmd SS_INIT 0)) :: u32) = 0 \<and> \<not> is_keyword (cmd_text (plain_cmd SS_INIT 0)) \<or>
    (ucast (cmd (plain_cmd SS_INIT 0)) :: u32) > 6 \<and>
    socket_ctx_map (demo_server\<lparr>rx := (\<lambda>_. [])(5 := [RData (cmd_bytes (plain_cmd SS_INIT 0))])\<rparr>) 5 = Some SS_INITED"
    by (simp add: plain_cmd_def)
qed (simp_all add: demo_server_def received_def plain_cmd_def text_size_def)

subsection \<open>Binding and routing\<close>

text \<open>The current client is connected and takes what it is sent.\<close>

definition writable :: "SharedServer \<Rightarrow> bool" where
  "writable s \<longleftrightarrow> curr s \<in> open_fds s \<and> tx s (curr s) = []"

lemma writeData_ok:
  assumes "writable s" and "curr s \<noteq> -1"
  shows "writeData (curr s) c s = Inr (s\<lparr>sent := sent s @ [(curr s, cmd_bytes c)]\<rparr>)"
proof -
  have "write_loop [] [] bs = (int (length bs), bs, [])" if "bs \<noteq> []" for bs
    using that by (cases bs) simp_all
  moreover have "cmd_bytes c \<noteq> []" by (simp add: cmd_bytes_def le64_def le32_def)
  moreover have "(tx s)(curr s := []) = tx s" using assms(1) by (auto simp: writable_def)
  ultimately show ?thesis using assms by (simp add: writeData_def writable_def ss_write_def)
qed

text \<open>What a successful bind does to the tables.\<close>

lemma bindChan_binds:
  assumes "writable s" and "curr s \<noteq> -1" and "find (\<lambda>c. sc_id c = i) (channels (curr s) s) = Some c"
    and "ctx_map_hash s hash = None"
  shows "bindChan i hash s = Inr (True, s\<lparr>ctx_map_hash := (ctx_map_hash s)(hash := Some c),
    shmid_hash_map := emplace i [hash] (shmid_hash_map s),
    sent := sent s @ [(curr s, cmd_bytes (plain_cmd SS_ACK i))]\<rparr>)"
proof -
  let ?s = "s\<lparr>ctx_map_hash := (ctx_map_hash s)(hash := Some c), shmid_hash_map := emplace i [hash] (shmid_hash_map s)\<rparr>"
  have ne: "channels (curr s) s \<noteq> []" using assms(3) by auto
  have "writable ?s" "curr ?s \<noteq> -1" using assms(1,2) by (simp_all add: writable_def)
  from writeData_ok [OF this] have "writeData (curr s) (plain_cmd SS_ACK i) ?s =
    Inr (?s\<lparr>sent := sent s @ [(curr s, cmd_bytes (plain_cmd SS_ACK i))]\<rparr>)" by simp
  with assms(3,4) ne show ?thesis by (simp add: bindChan_def emplace_def [of hash] Let_def)
qed

text \<open>C10. A bound hash routes packets to its channel and no other: after a client binds a free hash to one of
  its write channels, the client has been sent exactly one \<^verbatim>\<open>SS_ACK\<close> with the channel's
  number, a packet with that hash is pushed into the channel's ring, and packets with any other
  hash go where they went before.\<close>

theorem bind_routes:
  assumes "writable s" and "curr s \<noteq> -1" and "find (\<lambda>c. sc_id c = i) (channels (curr s) s) = Some c"
    and "ctx_map_hash s hash = None" and "sc_dir c = SS_WRITE" and "rings s (sc_id c) = Some r"
  shows "\<exists>s'. bindChan i hash s = Inr (True, s') \<and> sent s' = sent s @ [(curr s, cmd_bytes (plain_cmd SS_ACK i))] \<and>
    server_send hash data s' = rbind (scb_push data r) (\<lambda>(ok, r'). Inr (ok, s'\<lparr>rings := (rings s)(i := Some r')\<rparr>)) \<and>
    (h \<noteq> hash \<longrightarrow> ctx_map_hash s' h = ctx_map_hash s h)"
proof -
  have "sc_id c = i" using assms(3) by (auto simp: find_Some_iff)
  with assms(5,6) show ?thesis
    by (simp add: bindChan_binds [OF assms(1-4)] server_send_def sctx_push_def)
qed

definition demo_channel :: SharedCtx where
  "demo_channel = \<lparr>sc_name = ''shm_m_r_0'', sc_id = 0, sc_dir = SS_WRITE\<rparr>"

definition demo_bound :: SharedServer where
  "demo_bound = demo_server\<lparr>curr := 4, ctx_map_sock := [(4, demo_channel)], shm_index := 1,
     rings := (\<lambda>_. None)(0 := Some \<lparr>mem_name = ''m'', mem_set = True, cb = cb_clear demo_ring\<rparr>)\<rparr>"

lemma demo_bound_facts:
  "writable demo_bound" "curr demo_bound \<noteq> -1" "ctx_map_hash demo_bound h = None"
  "find (\<lambda>c. sc_id c = 0) (channels (curr demo_bound) demo_bound) = Some demo_channel"
  by (simp_all add: demo_bound_def demo_server_def writable_def channels_def demo_channel_def)

theorem bind_routes_witness:
  "\<exists>s'. bindChan 0 77 demo_bound = Inr (True, s') \<and>
     server_send 77 [1] s' = rbind (scb_push [1] \<lparr>mem_name = ''m'', mem_set = True, cb = cb_clear demo_ring\<rparr>)
       (\<lambda>(ok, r'). Inr (ok, s'\<lparr>rings := (rings demo_bound)(0 := Some r')\<rparr>)) \<and>
     ctx_map_hash s' 78 = None"
proof -
  have "sc_dir demo_channel = SS_WRITE" by (simp add: demo_channel_def)
  moreover have "rings demo_bound (sc_id demo_channel) = Some \<lparr>mem_name = ''m'', mem_set = True, cb = cb_clear demo_ring\<rparr>"
    by (simp add: demo_bound_def demo_channel_def)
  ultimately show ?thesis
    using bind_routes [OF demo_bound_facts(1,2,4,3), of _ 77 "[1]" 78] demo_bound_facts(3) [of 78] by auto
qed

text \<open>The second hash of a channel outlives the channel: only the first hash bound to a channel is
  remembered with it, because \<^verbatim>\<open>emplace\<close> does not append; after \<^verbatim>\<open>closeChan\<close> the first is
  gone and the second still routes packets to the closed channel.\<close>

theorem second_bind_survives_close:
  assumes "writable s" and "curr s \<noteq> -1" and "find (\<lambda>c. sc_id c = i) (channels (curr s) s) = Some c"
    and "ctx_map_hash s h1 = None" and "ctx_map_hash s h2 = None" and "h1 \<noteq> h2"
    and "shmid_hash_map s i = None"
  shows "\<exists>s1 s2 s3. bindChan i h1 s = Inr (True, s1) \<and> bindChan i h2 s1 = Inr (True, s2) \<and>
    closeChan i s2 = Inr (True, s3) \<and> ctx_map_hash s3 h1 = None \<and> ctx_map_hash s3 h2 = Some c"
proof -
  define s1 where "s1 = s\<lparr>ctx_map_hash := (ctx_map_hash s)(h1 := Some c), shmid_hash_map := (shmid_hash_map s)(i := Some [h1]),
    sent := sent s @ [(curr s, cmd_bytes (plain_cmd SS_ACK i))]\<rparr>"
  have b1: "bindChan i h1 s = Inr (True, s1)"
    using bindChan_binds [OF assms(1-4)] assms(7) by (simp add: s1_def emplace_def)
  define s2 where "s2 = s1\<lparr>ctx_map_hash := (ctx_map_hash s1)(h2 := Some c),
    sent := sent s1 @ [(curr s, cmd_bytes (plain_cmd SS_ACK i))]\<rparr>"
  have "writable s1" "curr s1 \<noteq> -1" "ctx_map_hash s1 h2 = None" "shmid_hash_map s1 i = Some [h1]"
    "find (\<lambda>c. sc_id c = i) (channels (curr s1) s1) = Some c"
    using assms by (auto simp: s1_def writable_def channels_def)
  with bindChan_binds [of s1 i c h2] have b2: "bindChan i h2 s1 = Inr (True, s2)"
    by (simp add: s2_def emplace_def) (simp add: s1_def)
  let ?t = "s2\<lparr>ctx_map_sock := erase_first (curr s2) i (ctx_map_sock s2), ctx_map_hash := (ctx_map_hash s2)(h1 := None),
    shmid_hash_map := (shmid_hash_map s2)(i := None)\<rparr>"
  have "writable ?t" "curr ?t \<noteq> -1" using assms(1,2) by (simp_all add: s2_def s1_def writable_def)
  note w = writeData_ok [OF this, of "plain_cmd SS_ACK i"]
  have "shmid_hash_map s2 i = Some [h1]" by (simp add: s2_def s1_def)
  with w have b3: "closeChan i s2 = Inr (True, ?t\<lparr>sent := sent ?t @ [(curr ?t, cmd_bytes (plain_cmd SS_ACK i))]\<rparr>)"
    by (simp add: closeChan_def Let_def)
  from b1 b2 b3 assms(6) show ?thesis by (auto simp: s2_def)
qed

theorem second_bind_survives_close_witness:
  "\<exists>s1 s2 s3. bindChan 0 77 demo_bound = Inr (True, s1) \<and> bindChan 0 78 s1 = Inr (True, s2) \<and>
    closeChan 0 s2 = Inr (True, s3) \<and> ctx_map_hash s3 77 = None \<and> ctx_map_hash s3 78 = Some demo_channel"
proof (rule second_bind_survives_close [OF demo_bound_facts(1,2,4)])
  show "ctx_map_hash demo_bound 77 = None" by (rule demo_bound_facts(3))
  show "ctx_map_hash demo_bound 78 = None" by (rule demo_bound_facts(3))
qed (simp_all add: demo_bound_def demo_server_def)

text \<open>Any initialised client can unbind another client's hashes: \<^verbatim>\<open>closeChan\<close> looks the channel up among
  the caller's own but forgets the hashes of the number whoever owns it, and answers
  \<^verbatim>\<open>SS_ACK\<close>; the owner keeps the channel and receives no more packets.\<close>

theorem foreign_close_unbinds:
  assumes "writable s" and "curr s \<noteq> -1" and "channels (curr s) s = []"
    and "shmid_hash_map s i = Some [hash]" and "ctx_map_hash s hash = Some c"
  shows "\<exists>s'. closeChan i s = Inr (True, s') \<and> ctx_map_sock s' = ctx_map_sock s \<and>
    server_send hash data s' = Inr (False, s') \<and> sent s' = sent s @ [(curr s, cmd_bytes (plain_cmd SS_ACK i))]"
proof -
  have "erase_first (curr s) i xs = xs" if "filter (\<lambda>(k, _). k = curr s) xs = []" for xs
    using that by (induction xs) (auto split: if_splits)
  then have e: "erase_first (curr s) i (ctx_map_sock s) = ctx_map_sock s"
    using assms(3) by (simp add: channels_def)
  let ?t = "s\<lparr>ctx_map_sock := ctx_map_sock s, ctx_map_hash := (ctx_map_hash s)(hash := None),
    shmid_hash_map := (shmid_hash_map s)(i := None)\<rparr>"
  have "writable ?t" "curr ?t \<noteq> -1" using assms(1,2) by (simp_all add: writable_def)
  from writeData_ok [OF this, of "plain_cmd SS_ACK i"] assms(4) e show ?thesis
    by (simp add: closeChan_def server_send_def Let_def)
qed

theorem foreign_close_unbinds_witness:
  "let s = demo_bound\<lparr>curr := 5, ctx_map_hash := (\<lambda>_. None)(77 := Some demo_channel), shmid_hash_map := (\<lambda>_. None)(0 := Some [77])\<rparr>
   in \<exists>s'. closeChan 0 s = Inr (True, s') \<and> ctx_map_sock s' = ctx_map_sock s \<and>
      server_send 77 [1] s' = Inr (False, s') \<and> sent s' = sent s @ [(curr s, cmd_bytes (plain_cmd SS_ACK 0))]"
  unfolding Let_def
  by (rule foreign_close_unbinds [where c = demo_channel])
     (simp_all add: demo_bound_def demo_server_def writable_def channels_def demo_channel_def)

text \<open>A new client inherits the channels of an old one: closing a connection leaves its channels in
  \<^verbatim>\<open>_ctx_map_sock\<close>, so the next client that is given the same descriptor owns them.\<close>

theorem reused_descriptor_inherits:
  assumes "closeConnection sd s = Inr s1" and "acceptConnections (s1\<lparr>pending := [ANew sd]\<rparr>) = Inr (True, s2)"
  shows "channels sd s2 = channels sd s \<and> ctx_map_hash s2 = ctx_map_hash s \<and>
    socket_ctx_map s2 sd = Some SS_CONNECTED"
  using assms by (auto simp: closeConnection_def acceptConnections_def channels_def Let_def rbind_Inr_iff split: if_splits)

theorem reused_descriptor_inherits_witness:
  "\<exists>s1 s2. closeConnection 4 demo_bound = Inr s1 \<and> acceptConnections (s1\<lparr>pending := [ANew 4]\<rparr>) = Inr (True, s2) \<and>
     channels 4 s2 = [demo_channel]"
proof -
  obtain s1 where c: "closeConnection 4 demo_bound = Inr s1"
    by (simp add: closeConnection_def demo_bound_def demo_server_def fd_ok_def FD_SETSIZE_def)
  obtain s2 where a: "acceptConnections (s1\<lparr>pending := [ANew 4]\<rparr>) = Inr (True, s2)"
    by (simp add: acceptConnections_def fd_ok_def FD_SETSIZE_def)
  have "channels 4 demo_bound = [demo_channel]" by (simp add: demo_bound_def channels_def)
  with reused_descriptor_inherits [OF c a] c a show ?thesis by auto
qed

lemma dec_nonempty: "dec n \<noteq> []"
  by (simp add: dec.simps [of n])

text \<open>A prefix the client may send overflows the server's answer: whenever the segment can be created, a
  request whose prefix has between 120 and 123 characters (which fit the request) makes the name of
  a read channel too long for the 128 bytes of the answer's text.\<close>

theorem long_prefix_overflows_answer:
  assumes "120 \<le> length prefix" and "length prefix \<le> 123" and "0 \<notin> set (chars prefix)"
    and "segment s (''shm_'' @ prefix @ ''_r_'' @ dec (unat (shm_index s))) (if n = 0 then default_shmem_size else unat n) \<noteq> None"
    and "socket_ctx_map s (curr s) = Some SS_INITED" and "curr s \<noteq> -1"
  shows "\<exists>t. newchan_text prefix (ucast (n :: u32)) = Inr t \<and>
    processCommands ((plain_cmd SS_NEWRCHAN 0)\<lparr>cmd_text := t\<rparr>) s = Inl OutOfBounds"
proof -
  have n: "ucast (ucast n :: u64) = n" by (rule bit_word_eqI) (auto simp: bit_simps)
  from newchan_text_parse [OF assms(3), of "ucast n"] assms(2) obtain t where
    t: "newchan_text prefix (ucast n) = Inr t" "c_str (drop 4 t) = Inr prefix" "of_le32 (take 4 t) = n"
    by (auto simp: n)
  obtain m d where seg: "segment s (''shm_'' @ prefix @ ''_r_'' @ dec (unat (shm_index s)))
      (if unat n \<noteq> 0 then unat n else default_shmem_size) = Some (m, d)"
    using assms(4) by (auto simp: unat_eq_0 split: if_splits)
  have "0 < length (dec (unat (shm_index s)))" using dec_nonempty [of "unat (shm_index s)"]
    by simp
  then have "120 < length prefix + length (dec (unat (shm_index s)))" using assms(1) by linarith
  then have "name_ack (''shm_'' @ prefix @ ''_r_'' @ dec (unat (shm_index s))) i = Inl OutOfBounds" for i
    by (simp add: name_ack_def fill_text_def text_size_def)
  with seg have "newRChan prefix (unat n) s = Inl OutOfBounds"
    by (simp add: newRChan_def getShmemIndex_def shared_ctx_def scb_ctor_def Let_def)
  with t assms(5,6) show ?thesis
    by (simp add: processCommands_def plain_cmd_def Let_def)
qed

theorem long_prefix_overflows_answer_witness:
  "\<exists>t. newchan_text (replicate 120 (CHR ''x'')) (ucast (0 :: u32)) = Inr t \<and>
    processCommands ((plain_cmd SS_NEWRCHAN 0)\<lparr>cmd_text := t\<rparr>) demo_bound = Inl OutOfBounds"
proof (rule long_prefix_overflows_answer)
  show "0 \<notin> set (chars (replicate 120 (CHR ''x'')))" by (simp add: chars_def)
qed (simp_all add: demo_bound_def demo_server_def)

end
