(* ===== verification/Control_Protocol.thy ===== *)
theory Control_Protocol
  imports Shared_Server
begin

text \<open>
  The protocol of the control connections (\<^verbatim>\<open>lib/libshared/SharedServer.h\<close> and \<^verbatim>\<open>.cpp\<close>) as a
  machine: what each command of a client does to who has greeted, which channels were granted to whom, and where the packets of a hash
  go. Its inputs are the commands themselves, whole, with the client they came from; in between are only the acceptance of a client and
  the end of a connection that could not be read. Every run of the server's loop is a run of the machine on a log of such events, and
  the log is tied to what arrived: for each descriptor the octets of its events, followed by what is still incomplete or unread, are
  the octets it had to receive, and the clients accepted are those that were waiting, in order.

  A failing answer, a wrong greeting and an unknown command close the connection while its command is being handled, and the
  server then uses an erased entry (\<open>spam_uses_erased_entry\<close>): a run with one of them ends in a fault, not in a state.
\<close>

subsection \<open>The machine\<close>

record control =
  phase :: "int \<Rightarrow> ss_state option"
  granted :: "(int \<times> u64) list"
  route :: "u64 \<Rightarrow> u64 option"
  recorded :: "u64 \<Rightarrow> u64 list option"
  next_id :: u64

text \<open>A client was accepted, a whole command was taken, or the octets read so far were dropped with the connection.\<close>

datatype control_ev = Accepted int | Command int "u8 list" | Dropped int "u8 list"

text \<open>What the octets of a command ask for; \<^verbatim>\<open>(ss_proto)cmd.cmd\<close> keeps the low 32 bits.\<close>

definition asks :: "u8 list \<Rightarrow> ss_proto \<Rightarrow> bool" where
  "asks bs p \<longleftrightarrow> (ucast (cmd (cmd_of bs)) :: u32) = ucast (proto_code p)"

definition greets :: "u8 list \<Rightarrow> bool" where
  "greets bs \<longleftrightarrow> asks bs SS_INIT \<and> is_keyword (cmd_text (cmd_of bs))"

text \<open>Name and size of the segment a request for a channel gets.\<close>

definition wanted_segment :: "u8 list \<Rightarrow> u64 \<Rightarrow> string \<Rightarrow> string \<times> nat" where
  "wanted_segment bs i prefix =
     (let n = unat (of_le32 (take 4 (cmd_text (cmd_of bs))))
      in (if asks bs SS_NEWRCHAN then ''shm_'' @ prefix @ ''_r_'' @ dec (unat i) else ''/dev/shm/'' @ prefix @ ''_w_'' @ dec (unat i),
          if n \<noteq> 0 then n else default_shmem_size))"

definition open_channel :: "(string \<Rightarrow> nat \<Rightarrow> 'm option) \<Rightarrow> int \<Rightarrow> u8 list \<Rightarrow> control \<Rightarrow> control" where
  "open_channel seg sd bs p =
     (case c_str (drop 4 (cmd_text (cmd_of bs))) of
        Inl _ \<Rightarrow> p
      | Inr prefix \<Rightarrow>
          (case wanted_segment bs (next_id p) prefix of (name, n) \<Rightarrow>
             if seg name n = None then p\<lparr>next_id := next_id p + 1\<rparr>
             else p\<lparr>granted := granted p @ [(sd, next_id p)], next_id := next_id p + 1\<rparr>))"

definition bind_hash :: "int \<Rightarrow> u64 \<Rightarrow> u64 \<Rightarrow> control \<Rightarrow> control" where
  "bind_hash sd i h p =
     (if (sd, i) \<in> set (granted p) \<and> route p h = None
      then p\<lparr>route := (route p)(h := Some i), recorded := emplace i [h] (recorded p)\<rparr> else p)"

text \<open>Closing needs no channel of the client's own, because the code does not look for one.\<close>

definition close_channel :: "int \<Rightarrow> u64 \<Rightarrow> control \<Rightarrow> control" where
  "close_channel sd i p =
     p\<lparr>granted := remove1 (sd, i) (granted p),
       route := (\<lambda>h. if h \<in> set (case recorded p i of None \<Rightarrow> [] | Some hs \<Rightarrow> hs) then None else route p h),
       recorded := (recorded p)(i := None)\<rparr>"

text \<open>The hash of a request to bind.\<close>

definition hash_of :: "u8 list \<Rightarrow> u64" where
  "hash_of bs = of_le64 (take 8 (cmd_text (cmd_of bs)))"

fun protocol :: "(string \<Rightarrow> nat \<Rightarrow> 'm option) \<Rightarrow> control_ev \<Rightarrow> control \<Rightarrow> control" where
  "protocol seg (Accepted sd) p = p\<lparr>phase := (phase p)(sd := Some SS_CONNECTED)\<rparr>"
| "protocol seg (Dropped sd _) p = p\<lparr>phase := (phase p)(sd := None)\<rparr>"
| "protocol seg (Command sd bs) p =
     (if asks bs SS_INIT then p\<lparr>phase := (phase p)(sd := if greets bs then Some SS_INITED else None)\<rparr>
      else if phase p sd \<noteq> Some SS_INITED then p
      else if asks bs SS_NEWRCHAN \<or> asks bs SS_NEWWCHAN then open_channel seg sd bs p
      else if asks bs SS_BINDCHAN then bind_hash sd (cmd_id (cmd_of bs)) (hash_of bs) p
      else if asks bs SS_CLOSECHAN then close_channel sd (cmd_id (cmd_of bs)) p
      else p\<lparr>phase := (phase p)(sd := None)\<rparr>)"

subsection \<open>The log\<close>

text \<open>Everything that is on its way to a socket.\<close>

fun octets :: "recv_ev list \<Rightarrow> u8 list" where
  "octets [] = []"
| "octets (RData bs # evs) = bs @ octets evs"
| "octets (_ # evs) = octets evs"

fun arrivals :: "accept_ev list \<Rightarrow> int list" where
  "arrivals [] = []"
| "arrivals (ANew sd # evs) = sd # arrivals evs"
| "arrivals (_ # evs) = arrivals evs"

fun octets_of :: "int \<Rightarrow> control_ev \<Rightarrow> u8 list" where
  "octets_of sd (Accepted _) = []"
| "octets_of sd (Command i bs) = (if i = sd then bs else [])"
| "octets_of sd (Dropped i bs) = (if i = sd then bs else [])"

fun accepted_by :: "control_ev \<Rightarrow> int list" where
  "accepted_by (Accepted sd) = [sd]"
| "accepted_by _ = []"

fun whole :: "control_ev \<Rightarrow> bool" where
  "whole (Command _ bs) = (length bs = sizeof_ss_cmd)"
| "whole _ = True"

text \<open>What a descriptor has still to be served: the incomplete command and what arrives.\<close>

definition inbox :: "int \<Rightarrow> SharedServer \<Rightarrow> u8 list" where
  "inbox sd s = received sd s @ octets (rx s sd)"

definition logged :: "SharedServer \<Rightarrow> control_ev list \<Rightarrow> SharedServer \<Rightarrow> bool" where
  "logged s es s' \<longleftrightarrow> (\<forall>sd. inbox sd s = concat (map (octets_of sd) es) @ inbox sd s') \<and>
     arrivals (pending s) = concat (map accepted_by es) @ arrivals (pending s') \<and> list_all whole es"

subsection \<open>What the machine can have done\<close>

text \<open>The clients that have greeted since they were accepted, from the events alone.\<close>

fun greet_mark :: "control_ev \<Rightarrow> int set \<Rightarrow> int set" where
  "greet_mark (Accepted sd) G = G - {sd}"
| "greet_mark (Dropped sd _) G = G - {sd}"
| "greet_mark (Command sd bs) G =
     (if greets bs then insert sd G
      else if list_ex (asks bs) [SS_NEWRCHAN, SS_NEWWCHAN, SS_BINDCHAN, SS_CLOSECHAN] then G else G - {sd})"

definition has_greeted :: "control_ev list \<Rightarrow> int set" where
  "has_greeted es = fold greet_mark es {}"

lemma has_greeted_simps [simp]:
  "has_greeted [] = {}" "has_greeted (es @ [e]) = greet_mark e (has_greeted es)"
  by (simp_all add: has_greeted_def)

definition fresh :: "control \<Rightarrow> bool" where
  "fresh p \<longleftrightarrow> phase p = (\<lambda>_. None) \<and> granted p = [] \<and> route p = (\<lambda>_. None)"

lemma asks_one: "asks bs p \<Longrightarrow> asks bs q \<Longrightarrow> p = q"
  by (cases p; cases q) (simp_all add: asks_def)

lemma operation_phase [simp]:
  "phase (open_channel seg sd bs p) = phase p" "phase (bind_hash sd i h p) = phase p" "phase (close_channel sd i p) = phase p"
  by (simp_all add: open_channel_def bind_hash_def close_channel_def split: sum.split prod.split)

text \<open>The phases say exactly who has greeted.\<close>

lemma phase_greeted:
  assumes "fresh p"
  shows "phase (fold (protocol seg) es p) sd = Some SS_INITED \<longleftrightarrow> sd \<in> has_greeted es"
proof (induction es arbitrary: sd rule: rev_induct)
  case (snoc e es)
  show ?case
  proof (cases e)
    case (Command i bs)
    have "\<not> asks bs q" if "asks bs SS_INIT" "q \<noteq> SS_INIT" for q using that asks_one by blast
    with Command snoc show ?thesis by (auto simp: greets_def)
  qed (simp_all add: snoc)
qed (use assms in \<open>simp add: fresh_def\<close>)

text \<open>
  A command that was taken while its client had greeted. Where one is looked for, it stays found in every longer log.
\<close>

definition asked :: "(u8 list \<Rightarrow> bool) \<Rightarrow> int \<Rightarrow> (control_ev list \<Rightarrow> bool) \<Rightarrow> control_ev list \<Rightarrow> bool" where
  "asked P sd Q es \<longleftrightarrow> (\<exists>pre bs post. es = pre @ Command sd bs # post \<and> P bs \<and> sd \<in> has_greeted pre \<and> Q pre)"

lemma asked_snoc: "asked P sd Q es \<Longrightarrow> asked P sd Q (es @ [e])"
  unfolding asked_def by (metis append.assoc append_Cons)

lemma asked_now: "sd \<in> has_greeted es \<Longrightarrow> P bs \<Longrightarrow> Q es \<Longrightarrow> asked P sd Q (es @ [Command sd bs])"
  by (auto simp: asked_def)

definition wants_channel :: "u8 list \<Rightarrow> bool" where
  "wants_channel bs \<longleftrightarrow> asks bs SS_NEWRCHAN \<or> asks bs SS_NEWWCHAN"

text \<open>The channel \<open>i\<close> was opened by a request of the client \<open>sd\<close>: it is the number that was next then.\<close>

definition opened_by :: "(string \<Rightarrow> nat \<Rightarrow> 'm option) \<Rightarrow> control \<Rightarrow> u64 \<Rightarrow> int \<Rightarrow> control_ev list \<Rightarrow> bool" where
  "opened_by seg p i sd es = asked wants_channel sd (\<lambda>pre. next_id (fold (protocol seg) pre p) = i) es"

lemma granted_opened:
  assumes "fresh p" and "(sd, i) \<in> set (granted (fold (protocol seg) es p))"
  shows "opened_by seg p i sd es"
  using assms(2)
proof (induction es rule: rev_induct)
  case (snoc e es)
  let ?q = "fold (protocol seg) es p"
  have old: ?case if "(sd, i) \<in> set (granted ?q)"
    using snoc.IH that by (simp add: opened_by_def asked_snoc)
  show ?case
  proof (cases "(sd, i) \<in> set (granted ?q)")
    case new: False
    from snoc.prems have e: "(sd, i) \<in> set (granted (protocol seg e ?q))" by simp
    show ?thesis
    proof (cases e)
      case (Command j bs)
      then have init: "phase ?q j = Some SS_INITED" and chan: "wants_channel bs" and op: "(sd, i) \<in> set (granted (open_channel seg j bs ?q))"
        using e new by (auto simp: bind_hash_def close_channel_def wants_channel_def dest: notin_set_remove1 split: if_splits)
      from op new have "j = sd" "next_id ?q = i"
        by (auto simp: open_channel_def split: sum.splits prod.splits if_splits)
      with init chan Command show ?thesis
        unfolding opened_by_def phase_greeted [OF assms(1)] by (auto intro: asked_now)
    qed (use e new in simp_all)
  qed (rule old)
qed (use assms in \<open>simp add: fresh_def\<close>)

text \<open>
  A request to bind the hash to the channel, after one that opened the channel. The client may have hung up in between
  and a later client of the same descriptor may have bound the channel.
\<close>

definition wants_binding :: "u64 \<Rightarrow> u64 \<Rightarrow> u8 list \<Rightarrow> bool" where
  "wants_binding i h bs \<longleftrightarrow> asks bs SS_BINDCHAN \<and> cmd_id (cmd_of bs) = i \<and> hash_of bs = h"

lemma route_bound:
  assumes "fresh p" and "route (fold (protocol seg) es p) h = Some i"
  shows "\<exists>sd. asked (wants_binding i h) sd (opened_by seg p i sd) es"
  using assms(2)
proof (induction es rule: rev_induct)
  case (snoc e es)
  let ?q = "fold (protocol seg) es p"
  have old: ?case if "route ?q h = Some i"
    using that snoc.IH by (blast intro: asked_snoc)
  show ?case
  proof (cases "route ?q h = Some i")
    case new: False
    from snoc.prems have e: "route (protocol seg e ?q) h = Some i" by simp
    show ?thesis
    proof (cases e)
      case (Command j bs)
      have "route (open_channel seg j bs ?q) = route ?q"
        by (simp add: open_channel_def split: sum.split prod.split)
      then have init: "phase ?q j = Some SS_INITED" and bind: "asks bs SS_BINDCHAN"
        and r: "route (bind_hash j (cmd_id (cmd_of bs)) (hash_of bs) ?q) h = Some i"
        using Command e new by (auto simp: close_channel_def split: if_splits)
      from r new have g: "(j, i) \<in> set (granted ?q)" and b: "wants_binding i h bs"
        using bind by (auto simp: bind_hash_def wants_binding_def split: if_splits)
      have "asked (wants_binding i h) j (opened_by seg p i j) (es @ [Command j bs])"
        using init b granted_opened [OF assms(1) g] unfolding phase_greeted [OF assms(1)] by (rule asked_now)
      with Command show ?thesis by blast
    qed (use e new in simp_all)
  qed (rule old)
qed (use assms in \<open>simp add: fresh_def\<close>)

subsection \<open>The server runs the machine\<close>

definition control_of :: "SharedServer \<Rightarrow> control" where
  "control_of s = \<lparr>phase = socket_ctx_map s, granted = map (\<lambda>(sd, c). (sd, sc_id c)) (ctx_map_sock s),
     route = (\<lambda>h. map_option sc_id (ctx_map_hash s h)), recorded = shmid_hash_map s, next_id = shm_index s\<rparr>"

lemma control_of_frame [simp]:
  "control_of (s\<lparr>main_set := x1\<rparr>) = control_of s" "control_of (s\<lparr>max_sd := x2\<rparr>) = control_of s"
  "control_of (s\<lparr>work := x3\<rparr>) = control_of s" "control_of (s\<lparr>curr := x4\<rparr>) = control_of s"
  "control_of (s\<lparr>partial_data := x5\<rparr>) = control_of s" "control_of (s\<lparr>rings := x6\<rparr>) = control_of s"
  "control_of (s\<lparr>pending := x7\<rparr>) = control_of s" "control_of (s\<lparr>open_fds := x8\<rparr>) = control_of s"
  "control_of (s\<lparr>rx := x9\<rparr>) = control_of s" "control_of (s\<lparr>tx := x10\<rparr>) = control_of s"
  "control_of (s\<lparr>sent := x11\<rparr>) = control_of s" "control_of (s\<lparr>srv_sock := x12\<rparr>) = control_of s"
  by (simp_all add: control_of_def)

lemma control_of_phase [simp]:
  "control_of (s\<lparr>socket_ctx_map := m\<rparr>) = (control_of s)\<lparr>phase := m\<rparr>"
  "phase (control_of s) = socket_ctx_map s" "next_id (control_of s) = shm_index s"
  "control_of (s\<lparr>shm_index := n\<rparr>) = (control_of s)\<lparr>next_id := n\<rparr>"
  by (simp_all add: control_of_def)

text \<open>What a command leaves alone.\<close>

definition same_io :: "SharedServer \<Rightarrow> SharedServer \<Rightarrow> bool" where
  "same_io s s' \<longleftrightarrow> rx s' = rx s \<and> partial_data s' = partial_data s \<and> pending s' = pending s \<and> segment s' = segment s \<and> curr s' = curr s"

lemma same_io_simps [simp]:
  "same_io s s"
  "same_io (s\<lparr>socket_ctx_map := m\<rparr>) s' = same_io s s'" "same_io (s\<lparr>shm_index := n\<rparr>) s' = same_io s s'"
  "same_io (s\<lparr>ctx_map_sock := cs\<rparr>) s' = same_io s s'" "same_io (s\<lparr>ctx_map_hash := h\<rparr>) s' = same_io s s'"
  "same_io (s\<lparr>shmid_hash_map := g\<rparr>) s' = same_io s s'" "same_io (s\<lparr>rings := r\<rparr>) s' = same_io s s'"
  "same_io s (s\<lparr>tx := a, sent := b\<rparr>)"
  by (simp_all add: same_io_def)

lemma closeConnection_control:
  assumes "closeConnection sd s = Inr s'"
  shows "control_of s' = (control_of s)\<lparr>phase := (socket_ctx_map s)(sd := None)\<rparr>" and "curr s' = curr s" and
    "partial_data s' = (partial_data s)(sd := None)" and "rx s' = rx s" and "pending s' = pending s" and "segment s' = segment s"
  using assms by (auto simp: closeConnection_def Let_def rbind_Inr_iff split: if_splits)

text \<open>An answer that does not end the connection changes nothing the machine sees.\<close>

lemma writeData_alive:
  assumes "writeData sd c s = Inr s'" and "partial_data s' sd \<noteq> None"
  shows "control_of s' = control_of s \<and> same_io s s'"
  using assms
  by (auto simp: writeData_def Let_def closeConnection_control(3) split: prod.splits if_splits)

lemma writeData_dead:
  assumes "writeData sd c s = Inr s'" and "partial_data s i = None"
  shows "partial_data s' i = None"
  using assms by (auto simp: writeData_def Let_def closeConnection_control(3) split: prod.splits if_splits)

lemma writeData_curr: "writeData sd c s = Inr s' \<Longrightarrow> curr s' = curr s"
  by (auto simp: writeData_def Let_def closeConnection_control(2) split: prod.splits if_splits)

text \<open>What an operation of a client that has greeted amounts to, unless it ends the connection.\<close>

definition obeys :: "(SharedServer \<Rightarrow> (bool \<times> SharedServer) res) \<Rightarrow> (SharedServer \<Rightarrow> control \<Rightarrow> control) \<Rightarrow> bool" where
  "obeys f g \<longleftrightarrow> (\<forall>s r s'. f s = Inr (r, s') \<and> partial_data s' (curr s) \<noteq> None \<longrightarrow>
     control_of s' = g s (control_of s) \<and> same_io s s')"

lemma control_of_granted:
  "control_of (s\<lparr>ctx_map_sock := cs\<rparr>) = (control_of s)\<lparr>granted := map (\<lambda>(sd, c). (sd, sc_id c)) cs\<rparr>"
  "granted (control_of s) = map (\<lambda>(sd, c). (sd, sc_id c)) (ctx_map_sock s)"
  by (simp_all add: control_of_def)

lemma shared_ctx_result:
  "shared_ctx name i dir n s = (case segment s name n of None \<Rightarrow> Inl Thrown | Some (m, d) \<Rightarrow>
     Inr (\<lparr>sc_name = name, sc_id = i, sc_dir = dir\<rparr>, s\<lparr>rings := (rings s)(i := Some (projr (scb_ctor name n (Some (m, d)))))\<rparr>))"
  by (simp add: shared_ctx_def scb_ctor_def split: option.split prod.split)

lemma newRChan_obeys:
  assumes "c_str (drop 4 (cmd_text (cmd_of bs))) = Inr prefix" and "asks bs SS_NEWRCHAN"
  shows "obeys (newRChan prefix (unat (of_le32 (take 4 (cmd_text (cmd_of bs)))))) (\<lambda>s. open_channel (segment s) (curr s) bs)"
  using assms
  by (auto simp: obeys_def newRChan_def getShmemIndex_def shared_ctx_result Let_def rbind_Inr_iff open_channel_def wanted_segment_def
      control_of_granted split: option.splits dest!: writeData_alive)

lemma newWChan_obeys:
  assumes "c_str (drop 4 (cmd_text (cmd_of bs))) = Inr prefix" and "asks bs SS_NEWWCHAN"
  shows "obeys (newWChan prefix (unat (of_le32 (take 4 (cmd_text (cmd_of bs)))))) (\<lambda>s. open_channel (segment s) (curr s) bs)"
proof -
  have "\<not> asks bs SS_NEWRCHAN" using asks_one [OF assms(2)] by blast
  with assms show ?thesis
    by (auto simp: obeys_def newWChan_def getShmemIndex_def shared_ctx_result Let_def rbind_Inr_iff open_channel_def wanted_segment_def
        control_of_granted split: option.splits dest!: writeData_alive)
qed

lemma channel_granted:
  "(sd, i) \<in> set (granted (control_of s)) \<longleftrightarrow> find (\<lambda>c. sc_id c = i) (channels sd s) \<noteq> None"
  by (force simp: control_of_def channels_def find_None_iff)

lemma bindChan_obeys: "obeys (bindChan i hash) (\<lambda>s. bind_hash (curr s) i hash)"
proof (unfold obeys_def, intro allI impI)
  fix s r s'
  assume A: "bindChan i hash s = Inr (r, s') \<and> partial_data s' (curr s) \<noteq> None"
  show "control_of s' = bind_hash (curr s) i hash (control_of s) \<and> same_io s s'"
  proof (cases "find (\<lambda>c. sc_id c = i) (channels (curr s) s)")
    case None
    then have p: "bind_hash (curr s) i hash (control_of s) = control_of s"
      using channel_granted [of "curr s" i s] by (simp add: bind_hash_def)
    obtain s1 where s1: "(if channels (curr s) s = [] then writeData (curr s) (plain_cmd SS_NACK 0) s else Inr s) = Inr s1"
      "writeData (curr s1) (plain_cmd SS_NACK 0) s1 = Inr s'"
      using A None by (auto simp: bindChan_def Let_def rbind_Inr_iff)
    have c1: "curr s1 = curr s" using s1(1) by (auto split: if_splits dest: writeData_curr)
    then have alive: "partial_data s1 (curr s) \<noteq> None" using writeData_dead [OF s1(2), of "curr s"] A by metis
    have "control_of s1 = control_of s \<and> same_io s s1"
      using s1(1) alive by (auto split: if_splits dest: writeData_alive)
    moreover have "control_of s' = control_of s1 \<and> same_io s1 s'"
      using writeData_alive [OF s1(2)] A c1 by simp
    ultimately show ?thesis using p by (auto simp: same_io_def)
  next
    case (Some c)
    then have id: "sc_id c = i" and ne: "channels (curr s) s \<noteq> []" by (auto simp: find_Some_iff)
    have g: "(curr s, i) \<in> set (granted (control_of s))" using Some channel_granted [of "curr s" i s] by simp
    show ?thesis
    proof (cases "ctx_map_hash s hash = None")
      case True
      let ?s = "s\<lparr>ctx_map_hash := emplace hash c (ctx_map_hash s), shmid_hash_map := emplace i [hash] (shmid_hash_map s)\<rparr>"
      have w: "writeData (curr s) (plain_cmd SS_ACK i) ?s = Inr s'"
        using A Some True ne by (auto simp: bindChan_def Let_def rbind_Inr_iff)
      have "control_of ?s = bind_hash (curr s) i hash (control_of s)"
        using True id g by (auto simp: control_of_def bind_hash_def emplace_def [of hash])
      with writeData_alive [OF w] A show ?thesis by simp
    next
      case False
      then have "bind_hash (curr s) i hash (control_of s) = control_of s" by (auto simp: bind_hash_def control_of_def)
      moreover have "writeData (curr s) (plain_cmd SS_NACK i) s = Inr s'"
        using A Some False ne by (auto simp: bindChan_def Let_def rbind_Inr_iff)
      ultimately show ?thesis using writeData_alive A by fastforce
    qed
  qed
qed

lemma erase_first_granted:
  "map (\<lambda>(sd, c). (sd, sc_id c)) (erase_first sd i xs) = remove1 (sd, i) (map (\<lambda>(sd, c). (sd, sc_id c)) xs)"
  by (induction sd i xs rule: erase_first.induct) auto

lemma foldl_unbind: "foldl (\<lambda>m h. m(h := None)) m hs h = (if h \<in> set hs then None else m h)"
  by (induction hs arbitrary: m) auto

lemma closeChan_obeys: "obeys (closeChan i) (\<lambda>s. close_channel (curr s) i)"
proof (unfold obeys_def, intro allI impI)
  fix s r s'
  assume A: "closeChan i s = Inr (r, s') \<and> partial_data s' (curr s) \<noteq> None"
  let ?hs = "case shmid_hash_map s i of None \<Rightarrow> [] | Some hs \<Rightarrow> hs"
  let ?s = "s\<lparr>ctx_map_sock := erase_first (curr s) i (ctx_map_sock s),
    ctx_map_hash := foldl (\<lambda>m h. m(h := None)) (ctx_map_hash s) ?hs, shmid_hash_map := (shmid_hash_map s)(i := None)\<rparr>"
  have "closeChan i s = rbind (writeData (curr s) (plain_cmd SS_ACK i) ?s) (\<lambda>s. Inr (True, s))"
    by (cases "shmid_hash_map s i") (simp_all add: closeChan_def Let_def)
  with A have w: "writeData (curr s) (plain_cmd SS_ACK i) ?s = Inr s'" by (auto simp: rbind_Inr_iff)
  have "control_of ?s = close_channel (curr s) i (control_of s)"
    by (auto simp: control_of_def close_channel_def erase_first_granted foldl_unbind fun_eq_iff split: option.splits)
  with writeData_alive [OF w] A show "control_of s' = close_channel (curr s) i (control_of s) \<and> same_io s s'" by simp
qed

text \<open>A command is taken as the machine says, if its connection is still there afterwards.\<close>

lemma processCommands_obeys:
  assumes "processCommands (cmd_of bs) s = Inr s'" and "curr s \<noteq> -1" and "partial_data s' (curr s) \<noteq> None"
  shows "control_of s' = protocol (segment s) (Command (curr s) bs) (control_of s) \<and> same_io s s'"
proof -
  have op: "control_of s' = g s (control_of s) \<and> same_io s s'"
    if "obeys f g" "rbind (f s) (\<lambda>(_, s). Inr s) = Inr s'" for f g
    using that assms(3) by (auto simp: obeys_def rbind_Inr_iff)
  have closed: "closeConnection (curr s) s \<noteq> Inr s'" using assms(3) closeConnection_control(3) by fastforce
  note pc = assms(1) [unfolded processCommands_def Let_def]
  show ?thesis
  proof (cases "asks bs SS_INIT")
    case True
    then have w: "is_keyword (cmd_text (cmd_of bs))" and
      "writeData (curr s) (plain_cmd SS_ACK 0) (s\<lparr>socket_ctx_map := (socket_ctx_map s)(curr s := Some SS_INITED)\<rparr>) = Inr s'"
      using pc assms(2) closed by (auto simp: asks_def split: if_splits option.splits)
    from writeData_alive [OF this(2)] assms(3) True w show ?thesis by (simp add: greets_def)
  next
    case init: False
    show ?thesis
    proof (cases "socket_ctx_map s (curr s) = Some SS_INITED")
      case False
      then show ?thesis using pc assms(2) init by (auto simp: asks_def split: option.splits)
    next
      case True
      consider "asks bs SS_NEWRCHAN" | "asks bs SS_NEWWCHAN" | "asks bs SS_BINDCHAN" | "asks bs SS_CLOSECHAN"
        | "\<not> list_ex (asks bs) [SS_NEWRCHAN, SS_NEWWCHAN, SS_BINDCHAN, SS_CLOSECHAN]" by auto
      then show ?thesis
      proof cases
        case 1
        with pc assms(2) init True obtain prefix where "c_str (drop 4 (cmd_text (cmd_of bs))) = Inr prefix"
          "rbind (newRChan prefix (unat (of_le32 (take 4 (cmd_text (cmd_of bs))))) s) (\<lambda>(_, s). Inr s) = Inr s'"
          by (auto simp: asks_def rbind_Inr_iff [of "c_str _"])
        with op [OF newRChan_obeys] 1 init True show ?thesis by simp
      next
        case 2
        then have "\<not> asks bs SS_NEWRCHAN" using asks_one by blast
        with 2 pc assms(2) init True obtain prefix where "c_str (drop 4 (cmd_text (cmd_of bs))) = Inr prefix"
          "rbind (newWChan prefix (unat (of_le32 (take 4 (cmd_text (cmd_of bs))))) s) (\<lambda>(_, s). Inr s) = Inr s'"
          by (auto simp: asks_def rbind_Inr_iff [of "c_str _"])
        with op [OF newWChan_obeys] 2 init True show ?thesis by simp
      next
        case 3
        then have n: "\<not> asks bs SS_NEWRCHAN" "\<not> asks bs SS_NEWWCHAN" using asks_one by blast+
        with 3 pc assms(2) init True have "rbind (bindChan (cmd_id (cmd_of bs)) (hash_of bs) s) (\<lambda>(_, s). Inr s) = Inr s'"
          by (simp add: asks_def hash_of_def)
        with op [OF bindChan_obeys] 3 n init True show ?thesis by simp
      next
        case 4
        then have n: "\<not> asks bs SS_NEWRCHAN" "\<not> asks bs SS_NEWWCHAN" "\<not> asks bs SS_BINDCHAN" using asks_one by blast+
        with 4 pc assms(2) init True have "rbind (closeChan (cmd_id (cmd_of bs)) s) (\<lambda>(_, s). Inr s) = Inr s'"
          by (simp add: asks_def)
        with op [OF closeChan_obeys] 4 n init True show ?thesis by simp
      next
        case 5
        with pc assms(2) init True closed show ?thesis by (simp add: asks_def)
      qed
    qed
  qed
qed

subsection \<open>Runs\<close>

definition runs :: "SharedServer \<Rightarrow> control_ev list \<Rightarrow> SharedServer \<Rightarrow> bool" where
  "runs s es s' \<longleftrightarrow> logged s es s' \<and> control_of s' = fold (protocol (segment s)) es (control_of s) \<and> segment s' = segment s"

lemma runs_Nil:
  "control_of s' = control_of s \<Longrightarrow> segment s' = segment s \<Longrightarrow> (\<And>sd. inbox sd s' = inbox sd s) \<Longrightarrow>
    arrivals (pending s') = arrivals (pending s) \<Longrightarrow> runs s [] s'"
  by (simp add: runs_def logged_def)

lemma runs_append: "runs s es s1 \<Longrightarrow> runs s1 fs s' \<Longrightarrow> runs s (es @ fs) s'"
  by (auto simp: runs_def logged_def)

definition reaches :: "SharedServer \<Rightarrow> SharedServer \<Rightarrow> bool" where
  "reaches s s' \<longleftrightarrow> (\<exists>es. runs s es s')"

lemma reaches_trans: "reaches s s1 \<Longrightarrow> reaches s1 s' \<Longrightarrow> reaches s s'"
  by (auto simp: reaches_def dest: runs_append)

lemma reaches_refl [simp]: "reaches s s"
  unfolding reaches_def by (rule exI [of _ "[]"], rule runs_Nil) simp_all

lemma read_loop_octets:
  "read_loop waits evs need acc = Inr (r, evs') \<Longrightarrow>
    \<exists>x. octets evs = x @ octets evs' \<and> (\<forall>y. r = Some y \<longrightarrow> y = acc @ x)"
proof (induction waits evs need acc rule: read_loop.induct)
  case (4 waits bs evs need acc)
  show ?case
  proof (cases "bs = [] \<or> need = 0")
    case False
    consider "length bs = need" | "need < length bs" | "length bs < need" by linarith
    then show ?thesis
    proof cases
      case 2
      with False 4(2) have "r = Some (acc @ take need bs)" "evs' = RData (drop need bs) # evs" by auto
      then show ?thesis by (intro exI [of _ "take need bs"]) simp
    next
      case 3
      with False 4 obtain x where "octets evs = x @ octets evs'" "\<forall>y. r = Some y \<longrightarrow> y = (acc @ bs) @ x" by auto
      then show ?thesis by (intro exI [of _ "bs @ x"]) simp
    qed (use False 4(2) in auto)
  qed (use 4(2) in auto)
qed (auto split: if_splits)

text \<open>One ready client: nothing yet, a whole command, or the end.\<close>

lemma handle_client_reaches:
  assumes "srv_inv L s" and "curr s = -1" and "i \<noteq> -1" and "handle_client i s = Inr s'"
  shows "reaches s s'"
proof -
  let ?pd = "received i s"
  from assms(4) obtain r evs where r: "ss_read False (rx s i) (sizeof_ss_cmd - length ?pd) = Inr (r, evs)"
    by (auto simp: handle_client_def Let_def rbind_Inr_iff)
  then obtain x where x: "octets (rx s i) = x @ octets evs" "\<And>y. r = Some y \<Longrightarrow> y = x"
    using read_loop_octets unfolding ss_read_def by fastforce
  let ?s = "s\<lparr>partial_data := (partial_data s)(i := Some ?pd), rx := (rx s)(i := evs)\<rparr>"
  have run: "(case r of None \<Rightarrow> closeConnection i ?s | Some bs \<Rightarrow> handle_bytes i ?pd bs ?s) = Inr s'"
    using assms(4) r by (cases r) (simp_all add: handle_client_def Let_def)
  show ?thesis
  proof (cases r)
    case None
    with run have c: "closeConnection i ?s = Inr s'" by simp
    have "runs s [Dropped i (?pd @ x)] s'"
      using closeConnection_control [OF c] x(1) by (auto simp: runs_def logged_def inbox_def received_def)
    then show ?thesis by (auto simp: reaches_def)
  next
    case (Some bs)
    with x(2) have bs: "bs = x" by simp
    show ?thesis
    proof (cases "length ?pd + length x = sizeof_ss_cmd")
      case False
      with run Some bs have "s' = ?s\<lparr>partial_data := (partial_data s)(i := Some (?pd @ x))\<rparr>" by (simp add: handle_bytes_def)
      then have "runs s [] s'" using x(1) by (intro runs_Nil) (auto simp: inbox_def received_def)
      then show ?thesis by (auto simp: reaches_def)
    next
      case True
      let ?t = "?s\<lparr>partial_data := (partial_data s)(i := Some (?pd @ x)), curr := i\<rparr>"
      obtain s4 where s4: "processCommands (cmd_of (?pd @ x)) ?t = Inr s4" "partial_data s4 i \<noteq> None"
        "s' = s4\<lparr>partial_data := (partial_data s4)(i := Some []), curr := -1\<rparr>"
        using run Some bs True by (auto simp: handle_bytes_def rbind_Inr_iff split: if_splits)
      from processCommands_obeys [OF s4(1)] assms(3) s4(2)
      have "control_of s4 = protocol (segment s) (Command i (?pd @ x)) (control_of s)" and io: "same_io ?t s4" by simp_all
      then have "runs s [Command i (?pd @ x)] s'"
        using s4(3) x(1) True by (auto simp: runs_def logged_def same_io_def inbox_def received_def)
      then show ?thesis by (auto simp: reaches_def)
    qed
  qed
qed

lemma acceptConnections_events:
  assumes "acceptConnections_loop evs s = Inr (ok, s')"
  shows "\<exists>es. control_of s' = fold (protocol (segment s)) es (control_of s) \<and> segment s' = segment s \<and> list_all whole es \<and>
    arrivals evs = concat (map accepted_by es) @ arrivals (pending s') \<and> rx s' = rx s \<and> partial_data s' = partial_data s \<and>
    (\<forall>sd. concat (map (octets_of sd) es) = [])"
  using assms
proof (induction evs s rule: acceptConnections_loop.induct)
  case (4 sd evs s)
  then obtain es where "control_of s' = fold (protocol (segment s)) es (protocol (segment s) (Accepted sd) (control_of s))" "segment s' = segment s"
    "list_all whole es" "arrivals evs = concat (map accepted_by es) @ arrivals (pending s')" "rx s' = rx s" "partial_data s' = partial_data s"
    "\<forall>sd. concat (map (octets_of sd) es) = []" by (auto split: if_splits)
  then show ?case by (intro exI [of _ "Accepted sd # es"]) simp
qed (auto intro: exI [of _ "[]"])

lemma acceptConnections_reaches:
  assumes "acceptConnections_loop (pending s) s = Inr (ok, s')"
  shows "reaches s s'"
proof -
  from acceptConnections_events [OF assms] obtain es where "runs s es s'"
    by (auto simp: runs_def logged_def inbox_def received_def)
  then show ?thesis by (auto simp: reaches_def)
qed

lemma stop_reaches [simp]: "reaches s (server_stop (closeServerSocket s))" "reaches s (closeServerSocket s)"
  by (auto simp: server_stop_def closeServerSocket_def reaches_def inbox_def received_def intro!: exI [of _ "[]"] runs_Nil)

lemma handle_ready_reaches:
  assumes "srv_inv L s" and "curr s = -1" and "ANew L \<notin> set (pending s)" and "srv_sock s = L"
    and "\<forall>i \<in> set is. fd_ok i" and "handle_ready is s = Inr s'"
  shows "reaches s s'"
  using assms
proof (induction "is" arbitrary: s)
  case (Cons i "is")
  have fd: "i \<noteq> -1" "fd_ok i" using Cons.prems(5) by (auto simp: fd_ok_def)
  show ?case
  proof (cases "max_sd s < i")
    case True
    with Cons.prems show ?thesis by simp
  next
    case le: False
    show ?thesis
    proof (cases "i = L")
      case True
      with Cons.prems le obtain ok s1 where a: "acceptConnections_loop (pending s) s = Inr (ok, s1)"
        and rest: "(if ok then handle_ready is s1 else Inr (server_stop (closeServerSocket s1))) = Inr s'"
        by (auto simp: acceptConnections_def rbind_Inr_iff)
      have r1: "reaches s s1" using a by (rule acceptConnections_reaches)
      from acceptConnections_inv [OF Cons.prems(1,3) a]
      have "srv_inv L s1" "curr s1 = -1" "srv_sock s1 = L" "ANew L \<notin> set (pending s1)" using Cons.prems by auto
      with Cons.IH [of s1] rest Cons.prems(5) have "reaches s1 s'" by (auto split: if_splits)
      with r1 show ?thesis by (rule reaches_trans)
    next
      case False
      with Cons.prems le obtain s1 where h: "handle_client i s = Inr s1" "handle_ready is s1 = Inr s'"
        by (auto simp: rbind_Inr_iff)
      from handle_client_keeps [OF Cons.prems(1,2) False fd(2) h(1)] have "keeps L s s1" by simp
      with Cons.IH [of s1] Cons.prems h(2) have "reaches s1 s'" by (simp add: keeps_def)
      with handle_client_reaches [OF Cons.prems(1,2) fd(1) h(1)] show ?thesis by (rule reaches_trans)
    qed
  qed
qed simp

lemma serve_reaches:
  assumes "srv_inv L s" and "curr s = -1" and "ANew L \<notin> set (pending s)" and "srv_sock s = L" and "work s" and "serve evs s = Inr s'"
  shows "reaches s s'"
  using assms
proof (induction evs arbitrary: s)
  case (Cons e evs)
  show ?case
  proof (cases e)
    case SelErr
    with Cons.prems show ?thesis by auto
  next
    case (SelReady fds)
    let ?is = "filter (\<lambda>i. i \<in> main_set s \<and> i \<le> max_sd s) (sort (remdups fds))"
    from Cons.prems SelReady obtain s1 where s1: "handle_ready ?is s = Inr s1"
      "(if work s1 then serve evs s1 else Inr s1) = Inr s'" by (auto simp: rbind_Inr_iff)
    have fd: "\<forall>i \<in> set ?is. fd_ok i" using Cons.prems(1) by (auto simp: srv_inv_def)
    have "reaches s1 s'"
      using handle_ready_inv [OF Cons.prems(1-5) fd s1(1)] s1(2) Cons.IH [of s1] by (auto split: if_splits)
    with handle_ready_reaches [OF Cons.prems(1-4) fd s1(1)] show ?thesis by (rule reaches_trans)
  qed
qed simp

lemma server_start_runs:
  assumes "srv_inv L s" and "srv_sock s = L" and "curr s = -1" and "ANew L \<notin> set (pending s)" and "server_start evs s = Inr s'"
  shows "\<exists>es. runs s es s'"
proof -
  have "reaches (s\<lparr>work := True\<rparr>) s'"
    using assms by (intro serve_reaches [of L]) (simp_all add: server_start_def)
  moreover have "runs s [] (s\<lparr>work := True\<rparr>)" by (rule runs_Nil) (simp_all add: inbox_def received_def)
  ultimately show ?thesis by (auto simp: reaches_def dest: runs_append)
qed

subsection \<open>What holds of every run of the server\<close>

text \<open>C11. The server follows its protocol. Started with no client, no channel and no bound hash, and given
  any \<^verbatim>\<open>select\<close> rounds, arrivals and bytes in any pieces, a run without a fault is the run of the machine on a log of
  commands of 144 octets, acceptances and ends of connections in which, for every descriptor, the octets logged
  and those not yet taken are exactly what it had to receive, and the clients accepted are those that were waiting, in
  order. At its end exactly the clients that sent the greeting since they were accepted are
  \<open>SS_INITED\<close>, and every channel has the number that was next when the client it is listed under, having greeted, sent a request
  for one.\<close>

theorem server_follows_protocol:
  assumes "srv_inv L s" and "srv_sock s = L" and "curr s = -1" and "ANew L \<notin> set (pending s)"
    and "fresh (control_of s)" and "server_start evs s = Inr s'"
  shows "\<exists>es. logged s es s' \<and> control_of s' = fold (protocol (segment s)) es (control_of s) \<and>
    (\<forall>sd. socket_ctx_map s' sd = Some SS_INITED \<longleftrightarrow> sd \<in> has_greeted es) \<and>
    list_all (\<lambda>(sd, c). opened_by (segment s) (control_of s) (sc_id c) sd es) (ctx_map_sock s')"
proof -
  from server_start_runs [OF assms(1-4,6)] obtain es where es: "logged s es s'"
    "control_of s' = fold (protocol (segment s)) es (control_of s)" by (auto simp: runs_def)
  have "list_all (\<lambda>(sd, c). opened_by (segment s) (control_of s) (sc_id c) sd es) (ctx_map_sock s')"
    using granted_opened [OF assms(5), of _ _ "segment s" es] unfolding es(2) [symmetric]
    by (force simp: list_all_iff control_of_def)
  moreover have "socket_ctx_map s' sd = Some SS_INITED \<longleftrightarrow> sd \<in> has_greeted es" for sd
    using phase_greeted [OF assms(5), of "segment s" es sd] unfolding es(2) [symmetric] by simp
  ultimately show ?thesis using es by blast
qed

text \<open>C12. A packet leaves only for a channel that was asked for. Whenever, after any such run, a packet with a
  hash is delivered, the commands received hold a request of a client that had greeted to bind this hash to the
  channel, and before it a request for a channel of a client of the same descriptor that had greeted, when the number of the channel
  was the next one; the channel has a ring, and no other ring changes.\<close>

theorem packets_only_to_bound:
  assumes "srv_inv L s" and "srv_sock s = L" and "curr s = -1" and "ANew L \<notin> set (pending s)"
    and "fresh (control_of s)" and "server_start evs s = Inr s'" and "server_send h data s' = Inr (True, s'')"
  shows "\<exists>es sd i. logged s es s' \<and> asked (wants_binding i h) sd (opened_by (segment s) (control_of s) i sd) es \<and>
    rings s' i \<noteq> None \<and> (\<forall>j. j \<noteq> i \<longrightarrow> rings s'' j = rings s' j)"
proof -
  from server_start_runs [OF assms(1-4,6)] obtain es where es: "logged s es s'"
    "control_of s' = fold (protocol (segment s)) es (control_of s)" by (auto simp: runs_def)
  from assms(7) obtain c where c: "ctx_map_hash s' h = Some c" "sctx_push c data s' = Inr (True, s'')"
    by (auto simp: server_send_def split: option.splits if_splits)
  then have "route (control_of s') h = Some (sc_id c)" by (simp add: control_of_def)
  from route_bound [OF assms(5) this [unfolded es(2)]] obtain sd where
    "asked (wants_binding (sc_id c) h) sd (opened_by (segment s) (control_of s) (sc_id c) sd) es" ..
  moreover from c(2) have "rings s' (sc_id c) \<noteq> None \<and> (\<forall>j. j \<noteq> sc_id c \<longrightarrow> rings s'' j = rings s' j)"
    by (auto simp: sctx_push_def rbind_Inr_iff split: if_splits option.splits)
  ultimately show ?thesis using es(1) by blast
qed

subsection \<open>A run\<close>

text \<open>One command in one piece, alone in its round.\<close>

lemma command_round:
  assumes "received i s = []" and "rx s i = RData (cmd_bytes x) # evs" and "length (cmd_text x) = text_size"
    and "processCommands x (s\<lparr>rx := (rx s)(i := evs), partial_data := (partial_data s)(i := Some (cmd_bytes x)), curr := i\<rparr>) = Inr t"
    and "partial_data t i \<noteq> None" and "i \<noteq> srv_sock s" and "i \<in> main_set s" and "i \<le> max_sd s" and "work t"
  shows "serve (SelReady [i] # rounds) s = serve rounds (t\<lparr>partial_data := (partial_data t)(i := Some []), curr := -1\<rparr>)"
proof -
  have len: "length (cmd_bytes x) = sizeof_ss_cmd" using assms(3) by (simp add: length_cmd_bytes sizeof_ss_cmd_def)
  have ne: "cmd_bytes x \<noteq> []" by (simp add: cmd_bytes_def le64_def le32_def)
  have "handle_client i s = Inr (t\<lparr>partial_data := (partial_data t)(i := Some []), curr := -1\<rparr>)"
    using assms(1-5) len ne
    by (simp add: handle_client_def ss_read_def handle_bytes_def Let_def sizeof_ss_cmd_def)
  with assms(6-9) show ?thesis by simp
qed

text \<open>An answer to an open connection that takes everything.\<close>

lemma whole_answer:
  assumes "i \<noteq> -1" and "i \<in> open_fds s" and "tx s = (\<lambda>_. [])"
  shows "writeData i c s = Inr (s\<lparr>sent := sent s @ [(i, cmd_bytes c)]\<rparr>)"
proof -
  have "cmd_bytes c \<noteq> []" by (simp add: cmd_bytes_def le64_def le32_def)
  then have "ss_write i [] (cmd_bytes c) = (int (length (cmd_bytes c)), cmd_bytes c, [])"
    using assms(1) by (cases "cmd_bytes c") (simp_all add: ss_write_def)
  moreover have "(tx s)(i := []) = tx s" using assms(3) by auto
  ultimately show ?thesis using assms(2,3) by (simp add: writeData_def)
qed

text \<open>
  A server listening on 3. Client 6 connects, greets, opens a read channel of 2000 bytes and
  binds the hash 77 to it, each command in its own round.
\<close>

definition hello :: ss_cmd where
  "hello = (plain_cmd SS_INIT 0)\<lparr>cmd_text := chars ''hi!'' @ replicate 125 0\<rparr>"

definition want_channel :: ss_cmd where
  "want_channel = (plain_cmd SS_NEWRCHAN 0)\<lparr>cmd_text := le32 2000 @ chars ''t'' @ replicate 123 0\<rparr>"

definition want_hash :: ss_cmd where
  "want_hash = (plain_cmd SS_BINDCHAN 0)\<lparr>cmd_text := le64 77 @ replicate 120 0\<rparr>"

definition listening :: SharedServer where
  "listening = demo_server\<lparr>main_set := {3}, max_sd := 3, socket_ctx_map := (\<lambda>_. None), open_fds := {3}, pending := [ANew 6],
     rx := (\<lambda>_. [])(6 := [RData (cmd_bytes hello), RData (cmd_bytes want_channel), RData (cmd_bytes want_hash)])\<rparr>"

lemma listening_fresh: "fresh (control_of listening)"
  by (simp add: fresh_def control_of_def listening_def demo_server_def)

definition greeting_done :: SharedServer where
  "greeting_done = listening\<lparr>main_set := {3, 6}, max_sd := 6, socket_ctx_map := (\<lambda>_. None)(6 := Some SS_INITED),
     open_fds := {3, 6}, pending := [], rx := (\<lambda>_. [])(6 := [RData (cmd_bytes want_channel), RData (cmd_bytes want_hash)]),
     partial_data := (\<lambda>_. None)(6 := Some []), sent := [(6, cmd_bytes (plain_cmd SS_ACK 0))]\<rparr>"

lemma greeting_runs: "serve (SelReady [3] # SelReady [6] # rounds) listening = serve rounds greeting_done"
proof -
  let ?s = "listening\<lparr>main_set := {3, 6}, max_sd := 6, socket_ctx_map := (\<lambda>_. None)(6 := Some SS_CONNECTED),
    open_fds := {3, 6}, pending := []\<rparr>"
  let ?t = "greeting_done\<lparr>curr := 6, partial_data := (\<lambda>_. None)(6 := Some (cmd_bytes hello))\<rparr>"
  have sets: "insert 6 {3} = {3, 6 :: int}" by auto
  have "is_keyword (cmd_text hello)" "cmd hello = 0" "length (cmd_text hello) = text_size" by code_simp+
  note hello = this
  have "serve (SelReady [3] # SelReady [6] # rounds) listening = serve (SelReady [6] # rounds) ?s"
    by (simp add: listening_def demo_server_def acceptConnections_def fd_ok_def FD_SETSIZE_def sets)
  also have "\<dots> = serve rounds (?t\<lparr>partial_data := (partial_data ?t)(6 := Some []), curr := -1\<rparr>)"
  proof (rule command_round [where x = hello])
    show "processCommands hello (?s\<lparr>rx := (rx ?s)(6 := [RData (cmd_bytes want_channel), RData (cmd_bytes want_hash)]),
      partial_data := (partial_data ?s)(6 := Some (cmd_bytes hello)), curr := 6\<rparr>) = Inr ?t"
      using hello by (simp add: processCommands_def whole_answer listening_def demo_server_def greeting_done_def)
  qed (simp_all add: hello listening_def demo_server_def greeting_done_def received_def)
  also have "?t\<lparr>partial_data := (partial_data ?t)(6 := Some []), curr := -1\<rparr> = greeting_done"
    by (simp add: greeting_done_def listening_def demo_server_def)
  finally show ?thesis .
qed

definition demo_ctx :: SharedCtx where
  "demo_ctx = \<lparr>sc_name = ''shm_t_r_0'', sc_id = 0, sc_dir = SS_WRITE\<rparr>"

definition new_ring_of :: SharedCircularBuffer where
  "new_ring_of = projr (scb_ctor ''shm_t_r_0'' 2000 (segment demo_server ''shm_t_r_0'' 2000))"

lemma new_ring: "scb_ctor ''shm_t_r_0'' 2000 (segment demo_server ''shm_t_r_0'' 2000) = Inr new_ring_of"
  by (simp add: new_ring_of_def scb_ctor_def demo_server_def)

definition channel_done :: SharedServer where
  "channel_done = greeting_done\<lparr>shm_index := 1, ctx_map_sock := [(6, demo_ctx)], rings := (\<lambda>_. None)(0 := Some new_ring_of),
     rx := (\<lambda>_. [])(6 := [RData (cmd_bytes want_hash)]),
     sent := [(6, cmd_bytes (plain_cmd SS_ACK 0)), (6, cmd_bytes (projr (name_ack ''shm_t_r_0'' 0)))]\<rparr>"

lemma channel_runs: "serve (SelReady [6] # rounds) greeting_done = serve rounds channel_done"
proof -
  let ?t = "channel_done\<lparr>curr := 6, partial_data := (\<lambda>_. None)(6 := Some (cmd_bytes want_channel))\<rparr>"
  have dec0: "dec 0 = ''0''" by code_simp
  have "cmd want_channel = 3" "length (cmd_text want_channel) = text_size" "c_str (drop 4 (cmd_text want_channel)) = Inr ''t''"
    "unat (of_le32 (take 4 (cmd_text want_channel))) = 2000" by code_simp+
  note chan = this
  obtain a where a: "name_ack ''shm_t_r_0'' 0 = Inr a"
    by (simp add: name_ack_def fill_text_def text_size_def chars_def)
  have "serve (SelReady [6] # rounds) greeting_done = serve rounds (?t\<lparr>partial_data := (partial_data ?t)(6 := Some []), curr := -1\<rparr>)"
  proof (rule command_round [where x = want_channel])
    show "processCommands want_channel (greeting_done\<lparr>rx := (rx greeting_done)(6 := [RData (cmd_bytes want_hash)]),
      partial_data := (partial_data greeting_done)(6 := Some (cmd_bytes want_channel)), curr := 6\<rparr>) = Inr ?t"
      using chan new_ring a
      by (simp add: processCommands_def newRChan_def getShmemIndex_def shared_ctx_def dec0 whole_answer demo_ctx_def
          greeting_done_def listening_def channel_done_def demo_server_def)
  qed (simp_all add: chan channel_done_def greeting_done_def listening_def demo_server_def received_def)
  also have "?t\<lparr>partial_data := (partial_data ?t)(6 := Some []), curr := -1\<rparr> = channel_done"
    by (simp add: channel_done_def greeting_done_def listening_def demo_server_def)
  finally show ?thesis .
qed

definition binding_done :: SharedServer where
  "binding_done = channel_done\<lparr>ctx_map_hash := (\<lambda>_. None)(77 := Some demo_ctx), shmid_hash_map := (\<lambda>_. None)(0 := Some [77]),
     rx := (\<lambda>_. []), sent := sent channel_done @ [(6, cmd_bytes (plain_cmd SS_ACK 0))]\<rparr>"

lemma binding_runs: "serve (SelReady [6] # rounds) channel_done = serve rounds binding_done"
proof -
  let ?t = "binding_done\<lparr>curr := 6, partial_data := (\<lambda>_. None)(6 := Some (cmd_bytes want_hash))\<rparr>"
  have "cmd want_hash = 5" "length (cmd_text want_hash) = text_size" "of_le64 (take 8 (cmd_text want_hash)) = 77"
    "cmd_id want_hash = 0" by code_simp+
  note bind = this
  have rx: "(\<lambda>_. [])(6 := []) = ((\<lambda>_. []) :: int \<Rightarrow> recv_ev list)" by auto
  have "serve (SelReady [6] # rounds) channel_done = serve rounds (?t\<lparr>partial_data := (partial_data ?t)(6 := Some []), curr := -1\<rparr>)"
  proof (rule command_round [where x = want_hash])
    show "processCommands want_hash (channel_done\<lparr>rx := (rx channel_done)(6 := []),
      partial_data := (partial_data channel_done)(6 := Some (cmd_bytes want_hash)), curr := 6\<rparr>) = Inr ?t"
      using bind
      by (simp add: processCommands_def bindChan_def channels_def emplace_def rx whole_answer demo_ctx_def
          binding_done_def greeting_done_def listening_def channel_done_def demo_server_def)
  qed (simp_all add: bind binding_done_def channel_done_def greeting_done_def listening_def demo_server_def received_def)
  also have "?t\<lparr>partial_data := (partial_data ?t)(6 := Some []), curr := -1\<rparr> = binding_done"
    by (simp add: binding_done_def channel_done_def greeting_done_def listening_def demo_server_def)
  finally show ?thesis .
qed

lemma served: "server_start [SelReady [3], SelReady [6], SelReady [6], SelReady [6]] listening = Inr binding_done"
proof -
  have "listening\<lparr>work := True\<rparr> = listening" by (simp add: listening_def demo_server_def)
  then show ?thesis by (simp add: server_start_def greeting_runs channel_runs binding_runs del: serve.simps(3))
qed

lemma listening_inv: "srv_inv 3 listening" "srv_sock listening = 3" "curr listening = -1" "ANew 3 \<notin> set (pending listening)"
  by (simp_all add: listening_def srv_inv_def demo_server_def fd_ok_def FD_SETSIZE_def)

theorem server_follows_protocol_witness:
  "\<exists>es. logged listening es binding_done \<and> 6 \<in> has_greeted es \<and> opened_by (segment listening) (control_of listening) 0 6 es"
proof -
  have "socket_ctx_map binding_done 6 = Some SS_INITED" "ctx_map_sock binding_done = [(6, demo_ctx)]"
    by (simp_all add: binding_done_def channel_done_def greeting_done_def)
  with server_follows_protocol [OF listening_inv listening_fresh served] show ?thesis by (auto simp: demo_ctx_def)
qed

theorem packets_only_to_bound_witness:
  "\<exists>s es sd. server_send 77 [1, 2] binding_done = Inr (True, s) \<and> logged listening es binding_done \<and>
     asked (wants_binding 0 77) sd (opened_by (segment listening) (control_of listening) 0 sd) es"
proof -
  have "fst (write1 [1, 2] (cb new_ring_of))"
    by (simp add: new_ring_of_def scb_ctor_def demo_server_def cb_clear_def cb_set_def cb_payload_size_def sizeof_descriptor_def write1_def
        int_cast_eq split: prod.splits)
  moreover have "mem_set new_ring_of" by (simp add: new_ring_of_def scb_ctor_def demo_server_def)
  ultimately have "\<exists>r. scb_push [1, 2] new_ring_of = Inr (True, r)"
    by (cases "write1 [1, 2] (cb new_ring_of)") (simp add: scb_push_def)
  then obtain s where s: "server_send 77 [1, 2] binding_done = Inr (True, s)"
    by (auto simp: server_send_def sctx_push_def binding_done_def demo_ctx_def channel_done_def)
  have "i = 0" if "rings binding_done i \<noteq> None" for i
    using that by (simp add: binding_done_def channel_done_def split: if_splits)
  with packets_only_to_bound [OF listening_inv listening_fresh served s] s show ?thesis by blast
qed

end
