(* ===== verification/Example_Session.thy ===== *)
theory Example_Session
  imports Shared_Server
begin

text \<open>
  \<^verbatim>\<open>app/example.cpp\<close>: the client that asks the server for a channel, binds it to a flow hash and prints what comes
  through it, run against the server of \<open>Shared_Server\<close>.

  Between the two stands the network: what the client has written arrives at the server's socket \<open>i\<close> as one
  segment, the server serves the client, and what it has written to \<open>i\<close> arrives at the client. The
  checksum of \<^verbatim>\<open>boost::crc_32_type\<close> is the parameter \<open>crc\<close>.
\<close>

subsection \<open>The session\<close>

definition deliver :: "int \<Rightarrow> client \<times> SharedServer \<Rightarrow> (client \<times> SharedServer) res" where
  "deliver i = (\<lambda>(c, s).
     rbind (handle_client i (s\<lparr>rx := (rx s)(i := rx s i @ [RData (c_out c)])\<rparr>)) (\<lambda>s'.
       let answers = concat (map snd (filter (\<lambda>(k, _). k = i) (drop (length (sent s)) (sent s'))))
       in Inr (c\<lparr>c_out := [], c_rx := c_rx c @ [RData answers]\<rparr>, s')))"

text \<open>A request and the wait for its answer; the result of the request is not looked at.\<close>

definition request :: "(client \<Rightarrow> (bool \<times> client) res) \<Rightarrow> int \<Rightarrow> client \<times> SharedServer \<Rightarrow> (ss_cmd option \<times> client \<times> SharedServer) res" where
  "request send i = (\<lambda>(c, s).
     rbind (send c) (\<lambda>(_, c). rbind (deliver i (c, s)) (\<lambda>(c, s). rbind (client_waitAck c) (\<lambda>(a, c). Inr (a, c, s)))))"

text \<open>\<^verbatim>\<open>waitAck\<close> leaves \<^verbatim>\<open>cmd\<close> as it was when it fails; \<open>old\<close> is what the variable holds before.\<close>

definition answer :: "ss_cmd option \<Rightarrow> ss_cmd \<Rightarrow> ss_cmd" where
  "answer a old = (case a of None \<Rightarrow> old | Some c \<Rightarrow> c)"

definition example_session :: "int \<Rightarrow> ss_cmd \<Rightarrow> client \<times> SharedServer \<Rightarrow> (u64 \<times> string \<times> client \<times> SharedServer) res" where
  "example_session i old cs =
     rbind (request client_init i cs) (\<lambda>(a, cs).
     let cmd = answer a old
     in rbind (request (client_newRChan ''test'' 10001) i cs) (\<lambda>(a, cs).
        let cmd = answer a cmd; id = cmd_id cmd
        in rbind (c_str (cmd_text cmd)) (\<lambda>shmem_name.
           rbind (request (client_bindChan id 101) i cs) (\<lambda>(a, cs). Inr (id, shmem_name, cs)))))"

text \<open>The ring the example opens: the segment of that name, found, not created.\<close>

definition example_open :: "string \<Rightarrow> SharedServer \<Rightarrow> SharedCircularBuffer res" where
  "example_open shmem_name s = scb_ctor shmem_name 10001 (segment s shmem_name 10001)"

subsection \<open>The data\<close>

text \<open>
  \<open>limit\<close> is the end of the memory the process can read. The number of bytes for the checksum is a difference of
  \<^verbatim>\<open>size_t\<close>. The result is whether the checksum matches.
\<close>

definition handleData :: "(u8 list \<Rightarrow> u32) \<Rightarrow> nat \<Rightarrow> mem \<Rightarrow> nat \<Rightarrow> nat \<Rightarrow> bool res" where
  "handleData crc limit m data len =
     (if data + 4 > limit then Inl OutOfBounds
      else let checksum = ld32 m data; n = (len + 2 ^ 64 - 4) mod 2 ^ 64
           in if data + 4 + n > limit then Inl OutOfBounds else Inr (crc (slice m (data + 4) n) = checksum))"

text \<open>The difference over the integers, for evaluation.\<close>

lemma handleData_code [code]:
  "handleData crc limit m data len =
     (if data + 4 > limit then Inl OutOfBounds
      else let n = (int len - 4) mod 2 ^ 64
           in if int data + 4 + n > int limit then Inl OutOfBounds else Inr (crc (slice m (data + 4) (nat n)) = ld32 m data))"
proof -
  have "int ((len + 2 ^ 64 - 4) mod 2 ^ 64) = (int len - 4 + 2 ^ 64) mod 2 ^ 64"
    by (simp add: zmod_int of_nat_diff algebra_simps)
  then have "int ((len + 2 ^ 64 - 4) mod 2 ^ 64) = (int len - 4) mod 2 ^ 64" by (simp only: mod_add_self2)
  then have "(len + 2 ^ 64 - 4) mod 2 ^ 64 = nat ((int len - 4) mod 2 ^ 64)" by linarith
  moreover have "0 \<le> (int len - 4) mod 2 ^ 64" by simp
  ultimately show ?thesis by (auto simp: handleData_def Let_def)
qed

text \<open>What a thread does in one round when no other thread runs: \<open>None\<close> when there is nothing to read.\<close>

definition consume :: "(u8 list \<Rightarrow> u32) \<Rightarrow> nat \<Rightarrow> SharedCircularBuffer \<Rightarrow> (bool option \<times> SharedCircularBuffer) res" where
  "consume crc limit r =
     rbind (scb_pop r) (\<lambda>(x, r). case x of None \<Rightarrow> Inr (None, r)
       | Some (data, len) \<Rightarrow> rbind (handleData crc limit (buffer (cb r)) data len) (\<lambda>ok. Inr (Some ok, r)))"

definition BASE_PORT :: u16 where "BASE_PORT = 10105"

text \<open>\<^verbatim>\<open>main\<close> up to the start of its threads: the ring they all pop from; the result of \<open>create\<close> is not looked at.\<close>

definition example_main :: "(string \<Rightarrow> u32 option) \<Rightarrow> int \<Rightarrow> (u16 \<times> u32 \<Rightarrow> bool) \<Rightarrow> int \<Rightarrow> ss_cmd
    \<Rightarrow> client \<times> SharedServer \<Rightarrow> SharedCircularBuffer res" where
  "example_main pton fd linked i old = (\<lambda>(c, s).
     let (_, c) = client_create pton fd linked ''127.0.0.1'' BASE_PORT c
     in rbind (example_session i old (c, s)) (\<lambda>(id, shmem_name, c, s). example_open shmem_name s))"

subsection \<open>One request\<close>

text \<open>The client and the server's end of its connection, with nothing on the way.\<close>

definition client_ready :: "client \<Rightarrow> bool" where
  "client_ready c \<longleftrightarrow> c_sock c \<noteq> -1 \<and> c_tx c = [] \<and> c_out c = [] \<and> c_rx c = []"

definition link_ready :: "int \<Rightarrow> SharedServer \<Rightarrow> bool" where
  "link_ready i s \<longleftrightarrow> i \<noteq> -1 \<and> i \<in> open_fds s \<and> tx s i = [] \<and> rx s i = [] \<and> received i s = []"

lemma cmd_bytes_nonempty: "cmd_bytes c \<noteq> []"
  by (simp add: cmd_bytes_def le64_def le32_def)

lemma client_send_ready:
  assumes "client_ready c"
  shows "client_send x c = (True, c\<lparr>c_out := cmd_bytes x\<rparr>)"
proof -
  obtain b bs where "cmd_bytes x = b # bs" using cmd_bytes_nonempty by (cases "cmd_bytes x") auto
  moreover have "c\<lparr>c_tx := []\<rparr> = c" using assms by (simp add: client_ready_def)
  ultimately show ?thesis using assms by (simp add: client_send_def ss_write_def client_ready_def)
qed

lemma waitAck_ready:
  assumes "client_ready c" and "length (cmd_text a) = text_size"
  shows "client_waitAck (c\<lparr>c_rx := [RData (cmd_bytes a)]\<rparr>) = Inr (Some a, c)"
proof -
  have "length (cmd_bytes a) = sizeof_ss_cmd" using assms(2) by (simp add: length_cmd_bytes sizeof_ss_cmd_def)
  moreover have "c\<lparr>c_rx := []\<rparr> = c" using assms(1) by (simp add: client_ready_def)
  ultimately show ?thesis
    using cmd_bytes_nonempty [of a] by (simp add: client_waitAck_def ss_read_def sizeof_ss_cmd_def)
qed

text \<open>The server's state when it has taken a command and answered it.\<close>

definition answered :: "int \<Rightarrow> ss_cmd \<Rightarrow> SharedServer \<Rightarrow> SharedServer" where
  "answered i a s = s\<lparr>partial_data := (partial_data s)(i := Some []), curr := -1, sent := sent s @ [(i, cmd_bytes a)]\<rparr>"

definition taking :: "int \<Rightarrow> ss_cmd \<Rightarrow> SharedServer \<Rightarrow> SharedServer" where
  "taking i x s = s\<lparr>partial_data := (partial_data s)(i := Some (cmd_bytes x)), curr := i\<rparr>"

lemma request_answered:
  assumes "client_ready c" and "link_ready i s" and "length (cmd_text x) = text_size" and "length (cmd_text a) = text_size"
    and "send c = Inr (True, c\<lparr>c_out := cmd_bytes x\<rparr>)"
    and "processCommands x (taking i x s) = Inr ((taking i x t)\<lparr>sent := sent s @ [(i, cmd_bytes a)]\<rparr>)"
    and "sent t = sent s" and "partial_data t = partial_data s"
  shows "request send i (c, s) = Inr (Some a, c, answered i a t)"
proof -
  have len: "length (cmd_bytes x) = sizeof_ss_cmd" using assms(3) by (simp add: length_cmd_bytes sizeof_ss_cmd_def)
  have rx: "(rx s)(i := []) = rx s" using assms(2) by (auto simp: link_ready_def)
  have pd: "received i (s\<lparr>rx := r\<rparr>) = []" for r using assms(2) by (simp add: link_ready_def received_def)
  have "handle_client i (s\<lparr>rx := (rx s)(i := [RData (cmd_bytes x)])\<rparr>) =
      handle_bytes i [] (cmd_bytes x) (s\<lparr>partial_data := (partial_data s)(i := Some []), rx := rx s\<rparr>)"
    using cmd_bytes_nonempty [of x] len pd rx by (simp add: handle_client_def ss_read_def Let_def sizeof_ss_cmd_def)
  also have "\<dots> = rbind (processCommands x (taking i x s)) (\<lambda>s. if partial_data s i = None then Inl BadIterator
      else Inr (s\<lparr>partial_data := (partial_data s)(i := Some []), curr := -1\<rparr>))"
    using len by (simp add: handle_bytes_def taking_def Let_def)
  also have "\<dots> = Inr (answered i a t)"
    using assms(6,7) by (simp add: taking_def answered_def)
  finally have "handle_client i (s\<lparr>rx := (rx s)(i := rx s i @ [RData (cmd_bytes x)])\<rparr>) = Inr (answered i a t)"
    using assms(2) by (simp add: link_ready_def)
  moreover have "c\<lparr>c_out := []\<rparr> = c" "c_rx c = []" using assms(1) by (simp_all add: client_ready_def)
  ultimately show ?thesis
    using waitAck_ready [OF assms(1,4)] assms(5,7) by (simp add: request_def deliver_def answered_def)
qed

subsection \<open>The three requests\<close>

lemma taking_write:
  assumes "link_ready i s" and "open_fds t = open_fds s" and "tx t = tx s" and "sent t = sent s"
  shows "writeData i a (taking i x t) = Inr ((taking i x t)\<lparr>sent := sent s @ [(i, cmd_bytes a)]\<rparr>)"
proof -
  have "writable (taking i x t)" "curr (taking i x t) \<noteq> -1"
    using assms by (simp_all add: writable_def taking_def link_ready_def)
  from writeData_ok [OF this, of a] assms(4) show ?thesis by (simp add: taking_def)
qed

lemma plain_text [simp]: "length (cmd_text (plain_cmd p i)) = text_size" "cmd_id (plain_cmd p i) = i" "cmd (plain_cmd p i) = proto_code p"
  by (simp_all add: plain_cmd_def)

lemma proto_words [simp]:
  "(ucast (3 :: u64) :: u32) = 3" "(ucast (5 :: u64) :: u32) = 5" "(ucast (4 :: u64) :: u32) = 4" "(ucast (6 :: u64) :: u32) = 6"
  by simp_all

definition inited :: "int \<Rightarrow> SharedServer \<Rightarrow> SharedServer" where
  "inited i s = s\<lparr>socket_ctx_map := (socket_ctx_map s)(i := Some SS_INITED)\<rparr>"

lemma init_request:
  assumes "client_ready c" and "link_ready i s" and "socket_ctx_map s i \<noteq> None"
  shows "request client_init i (c, s) = Inr (Some (plain_cmd SS_ACK 0), c, answered i (plain_cmd SS_ACK 0) (inited i s))"
proof -
  obtain t where t: "fill_text text_size (chars INIT_KEYWORD @ [0]) = Inr t" "length t = text_size" "is_keyword t"
    by (simp add: fill_text_def text_size_def INIT_KEYWORD_def is_keyword_def chars_def)
  let ?x = "(plain_cmd SS_INIT 0)\<lparr>cmd_text := t\<rparr>"
  have "client_init c = Inr (True, c\<lparr>c_out := cmd_bytes ?x\<rparr>)"
    using t(1) client_send_ready [OF assms(1), of ?x] by (simp add: client_init_def)
  moreover have "processCommands ?x (taking i ?x s) = Inr ((taking i ?x (inited i s))\<lparr>sent := sent s @ [(i, cmd_bytes (plain_cmd SS_ACK 0))]\<rparr>)"
  proof -
    have "i \<noteq> -1" using assms(2) by (simp add: link_ready_def)
    then have "processCommands ?x (taking i ?x s) =
        writeData i (plain_cmd SS_ACK 0) ((taking i ?x s)\<lparr>socket_ctx_map := (socket_ctx_map s)(i := Some SS_INITED)\<rparr>)"
      using assms(3) t(3) by (auto simp: processCommands_def taking_def)
    also have "(taking i ?x s)\<lparr>socket_ctx_map := (socket_ctx_map s)(i := Some SS_INITED)\<rparr> = taking i ?x (inited i s)"
      by (simp add: taking_def inited_def)
    also have "writeData i (plain_cmd SS_ACK 0) \<dots> = Inr ((taking i ?x (inited i s))\<lparr>sent := sent s @ [(i, cmd_bytes (plain_cmd SS_ACK 0))]\<rparr>)"
      by (rule taking_write [OF assms(2)]) (simp_all add: inited_def)
    finally show ?thesis .
  qed
  ultimately show ?thesis
    using t(2) by (intro request_answered [OF assms(1,2)]) (simp_all add: inited_def)
qed

text \<open>A channel for reading is one the server writes.\<close>

definition with_channel :: "int \<Rightarrow> SharedCtx \<Rightarrow> SharedCircularBuffer \<Rightarrow> SharedServer \<Rightarrow> SharedServer" where
  "with_channel i ch ring s = s\<lparr>shm_index := shm_index s + 1, rings := (rings s)(sc_id ch := Some ring),
     ctx_map_sock := ctx_map_sock s @ [(i, ch)]\<rparr>"

definition read_name :: "string \<Rightarrow> u64 \<Rightarrow> string" where
  "read_name prefix i = ''shm_'' @ prefix @ ''_r_'' @ dec (unat i)"

lemma newRChan_request:
  assumes "client_ready c" and "link_ready i s" and "socket_ctx_map s i = Some SS_INITED" and "0 \<notin> set (chars prefix)"
    and "length prefix \<le> 80" and "0 < n" and "n < 2 ^ 32" and "segment s (read_name prefix (shm_index s)) n = Some md"
    and "scb_ctor (read_name prefix (shm_index s)) n (Some md) = Inr ring"
    and "name_ack (read_name prefix (shm_index s)) (shm_index s) = Inr a"
  shows "request (client_newRChan prefix (word_of_nat n)) i (c, s) =
    Inr (Some a, c, answered i a (with_channel i \<lparr>sc_name = read_name prefix (shm_index s), sc_id = shm_index s, sc_dir = SS_WRITE\<rparr> ring s))"
proof -
  have n32: "unat (ucast (word_of_nat n :: u64) :: u32) = n"
    using assms(7) by (simp add: unsigned_ucast_eq unat_word_of_nat take_bit_nat_eq_self)
  from newchan_text_parse [OF assms(4), of "word_of_nat n"] assms(5) obtain t where
    t: "newchan_text prefix (word_of_nat n) = Inr t" "length t = text_size" "c_str (drop 4 t) = Inr prefix"
      "unat (of_le32 (take 4 t)) = n" by (auto simp: n32)
  let ?x = "(plain_cmd SS_NEWRCHAN 0)\<lparr>cmd_text := t\<rparr>"
  let ?ch = "\<lparr>sc_name = read_name prefix (shm_index s), sc_id = shm_index s, sc_dir = SS_WRITE\<rparr>"
  let ?t = "with_channel i ?ch ring s"
  have "client_newRChan prefix (word_of_nat n) c = Inr (True, c\<lparr>c_out := cmd_bytes ?x\<rparr>)"
    using t(1) client_send_ready [OF assms(1), of ?x] by (simp add: client_newRChan_def)
  moreover have "processCommands ?x (taking i ?x s) = Inr ((taking i ?x ?t)\<lparr>sent := sent s @ [(i, cmd_bytes a)]\<rparr>)"
  proof -
    have i: "i \<noteq> -1" using assms(2) by (simp add: link_ready_def)
    let ?u = "(taking i ?x s)\<lparr>shm_index := shm_index s + 1, rings := (rings s)(shm_index s := Some ring),
      ctx_map_sock := ctx_map_sock s @ [(i, ?ch)]\<rparr>"
    have "newRChan prefix n (taking i ?x s) = rbind (writeData i a ?u) (\<lambda>s. Inr (True, s))"
      using assms(6,8,9,10)
      by (simp add: newRChan_def getShmemIndex_def shared_ctx_def taking_def Let_def read_name_def)
    also have "?u = taking i ?x ?t" by (simp add: taking_def with_channel_def)
    also have "writeData i a \<dots> = Inr ((taking i ?x ?t)\<lparr>sent := sent s @ [(i, cmd_bytes a)]\<rparr>)"
      by (rule taking_write [OF assms(2)]) (simp_all add: with_channel_def)
    finally have "newRChan prefix n (taking i ?x s) = Inr (True, (taking i ?x ?t)\<lparr>sent := sent s @ [(i, cmd_bytes a)]\<rparr>)"
      by (simp only: rbind_simps)
    with i assms(3) t(3,4) show ?thesis
      by (simp add: processCommands_def Let_def) (simp add: taking_def)
  qed
  moreover have "length (cmd_text a) = text_size"
    using assms(10) by (auto simp: name_ack_def fill_text_def split: if_splits)
  ultimately show ?thesis
    using t(2) by (intro request_answered [OF assms(1,2)]) (simp_all add: with_channel_def)
qed

definition with_binding :: "u64 \<Rightarrow> u64 \<Rightarrow> SharedCtx \<Rightarrow> SharedServer \<Rightarrow> SharedServer" where
  "with_binding hash j ch s = s\<lparr>ctx_map_hash := (ctx_map_hash s)(hash := Some ch), shmid_hash_map := emplace j [hash] (shmid_hash_map s)\<rparr>"

lemma bind_request:
  assumes "client_ready c" and "link_ready i s" and "socket_ctx_map s i = Some SS_INITED"
    and "find (\<lambda>ch. sc_id ch = j) (channels i s) = Some ch" and "ctx_map_hash s hash = None"
  shows "request (client_bindChan j hash) i (c, s) =
    Inr (Some (plain_cmd SS_ACK j), c, answered i (plain_cmd SS_ACK j) (with_binding hash j ch s))"
proof -
  obtain t where t: "fill_text text_size (le64 hash) = Inr t" "length t = text_size" "take 8 t = le64 hash"
    by (simp add: fill_text_def text_size_def)
  let ?x = "(plain_cmd SS_BINDCHAN j)\<lparr>cmd_text := t\<rparr>"
  have "client_bindChan j hash c = Inr (True, c\<lparr>c_out := cmd_bytes ?x\<rparr>)"
    using t(1) client_send_ready [OF assms(1), of ?x] by (simp add: client_bindChan_def)
  moreover have "processCommands ?x (taking i ?x s) =
      Inr ((taking i ?x (with_binding hash j ch s))\<lparr>sent := sent s @ [(i, cmd_bytes (plain_cmd SS_ACK j))]\<rparr>)"
  proof -
    have i: "i \<noteq> -1" using assms(2) by (simp add: link_ready_def)
    have "writable (taking i ?x s)" "curr (taking i ?x s) \<noteq> -1"
      "find (\<lambda>ch. sc_id ch = j) (channels (curr (taking i ?x s)) (taking i ?x s)) = Some ch"
      "ctx_map_hash (taking i ?x s) hash = None"
      using assms i by (simp_all add: writable_def taking_def link_ready_def channels_def)
    from bindChan_binds [OF this] have "bindChan j hash (taking i ?x s) =
        Inr (True, (taking i ?x (with_binding hash j ch s))\<lparr>sent := sent s @ [(i, cmd_bytes (plain_cmd SS_ACK j))]\<rparr>)"
      by (simp add: taking_def with_binding_def)
    with i assms(3) t(3) show ?thesis
      by (simp add: processCommands_def Let_def) (simp add: taking_def)
  qed
  ultimately show ?thesis
    using t(2) by (intro request_answered [OF assms(1,2)]) (simp_all add: with_binding_def)
qed

subsection \<open>The whole session\<close>

lemma dec_no_zero: "0 \<notin> set (chars (dec n))"
proof -
  have digit: "(of_char (char_of (48 + d) :: char) :: u8) \<noteq> 0" if "d < 10" for d :: nat
  proof
    assume "(of_char (char_of (48 + d) :: char) :: u8) = 0"
    then have "(of_nat (of_char (char_of (48 + d) :: char)) :: u8) = 0" by (simp only: of_nat_of_char)
    moreover have "(of_char (char_of (48 + d) :: char) :: nat) = 48 + d" using that by (simp add: of_char_of)
    ultimately have "(word_of_nat (48 + d) :: u8) = 0" by simp
    moreover have "unat (word_of_nat (48 + d) :: u8) = 48 + d" using that by (intro unat_word_of_nat) simp
    ultimately have "48 + d = unat (0 :: u8)" by metis
    then show False by simp
  qed
  show ?thesis
  proof (induction n rule: dec.induct)
    case (1 n)
    have "n mod 10 < 10" by simp
    with 1 show ?case using digit [of n] digit [of "n mod 10"] by (subst dec.simps) (auto simp: chars_def)
  qed
qed

lemma read_name_ack:
  assumes "0 \<notin> set (chars prefix)" and "length prefix \<le> 80"
  shows "\<exists>a. name_ack (read_name prefix k) j = Inr a \<and> cmd_id a = j \<and> c_str (cmd_text a) = Inr (read_name prefix k)"
proof -
  have "unat k < 10 ^ 20" using unsigned_less [of k, where ?'a = nat] by simp
  then have "length (dec (unat k)) \<le> 20" by (rule dec_length) simp
  then have len: "length (read_name prefix k) \<le> 107" using assms(2) by (simp add: read_name_def)
  have nz: "0 \<notin> set (chars (read_name prefix k))"
    using assms(1) dec_no_zero [of "unat k"] by (auto simp: read_name_def chars_def)
  let ?n = "text_size - length (read_name prefix k)"
  have "fill_text text_size (chars (read_name prefix k) @ [0]) = Inr (chars (read_name prefix k) @ replicate ?n 0)"
  proof -
    have "?n = Suc (text_size - Suc (length (read_name prefix k)))" using len by (simp add: text_size_def)
    then have "replicate ?n (0 :: u8) = 0 # replicate (text_size - Suc (length (read_name prefix k))) 0" by simp
    then show ?thesis using len by (simp add: fill_text_def text_size_def)
  qed
  moreover have "c_str (chars (read_name prefix k) @ replicate ?n 0) = Inr (read_name prefix k)"
    using nz len by (intro c_str_filled) (auto simp: text_size_def)
  ultimately show ?thesis by (simp add: name_ack_def)
qed

text \<open>The state of the server when the example has bound its channel.\<close>

definition session_end :: "int \<Rightarrow> SharedCtx \<Rightarrow> SharedCircularBuffer \<Rightarrow> ss_cmd \<Rightarrow> SharedServer \<Rightarrow> SharedServer" where
  "session_end i ch ring a s =
     answered i (plain_cmd SS_ACK (sc_id ch)) (with_binding 101 (sc_id ch) ch
       (answered i a (with_channel i ch ring (answered i (plain_cmd SS_ACK 0) (inited i s)))))"

lemma link_answered: "link_ready i s \<Longrightarrow> open_fds t = open_fds s \<Longrightarrow> tx t = tx s \<Longrightarrow> rx t = rx s \<Longrightarrow> link_ready i (answered i a t)"
  by (simp add: link_ready_def answered_def received_def)

lemma session_runs:
  assumes "client_ready c" and "link_ready i s" and "socket_ctx_map s i \<noteq> None" and "ctx_map_hash s 101 = None"
    and "list_all (\<lambda>ch. sc_id ch \<noteq> shm_index s) (channels i s)"
    and "segment s (read_name ''test'' (shm_index s)) 10001 = Some md"
    and ring: "scb_ctor (read_name ''test'' (shm_index s)) 10001 (Some md) = Inr ring"
    and ch: "ch = \<lparr>sc_name = read_name ''test'' (shm_index s), sc_id = shm_index s, sc_dir = SS_WRITE\<rparr>"
    and a: "name_ack (read_name ''test'' (shm_index s)) (shm_index s) = Inr a" "cmd_id a = shm_index s"
      "c_str (cmd_text a) = Inr (read_name ''test'' (shm_index s))"
  shows "example_session i old (c, s) = Inr (shm_index s, read_name ''test'' (shm_index s), c, session_end i ch ring a s)"
proof -
  let ?s1 = "answered i (plain_cmd SS_ACK 0) (inited i s)"
  let ?s2 = "answered i a (with_channel i ch ring ?s1)"
  have l1: "link_ready i ?s1" by (rule link_answered [OF assms(2)]) (simp_all add: inited_def)
  have l2: "link_ready i ?s2" by (rule link_answered [OF l1]) (simp_all add: with_channel_def)
  have i1: "shm_index ?s1 = shm_index s" "segment ?s1 = segment s" "socket_ctx_map ?s1 i = Some SS_INITED"
    by (simp_all add: answered_def inited_def)
  have 1: "request client_init i (c, s) = Inr (Some (plain_cmd SS_ACK 0), c, ?s1)"
    by (rule init_request [OF assms(1-3)])
  have "0 \<notin> set (chars ''test'')" by (simp add: chars_def)
  with newRChan_request [OF assms(1) l1 i1(3), of "''test''" 10001 md ring a] assms(6) ring a(1)
  have 2: "request (client_newRChan ''test'' 10001) i (c, ?s1) = Inr (Some a, c, ?s2)"
    by (simp add: i1 ch)
  have "channels i ?s2 = channels i s @ [ch]" by (simp add: channels_def answered_def with_channel_def inited_def)
  moreover have "find P (xs @ [x]) = Some x" if "list_all (\<lambda>y. \<not> P y) xs" "P x" for P and xs :: "SharedCtx list" and x
    using that by (induction xs) auto
  ultimately have "find (\<lambda>x. sc_id x = shm_index s) (channels i ?s2) = Some ch" using assms(5) ch by simp
  moreover have "socket_ctx_map ?s2 i = Some SS_INITED" "ctx_map_hash ?s2 101 = None"
    using assms(4) by (simp_all add: answered_def with_channel_def inited_def)
  ultimately have 3: "request (client_bindChan (shm_index s) 101) i (c, ?s2) =
      Inr (Some (plain_cmd SS_ACK (shm_index s)), c, session_end i ch ring a s)"
    using bind_request [OF assms(1) l2, of "shm_index s" ch 101] by (simp add: session_end_def ch)
  show ?thesis
    using 1 2 3 a(2,3) by (simp add: example_session_def answer_def Let_def)
qed

lemma session_channel:
  assumes "client_ready c" and "link_ready i s" and "socket_ctx_map s i \<noteq> None" and "ctx_map_hash s 101 = None"
    and "list_all (\<lambda>ch. sc_id ch \<noteq> shm_index s) (channels i s)"
    and "segment s (read_name ''test'' (shm_index s)) 10001 \<noteq> None"
  shows "\<exists>name s' ring ch. example_session i old (c, s) = Inr (shm_index s, name, c, s') \<and>
    example_open name s' = Inr ring \<and> rings s' (shm_index s) = Some ring \<and> link_ready i s' \<and>
    ctx_map_hash s' 101 = Some ch \<and> sc_dir ch = SS_WRITE \<and> sc_id ch = shm_index s"
proof -
  let ?name = "read_name ''test'' (shm_index s)"
  obtain m d where seg: "segment s ?name 10001 = Some (m, d)" using assms(6) by auto
  obtain ring where ring: "scb_ctor ?name 10001 (Some (m, d)) = Inr ring" by (simp add: scb_ctor_def)
  have "0 \<notin> set (chars ''test'')" by (simp add: chars_def)
  from read_name_ack [OF this, of "shm_index s" "shm_index s"] obtain a where
    a: "name_ack ?name (shm_index s) = Inr a" "cmd_id a = shm_index s" "c_str (cmd_text a) = Inr ?name" by auto
  let ?ch = "\<lparr>sc_name = ?name, sc_id = shm_index s, sc_dir = SS_WRITE\<rparr>"
  let ?s = "session_end i ?ch ring a s"
  have "link_ready i ?s"
    unfolding session_end_def
    by (intro link_answered [OF assms(2)]) (simp_all add: with_binding_def with_channel_def inited_def answered_def)
  moreover have "example_open ?name ?s = Inr ring"
    using seg ring by (simp add: example_open_def session_end_def with_binding_def with_channel_def inited_def answered_def)
  moreover have "rings ?s (shm_index s) = Some ring" "ctx_map_hash ?s 101 = Some ?ch"
    by (simp_all add: session_end_def with_binding_def with_channel_def inited_def answered_def)
  ultimately show ?thesis
    using session_runs [OF assms(1-5) seg ring refl a]
    by (intro exI [of _ ?name] exI [of _ ?s] exI [of _ ring] exI [of _ ?ch]) simp
qed

text \<open>The example gets through: whatever was in the variables before, a connected client that starts on an idle
  connection, with the hash 101 free and a segment to be had, ends the session with the number and name of
  a new channel; it can open the ring of that name, which is the ring the server holds, and from
  then on the server pushes the packets of hash 101 into it.\<close>

theorem example_gets_channel:
  assumes "client_ready c" and "link_ready i s" and "socket_ctx_map s i \<noteq> None" and "ctx_map_hash s 101 = None"
    and "list_all (\<lambda>ch. sc_id ch \<noteq> shm_index s) (channels i s)"
    and "segment s (read_name ''test'' (shm_index s)) 10001 \<noteq> None"
  shows "\<exists>name s' ring. example_session i old (c, s) = Inr (shm_index s, name, c, s') \<and>
    example_open name s' = Inr ring \<and> rings s' (shm_index s) = Some ring \<and> link_ready i s' \<and>
    server_send 101 data s' = rbind (scb_push data ring) (\<lambda>(ok, r). Inr (ok, s'\<lparr>rings := (rings s')(shm_index s := Some r)\<rparr>))"
proof -
  from session_channel [OF assms, of old] obtain name s' ring ch where
    "example_session i old (c, s) = Inr (shm_index s, name, c, s')" "example_open name s' = Inr ring" "rings s' (shm_index s) = Some ring"
    "link_ready i s'" "ctx_map_hash s' 101 = Some ch" "sc_dir ch = SS_WRITE" "sc_id ch = shm_index s" by blast
  then show ?thesis by (intro exI [of _ name] exI [of _ s'] exI [of _ ring]) (simp add: server_send_def sctx_push_def)
qed

subsection \<open>The packets\<close>

text \<open>One packet in a ring that was just opened.\<close>

lemma open_push_pop:
  assumes "example_open name s = Inr ring" and "length x \<le> 9862"
  shows "\<exists>r1 r2. scb_push x ring = Inr (True, r1) \<and> scb_pop r1 = Inr (Some (2, length x), r2) \<and>
    slice (buffer (cb r2)) 2 (length x) = x \<and> scb_pop r2 = Inr (None, r2)"
proof -
  obtain m d where ring: "ring = \<lparr>mem_name = name, mem_set = True, cb = cb_clear (cb_set m d 10001 False)\<rparr>"
    using assms(1) by (auto simp: example_open_def scb_ctor_def split: option.splits)
  let ?w = "word_of_nat (length x) :: u16"
  let ?b = "memcpy 2 x (st16 0 ?w m)"
  have w: "unat ?w = length x" using assms(2) by (intro unat_word_of_nat) simp
  have "ld16 ?b 0 = ld16 (st16 0 ?w m) 0" by (rule ld16_cong) (simp_all add: memcpy_other)
  then have ld: "unat (ld16 ?b 0) = length x" using w by (simp add: ld16_st16_same)
  have n: "cb_payload_size 10001 = 9865" by (simp add: cb_payload_size_def sizeof_descriptor_def)
  have x: "length x mod 2 ^ 16 = length x" using assms(2) by simp
  have i0: "int_cast 0 = 0" by (simp add: int_cast_def)
  let ?r = "\<lambda>t. \<lparr>mem_name = name, mem_set = True, cb = (cb_clear (cb_set m d 10001 False))\<lparr>buffer := ?b,
    desc := (desc (cb_clear (cb_set m d 10001 False)))\<lparr>head := 2 + length x, tail := t\<rparr>\<rparr>\<rparr>"
  have "scb_push x ring = Inr (True, ?r 0)"
    using assms(2) x by (simp add: ring scb_push_def write1_def cb_clear_def cb_set_def n i0 Let_def flip: numeral_2_eq_2)
  moreover have "scb_pop (?r 0) = Inr (Some (2, length x), ?r (2 + length x))"
    using assms(2) ld by (simp add: scb_pop_def read1_def cb_clear_def cb_set_def n Let_def)
  moreover have "scb_pop (?r (2 + length x)) = Inr (None, ?r (2 + length x))"
    by (simp add: scb_pop_def read1_def cb_clear_def)
  moreover have "slice (buffer (cb (?r (2 + length x)))) 2 (length x) = x"
    by (simp add: slice_memcpy_same)
  ultimately show ?thesis by blast
qed

lemma slice_append: "slice m a (k + n) = slice m a k @ slice m (a + k) n"
proof -
  have "[a..<a + (k + n)] = [a..<a + k] @ [a + k..<a + k + n]"
    using upt_add_eq_append [of a "a + k" n] by (simp add: add.assoc)
  then show ?thesis by (simp add: slice_def)
qed

lemma ld32_slice: "ld32 m a = of_le32 (slice m a 4)"
  by (simp add: of_le32_def ld32_def ld16_def slice_nth add.commute)

text \<open>A packet that carries the checksum of its bytes in front of them passes the check, every other checksum is
  reported, and then the ring is empty; a packet of less than four bytes makes the length wrap, and
  the checksum runs out of the memory of the process.\<close>

theorem example_checks_packets:
  assumes "example_open name s = Inr ring" and "length body \<le> 9858" and "length few < 4" and "10001 \<le> limit" and "limit < 2 ^ 63"
  shows "(\<exists>r1 r2. scb_push (le32 w @ body) ring = Inr (True, r1) \<and> consume crc limit r1 = Inr (Some (crc body = w), r2) \<and>
      consume crc limit r2 = Inr (None, r2)) \<and>
    (\<exists>r1. scb_push few ring = Inr (True, r1) \<and> consume crc limit r1 = Inl OutOfBounds)"
proof (rule conjI)
  let ?x = "le32 w @ body"
  have "length ?x \<le> 9862" using assms(2) by simp
  from open_push_pop [OF assms(1) this] obtain r1 r2 where r: "scb_push ?x ring = Inr (True, r1)"
    "scb_pop r1 = Inr (Some (2, length ?x), r2)" "slice (buffer (cb r2)) 2 (length ?x) = ?x" "scb_pop r2 = Inr (None, r2)" by blast
  have sl: "slice (buffer (cb r2)) 2 4 @ slice (buffer (cb r2)) 6 (length body) = le32 w @ body"
    using r(3) slice_append [of "buffer (cb r2)" 2 4 "length body"] by simp
  then have "slice (buffer (cb r2)) 2 4 = le32 w \<and> slice (buffer (cb r2)) 6 (length body) = body"
    by (subst (asm) append_eq_append_conv) simp_all
  then have "handleData crc limit (buffer (cb r2)) 2 (length ?x) = Inr (crc body = w)"
    using assms(2,4) by (simp add: handleData_def ld32_slice)
  with r show "\<exists>r1 r2. scb_push ?x ring = Inr (True, r1) \<and> consume crc limit r1 = Inr (Some (crc body = w), r2) \<and>
      consume crc limit r2 = Inr (None, r2)"
    by (auto simp: consume_def)
next
  have "length few \<le> 9862" using assms(3) by simp
  from open_push_pop [OF assms(1) this] obtain r1 r2 where r: "scb_push few ring = Inr (True, r1)"
    "scb_pop r1 = Inr (Some (2, length few), r2)" by blast
  have "(length few + 2 ^ 64 - 4) mod 2 ^ 64 \<ge> 2 ^ 63" using assms(3) by simp
  with assms(5) have "handleData crc limit (buffer (cb r2)) 2 (length few) = Inl OutOfBounds"
    by (simp add: handleData_def Let_def)
  with r show "\<exists>r1. scb_push few ring = Inr (True, r1) \<and> consume crc limit r1 = Inl OutOfBounds"
    by (auto simp: consume_def)
qed

text \<open>The check of a frame that lies in the memory.\<close>

lemma handleData_frame:
  assumes "4 \<le> len" and "pos + len \<le> limit" and "limit < 2 ^ 64"
  shows "handleData crc limit m pos len = Inr (crc (drop 4 (slice m pos len)) = of_le32 (take 4 (slice m pos len)))"
proof -
  have n: "(len + 2 ^ 64 - 4) mod 2 ^ 64 = len - 4" using assms by (simp add: mod_if)
  have "slice m pos len = slice m pos 4 @ slice m (pos + 4) (len - 4)"
    using slice_append [of m pos 4 "len - 4"] assms(1) by simp
  then have "take 4 (slice m pos len) = slice m pos 4" "drop 4 (slice m pos len) = slice m (pos + 4) (len - 4)"
    by (metis append_eq_conv_conj length_slice)+
  with assms n show ?thesis by (simp add: handleData_def ld32_slice Let_def)
qed

subsection \<open>At concrete inputs\<close>

definition demo_client :: client where
  "demo_client = \<lparr>c_sock = 7, c_rx = [], c_tx = [], c_out = []\<rparr>"

text \<open>Descriptor 5 of the demonstration server is connected and has not greeted yet.\<close>

theorem example_gets_channel_witness:
  "\<exists>name s' ring. example_session 5 (plain_cmd SS_NACK 9) (demo_client, demo_server) = Inr (0, name, demo_client, s') \<and>
    example_open name s' = Inr ring \<and> rings s' 0 = Some ring \<and>
    server_send 101 [1] s' = rbind (scb_push [1] ring) (\<lambda>(ok, r). Inr (ok, s'\<lparr>rings := (rings s')(0 := Some r)\<rparr>))"
proof -
  have "client_ready demo_client" by (simp add: client_ready_def demo_client_def)
  moreover have "link_ready 5 demo_server" by (simp add: link_ready_def demo_server_def received_def)
  moreover have "socket_ctx_map demo_server 5 \<noteq> None" "ctx_map_hash demo_server 101 = None"
    "list_all (\<lambda>ch. sc_id ch \<noteq> shm_index demo_server) (channels 5 demo_server)"
    "segment demo_server (read_name ''test'' (shm_index demo_server)) 10001 \<noteq> None"
    by (simp_all add: demo_server_def channels_def)
  moreover have "shm_index demo_server = 0" by (simp add: demo_server_def)
  ultimately show ?thesis
    using example_gets_channel [of demo_client 5 demo_server "plain_cmd SS_NACK 9" "[1]"] by auto
qed

theorem example_checks_packets_witness:
  "\<exists>ring r1 r2 r3. example_open ''x'' demo_server = Inr ring \<and> scb_push (le32 7 @ [1, 2]) ring = Inr (True, r1) \<and>
     consume (\<lambda>bs. word_of_nat (length bs)) 20000 r1 = Inr (Some False, r2) \<and>
     scb_push [1, 2] ring = Inr (True, r3) \<and> consume (\<lambda>bs. word_of_nat (length bs)) 20000 r3 = Inl OutOfBounds"
proof -
  obtain ring where "example_open ''x'' demo_server = Inr ring"
    by (simp add: example_open_def scb_ctor_def demo_server_def)
  with example_checks_packets [OF this, of "[1, 2]" "[1, 2]" 20000 7 "\<lambda>bs. word_of_nat (length bs)"] show ?thesis by auto
qed


end
