(* ===== verification/Example_Threads.thy ===== *)
theory Example_Threads
  imports Ring_Threads Example_Session
begin

text \<open>
  The three threads of \<^verbatim>\<open>app/example.cpp\<close> on their one ring, step by step: each pops as in \<open>Ring_Threads\<close> and then checks the packet
  where it lies in the ring, which it does after \<^verbatim>\<open>pop\<close> has given the place back. The server is the producer.
\<close>

subsection \<open>Steps\<close>

text \<open>\<open>in_check\<close> is the packet a thread is about to check, \<open>checks\<close> what came out of the checks so far.\<close>

record example_threads =
  pops :: threads
  in_check :: "nat \<Rightarrow> (nat \<times> nat) option"
  checks :: "(nat \<times> bool res) list"

definition TEST_THREADS_NUM :: nat where "TEST_THREADS_NUM = 3"

fun thread_step :: "(u8 list \<Rightarrow> u32) \<Rightarrow> nat \<Rightarrow> actor \<Rightarrow> example_threads \<Rightarrow> example_threads" where
  "thread_step crc limit Producer e = e\<lparr>pops := producer_step (pops e)\<rparr>"
| "thread_step crc limit (Consumer i) e =
     (case in_check e i of
        Some (data, len) \<Rightarrow>
          e\<lparr>in_check := (in_check e)(i := None), checks := checks e @ [(i, handleData crc limit (buffer (ring (pops e))) data len)]\<rparr>
      | None \<Rightarrow>
          e\<lparr>pops := consumer_step i (pops e),
            in_check := (case cons (pops e) i of Release data len \<Rightarrow> (in_check e)(i := Some (data, len)) | _ \<Rightarrow> in_check e)\<rparr>)"

definition threads_start :: "SharedCircularBuffer \<Rightarrow> u8 list list \<Rightarrow> example_threads" where
  "threads_start io xs = \<lparr>pops = start (cb io) xs, in_check = (\<lambda>_. None), checks = []\<rparr>"

text \<open>Nothing in the example keeps its threads apart. They take turns in a run where no thread begins a round while another is in one,
  and where the server does not store while a packet is being checked.\<close>

definition in_round :: "example_threads \<Rightarrow> nat \<Rightarrow> bool" where
  "in_round e j \<longleftrightarrow> cons (pops e) j \<noteq> CIdle \<or> in_check e j \<noteq> None"

fun has_turn :: "example_threads \<Rightarrow> actor \<Rightarrow> bool" where
  "has_turn e Producer = list_all (\<lambda>j. in_check e j = None) [0..<TEST_THREADS_NUM]"
| "has_turn e (Consumer i) = (i < TEST_THREADS_NUM \<and> list_all (\<lambda>j. j = i \<or> \<not> in_round e j) [0..<TEST_THREADS_NUM])"

fun in_turns :: "(u8 list \<Rightarrow> u32) \<Rightarrow> nat \<Rightarrow> actor list \<Rightarrow> example_threads \<Rightarrow> bool" where
  "in_turns crc limit [] e = True"
| "in_turns crc limit (a # as) e = (has_turn e a \<and> in_turns crc limit as (thread_step crc limit a e))"

subsection \<open>The thread that is in its round\<close>

text \<open>Threads that take turns are one consumer: the others are idle.\<close>

definition as_one :: "nat \<Rightarrow> threads \<Rightarrow> threads" where
  "as_one i t = t\<lparr>cons := (\<lambda>_. CIdle)(0 := cons t i)\<rparr>"

lemma as_one_producer: "as_one i (producer_step t) = producer_step (as_one i t)"
  by (simp add: as_one_def producer_step_def Let_def split: producer.split list.split)

lemma as_one_consumer: "as_one i (consumer_step i t) = consumer_step 0 (as_one i t)"
  by (simp add: as_one_def consumer_step_def Let_def fun_eq_iff split: consumer.split prod.split)

lemma as_one_fields [simp]:
  "ring (as_one i t) = ring t" "accepted (as_one i t) = accepted t" "delivered (as_one i t) = delivered t" "raced (as_one i t) = raced t"
  "prod (as_one i t) = prod t" "todo (as_one i t) = todo t" "cons (as_one i t) 0 = cons t i"
  by (simp_all add: as_one_def)

text \<open>The first four octets hold the checksum of the others.\<close>

definition checksum_ok :: "(u8 list \<Rightarrow> u32) \<Rightarrow> u8 list \<Rightarrow> bool" where
  "checksum_ok crc f \<longleftrightarrow> crc (drop 4 f) = of_le32 (take 4 f)"

text \<open>The packets that have been checked, and the one that is about to be.\<close>

definition checked :: "(u8 list \<Rightarrow> u32) \<Rightarrow> nat \<Rightarrow> example_threads \<Rightarrow> nat \<Rightarrow> bool" where
  "checked crc limit e i \<longleftrightarrow>
     (case in_check e i of
        None \<Rightarrow> map snd (checks e) = map (\<lambda>f. Inr (checksum_ok crc f)) (delivered (pops e))
      | Some (data, len) \<Rightarrow> cons (pops e) i = CIdle \<and>
          (\<exists>fs. delivered (pops e) = fs @ [slice (buffer (ring (pops e))) data len] \<and>
             map snd (checks e) = map (\<lambda>f. Inr (checksum_ok crc f)) fs \<and> data + len \<le> limit \<and> 4 \<le> len))"

definition one_at_work :: "(u8 list \<Rightarrow> u32) \<Rightarrow> nat \<Rightarrow> u8 list list \<Rightarrow> example_threads \<Rightarrow> nat \<Rightarrow> bool" where
  "one_at_work crc limit xs e i \<longleftrightarrow>
     i < TEST_THREADS_NUM \<and> (\<forall>j. j \<noteq> i \<longrightarrow> \<not> in_round e j) \<and> (\<exists>rest. consistent xs rest (as_one i (pops e))) \<and>
     dsize (desc (ring (pops e))) \<le> limit \<and> checked crc limit e i"

lemma step_dsize: "dsize (desc (ring (step a t))) = dsize (desc (ring t))"
  by (cases a) (simp_all add: producer_step_def consumer_step_def store_length_def copy_payload_def publish_def release_def Let_def
    split: producer.split consumer.split list.split prod.split)

lemma producer_leaves: "cons (producer_step t) = cons t" "delivered (producer_step t) = delivered t"
  by (simp_all add: producer_step_def Let_def split: producer.split list.split)

lemma work_producer:
  assumes "one_at_work crc limit xs e i" and "has_turn e Producer" and "\<not> raced (producer_step (pops e))"
  shows "one_at_work crc limit xs (thread_step crc limit Producer e) i"
proof -
  obtain rest where "consistent xs rest (as_one i (pops e))" using assms(1) by (auto simp: one_at_work_def)
  moreover have "\<not> raced (producer_step (as_one i (pops e)))" using assms(3) by (simp flip: as_one_producer)
  ultimately have "\<exists>rest. consistent xs rest (as_one i (producer_step (pops e)))"
    unfolding as_one_producer by (rule producer_keeps)
  moreover have "in_check e i = None" using assms(1,2) by (simp add: one_at_work_def list_all_iff)
  ultimately show ?thesis
    using assms(1) step_dsize [of Producer "pops e"] by (simp add: one_at_work_def in_round_def checked_def producer_leaves)
qed

lemma work_check:
  assumes "one_at_work crc limit xs e i" and "in_check e i = Some (data, len)" and "limit < 2 ^ 64"
  shows "one_at_work crc limit xs (thread_step crc limit (Consumer i) e) i"
proof -
  from assms(1,2) obtain fs where fs: "delivered (pops e) = fs @ [slice (buffer (ring (pops e))) data len]"
    "map snd (checks e) = map (\<lambda>f. Inr (checksum_ok crc f)) fs" "data + len \<le> limit" "4 \<le> len"
    by (auto simp: one_at_work_def checked_def)
  then have "handleData crc limit (buffer (ring (pops e))) data len = Inr (checksum_ok crc (slice (buffer (ring (pops e))) data len))"
    using assms(3) by (simp add: handleData_frame checksum_ok_def)
  with assms(1,2) fs show ?thesis by (simp add: one_at_work_def in_round_def checked_def)
qed

lemma work_pop:
  assumes "one_at_work crc limit xs e i" and "in_check e i = None" and "list_all (\<lambda>f. 4 \<le> length f) xs"
  shows "one_at_work crc limit xs (thread_step crc limit (Consumer i) e) i"
proof -
  let ?t = "consumer_step i (pops e)"
  obtain rest where rest: "consistent xs rest (as_one i (pops e))" using assms(1) by (auto simp: one_at_work_def)
  from consumer_keeps [OF rest] obtain rest' where rest': "consistent xs rest' (as_one i ?t)" by (auto simp: as_one_consumer)
  have idle: "cons ?t j = cons (pops e) j" if "j \<noteq> i" for j
    using that by (simp add: consumer_step_def Let_def split: consumer.split prod.split)
  let ?e = "thread_step crc limit (Consumer i) e"
  have "checked crc limit ?e i"
  proof (cases "cons (pops e) i")
    case (Release data len)
    let ?f = "slice (buffer (ring (pops e))) data len"
    have t: "delivered ?t = delivered (pops e) @ [?f]" "buffer (ring ?t) = buffer (ring (pops e))" "cons ?t i = CIdle"
      "tail (desc (ring ?t)) = data + len" using Release by (simp_all add: consumer_step_def Let_def)
    have "set (accepted ?t) \<subseteq> set xs" using consistent_accepted [OF rest'] by (auto dest: list_emb_set)
    moreover have "?f \<in> set (accepted ?t)" using rest' t(1) by (simp add: consistent_def)
    ultimately have "?f \<in> set xs" by blast
    then have "4 \<le> length ?f" using assms(3) by (simp only: list_all_iff)
    moreover have "data + len \<le> limit"
      using rest' ring_repr_bounds [of "ring ?t" rest'] assms(1) step_dsize [of "Consumer i" "pops e"]
      by (simp add: consistent_def one_at_work_def t(4))
    ultimately show ?thesis
      using assms(1,2) Release t by (simp add: checked_def one_at_work_def)
  qed (use assms(1,2) in \<open>simp_all add: checked_def one_at_work_def consumer_step_def Let_def split: prod.split\<close>)
  moreover have "\<not> in_round ?e j" if "j \<noteq> i" for j
    using assms(1,2) idle [OF that] that by (simp add: one_at_work_def in_round_def split: consumer.split)
  ultimately show ?thesis
    using assms(1,2) rest' step_dsize [of "Consumer i" "pops e"] by (auto simp: one_at_work_def)
qed

text \<open>A thread that begins a round while no other is in one takes the place of the last one.\<close>

lemma work_passes:
  assumes "one_at_work crc limit xs e i" and "has_turn e (Consumer k)"
  shows "one_at_work crc limit xs e k"
proof (cases "k = i")
  case False
  with assms have idle: "\<not> in_round e i" "\<not> in_round e k" and k: "k < TEST_THREADS_NUM"
    by (auto simp: one_at_work_def list_all_iff)
  have "\<not> in_round e j" if "j \<noteq> k" for j
    using assms(1) idle(1) that by (cases "j = i") (auto simp: one_at_work_def)
  moreover have "as_one k (pops e) = as_one i (pops e)" "checked crc limit e k = checked crc limit e i"
    using idle by (simp_all add: in_round_def as_one_def checked_def del: not_None_eq)
  ultimately show ?thesis using assms(1) k by (simp add: one_at_work_def)
qed (use assms in simp)

lemma work_run:
  assumes "one_at_work crc limit xs e i" and "in_turns crc limit sched e" and "list_all (\<lambda>f. 4 \<le> length f) xs" and "limit < 2 ^ 64"
    and "\<not> raced (pops (fold (thread_step crc limit) sched e))"
  shows "\<exists>i. one_at_work crc limit xs (fold (thread_step crc limit) sched e) i"
  using assms
proof (induction sched arbitrary: e i)
  case (Cons a as)
  have stays: "raced (pops e) \<Longrightarrow> raced (pops (fold (thread_step crc limit) bs e))" for bs e
  proof (induction bs arbitrary: e)
    case (Cons b bs)
    then have "raced (pops (thread_step crc limit b e))"
      using raced_stays [of "pops e" b] by (cases b) (auto split: option.split)
    from Cons.IH [OF this] show ?case by simp
  qed simp
  have "\<exists>i. one_at_work crc limit xs (thread_step crc limit a e) i"
  proof (cases a)
    case Producer
    then have "\<not> raced (producer_step (pops e))" using stays [of "thread_step crc limit a e" as] Cons.prems(5) by auto
    with work_producer [OF Cons.prems(1)] Cons.prems(2) Producer show ?thesis by (metis in_turns.simps(2))
  next
    case (Consumer k)
    then have "one_at_work crc limit xs e k" using work_passes [OF Cons.prems(1)] Cons.prems(2) by simp
    with work_check [OF this _ Cons.prems(4)] work_pop [OF this _ Cons.prems(3)] Consumer
    show ?thesis by (cases "in_check e k") auto
  qed
  then obtain k where "one_at_work crc limit xs (thread_step crc limit a e) k" by blast
  from Cons.IH [OF this] Cons.prems show ?case by simp
qed auto

subsection \<open>Properties\<close>

text \<open>C14. The threads of the example check every packet once if they take turns: as long as no two of them are in a round at the same time, no
  packet is stored while one is being checked, and the producer does not lose the race of its guard, every packet that was popped,
  but for at most the last one, has been checked inside the memory, in order, against the octets that were sent; what was popped is
  a prefix of what the ring accepted, and that is a selection of what was sent. Every packet sent has at least four octets and
  fits into sixteen bits of length.\<close>

theorem checks_in_turns:
  assumes "0 < msize (cb io)" and "msize (cb io) \<le> 2 ^ 31" and "msize (cb io) \<le> limit" and "limit < 2 ^ 64"
    and "list_all fits16 xs" and "list_all (\<lambda>f. 4 \<le> length f) xs"
    and "in_turns crc limit sched (threads_start io xs)"
    and "e = fold (thread_step crc limit) sched (threads_start io xs)" and "\<not> raced (pops e)"
  shows "\<exists>n rest. map snd (checks e) = map (\<lambda>f. Inr (checksum_ok crc f)) (take n (delivered (pops e))) \<and>
    length (delivered (pops e)) \<le> n + 1 \<and>
    accepted (pops e) = delivered (pops e) @ rest \<and> ring_repr (ring (pops e)) rest \<and> subseq (accepted (pops e)) xs"
proof -
  have "as_one 0 (start (cb io) xs) = start (cb io) xs" by (simp add: as_one_def start_def fun_eq_iff)
  then have "one_at_work crc limit xs (threads_start io xs) 0"
    using start_consistent [OF assms(1,2,5)] assms(3)
    by (auto simp: one_at_work_def threads_start_def in_round_def checked_def TEST_THREADS_NUM_def) (auto simp: start_def cb_clear_def)
  from work_run [OF this assms(7,6,4)] assms(8,9) obtain i where i: "one_at_work crc limit xs e i" by auto
  then obtain rest where rest: "consistent xs rest (as_one i (pops e))" by (auto simp: one_at_work_def)
  have "\<exists>n. map snd (checks e) = map (\<lambda>f. Inr (checksum_ok crc f)) (take n (delivered (pops e))) \<and> length (delivered (pops e)) \<le> n + 1"
  proof (cases "in_check e i")
    case None
    with i show ?thesis by (intro exI [of _ "length (delivered (pops e))"]) (simp add: one_at_work_def checked_def)
  next
    case (Some a)
    with i show ?thesis
      by (intro exI [of _ "length (delivered (pops e)) - 1"]) (auto simp: one_at_work_def checked_def split: prod.splits)
  qed
  with rest consistent_accepted [OF rest] show ?thesis by (auto simp: consistent_def)
qed

text \<open>Two packets, the second with a wrong checksum; threads 2 and 0 take their turns.\<close>

definition demo_turns :: "actor list" where
  "demo_turns = replicate 6 Producer @ replicate 6 (Consumer 2) @ replicate 6 Producer @ replicate 5 (Consumer 0) @ [Consumer 0]"

definition demo_io :: SharedCircularBuffer where
  "demo_io = \<lparr>mem_name = [], mem_set = True, cb = demo_ring\<lparr>msize := 20\<rparr>\<rparr>"

definition count_crc :: "u8 list \<Rightarrow> u32" where
  "count_crc bs = word_of_nat (length bs)"

theorem checks_in_turns_witness:
  "let e = fold (thread_step count_crc 100) demo_turns (threads_start demo_io [[2, 0, 0, 0, 5, 6], [1, 0, 0, 0]])
   in delivered (pops e) = [[2, 0, 0, 0, 5, 6], [1, 0, 0, 0]] \<and> checks e = [(2, Inr True), (0, Inr False)] \<and>
     (\<exists>n. map snd (checks e) = map (\<lambda>f. Inr (checksum_ok count_crc f)) (take n (delivered (pops e))) \<and> 2 \<le> n + 1)"
proof -
  let ?xs = "[[2, 0, 0, 0, 5, 6], [1, 0, 0, 0]] :: u8 list list"
  let ?e = "fold (thread_step count_crc 100) demo_turns (threads_start demo_io ?xs)"
  have e: "in_turns count_crc 100 demo_turns (threads_start demo_io ?xs)" "\<not> raced (pops ?e)"
    "delivered (pops ?e) = ?xs" "checks ?e = [(2, Inr True), (0, Inr False)]" by code_simp+
  have "0 < msize (cb demo_io)" "msize (cb demo_io) \<le> 2 ^ 31" "msize (cb demo_io) \<le> 100" by (simp_all add: demo_io_def)
  from checks_in_turns [OF this _ _ _ e(1) refl e(2)] obtain n rest where
    "map snd (checks ?e) = map (\<lambda>f. Inr (checksum_ok count_crc f)) (take n (delivered (pops ?e)))" "length (delivered (pops ?e)) \<le> n + 1"
    by (auto simp: fits16_def simp del: fold_simps)
  with e(3,4) show ?thesis
    unfolding Let_def by (intro conjI exI [of _ n]) simp_all
qed

text \<open>The place of a packet is given back before the packet is checked: the server stores the next packet over it, and the check of a
  packet that was sent with the right checksum fails.\<close>

definition small_io :: SharedCircularBuffer where
  "small_io = \<lparr>mem_name = [], mem_set = True, cb = demo_ring\<lparr>msize := 10\<rparr>\<rparr>"

lemma check_reads_next_packet:
  "let e = fold (thread_step count_crc 100) (replicate 6 Producer @ replicate 5 (Consumer 0) @ replicate 7 Producer @ [Consumer 0])
       (threads_start small_io [[2, 0, 0, 0, 7, 7], [1, 0, 0, 0, 5]])
   in delivered (pops e) = [[2, 0, 0, 0, 7, 7]] \<and> checksum_ok count_crc [2, 0, 0, 0, 7, 7] \<and> checks e = [(0, Inr False)]"
  by code_simp

end
