(* ===== verification/Packet_Details.thy ===== *)
theory Packet_Details
  imports Prelude
begin

text \<open>
  \<^verbatim>\<open>src/core/PacketDetails.h\<close> (with the bit scans of \<^verbatim>\<open>src/core/Os.h\<close>): the record that
  follows every captured packet in memory and lists the addresses found in its layers. It
  feeds the flow table: \<open>flowHash\<close> picks the bucket, \<open>isSrcLowerAddr\<close> or \<open>calcSide\<close> the
  direction, \<open>fillAddresses\<close> writes the flow's key and \<open>cmpAddresses\<close> compares it.

  \<open>packetData\<close> is a raw pointer in the code; here it is the byte at every offset from it.
\<close>

subsection \<open>Bit scans\<close>

definition bitScanForward :: "u32 \<Rightarrow> nat" where
  "bitScanForward w = (case find (bit w) [0 ..< 32] of None \<Rightarrow> 2 ^ 32 - 1 | Some n \<Rightarrow> n)"

text \<open>\<^verbatim>\<open>32 - __builtin_clz(Mask)\<close>: one more than the index of the highest bit; undefined at 0.\<close>

definition bitScanReverse :: "u32 \<Rightarrow> nat res" where
  "bitScanReverse w = (case find (bit w) (rev [0 ..< 32]) of None \<Rightarrow> Inl Undefined | Some n \<Rightarrow> Inr (n + 1))"

subsection \<open>Layer types\<close>

datatype ptype = TVlan | TMpls | TBidir | TEth | TIp4 | TTcp | TUdp | TMtp | TMtp3 | TSccp
  | TIsup | TSctp | TSctpChunk | TM2ua | TM3ua | TMaxValue

definition all_ptypes :: "ptype list" where
  "all_ptypes = [TVlan, TMpls, TBidir, TEth, TIp4, TTcp, TUdp, TMtp, TMtp3, TSccp,
     TIsup, TSctp, TSctpChunk, TM2ua, TM3ua, TMaxValue]"

fun ptype_code :: "ptype \<Rightarrow> nat" where
  "ptype_code TVlan = 0"
| "ptype_code TMpls = 1"
| "ptype_code TBidir = 2"
| "ptype_code TEth = 3"
| "ptype_code TIp4 = 4"
| "ptype_code TTcp = 5"
| "ptype_code TUdp = 6"
| "ptype_code TMtp = 7"
| "ptype_code TMtp3 = 8"
| "ptype_code TSccp = 9"
| "ptype_code TIsup = 10"
| "ptype_code TSctp = 11"
| "ptype_code TSctpChunk = 12"
| "ptype_code TM2ua = 13"
| "ptype_code TM3ua = 14"
| "ptype_code TMaxValue = 15"

text \<open>\<^verbatim>\<open>(Type)n\<close> for a value of four bits.\<close>

definition ptype_of :: "nat \<Rightarrow> ptype" where
  "ptype_of n = all_ptypes ! (n mod 16)"

fun getTypeLength :: "ptype \<Rightarrow> nat res" where
  "getTypeLength TVlan = Inr 2"
| "getTypeLength TMpls = Inr 2"
| "getTypeLength TEth = Inr 12"
| "getTypeLength TIp4 = Inr 8"
| "getTypeLength TTcp = Inr 4"
| "getTypeLength TUdp = Inr 4"
| "getTypeLength TMtp = Inr 4"
| "getTypeLength TMtp3 = Inr 4"
| "getTypeLength TSccp = Inr 1"
| "getTypeLength TSctp = Inr 4"
| "getTypeLength TSctpChunk = Inr 0"
| "getTypeLength TM2ua = Inr 0"
| "getTypeLength TM3ua = Inr 0"
| "getTypeLength TIsup = Inr 1"
| "getTypeLength TBidir = Inl AssertFail"
| "getTypeLength TMaxValue = Inl AssertFail"

fun getTypeMask :: "ptype \<Rightarrow> u32 res" where
  "getTypeMask TVlan = Inr 0xFF"
| "getTypeMask TMpls = Inr 0xFF"
| "getTypeMask TMtp = Inr 0x3FFF"
| "getTypeMask TMtp3 = Inr 0x3FFF"
| "getTypeMask TBidir = Inl AssertFail"
| "getTypeMask TMaxValue = Inl AssertFail"
| "getTypeMask _ = Inr 0"

subsection \<open>AddrOffset: type, mix flag and offset in 16 bits\<close>

definition ao_getType :: "u16 \<Rightarrow> ptype" where
  "ao_getType w = ptype_of (unat (w AND 0xF))"

definition ao_getOffset :: "u16 \<Rightarrow> u16" where
  "ao_getOffset w = drop_bit 5 w"

definition ao_getMix :: "u16 \<Rightarrow> bool" where
  "ao_getMix w \<longleftrightarrow> drop_bit 4 (w AND 0x10) \<noteq> 0"

definition ao_unsetMix :: "u16 \<Rightarrow> u16" where
  "ao_unsetMix w = w AND NOT (push_bit 4 1)"

definition ao_set :: "ptype \<Rightarrow> u16 \<Rightarrow> bool \<Rightarrow> u16 res" where
  "ao_set t off mix =
     rbind (rassert (ptype_code t < 16 \<and> off \<le> 0x3FFF)) (\<lambda>_.
       Inr (push_bit 5 off + push_bit 4 (of_bool mix) + word_of_nat (ptype_code t)))"

lemma ptype_code_less: "ptype_code t < 16"
  by (cases t) auto

lemma ptype_of_code [simp]: "ptype_of (ptype_code t) = t"
  by (cases t) (auto simp: ptype_of_def all_ptypes_def)

lemma ao_set_unat:
  assumes "off < 2048"
  shows "unat (push_bit 5 off + push_bit 4 (of_bool mix) + word_of_nat (ptype_code t) :: u16)
    = unat off * 32 + of_bool mix * 16 + ptype_code t"
proof -
  have "push_bit 5 off = word_of_nat (unat off * 32)"
    by (simp add: push_bit_eq_mult mult.commute)
  moreover have "push_bit 4 (of_bool mix :: u16) = word_of_nat (of_bool mix * 16)"
    by (cases mix) (simp_all add: push_bit_eq_mult)
  ultimately have eq: "push_bit 5 off + push_bit 4 (of_bool mix) + word_of_nat (ptype_code t)
      = (word_of_nat (unat off * 32 + of_bool mix * 16 + ptype_code t) :: u16)" by simp
  have "unat off < 2048" using assms by (simp add: word_less_nat_alt)
  then have "unat off * 32 + of_bool mix * 16 + ptype_code t < 2 ^ LENGTH(16)"
    using ptype_code_less [of t] by (cases mix) auto
  then show ?thesis by (simp only: eq unat_word_of_nat)
qed

lemma unat_and_15: "unat (w AND 0xF :: u16) = unat w mod 16"
proof -
  have "(0xF :: u16) = mask 4" by (simp add: mask_eq_exp_minus_1)
  then have "w AND 0xF = take_bit 4 w" by (simp only: take_bit_eq_mask)
  then show ?thesis by (simp only: unat_take_bit) simp
qed

lemma ao_getMix_bit: "ao_getMix w \<longleftrightarrow> odd (unat w div 16)"
proof -
  have "drop_bit 4 (w AND 0x10) = of_bool (bit w 4)"
    by (rule bit_word_eqI) (auto simp: bit_simps)
  then have "ao_getMix w = bit w 4" by (simp add: ao_getMix_def)
  also have "\<dots> = bit (unat w) 4" by (simp add: bit_unsigned_iff)
  also have "\<dots> = odd (unat w div 16)" by (simp add: bit_iff_odd)
  finally show ?thesis .
qed

lemma ao_fields:
  assumes "unat w = n * 32 + of_bool mix * 16 + ptype_code t"
  shows "ao_getType w = t" and "unat (ao_getOffset w) = n" and "ao_getMix w = mix"
proof -
  have arith: "(n * 32 + b * 16 + k) mod 16 = k \<and> (n * 32 + b * 16 + k) div 32 = n \<and>
      (n * 32 + b * 16 + k) div 16 = 2 * n + b" if "b < 2" "k < 16" for n b k :: nat
    using that by presburger
  have "unat w mod 16 = ptype_code t \<and> unat w div 32 = n \<and> unat w div 16 = 2 * n + of_bool mix"
    unfolding assms by (rule arith) (simp_all add: ptype_code_less)
  then show "ao_getType w = t" "unat (ao_getOffset w) = n" "ao_getMix w = mix"
    by (simp_all add: ao_getType_def unat_and_15 ao_getOffset_def unat_drop_bit [of 5, simplified]
        unat_drop_bit ao_getMix_bit del: drop_bit_eq_div)
qed

subsection \<open>The record and its limits\<close>

record limits =
  layers2Max :: u8
  layers3Max :: u8
  layers4Max :: u8

definition configure :: "u8 \<Rightarrow> u8 \<Rightarrow> u8 \<Rightarrow> limits" where
  "configure l2 l3 l4 = \<lparr>layers2Max = l2, layers3Max = l3, layers4Max = l4\<rparr>"

text \<open>The static members before \<^verbatim>\<open>configure\<close> (\<^verbatim>\<open>PacketDetails.cpp\<close>).\<close>

definition default_limits :: limits where
  "default_limits = \<lparr>layers2Max = 0, layers3Max = 0, layers4Max = 0\<rparr>"

record PacketDetails =
  flowHash :: u64
  lastIpLayer :: u8
  lastMtpLayer :: u8
  lastM3uaLayer :: u8
  layersCnt :: u8
  layers2Cnt :: u8
  layers3Cnt :: u8
  layers4Cnt :: u8
  more2Layers :: bool
  more3Layers :: bool
  more4Layers :: bool
  layers :: "nat \<Rightarrow> u16"

definition pd_init :: "PacketDetails \<Rightarrow> PacketDetails" where
  "pd_init d = d\<lparr>lastIpLayer := 0xFF, lastMtpLayer := 0xFF, lastM3uaLayer := 0xFF,
     flowHash := 0, layersCnt := 0, layers2Cnt := 0, layers3Cnt := 0, layers4Cnt := 0,
     more2Layers := False, more3Layers := False, more4Layers := False\<rparr>"

text \<open>
  \<open>layers\<close> is declared with one element and used as an array over the
  \<^verbatim>\<open>CONFIG_PACKET_RESERVE\<close> = 64 bytes that \<^verbatim>\<open>allocPacket\<close> keeps behind the packet. The
  record's other fields take 18 of them, which leaves room for 23 elements of 2 bytes.
\<close>

definition layers_room :: nat where
  "layers_room = (64 - 18) div 2"

definition put_layer :: "nat \<Rightarrow> u16 \<Rightarrow> PacketDetails \<Rightarrow> PacketDetails res" where
  "put_layer i w d = (if i < layers_room then Inr (d\<lparr>layers := (layers d)(i := w)\<rparr>) else Inl OutOfBounds)"

definition get_layer :: "PacketDetails \<Rightarrow> nat \<Rightarrow> u16 res" where
  "get_layer d i = (if i < layers_room then Inr (layers d i) else Inl OutOfBounds)"

text \<open>\<^verbatim>\<open>layers[layersCnt++].set(type, offset, mix)\<close> and \<^verbatim>\<open>layers[layersCnt - 1].set(type, offset, false)\<close>.\<close>

definition add_layer :: "ptype \<Rightarrow> u16 \<Rightarrow> bool \<Rightarrow> PacketDetails \<Rightarrow> PacketDetails res" where
  "add_layer t off mix d =
     rbind (ao_set t off mix) (\<lambda>w. rbind (put_layer (unat (layersCnt d)) w d) (\<lambda>d'.
       Inr (d'\<lparr>layersCnt := layersCnt d + 1\<rparr>)))"

definition replace_last :: "ptype \<Rightarrow> u16 \<Rightarrow> PacketDetails \<Rightarrow> PacketDetails res" where
  "replace_last t off d =
     (if layersCnt d = 0 then Inl OutOfBounds
      else rbind (ao_set t off False) (\<lambda>w. put_layer (unat (layersCnt d) - 1) w d))"

definition add_hash :: "u64 \<Rightarrow> PacketDetails \<Rightarrow> PacketDetails" where
  "add_hash h d = d\<lparr>flowHash := flowHash d + h\<rparr>"

definition count2 :: "PacketDetails \<Rightarrow> PacketDetails" where
  "count2 d = d\<lparr>layers2Cnt := layers2Cnt d + 1\<rparr>"

definition count3 :: "PacketDetails \<Rightarrow> PacketDetails" where
  "count3 d = d\<lparr>layers3Cnt := layers3Cnt d + 1\<rparr>"

definition count4 :: "PacketDetails \<Rightarrow> PacketDetails" where
  "count4 d = d\<lparr>layers4Cnt := layers4Cnt d + 1\<rparr>"

subsection \<open>The push operations\<close>

text \<open>
  Each takes the packet data \<open>m\<close> and the position \<open>p\<close> of the layer's header in it. The
  bit fields of the routing label, the MPLS header and the circuit code are those of
  \<^verbatim>\<open>routing_label_t\<close>, \<^verbatim>\<open>MplsHdr\<close> and \<^verbatim>\<open>cic_t\<close> on a little-endian host.
\<close>

definition rl_dpc :: "u32 \<Rightarrow> u32" where "rl_dpc w = take_bit 14 w"
definition rl_opc :: "u32 \<Rightarrow> u32" where "rl_opc w = take_bit 14 (drop_bit 14 w)"
definition rl_sls :: "u32 \<Rightarrow> u32" where "rl_sls w = drop_bit 28 w"
definition cic_cic :: "u16 \<Rightarrow> u16" where "cic_cic w = take_bit 12 w"

definition mpls_label :: "u32 \<Rightarrow> u32" where
  "mpls_label w = take_bit 16 w + push_bit 16 (take_bit 4 (drop_bit 20 w))"

text \<open>\<^verbatim>\<open>*(uint32_t* )p + *((uint16_t* )p + 2)\<close>, in 32 bits: the hash of a MAC address.\<close>

definition mac_hash :: "mem \<Rightarrow> nat \<Rightarrow> u64" where
  "mac_hash m p = ucast (ld32 m p + ucast (ld16 m (p + 4)))"

definition pushEth :: "limits \<Rightarrow> mem \<Rightarrow> nat \<Rightarrow> bool \<Rightarrow> PacketDetails \<Rightarrow> PacketDetails res" where
  "pushEth l m p mix d =
     (if layers2Cnt d \<noteq> layers2Max l
      then let d = (if mix then d else add_hash (mac_hash m (p + 6)) d);
               d = (if mix then d else add_hash (mac_hash m p) d)
           in rbind (add_layer TEth (word_of_nat (p + 6)) mix d) (\<lambda>d. Inr (count2 d))
      else Inr (d\<lparr>more2Layers := True\<rparr>))"

definition pushVlan :: "limits \<Rightarrow> mem \<Rightarrow> nat \<Rightarrow> bool \<Rightarrow> PacketDetails \<Rightarrow> PacketDetails res" where
  "pushVlan l m p mix d =
     (if layers2Cnt d \<noteq> layers2Max l
      then let d = (if mix then d else add_hash (ucast (ld16 m p)) d);
               d = (if mix then d else add_hash (ucast (ld16 m p)) d)
           in rbind (add_layer TVlan (word_of_nat p) mix d) (\<lambda>d. Inr (count2 d))
      else Inr (d\<lparr>more2Layers := True\<rparr>))"

definition pushMpls :: "limits \<Rightarrow> mem \<Rightarrow> nat \<Rightarrow> bool \<Rightarrow> PacketDetails \<Rightarrow> PacketDetails res" where
  "pushMpls l m p mix d =
     (if layers2Cnt d \<noteq> layers2Max l
      then let d = (if mix then d else add_hash (ucast (mpls_label (ld32 m p))) d);
               d = (if mix then d else add_hash (ucast (mpls_label (ld32 m p))) d)
           in rbind (add_layer TMpls (word_of_nat p) mix d) (\<lambda>d. Inr (count2 d))
      else Inr (d\<lparr>more2Layers := True\<rparr>))"

text \<open>\<open>pushMtp\<close> and \<open>pushMtp3\<close> differ in the type they record and in where the label lies.\<close>

definition pushMtp :: "limits \<Rightarrow> mem \<Rightarrow> nat \<Rightarrow> PacketDetails \<Rightarrow> PacketDetails res" where
  "pushMtp l m p d =
     (let d = add_hash (ucast (rl_opc (ld32 m (p + 4)))) d;
          d = add_hash (ucast (rl_dpc (ld32 m (p + 4)))) d;
          d = d\<lparr>lastMtpLayer := layersCnt d\<rparr>
      in if layers3Cnt d \<noteq> layers3Max l
         then rbind (add_layer TMtp (word_of_nat (p + 4)) False d) (\<lambda>d. Inr (count3 d))
         else rbind (replace_last TMtp (word_of_nat (p + 4)) d) (\<lambda>d. Inr (d\<lparr>more3Layers := True\<rparr>)))"

definition pushMtp3 :: "limits \<Rightarrow> mem \<Rightarrow> nat \<Rightarrow> PacketDetails \<Rightarrow> PacketDetails res" where
  "pushMtp3 l m p d =
     (let d = add_hash (ucast (rl_opc (ld32 m (p + 1)))) d;
          d = add_hash (ucast (rl_dpc (ld32 m (p + 1)))) d;
          d = d\<lparr>lastMtpLayer := layersCnt d\<rparr>
      in if layers3Cnt d \<noteq> layers3Max l
         then rbind (add_layer TMtp3 (word_of_nat (p + 1)) False d) (\<lambda>d. Inr (count3 d))
         else rbind (replace_last TMtp3 (word_of_nat (p + 1)) d) (\<lambda>d. Inr (d\<lparr>more3Layers := True\<rparr>)))"

definition pushIp4 :: "limits \<Rightarrow> mem \<Rightarrow> nat \<Rightarrow> bool \<Rightarrow> PacketDetails \<Rightarrow> PacketDetails res" where
  "pushIp4 l m p mix d =
     (if layers3Cnt d \<noteq> layers3Max l
      then let d = (if mix then d else add_hash (ucast (ld32 m (p + 12))) d);
               d = (if mix then d else add_hash (ucast (ld32 m (p + 16))) d);
               d = d\<lparr>lastIpLayer := layersCnt d\<rparr>
           in rbind (add_layer TIp4 (word_of_nat (p + 12)) mix d) (\<lambda>d. Inr (count3 d))
      else let d = add_hash (ucast (ld32 m (p + 12))) d;
               d = add_hash (ucast (ld32 m (p + 16))) d
           in rbind (replace_last TIp4 (word_of_nat (p + 12)) d) (\<lambda>d. Inr (d\<lparr>more3Layers := True\<rparr>)))"

definition pushIsup :: "limits \<Rightarrow> mem \<Rightarrow> nat \<Rightarrow> PacketDetails \<Rightarrow> PacketDetails res" where
  "pushIsup l m p d =
     (let d = add_hash (ucast (cic_cic (ld16 m p))) d
      in if layers4Cnt d \<noteq> layers4Max l
         then rbind (add_layer TIsup (word_of_nat p) False d) (\<lambda>d. Inr (count4 d))
         else rbind (replace_last TIsup (word_of_nat p) d) (\<lambda>d. Inr (d\<lparr>more4Layers := True\<rparr>)))"

text \<open>\<open>pushTcp\<close>, \<open>pushUdp\<close> and \<open>pushSctp\<close> add both ports and record the port pair.\<close>

definition push_ports :: "ptype \<Rightarrow> limits \<Rightarrow> mem \<Rightarrow> nat \<Rightarrow> PacketDetails \<Rightarrow> PacketDetails res" where
  "push_ports t l m p d =
     (let d' = add_hash (ucast (ld16 m (p + 2))) (add_hash (ucast (ld16 m p)) d)
      in if layers4Cnt d \<noteq> layers4Max l
         then rbind (add_layer t (word_of_nat p) False d') (\<lambda>d. Inr (count4 d))
         else rbind (replace_last t (word_of_nat p) d') (\<lambda>d. Inr (d\<lparr>more4Layers := True\<rparr>)))"

definition pushTcp :: "limits \<Rightarrow> mem \<Rightarrow> nat \<Rightarrow> PacketDetails \<Rightarrow> PacketDetails res" where
  "pushTcp = push_ports TTcp"

definition pushUdp :: "limits \<Rightarrow> mem \<Rightarrow> nat \<Rightarrow> PacketDetails \<Rightarrow> PacketDetails res" where
  "pushUdp = push_ports TUdp"

definition pushSctp :: "limits \<Rightarrow> mem \<Rightarrow> nat \<Rightarrow> PacketDetails \<Rightarrow> PacketDetails res" where
  "pushSctp = push_ports TSctp"

text \<open>These two record a layer and do not count it.\<close>

definition pushSctpChunk :: "limits \<Rightarrow> mem \<Rightarrow> nat \<Rightarrow> PacketDetails \<Rightarrow> PacketDetails res" where
  "pushSctpChunk l m p d =
     (if layers4Cnt d \<noteq> layers4Max l then add_layer TSctpChunk (word_of_nat p) False d else Inr d)"

definition pushM2ua :: "limits \<Rightarrow> mem \<Rightarrow> nat \<Rightarrow> PacketDetails \<Rightarrow> PacketDetails res" where
  "pushM2ua l m p d =
     (if layers4Cnt d \<noteq> layers4Max l then add_layer TM2ua (word_of_nat p) False d else Inr d)"

text \<open>
  \<open>p\<close> is the position of the M3UA header, \<open>b\<close> that of \<^verbatim>\<open>getWithOffset(0)\<close>; the two agree
  on a rebased packet.
\<close>

definition pushM3ua :: "limits \<Rightarrow> mem \<Rightarrow> nat \<Rightarrow> nat \<Rightarrow> u16 \<Rightarrow> PacketDetails \<Rightarrow> PacketDetails res" where
  "pushM3ua l m p b opcOffset d =
     (let d = d\<lparr>lastM3uaLayer := layersCnt d\<rparr>;
          d = (if opcOffset \<noteq> 0
               then add_hash (ucast (ld32 m (b + unat opcOffset + 4)))
                      (add_hash (ucast (ld32 m (b + unat opcOffset))) d)
               else d)
      in if layers4Cnt d \<noteq> layers4Max l
         then rbind (add_layer TM3ua (word_of_nat (p + unat opcOffset)) False d) (\<lambda>d. Inr (count4 d))
         else Inr d)"

subsection \<open>Reading layers back\<close>

definition getLayersCnt :: "limits \<Rightarrow> PacketDetails \<Rightarrow> (u8 \<times> PacketDetails) res" where
  "getLayersCnt l d =
     rbind (rassert (layers2Cnt d \<le> layers2Max l \<and> layers3Cnt d \<le> layers3Max l \<and> layers4Cnt d \<le> layers4Max l)) (\<lambda>_.
     rbind (if lastIpLayer d \<noteq> 0xFF
            then rbind (get_layer d (unat (lastIpLayer d))) (\<lambda>w.
                   put_layer (unat (lastIpLayer d)) (ao_unsetMix w) d)
            else Inr d) (\<lambda>d.
       Inr (layers2Cnt d + layers3Cnt d + layers4Cnt d, d)))"

record layer_addr =
  la_off :: nat
  la_len :: nat
  la_type :: ptype
  la_mask :: u32
  la_mix :: bool

text \<open>The counts are promoted to \<^verbatim>\<open>int\<close> before they are added; \<open>la_off\<close> is the address returned.\<close>

definition getLayerAddr :: "PacketDetails \<Rightarrow> nat \<Rightarrow> layer_addr res" where
  "getLayerAddr d i =
     rbind (rassert (i < unat (layers2Cnt d) + unat (layers3Cnt d) + unat (layers4Cnt d))) (\<lambda>_.
     rbind (get_layer d i) (\<lambda>w.
       let t = ao_getType w
       in rbind (getTypeLength t) (\<lambda>n. rbind (getTypeMask t) (\<lambda>k.
            Inr \<lparr>la_off = unat (ao_getOffset w), la_len = n, la_type = t, la_mask = k, la_mix = ao_getMix w\<rparr>))))"

fun mem_compare :: "u8 list \<Rightarrow> u8 list \<Rightarrow> int" where
  "mem_compare (x # xs) (y # ys) = (if x < y then -1 else if x > y then 1 else mem_compare xs ys)"
| "mem_compare _ _ = 0"

text \<open>The two addresses under a mask: low field and the field above it. A shift by 32 is undefined.\<close>

definition masked_addrs :: "mem \<Rightarrow> nat \<Rightarrow> u32 \<Rightarrow> (u32 \<times> u32) res" where
  "masked_addrs m a msk =
     rbind (bitScanReverse msk) (\<lambda>indEnd.
       if indEnd = 32 then Inl Undefined
       else let indStart = bitScanForward msk; shiftedMask = drop_bit indStart msk
         in Inr (drop_bit indStart (ld32 m a) AND shiftedMask, drop_bit indEnd (ld32 m a) AND shiftedMask))"

definition le_bytes32 :: "u32 \<Rightarrow> u8 list" where
  "le_bytes32 w = [ucast w, ucast (drop_bit 8 w), ucast (drop_bit 16 w), ucast (drop_bit 24 w)]"

definition CONFIG_FLOWADDR_SIZE :: nat where
  "CONFIG_FLOWADDR_SIZE = 32"

subsection \<open>Readers of single addresses\<close>

text \<open>
  The readers return a position in the packet data, None for \<^verbatim>\<open>nullptr\<close>. The type is an
  output argument that keeps the caller's value on some paths, so it is threaded through.
\<close>

definition getIpAddr :: "PacketDetails \<Rightarrow> bool \<Rightarrow> ptype \<Rightarrow> (nat option \<times> ptype) res" where
  "getIpAddr d src typeOut =
     (if lastIpLayer d \<noteq> 0xFF
      then rbind (getLayerAddr d (unat (lastIpLayer d))) (\<lambda>la.
             Inr (Some (la_off la + (if src then 0 else la_len la div 2)), la_type la))
      else Inr (None, typeOut))"

definition getPort :: "limits \<Rightarrow> PacketDetails \<Rightarrow> bool \<Rightarrow> ptype \<Rightarrow> (nat option \<times> ptype \<times> PacketDetails) res" where
  "getPort l d src typeOut =
     (if typeOut = TM3ua
      then if lastM3uaLayer d \<noteq> 0xFF \<and> int (unat (lastM3uaLayer d)) - 1 > 1
           then rbind (getLayerAddr d (unat (lastM3uaLayer d) - 1)) (\<lambda>la.
                  Inr (Some (la_off la + (if src then 0 else 2)), typeOut, d))
           else Inr (None, typeOut, d)
      else rbind (getLayersCnt l d) (\<lambda>(n, d).
             if lastIpLayer d \<noteq> 0xFF \<and> unat n > unat (lastIpLayer d) + 1
             then rbind (getLayerAddr d (unat (lastIpLayer d) + 1)) (\<lambda>la.
                    Inr (Some (la_off la + (if src then 0 else la_len la div 2)), la_type la, d))
             else Inr (None, typeOut, d)))"

definition getRl :: "PacketDetails \<Rightarrow> ptype \<Rightarrow> (nat option \<times> ptype) res" where
  "getRl d typeOut =
     (if lastMtpLayer d \<noteq> 0xFF
      then rbind (getLayerAddr d (unat (lastMtpLayer d))) (\<lambda>la. Inr (Some (la_off la), la_type la))
      else Inr (None, typeOut))"

definition getCic :: "limits \<Rightarrow> PacketDetails \<Rightarrow> ptype \<Rightarrow> (nat option \<times> ptype \<times> PacketDetails) res" where
  "getCic l d typeOut =
     rbind (getLayersCnt l d) (\<lambda>(n, d).
       if lastMtpLayer d \<noteq> 0xFF \<and> unat n > unat (lastMtpLayer d) + 1
       then rbind (getLayerAddr d (unat (lastMtpLayer d) + 1)) (\<lambda>la. Inr (Some (la_off la), la_type la, d))
       else Inr (None, typeOut, d))"

definition getPc :: "PacketDetails \<Rightarrow> mem \<Rightarrow> bool \<Rightarrow> ptype \<Rightarrow> (u32 \<times> ptype) res" where
  "getPc d m src typeOut =
     (if lastM3uaLayer d = 0xFF \<and> lastMtpLayer d = 0xFF then Inr (0, typeOut)
      else let layer = (if lastM3uaLayer d \<noteq> 0xFF then lastM3uaLayer d else lastMtpLayer d)
           in rbind (getLayerAddr d (unat layer)) (\<lambda>la.
                if lastM3uaLayer d \<noteq> 0xFF
                then Inr (LS_ntohl (ld32 m (la_off la + (if src then 0 else 4))), la_type la)
                else Inr (ucast (LS_ntohs (ld16 m (la_off la + (if src then 0 else 2)))), la_type la)))"

subsection \<open>Printing the addresses\<close>

definition AddrBuffer_Size :: nat where
  "AddrBuffer_Size = 64"

text \<open>
  \<^verbatim>\<open>snprintf\<close> at the end of what the buffer holds. The next call would get a negative size
  once \<^verbatim>\<open>length\<close> exceeds the buffer, which is a fault.
\<close>

definition snprintf_app :: "string \<Rightarrow> string \<Rightarrow> string res" where
  "snprintf_app buf s =
     (if length buf + length s < AddrBuffer_Size then Inr (buf @ s) else Inl OutOfBounds)"

record print_layers =
  pl_tcp :: "nat option"
  pl_isup :: "nat option"
  pl_ip4 :: "nat option"
  pl_sccp :: "nat option"
  pl_mtp :: "nat option"
  pl_m3ua :: "nat option"
  pl_layer :: u8

text \<open>
  The walk down from the last layer that \<^verbatim>\<open>printSrcAddr\<close> and \<^verbatim>\<open>printDstAddr\<close> begin with;
  \<open>pl_layer\<close> is the value of \<^verbatim>\<open>layer\<close> at its end. None: there is no layer.
\<close>

definition pick_layers :: "PacketDetails \<Rightarrow> print_layers option res" where
  "pick_layers d =
     (let layer = layersCnt d - 1
      in if layer = 0xFF then Inr None
         else rbind (get_layer d (unat layer)) (\<lambda>w.
           let t = ao_getType w;
               p = \<lparr>pl_tcp = None, pl_isup = None, pl_ip4 = None, pl_sccp = None, pl_mtp = None,
                    pl_m3ua = None, pl_layer = layer\<rparr>;
               p = (if t = TTcp \<or> t = TUdp then p\<lparr>pl_tcp := Some (unat layer), pl_layer := layer - 1\<rparr>
                    else if t = TIsup then p\<lparr>pl_isup := Some (unat layer), pl_layer := layer - 1\<rparr> else p);
               layer = pl_layer p
           in if layer = 0xFF then Inr (Some p)
              else rbind (get_layer d (unat layer)) (\<lambda>w.
                let t = ao_getType w
                in Inr (Some (
                     if t = TIp4 then p\<lparr>pl_ip4 := Some (unat layer), pl_layer := layer - 1\<rparr>
                     else if t = TSccp then p\<lparr>pl_sccp := Some (unat layer), pl_layer := layer - 1\<rparr>
                     else if t = TMtp then p\<lparr>pl_mtp := Some (unat layer)\<rparr>
                     else if t = TM3ua then p\<lparr>pl_m3ua := Some (unat layer), pl_layer := layer - 1\<rparr>
                     else p)))))"

definition layer_off :: "PacketDetails \<Rightarrow> nat \<Rightarrow> nat res" where
  "layer_off d i = rbind (get_layer d i) (\<lambda>w. Inr (unat (ao_getOffset w)))"

definition when_some :: "nat option \<Rightarrow> (nat \<Rightarrow> string res) \<Rightarrow> string \<Rightarrow> string res" where
  "when_some x f buf = (case x of None \<Rightarrow> Inr buf | Some i \<Rightarrow> rbind (f i) (snprintf_app buf))"

definition dotted :: "u32 \<Rightarrow> string" where
  "dotted ip = dec (unat (ip AND 0xFF)) @ ''.'' @ dec (unat (drop_bit 8 (ip AND 0xFF00))) @ ''.'' @
     dec (unat (drop_bit 16 (ip AND 0xFF0000))) @ ''.'' @ dec (unat (drop_bit 24 (ip AND 0xFF000000)))"

definition print_addr :: "nat \<Rightarrow> nat \<Rightarrow> (u32 \<Rightarrow> u32) \<Rightarrow> PacketDetails \<Rightarrow> mem \<Rightarrow> string res" where
  "print_addr ip_at port_at pc d m =
     rbind (pick_layers d) (\<lambda>x. case x of None \<Rightarrow> Inr [] | Some p \<Rightarrow>
       rbind (when_some (pl_ip4 p) (\<lambda>i. rbind (layer_off d i) (\<lambda>a. Inr (dotted (ld32 m (a + ip_at))))) []) (\<lambda>b.
       rbind (when_some (pl_mtp p) (\<lambda>i. rbind (layer_off d i) (\<lambda>a. Inr (dec (unat (pc (ld32 m a)))))) b) (\<lambda>b.
       rbind (when_some (pl_tcp p) (\<lambda>i. rbind (layer_off d i) (\<lambda>a.
                Inr ('':'' @ dec (unat (LS_ntohs (ld16 m (a + port_at))))))) b) (\<lambda>b.
       when_some (pl_m3ua p) (\<lambda>_. rbind (layer_off d (unat (pl_layer p))) (\<lambda>a.
                Inr ('':'' @ dec (unat (LS_ntohs (ld16 m (a + port_at))))))) b))))"

definition printSrcAddr :: "PacketDetails \<Rightarrow> mem \<Rightarrow> string res" where
  "printSrcAddr = print_addr 0 0 rl_opc"

definition printDstAddr :: "PacketDetails \<Rightarrow> mem \<Rightarrow> string res" where
  "printDstAddr = print_addr 4 2 rl_dpc"

definition printSlsCic :: "PacketDetails \<Rightarrow> mem \<Rightarrow> string res" where
  "printSlsCic d m =
     (let layer = layersCnt d - 1
      in if layer = 0xFF then Inr []
         else rbind (get_layer d (unat layer)) (\<lambda>w.
           let isup = (if ao_getType w = TIsup then Some (unat layer) else None);
               layer = (if ao_getType w = TIsup then layer - 1 else layer)
           in rbind (if layer = 0xFF then Inr None
                     else rbind (get_layer d (unat layer)) (\<lambda>w.
                       Inr (if ao_getType w = TMtp then Some (unat layer) else None))) (\<lambda>mtp.
              rbind (when_some mtp (\<lambda>i. rbind (layer_off d i) (\<lambda>a. Inr (dec (unat (rl_sls (ld32 m a)))))) []) (\<lambda>b.
              when_some isup (\<lambda>i. rbind (layer_off d i) (\<lambda>a. Inr ('':'' @ dec (unat (cic_cic (ld16 m a)))))) b))))"

definition calcPacketDetailsSize :: "int \<Rightarrow> nat" where
  "calcPacketDetailsSize n = nat ((24 + 2 * (n - 1)) mod 2 ^ 64)"

subsection \<open>Direction, key and comparison\<close>

text \<open>How the two addresses of one layer compare: the common body of the direction loops.\<close>

definition layer_order :: "mem \<Rightarrow> layer_addr \<Rightarrow> int res" where
  "layer_order m la =
     (let len = la_len la
      in if la_mask la = 0
         then rbind (rassert (len = 1 \<or> even len)) (\<lambda>_.
                Inr (mem_compare (slice m (la_off la) (len div 2))
                                 (slice m (la_off la + len div 2) (len div 2))))
         else rbind (masked_addrs m (la_off la) (la_mask la)) (\<lambda>(src, dst).
                Inr (if src < dst then -1 else if src > dst then 1 else 0)))"

text \<open>The loops run from the last layer down; \<open>Suc i\<close> is about to look at layer \<open>i\<close>.\<close>

fun src_lower_loop :: "mem \<Rightarrow> PacketDetails \<Rightarrow> nat \<Rightarrow> nat \<Rightarrow> bool res" where
  "src_lower_loop m d 0 pos = Inr False"
| "src_lower_loop m d (Suc i) pos =
     rbind (getLayerAddr d i) (\<lambda>la.
       if ptype_code (la_type la) > ptype_code TBidir \<and> \<not> la_mix la
       then if pos + la_len la > CONFIG_FLOWADDR_SIZE - 1 then Inr False
            else rbind (layer_order m la) (\<lambda>r.
              if r < 0 then Inr True
              else if r > 0 then Inr False
              else src_lower_loop m d i (pos + la_len la))
       else src_lower_loop m d i pos)"

definition isSrcLowerAddr :: "limits \<Rightarrow> mem \<Rightarrow> PacketDetails \<Rightarrow> (bool \<times> PacketDetails) res" where
  "isSrcLowerAddr l m d =
     rbind (getLayersCnt l d) (\<lambda>(n, d). rbind (src_lower_loop m d (unat n) 0) (\<lambda>r. Inr (r, d)))"

fun calc_side_loop :: "mem \<Rightarrow> PacketDetails \<Rightarrow> nat \<Rightarrow> nat \<Rightarrow> bool res" where
  "calc_side_loop m d 0 pos = Inr False"
| "calc_side_loop m d (Suc i) pos =
     rbind (getLayerAddr d i) (\<lambda>la.
       if \<not> la_mix la
       then if pos + la_len la > CONFIG_FLOWADDR_SIZE - 1 then Inr False
            else rbind (layer_order m la) (\<lambda>r.
              if r < 0 then Inr False
              else if r > 0 then Inr True
              else calc_side_loop m d i (pos + la_len la))
       else calc_side_loop m d i pos)"

definition calcSide :: "limits \<Rightarrow> mem \<Rightarrow> PacketDetails \<Rightarrow> (bool \<times> PacketDetails) res" where
  "calcSide l m d =
     rbind (getLayersCnt l d) (\<lambda>(n, d). rbind (calc_side_loop m d (unat n) 0) (\<lambda>r. Inr (r, d)))"

text \<open>The bytes one layer contributes to the key.\<close>

definition layer_key :: "mem \<Rightarrow> layer_addr \<Rightarrow> bool \<Rightarrow> u8 list res" where
  "layer_key m la side =
     (let len = la_len la; a = la_off la
      in if la_mask la = 0
         then rbind (rassert (len = 1 \<or> even len)) (\<lambda>_.
                Inr (if side \<or> len = 1 then slice m a len
                     else slice m (a + len div 2) (len div 2) @ slice m a (len div 2)))
         else rbind (masked_addrs m a (la_mask la)) (\<lambda>(src, dst).
                let s = take (len div 2) (le_bytes32 src); t = take (len div 2) (le_bytes32 dst)
                in Inr (if side then s @ t else t @ s)))"

text \<open>\<open>fill_loop\<close> returns the position reached and the address buffer.\<close>

fun fill_loop :: "mem \<Rightarrow> PacketDetails \<Rightarrow> bool \<Rightarrow> nat \<Rightarrow> nat \<Rightarrow> mem \<Rightarrow> (nat \<times> mem) res" where
  "fill_loop m d side 0 pos a = Inr (pos, a)"
| "fill_loop m d side (Suc i) pos a =
     rbind (getLayerAddr d i) (\<lambda>la.
       if \<not> la_mix la
       then if pos + la_len la > CONFIG_FLOWADDR_SIZE - 1 then Inr (pos, a)
            else rbind (layer_key m la side) (\<lambda>bs.
              fill_loop m d side i (pos + la_len la) (memcpy pos bs a))
       else fill_loop m d side i pos a)"

definition fillAddresses :: "limits \<Rightarrow> mem \<Rightarrow> PacketDetails \<Rightarrow> bool \<Rightarrow> mem
    \<Rightarrow> (u8 \<times> mem \<times> PacketDetails) res" where
  "fillAddresses l m d side a =
     rbind (getLayersCnt l d) (\<lambda>(n, d).
     rbind (fill_loop m d side (unat n) 0 a) (\<lambda>(pos, a).
       Inr (word_of_nat pos, st8 (CONFIG_FLOWADDR_SIZE - 1) (word_of_nat pos) a, d)))"

fun cmp_loop :: "mem \<Rightarrow> PacketDetails \<Rightarrow> bool \<Rightarrow> nat \<Rightarrow> nat \<Rightarrow> mem \<Rightarrow> bool res" where
  "cmp_loop m d side 0 pos a = Inr (a (CONFIG_FLOWADDR_SIZE - 1) = word_of_nat pos)"
| "cmp_loop m d side (Suc i) pos a =
     rbind (getLayerAddr d i) (\<lambda>la.
       if \<not> la_mix la
       then if pos + la_len la > CONFIG_FLOWADDR_SIZE - 1
            then Inr (a (CONFIG_FLOWADDR_SIZE - 1) = word_of_nat pos)
            else rbind (layer_key m la side) (\<lambda>bs.
              if slice a pos (length bs) \<noteq> bs then Inr False
              else cmp_loop m d side i (pos + la_len la) a)
       else cmp_loop m d side i pos a)"

definition cmpAddresses :: "limits \<Rightarrow> mem \<Rightarrow> PacketDetails \<Rightarrow> mem \<Rightarrow> bool \<Rightarrow> (bool \<times> PacketDetails) res" where
  "cmpAddresses l m d a side =
     rbind (getLayersCnt l d) (\<lambda>(n, d). rbind (cmp_loop m d side (unat n) 0 a) (\<lambda>r. Inr (r, d)))"

subsection \<open>A layer's key is as long as its type says\<close>

lemma getLayerAddr_type:
  assumes "getLayerAddr d i = Inr la"
  shows "getTypeLength (la_type la) = Inr (la_len la)" and "getTypeMask (la_type la) = Inr (la_mask la)"
    and "i < layers_room" and "la_type la = ao_getType (layers d i)" and "la_mix la = ao_getMix (layers d i)"
    and "la_off la = unat (ao_getOffset (layers d i))"
  using assms by (auto simp: getLayerAddr_def get_layer_def rbind_Inr_iff Let_def split: if_splits)

lemma getLayerAddr_len:
  assumes "getLayerAddr d i = Inr la"
  shows "la_len la \<in> {0, 1, 2, 4, 8, 12}"
  using getLayerAddr_type(1) [OF assms] by (cases "la_type la") auto

lemma getLayerAddr_mask:
  assumes "getLayerAddr d i = Inr la"
  shows "la_mask la = 0 \<or> la_len la = 2 \<or> la_len la = 4"
  using getLayerAddr_type(1,2) [OF assms] by (cases "la_type la") auto

lemma layer_key_length:
  assumes "getLayerAddr d i = Inr la" and "layer_key m la side = Inr bs"
  shows "length bs = la_len la"
proof (cases "la_mask la = 0")
  case True
  with assms(2) have "la_len la = 1 \<or> even (la_len la)"
    and "bs = (if side \<or> la_len la = 1 then slice m (la_off la) (la_len la)
      else slice m (la_off la + la_len la div 2) (la_len la div 2) @ slice m (la_off la) (la_len la div 2))"
    by (auto simp: layer_key_def Let_def rbind_Inr_iff)
  then show ?thesis by auto
next
  case False
  with getLayerAddr_mask [OF assms(1)] have "la_len la = 2 \<or> la_len la = 4" by simp
  moreover from assms(2) False obtain src dst where
    "bs = (if side then take (la_len la div 2) (le_bytes32 src) @ take (la_len la div 2) (le_bytes32 dst)
       else take (la_len la div 2) (le_bytes32 dst) @ take (la_len la div 2) (le_bytes32 src))"
    by (auto simp: layer_key_def Let_def rbind_Inr_iff)
  ultimately show ?thesis by (auto simp: le_bytes32_def)
qed

subsection \<open>Filling and comparing\<close>

text \<open>One turn of the loop, by cases: skipped or stopped, or a key written.\<close>

lemma fill_loop_SucE [consumes 1, case_names skip stop filled]:
  assumes "fill_loop m d side (Suc i) pos a = Inr (pos', a')"
  obtains la where "getLayerAddr d i = Inr la" "la_mix la" "fill_loop m d side i pos a = Inr (pos', a')"
    | la where "getLayerAddr d i = Inr la" "\<not> la_mix la" "pos + la_len la > 31" "pos' = pos" "a' = a"
    | la bs where "getLayerAddr d i = Inr la" "\<not> la_mix la" "pos + la_len la \<le> 31"
        "layer_key m la side = Inr bs" "length bs = la_len la"
        "fill_loop m d side i (pos + la_len la) (memcpy pos bs a) = Inr (pos', a')"
proof -
  from assms obtain la where la: "getLayerAddr d i = Inr la" by (auto simp: rbind_Inr_iff)
  show ?thesis
  proof (cases "la_mix la")
    case True
    with assms la have "fill_loop m d side i pos a = Inr (pos', a')" by simp
    with la True show ?thesis by (rule that(1))
  next
    case mix: False
    show ?thesis
    proof (cases "pos + la_len la > 31")
      case True
      with assms la mix have "pos' = pos" "a' = a" by (simp_all add: CONFIG_FLOWADDR_SIZE_def)
      with la mix True show ?thesis by (rule that(2))
    next
      case False
      with assms la mix obtain bs where "layer_key m la side = Inr bs"
        "fill_loop m d side i (pos + la_len la) (memcpy pos bs a) = Inr (pos', a')"
        by (auto simp: CONFIG_FLOWADDR_SIZE_def rbind_Inr_iff)
      moreover from this(1) have "length bs = la_len la" by (rule layer_key_length [OF la])
      moreover have "pos + la_len la \<le> 31" using False by simp
      ultimately show ?thesis by (intro that(3) [OF la mix])
    qed
  qed
qed

lemma fill_loop_keeps:
  "fill_loop m d side i pos a = Inr (pos', a') \<Longrightarrow> pos \<le> 31 \<Longrightarrow>
     pos \<le> pos' \<and> pos' \<le> 31 \<and> (\<forall>k. k < pos \<or> 31 \<le> k \<longrightarrow> a' k = a k)"
proof (induction i arbitrary: pos a)
  case (Suc i)
  from Suc.prems(1) show ?case
  proof (cases rule: fill_loop_SucE)
    case (skip la)
    from Suc.IH [OF skip(3) Suc.prems(2)] show ?thesis .
  next
    case (stop la)
    then show ?thesis using Suc.prems(2) by simp
  next
    case (filled la bs)
    from Suc.IH [OF filled(6,3)] have "pos + la_len la \<le> pos'" "pos' \<le> 31"
      "\<forall>k. k < pos + la_len la \<or> 31 \<le> k \<longrightarrow> a' k = memcpy pos bs a k" by simp_all
    moreover have "memcpy pos bs a k = a k" if "k < pos \<or> 31 \<le> k" for k
      using that filled(3,5) by (intro memcpy_other) auto
    ultimately show ?thesis by auto
  qed
qed auto

lemma fill_cmp_loop:
  assumes "fill_loop m d side i pos a = Inr (pos', a')" and "pos \<le> 31"
    and "\<And>k. k < 31 \<Longrightarrow> b k = a' k" and "b 31 = word_of_nat pos'"
  shows "cmp_loop m d side i pos b = Inr True"
  using assms(1,2)
proof (induction i arbitrary: pos a)
  case 0
  then show ?case using assms(4) by (simp add: CONFIG_FLOWADDR_SIZE_def)
next
  case (Suc i)
  from Suc.prems(1) show ?case
  proof (cases rule: fill_loop_SucE)
    case (skip la)
    from Suc.IH [OF skip(3) Suc.prems(2)] skip(1,2) show ?thesis by simp
  next
    case (stop la)
    then show ?thesis using assms(4) by (simp add: CONFIG_FLOWADDR_SIZE_def)
  next
    case (filled la bs)
    have "slice b pos (length bs) = slice (memcpy pos bs a) pos (length bs)"
    proof (rule slice_cong)
      fix k assume "pos \<le> k" "k < pos + length bs"
      with fill_loop_keeps [OF filled(6,3)] filled(3,5) assms(3) [of k]
      show "b k = memcpy pos bs a k" by simp
    qed
    then have "slice b pos (length bs) = bs" by (simp add: mem_simps)
    with Suc.IH [OF filled(6,3)] filled show ?thesis by (simp add: CONFIG_FLOWADDR_SIZE_def)
  qed
qed

end
