(* ===== verification/Packet_Chain.thy ===== *)
theory Packet_Chain
  imports Packet_Details
begin

text \<open>
  \<^verbatim>\<open>src/core/Packet.h\<close>: packets on the heap, counted by reference and linked into chains. The heap
  maps the address of every live packet to its fields; an access to an address that is not in it
  is a use after free, \<open>BadIterator\<close>.

  The methods that follow \<open>next\<close> are recursive in the code and do not return on a cyclic
  chain. Here each step takes a unit of fuel; \<open>Diverges\<close> is the answer when it is used up, and the
  lemmas give the amount that is enough for a chain of known length.
\<close>

subsection \<open>Packets\<close>

datatype ptype2 = L2Eth | L2Mtp | L2Mtp3 | L2Hdlc | L2Gfp | L2Lapd

datatype proto = PEth | PMtp2 | PMtp3 | PHdlc | PGfp | PIp4 | PTcp | PUdp | PSctp | PSctpChunk | PM2ua | PM3ua
  | PIsup | PSccp | PTcap

record Packet =
  cpu_ticks :: u64
  refcnt :: u16
  caplen :: u16
  chanid :: u16
  plength :: u16
  poffset :: u16
  payload_shift :: u16
  pk_type :: ptype2
  pk_proto :: proto
  pnext :: "nat option"
  plast :: "nat option"
  pdetails :: "nat \<Rightarrow> PacketDetails option"

type_synonym heap = "nat \<Rightarrow> Packet option"

definition deref :: "nat \<Rightarrow> heap \<Rightarrow> Packet res" where
  "deref a h = (case h a of None \<Rightarrow> Inl BadIterator | Some p \<Rightarrow> Inr p)"

definition update_time :: "u64 \<Rightarrow> Packet \<Rightarrow> Packet" where
  "update_time now p = p\<lparr>cpu_ticks := now\<rparr>"

definition dataLength :: "Packet \<Rightarrow> u16" where
  "dataLength p = caplen p"

text \<open>Where the details begin, from the start of the data.\<close>

definition getDetails :: "Packet \<Rightarrow> nat" where
  "getDetails p = unat (dataLength p)"

text \<open>
  \<open>pdetails\<close> is the record of addresses behind the packet's data, by its offset from the
  start of the data. \<^verbatim>\<open>Packet()\<close> clears the header. \<^verbatim>\<open>malloc\<close> gives an address
  \<open>a\<close> that is not in use; \<open>raw\<close> is what the memory of the details holds before. The length is stored
  in 16 bits.
\<close>

definition zero_packet :: Packet where
  "zero_packet = \<lparr>cpu_ticks = 0, refcnt = 0, caplen = 0, chanid = 0, plength = 0, poffset = 0,
     payload_shift = 0, pk_type = L2Eth, pk_proto = PEth, pnext = None, plast = None, pdetails = Map.empty\<rparr>"

definition init_details :: "PacketDetails \<Rightarrow> Packet \<Rightarrow> Packet" where
  "init_details raw p = p\<lparr>pdetails := [getDetails p \<mapsto> pd_init raw]\<rparr>"

definition allocPacket :: "u64 \<Rightarrow> PacketDetails \<Rightarrow> nat \<Rightarrow> nat \<Rightarrow> heap \<Rightarrow> heap" where
  "allocPacket now raw a len h =
     h(a := Some (init_details raw ((update_time now zero_packet)\<lparr>refcnt := 1, pnext := None, plast := None,
                    payload_shift := 0, caplen := word_of_nat len\<rparr>)))"

text \<open>\<^verbatim>\<open>realloc\<close> may move the packet from \<open>a\<close> to \<open>a'\<close>; nothing that points to it is told.\<close>

definition reallocPacket :: "PacketDetails \<Rightarrow> nat \<Rightarrow> nat \<Rightarrow> nat \<Rightarrow> heap \<Rightarrow> heap res" where
  "reallocPacket raw a a' len h =
     rbind (deref a h) (\<lambda>p. Inr ((h(a := None))(a' :=
       Some (init_details raw (p\<lparr>payload_shift := 0, caplen := word_of_nat len\<rparr>)))))"

fun packet_free :: "nat \<Rightarrow> nat \<Rightarrow> heap \<Rightarrow> heap res" where
  "packet_free 0 a h = Inl Diverges"
| "packet_free (Suc n) a h =
     rbind (deref a h) (\<lambda>p.
       let p = p\<lparr>refcnt := refcnt p - 1\<rparr>; h = h(a := Some p)
       in if refcnt p = 0
          then rbind (case pnext p of None \<Rightarrow> Inr h | Some b \<Rightarrow> packet_free n b h) (\<lambda>h. Inr (h(a := None)))
          else Inr h)"

fun addPacket :: "nat \<Rightarrow> nat \<Rightarrow> nat \<Rightarrow> heap \<Rightarrow> heap res" where
  "addPacket 0 a q h = Inl Diverges"
| "addPacket (Suc n) a q h =
     rbind (rassert (q \<noteq> a)) (\<lambda>_. rbind (deref a h) (\<lambda>p.
       case pnext p of Some b \<Rightarrow> addPacket n b q h | None \<Rightarrow> Inr (h(a := Some (p\<lparr>pnext := Some q\<rparr>)))))"

definition hasNext :: "nat \<Rightarrow> heap \<Rightarrow> bool res" where
  "hasNext a h = rbind (deref a h) (\<lambda>p. Inr (pnext p \<noteq> None))"

definition getNext :: "nat \<Rightarrow> heap \<Rightarrow> nat option res" where
  "getNext a h = rbind (deref a h) (\<lambda>p. Inr (pnext p))"

fun chain_size :: "nat \<Rightarrow> nat \<Rightarrow> heap \<Rightarrow> nat res" where
  "chain_size 0 a h = Inl Diverges"
| "chain_size (Suc n) a h =
     rbind (deref a h) (\<lambda>p. case pnext p of None \<Rightarrow> Inr 1 | Some b \<Rightarrow> rbind (chain_size n b h) (\<lambda>k. Inr (1 + k)))"

fun chain_data_size :: "nat \<Rightarrow> nat \<Rightarrow> heap \<Rightarrow> nat res" where
  "chain_data_size 0 a h = Inl Diverges"
| "chain_data_size (Suc n) a h =
     rbind (deref a h) (\<lambda>p. case pnext p of None \<Rightarrow> Inr (unat (dataLength p))
       | Some b \<Rightarrow> rbind (chain_data_size n b h) (\<lambda>k. Inr (unat (dataLength p) + k)))"

subsection \<open>Owning pointers\<close>

text \<open>\<^verbatim>\<open>sizeof(Packet)\<close> on the 64-bit targets.\<close>

definition SIZEOF_PACKET :: nat where
  "SIZEOF_PACKET = 48"

text \<open>
  \<^verbatim>\<open>Pkt(length, pkt, offset)\<close> writes the window into the packet. \<^verbatim>\<open>Pkt::clone\<close> makes a second owner of
  the same packet with it, and leaves the offset to its default.
\<close>

definition pkt_window :: "nat \<Rightarrow> u16 \<Rightarrow> u16 \<Rightarrow> heap \<Rightarrow> heap res" where
  "pkt_window a len off h = rbind (deref a h) (\<lambda>p. Inr (h(a := Some (p\<lparr>plength := len, poffset := off\<rparr>))))"

definition pkt_clone :: "nat \<Rightarrow> heap \<Rightarrow> heap res" where
  "pkt_clone a h = rbind (deref a h) (\<lambda>p.
     pkt_window a (plength p) (word_of_nat SIZEOF_PACKET) (h(a := Some (p\<lparr>refcnt := refcnt p + 1\<rparr>))))"

text \<open>\<^verbatim>\<open>Pkt::addPacket\<close>: an empty pointer takes the packet over.\<close>

definition pkt_addPacket :: "nat \<Rightarrow> nat option \<Rightarrow> nat \<Rightarrow> heap \<Rightarrow> (nat option \<times> heap) res" where
  "pkt_addPacket fuel this q h =
     (case this of
        Some a \<Rightarrow> rbind (addPacket fuel a q h) (\<lambda>h. Inr (Some a, h))
      | None \<Rightarrow> Inr (Some q, h))"

subsection \<open>Chains\<close>

fun chained :: "heap \<Rightarrow> nat \<Rightarrow> nat list \<Rightarrow> bool" where
  "chained h a [] = False"
| "chained h a (b # bs) = (a = b \<and> (case h b of None \<Rightarrow> False
     | Some p \<Rightarrow> case pnext p of None \<Rightarrow> bs = [] | Some c \<Rightarrow> chained h c bs))"

definition chain :: "heap \<Rightarrow> nat \<Rightarrow> nat list \<Rightarrow> bool" where
  "chain h a xs \<longleftrightarrow> chained h a xs \<and> distinct xs"

lemma chained_cong:
  "(\<And>x. x \<in> set xs \<Longrightarrow> map_option pnext (h' x) = map_option pnext (h x)) \<Longrightarrow> chained h' a xs = chained h a xs"
proof (induction xs arbitrary: a)
  case (Cons b xs)
  have "map_option pnext (h' b) = map_option pnext (h b)" using Cons.prems by simp
  moreover have "chained h' c xs = chained h c xs" for c using Cons by simp
  ultimately show ?case by (cases "h b"; cases "h' b") (auto split: option.splits)
qed simp

lemma chained_head: "chained h a xs \<Longrightarrow> \<exists>ys. xs = a # ys"
  by (cases xs) auto

lemma chain_sizes:
  "chained h a xs \<Longrightarrow> length xs \<le> n \<Longrightarrow> chain_size n a h = Inr (length xs) \<and>
     chain_data_size n a h = Inr (sum_list (map (\<lambda>x. unat (caplen (the (h x)))) xs))"
proof (induction xs arbitrary: a n)
  case (Cons b xs)
  then obtain m where n: "n = Suc m" by (cases n) auto
  from Cons.prems obtain p where p: "h b = Some p" "a = b" by (auto split: option.splits)
  show ?case
  proof (cases "pnext p")
    case None
    with Cons.prems p n show ?thesis by (simp add: deref_def dataLength_def)
  next
    case (Some c)
    with Cons.prems p have "chained h c xs" by simp
    with Cons.IH [of c m] Cons.prems(2) n p Some show ?thesis by (simp add: deref_def dataLength_def)
  qed
qed simp

lemma addPacket_chained:
  assumes "chained h a xs" and "distinct xs" and "q \<notin> set xs" and "length xs \<le> n" and "chained h q ys"
    and "set xs \<inter> set ys = {}"
  shows "\<exists>h'. addPacket n a q h = Inr h' \<and> chained h' a (xs @ ys) \<and> (\<forall>x. x \<notin> set xs \<longrightarrow> h' x = h x) \<and>
    (\<forall>x. map_option (\<lambda>p. p\<lparr>pnext := None\<rparr>) (h' x) = map_option (\<lambda>p. p\<lparr>pnext := None\<rparr>) (h x))"
  using assms
proof (induction xs arbitrary: a n)
  case (Cons b xs)
  then obtain m where n: "n = Suc m" by (cases n) auto
  from Cons.prems obtain p where p: "h b = Some p" "a = b" by (auto split: option.splits)
  show ?case
  proof (cases "pnext p")
    case None
    with Cons.prems p have xs: "xs = []" by simp
    let ?h = "h(b := Some (p\<lparr>pnext := Some q\<rparr>))"
    have "chained ?h q ys = chained h q ys" using Cons.prems(6) by (intro chained_cong) auto
    with Cons.prems None p n xs show ?thesis by (auto simp: deref_def)
  next
    case (Some c)
    with Cons.prems p have "chained h c xs" by simp
    with Cons.IH [of c m] Cons.prems n obtain h' where h': "addPacket m c q h = Inr h'" "chained h' c (xs @ ys)"
      "\<forall>x. x \<notin> set xs \<longrightarrow> h' x = h x"
      "\<forall>x. map_option (\<lambda>p. p\<lparr>pnext := None\<rparr>) (h' x) = map_option (\<lambda>p. p\<lparr>pnext := None\<rparr>) (h x)" by auto
    have "h' b = Some p" using h'(3) Cons.prems(2) p by simp
    with h' Cons.prems(3) n p Some show ?thesis by (auto simp: deref_def)
  qed
qed simp

lemma caplen_same:
  "map_option (\<lambda>p. p\<lparr>pnext := None\<rparr>) x = map_option (\<lambda>p. p\<lparr>pnext := None\<rparr>) y \<Longrightarrow>
   caplen (the x) = caplen (the y)"
  by (cases x; cases y) (auto dest: arg_cong [of _ _ caplen])

lemma free_aux:
  "chained h a (xs @ zs) \<Longrightarrow> distinct (xs @ zs) \<Longrightarrow> length (xs @ zs) \<le> n \<Longrightarrow>
   list_all (\<lambda>x. refcnt (the (h x)) = 1) xs \<Longrightarrow> (zs \<noteq> [] \<Longrightarrow> refcnt (the (h (hd zs))) \<noteq> 1) \<Longrightarrow>
   packet_free n a h = Inr (\<lambda>x. if x \<in> set xs then None
     else if zs \<noteq> [] \<and> x = hd zs then map_option (\<lambda>p. p\<lparr>refcnt := refcnt p - 1\<rparr>) (h x) else h x)"
proof (induction xs arbitrary: a n h)
  case Nil
  then obtain z zs' where z: "zs = z # zs'" by (cases zs) auto
  from Nil z obtain m where n: "n = Suc m" by (cases n) auto
  from Nil z obtain p where p: "h z = Some p" "a = z" by (auto split: option.splits)
  have "refcnt p - 1 \<noteq> 0" using Nil(5) z p by simp
  with z n p show ?case by (auto simp: deref_def Let_def fun_eq_iff)
next
  case (Cons b xs)
  then obtain m where n: "n = Suc m" by (cases n) auto
  from Cons.prems obtain p where p: "h b = Some p" "a = b" by (auto split: option.splits)
  let ?h = "h(b := Some (p\<lparr>refcnt := 0\<rparr>))"
  have one: "refcnt p = 1" using Cons.prems(4) p by simp
  have b: "b \<notin> set (xs @ zs)" using Cons.prems(2) by simp
  show ?case
  proof (cases "pnext p")
    case None
    with Cons.prems p have "xs = []" "zs = []" by auto
    with n p one None show ?thesis by (auto simp: deref_def Let_def fun_eq_iff)
  next
    case (Some c)
    with Cons.prems p have ch: "chained h c (xs @ zs)" by simp
    have "chained ?h c (xs @ zs) = chained h c (xs @ zs)"
      by (rule chained_cong) (use b in auto)
    with ch have 1: "chained ?h c (xs @ zs)" by blast
    have 2: "list_all (\<lambda>x. refcnt (the (?h x)) = 1) xs"
      using Cons.prems(4) b by (auto simp: list_all_iff)
    have 3: "refcnt (the (?h (hd zs))) \<noteq> 1" if "zs \<noteq> []"
      using that Cons.prems(5) b by (cases zs) auto
    have "distinct (xs @ zs)" "length (xs @ zs) \<le> m" using Cons.prems n by auto
    have IH: "packet_free m c ?h = Inr (\<lambda>x. if x \<in> set xs then None
      else if zs \<noteq> [] \<and> x = hd zs then map_option (\<lambda>p. p\<lparr>refcnt := refcnt p - 1\<rparr>) (?h x) else ?h x)"
      by (rule Cons.IH [OF 1 \<open>distinct (xs @ zs)\<close> \<open>length (xs @ zs) \<le> m\<close> 2 3])
    have hd: "hd zs \<noteq> b" if "zs \<noteq> []" using that b by (cases zs) auto
    have "packet_free n a h = rbind (packet_free m c ?h) (\<lambda>h. Inr (h(b := None)))"
      using n p one Some by (simp add: deref_def)
    also have "\<dots> = Inr (\<lambda>x. if x \<in> set (b # xs) then None
      else if zs \<noteq> [] \<and> x = hd zs then map_option (\<lambda>p. p\<lparr>refcnt := refcnt p - 1\<rparr>) (h x) else h x)"
      by (simp only: IH rbind_simps) (use hd in \<open>auto simp: fun_eq_iff\<close>)
    finally show ?thesis .
  qed
qed

text \<open>\<open>clone\<close> called again and again on the same packet.\<close>

fun clones :: "nat \<Rightarrow> nat \<Rightarrow> heap \<Rightarrow> heap res" where
  "clones 0 a h = Inr h"
| "clones (Suc k) a h = rbind (pkt_clone a h) (clones k a)"

lemma clones_count:
  "h a = Some p \<Longrightarrow> \<exists>q. clones k a h = Inr (h(a := Some q)) \<and> refcnt q = refcnt p + word_of_nat k \<and> pnext q = pnext p"
proof (induction k arbitrary: h p)
  case 0
  then show ?case by (intro exI [of _ p]) (simp add: fun_upd_idem)
next
  case (Suc k)
  let ?p = "p\<lparr>refcnt := refcnt p + 1, poffset := word_of_nat SIZEOF_PACKET\<rparr>"
  have "pkt_clone a h = Inr (h(a := Some ?p))"
    using Suc.prems by (simp add: pkt_clone_def pkt_window_def deref_def add.commute)
  moreover obtain q where "clones k a (h(a := Some ?p)) = Inr (h(a := Some q))" "refcnt q = refcnt ?p + word_of_nat k"
    "pnext q = pnext p"
    using Suc.IH [of "h(a := Some ?p)" ?p, OF fun_upd_same] unfolding fun_upd_upd by (elim exE conjE) (rule that, assumption, simp_all)
  ultimately have "clones (Suc k) a h = Inr (h(a := Some q)) \<and> refcnt q = refcnt p + word_of_nat (Suc k) \<and> pnext q = pnext p"
    by (simp only: clones.simps rbind_simps) (simp add: add_ac)
  then show ?case by blast
qed

subsection \<open>Properties\<close>

text \<open>Appending a chain to another, both without shared packets, ends within as many steps
  as the first chain is long and gives the concatenated chain; \<open>chain_size\<close> and
  \<open>chain_data_size\<close> of the result are the sums.\<close>

theorem addPacket_appends:
  assumes "chain h a xs" and "chain h q ys" and "set xs \<inter> set ys = {}" and "length xs \<le> n"
    and "length xs + length ys \<le> k"
  shows "\<exists>h'. addPacket n a q h = Inr h' \<and> chain h' a (xs @ ys) \<and>
    chain_size k a h' = Inr (length xs + length ys) \<and>
    chain_data_size k a h' = Inr (\<Sum>x\<leftarrow>xs @ ys. unat (caplen (the (h x))))"
proof -
  from assms obtain h' where h': "addPacket n a q h = Inr h'" "chained h' a (xs @ ys)"
    "\<forall>x. map_option (\<lambda>p. p\<lparr>pnext := None\<rparr>) (h' x) = map_option (\<lambda>p. p\<lparr>pnext := None\<rparr>) (h x)"
    using addPacket_chained [of h a xs q n ys] chained_head [of h q ys] by (auto simp: chain_def)
  have same: "caplen (the (h' x)) = caplen (the (h x))" for x
    by (rule caplen_same) (use h'(3) in simp)
  show ?thesis
    using h' assms chain_sizes [OF h'(2), of k] by (auto simp: chain_def same)
qed

definition demo_packet :: "nat option \<Rightarrow> u16 \<Rightarrow> Packet" where
  "demo_packet nx c = zero_packet\<lparr>refcnt := 1, caplen := c, pnext := nx\<rparr>"

definition demo_heap :: heap where
  "demo_heap = [1 \<mapsto> demo_packet (Some 2) 10, 2 \<mapsto> demo_packet None 20, 7 \<mapsto> demo_packet None 5]"

lemma demo_at:
  "demo_heap 1 = Some (demo_packet (Some 2) 10)" "demo_heap (Suc 0) = Some (demo_packet (Some 2) 10)"
  "demo_heap 2 = Some (demo_packet None 20)" "demo_heap 7 = Some (demo_packet None 5)"
  by (simp_all add: demo_heap_def)

lemma demo_fields [simp]:
  "refcnt (demo_packet nx c) = 1" "caplen (demo_packet nx c) = c" "pnext (demo_packet nx c) = nx"
  by (simp_all add: demo_packet_def zero_packet_def)

lemma addPacket_appends_witness:
  "\<exists>h'. addPacket 2 1 7 demo_heap = Inr h' \<and> chain h' 1 [1, 2, 7] \<and> chain_size 9 1 h' = Inr 3 \<and>
    chain_data_size 9 1 h' = Inr 35"
  using addPacket_appends [of demo_heap 1 "[1, 2]" 7 "[7]" 2 9]
  by (simp add: chain_def demo_at numeral_3_eq_3)

text \<open>The assertion of \<open>addPacket\<close> compares only the packets it passes: appending \<open>b\<close> to
  \<open>a\<close> and then \<open>a\<close> to \<open>b\<close> closes a cycle, on which \<open>chain_size\<close> and a further
  \<open>addPacket\<close> never return, whatever the fuel.\<close>

theorem cycle_never_returns:
  assumes "h a = Some p" and "h b = Some r" and "pnext p = None" and "pnext r = None" and "a \<noteq> b"
    and "c \<noteq> a" and "c \<noteq> b"
  shows "\<exists>h'. rbind (addPacket 1 a b h) (addPacket 1 b a) = Inr h' \<and>
    (\<forall>n. chain_size n a h' = Inl Diverges) \<and> (\<forall>n. addPacket n a c h' = Inl Diverges)"
proof -
  let ?h = "h(a := Some (p\<lparr>pnext := Some b\<rparr>), b := Some (r\<lparr>pnext := Some a\<rparr>))"
  have "rbind (addPacket 1 a b h) (addPacket 1 b a) = Inr ?h"
    using assms by (simp add: deref_def)
  moreover have "chain_size n a ?h = Inl Diverges \<and> chain_size n b ?h = Inl Diverges" for n
    by (induction n) (use assms in \<open>simp_all add: deref_def\<close>)
  moreover have "addPacket n a c ?h = Inl Diverges \<and> addPacket n b c ?h = Inl Diverges" for n
    by (induction n) (use assms in \<open>simp_all add: deref_def\<close>)
  ultimately show ?thesis by blast
qed

lemma cycle_never_returns_witness:
  "\<exists>h'. rbind (addPacket 1 2 7 demo_heap) (addPacket 1 7 2) = Inr h' \<and>
    (\<forall>n. chain_size n 2 h' = Inl Diverges) \<and> (\<forall>n. addPacket n 2 1 h' = Inl Diverges)"
  by (rule cycle_never_returns [where p = "demo_packet None 20" and r = "demo_packet None 5"]) (simp_all add: demo_at)

text \<open>C32. Freeing a chain releases exactly the packets with a single owner, up to the first
  shared packet: that one loses an owner, and it and everything behind it stay.\<close>

theorem free_releases_owned:
  assumes "chain h a (xs @ zs)" and "xs @ zs \<noteq> []" and "length (xs @ zs) \<le> n"
    and "list_all (\<lambda>x. refcnt (the (h x)) = 1) xs" and "zs \<noteq> [] \<Longrightarrow> refcnt (the (h (hd zs))) \<noteq> 1"
  shows "packet_free n a h = Inr (\<lambda>x. if x \<in> set xs then None
    else if zs \<noteq> [] \<and> x = hd zs then map_option (\<lambda>p. p\<lparr>refcnt := refcnt p - 1\<rparr>) (h x) else h x)"
  using assms by (intro free_aux) (auto simp: chain_def)

lemma free_releases_owned_witness:
  "packet_free 2 1 demo_heap = Inr (\<lambda>x. if x \<in> {1, 2} then None else demo_heap x)"
  using free_releases_owned [of demo_heap 1 "[1, 2]" "[]" 2]
  by (simp add: chain_def demo_at cong: if_cong)

text \<open>The owner count has 16 bits: after \<open>k\<close> clones of a packet with one owner the count is
  \<open>k + 1\<close> modulo 65536, and the next \<open>free\<close> releases the memory exactly when \<open>k\<close> is a multiple of
  65536, although \<open>k\<close> owners still hold it.\<close>

theorem clone_count_wraps:
  assumes "h a = Some p" and "refcnt p = 1" and "pnext p = None"
  shows "\<exists>h'. clones k a h = Inr h' \<and> map_option refcnt (h' a) = Some (1 + word_of_nat k) \<and>
    (\<exists>h''. packet_free 1 a h' = Inr h'' \<and> (h'' a = None \<longleftrightarrow> k mod 65536 = 0))"
proof -
  obtain q where c: "clones k a h = Inr (h(a := Some q))" "refcnt q = 1 + word_of_nat k" "pnext q = None"
    using clones_count [of h a p k] assms by auto
  have "(word_of_nat k :: u16) = 0 \<longleftrightarrow> k mod 65536 = 0"
    by (simp add: word_of_nat_eq_0_iff dvd_eq_mod_eq_0)
  with c assms show ?thesis by (simp add: deref_def Let_def)
qed

lemma clone_count_wraps_witness:
  "\<exists>h'. clones 65536 7 demo_heap = Inr h' \<and> (\<exists>h''. packet_free 1 7 h' = Inr h'' \<and> h'' 7 = None)"
  using clone_count_wraps [of demo_heap 7 "demo_packet None 5" 65536]
  by (auto simp: demo_at)

end
