(* ===== verification/Packet_Owners.thy ===== *)
theory Packet_Owners
  imports Packet_Chain
begin

text \<open>
  The owning pointers of \<^verbatim>\<open>lib/libstack/PacketPtr.h\<close> and \<^verbatim>\<open>src/core/Packet.h\<close>: every \<^verbatim>\<open>Pkt\<close> and
  \<^verbatim>\<open>PktOffset\<close> holds a \<^verbatim>\<open>std::unique_ptr\<close> whose deleter is \<^verbatim>\<open>Packet::free\<close>, although several of them and
  the chains of the packets may share a packet through its reference count.

  The variables of a program are numbered in the order in which they are constructed; \<open>owner\<close> is the
  pointer each holds. A header class over a pointer is constructed by moving it. A store through a null pointer is \<open>Undefined\<close>. \<open>fuel\<close> is
  that of the recursion over a chain.
\<close>

subsection \<open>Variables\<close>

record world =
  heap_of :: heap
  owner :: "nat \<Rightarrow> nat option"
  own_off :: "nat \<Rightarrow> u16"
  vars :: nat

definition ptr_release :: "nat \<Rightarrow> world \<Rightarrow> nat option \<times> world" where
  "ptr_release v w = (owner w v, w\<lparr>owner := (owner w)(v := None)\<rparr>)"

definition ptr_reset :: "nat \<Rightarrow> nat \<Rightarrow> nat option \<Rightarrow> world \<Rightarrow> world res" where
  "ptr_reset fuel v a w =
     (let w' = w\<lparr>owner := (owner w)(v := a)\<rparr>
      in case owner w v of None \<Rightarrow> Inr w'
         | Some b \<Rightarrow> rbind (packet_free fuel b (heap_of w)) (\<lambda>h. Inr (w'\<lparr>heap_of := h\<rparr>)))"

text \<open>\<^verbatim>\<open>_ptr = move(ptr)\<close>\<close>

definition setPtr :: "nat \<Rightarrow> nat \<Rightarrow> nat \<Rightarrow> world \<Rightarrow> world res" where
  "setPtr fuel v u w = (let (a, w) = ptr_release u w in ptr_reset fuel v a w)"

definition header :: "nat \<Rightarrow> world \<Rightarrow> Packet res" where
  "header v w = (case owner w v of None \<Rightarrow> Inl Undefined | Some a \<Rightarrow> deref a (heap_of w))"

text \<open>A new variable that holds \<open>a\<close>, and its own offset.\<close>

definition new_var :: "nat option \<Rightarrow> world \<Rightarrow> world" where
  "new_var a w = w\<lparr>owner := (owner w)(vars w := a), vars := Suc (vars w)\<rparr>"

definition set_off :: "nat \<Rightarrow> u16 \<Rightarrow> world \<Rightarrow> world" where
  "set_off v off w = w\<lparr>own_off := (own_off w)(v := off)\<rparr>"

text \<open>The accessors forward to the packet.\<close>

definition pkt_dataLength :: "nat \<Rightarrow> world \<Rightarrow> u16 res" where
  "pkt_dataLength v w = rbind (header v w) (\<lambda>p. Inr (dataLength p))"

definition pkt_getDetails :: "nat \<Rightarrow> world \<Rightarrow> nat res" where
  "pkt_getDetails v w = rbind (header v w) (\<lambda>p. Inr (getDetails p))"

definition pkt_proto :: "nat \<Rightarrow> world \<Rightarrow> proto res" where
  "pkt_proto v w = rbind (header v w) (\<lambda>p. Inr (pk_proto p))"

definition pkt_getNext :: "nat \<Rightarrow> world \<Rightarrow> nat option res" where
  "pkt_getNext v w = rbind (header v w) (\<lambda>p. Inr (pnext p))"

definition pkt_hasNext :: "nat \<Rightarrow> world \<Rightarrow> bool res" where
  "pkt_hasNext v w = rbind (pkt_getNext v w) (\<lambda>b. Inr (b \<noteq> None))"

definition pkt_getLength :: "nat \<Rightarrow> world \<Rightarrow> u16 res" where
  "pkt_getLength v w = rbind (header v w) (\<lambda>p. Inr (plength p))"

definition offset_getLength :: "nat \<Rightarrow> world \<Rightarrow> u16 res" where
  "offset_getLength v w = rbind (header v w) (\<lambda>p. Inr (plength p - (own_off w v - poffset p)))"

subsection \<open>Constructors\<close>

definition make_empty :: "world \<Rightarrow> world" where
  "make_empty w = new_var None w"

definition make_moved :: "nat \<Rightarrow> world \<Rightarrow> world" where
  "make_moved u w = (let (a, w) = ptr_release u w in new_var a w)"

text \<open>\<^verbatim>\<open>makeEth\<close> and the other casts: an \<^verbatim>\<open>Eth<Pkt>\<close> is constructed from the moved pointer.\<close>

definition make_layer :: "nat \<Rightarrow> world \<Rightarrow> world" where
  "make_layer u w = make_moved u w"

text \<open>\<^verbatim>\<open>Pkt(length, packet, offset)\<close>, \<^verbatim>\<open>Pkt(move(ptr), length, offset)\<close>\<close>

definition make_pkt :: "nat option \<Rightarrow> u16 \<Rightarrow> u16 \<Rightarrow> world \<Rightarrow> world res" where
  "make_pkt p len off w =
     (let w = new_var p w
      in case p of None \<Rightarrow> Inl Undefined
         | Some a \<Rightarrow> rbind (pkt_window a len off (heap_of w)) (\<lambda>h. Inr (w\<lparr>heap_of := h\<rparr>)))"

definition make_window :: "nat \<Rightarrow> u16 \<Rightarrow> u16 \<Rightarrow> world \<Rightarrow> world res" where
  "make_window u len off w = (let (a, w) = ptr_release u w in make_pkt a len off w)"

text \<open>\<^verbatim>\<open>PktOffset\<close> from a \<^verbatim>\<open>Pkt\<close>, from another, and from a pointer and an offset (the length is ignored).\<close>

definition offset_of_pkt :: "nat \<Rightarrow> world \<Rightarrow> world res" where
  "offset_of_pkt u w =
     (let v = vars w; w = make_moved u w in rbind (header v w) (\<lambda>p. Inr (set_off v (poffset p) w)))"

definition offset_moved :: "nat \<Rightarrow> world \<Rightarrow> world" where
  "offset_moved u w = set_off (vars w) (own_off w u) (make_moved u w)"

definition make_offset :: "nat option \<Rightarrow> u16 \<Rightarrow> world \<Rightarrow> world" where
  "make_offset a off w = set_off (vars w) off (new_var a w)"

definition offset_window :: "nat \<Rightarrow> u16 \<Rightarrow> world \<Rightarrow> world" where
  "offset_window u off w = (let (a, w) = ptr_release u w in make_offset a off w)"

subsection \<open>Assignments\<close>

text \<open>
  Between two \<^verbatim>\<open>PktOffset\<close>, and to a \<^verbatim>\<open>PktOffset\<close> from a \<^verbatim>\<open>Pkt\<close>: there the offset is read from
  the variable the pointer was just moved out of. \<open>assign_base\<close> is the assignment of
  \<^verbatim>\<open>PacketOffsetPtr\<close> from its base class, which reads it from the destination.
\<close>

definition assign :: "nat \<Rightarrow> nat \<Rightarrow> nat \<Rightarrow> world \<Rightarrow> world res" where
  "assign fuel v u w = setPtr fuel v u w"

definition assign_offset :: "nat \<Rightarrow> nat \<Rightarrow> nat \<Rightarrow> world \<Rightarrow> world res" where
  "assign_offset fuel v u w = rbind (setPtr fuel v u w) (\<lambda>w. Inr (set_off v (own_off w u) w))"

definition assign_offset_pkt :: "nat \<Rightarrow> nat \<Rightarrow> nat \<Rightarrow> world \<Rightarrow> world res" where
  "assign_offset_pkt fuel v u w =
     rbind (setPtr fuel v u w) (\<lambda>w. rbind (header u w) (\<lambda>p. Inr (set_off v (poffset p) w)))"

definition assign_base :: "nat \<Rightarrow> nat \<Rightarrow> nat \<Rightarrow> world \<Rightarrow> world res" where
  "assign_base fuel v u w =
     rbind (setPtr fuel v u w) (\<lambda>w. rbind (header v w) (\<lambda>p. Inr (set_off v (poffset p) w)))"

definition destroy :: "nat \<Rightarrow> nat \<Rightarrow> world \<Rightarrow> world res" where
  "destroy fuel v w = ptr_reset fuel v None w"

subsection \<open>Sharing\<close>

definition clone_pkt :: "nat \<Rightarrow> world \<Rightarrow> world res" where
  "clone_pkt v w =
     (case owner w v of None \<Rightarrow> Inl Undefined
      | Some a \<Rightarrow> rbind (pkt_clone a (heap_of w)) (\<lambda>h. Inr (new_var (Some a) (w\<lparr>heap_of := h\<rparr>))))"

definition clone_offset :: "nat \<Rightarrow> world \<Rightarrow> world res" where
  "clone_offset v w =
     (case owner w v of None \<Rightarrow> Inl Undefined
      | Some a \<Rightarrow> rbind (deref a (heap_of w)) (\<lambda>p.
          Inr (make_offset (Some a) (own_off w v) (w\<lparr>heap_of := (heap_of w)(a := Some (p\<lparr>refcnt := refcnt p + 1\<rparr>))\<rparr>))))"

text \<open>\<^verbatim>\<open>Packet::addPacket\<close> of a null pointer.\<close>

fun add_null :: "nat \<Rightarrow> nat \<Rightarrow> heap \<Rightarrow> heap res" where
  "add_null 0 a h = Inl Diverges"
| "add_null (Suc n) a h =
     rbind (deref a h) (\<lambda>p. case pnext p of Some b \<Rightarrow> add_null n b h | None \<Rightarrow> Inr (h(a := Some (p\<lparr>pnext := None\<rparr>))))"

text \<open>\<^verbatim>\<open>Pkt::addPacket\<close>\<close>

definition append_pkt :: "nat \<Rightarrow> nat \<Rightarrow> nat \<Rightarrow> world \<Rightarrow> world res" where
  "append_pkt fuel v u w =
     (case owner w v of
        Some a \<Rightarrow> let (p, w) = ptr_release u w
                  in rbind (case p of Some q \<Rightarrow> addPacket fuel a q (heap_of w) | None \<Rightarrow> add_null fuel a (heap_of w))
                       (\<lambda>h. Inr (w\<lparr>heap_of := h\<rparr>))
      | None \<Rightarrow> setPtr fuel v u w)"

text \<open>\<^verbatim>\<open>Pkt(length, allocPacket(n), offset)\<close>; \<^verbatim>\<open>malloc\<close> gives an address that is not in use.\<close>

definition make_alloc :: "u64 \<Rightarrow> PacketDetails \<Rightarrow> nat \<Rightarrow> nat \<Rightarrow> u16 \<Rightarrow> u16 \<Rightarrow> world \<Rightarrow> world res" where
  "make_alloc now raw a n len off w =
     (if heap_of w a \<noteq> None then Inl Undefined
      else make_pkt (Some a) len off (w\<lparr>heap_of := allocPacket now raw a n (heap_of w)\<rparr>))"

subsection \<open>Programs\<close>

datatype operation = Empty | Alloc u64 PacketDetails nat nat u16 u16 | Moved nat | Window nat u16 u16
  | OffsetOf nat | OffsetMoved nat | OffsetWindow nat u16
  | Assign nat nat | AssignOffset nat nat | AssignOffsetPkt nat nat | AssignBase nat nat
  | Clone nat | CloneOffset nat | Append nat nat | Destroy nat

fun exec :: "nat \<Rightarrow> operation \<Rightarrow> world \<Rightarrow> world res" where
  "exec fuel Empty w = Inr (make_empty w)"
| "exec fuel (Alloc now raw a n len off) w = make_alloc now raw a n len off w"
| "exec fuel (Moved u) w = Inr (make_moved u w)"
| "exec fuel (Window u len off) w = make_window u len off w"
| "exec fuel (OffsetOf u) w = offset_of_pkt u w"
| "exec fuel (OffsetMoved u) w = Inr (offset_moved u w)"
| "exec fuel (OffsetWindow u off) w = Inr (offset_window u off w)"
| "exec fuel (Assign v u) w = assign fuel v u w"
| "exec fuel (AssignOffset v u) w = assign_offset fuel v u w"
| "exec fuel (AssignOffsetPkt v u) w = assign_offset_pkt fuel v u w"
| "exec fuel (AssignBase v u) w = assign_base fuel v u w"
| "exec fuel (Clone v) w = clone_pkt v w"
| "exec fuel (CloneOffset v) w = clone_offset v w"
| "exec fuel (Append v u) w = append_pkt fuel v u w"
| "exec fuel (Destroy v) w = destroy fuel v w"

fun run :: "nat \<Rightarrow> operation list \<Rightarrow> world \<Rightarrow> world res" where
  "run fuel [] w = Inr w"
| "run fuel (x # xs) w = rbind (exec fuel x w) (run fuel xs)"

definition start :: world where
  "start = \<lparr>heap_of = Map.empty, owner = Map.empty, own_off = (\<lambda>_. 0), vars = 0\<rparr>"

subsection \<open>Counting\<close>

definition pointing :: "('a \<Rightarrow> nat option) \<Rightarrow> nat \<Rightarrow> nat" where
  "pointing f a = card {x. f x = Some a}"

definition next_of :: "heap \<Rightarrow> nat \<Rightarrow> nat option" where
  "next_of h x = Option.bind (h x) pnext"

text \<open>Every live packet is counted: \<open>ow\<close> owners outside and the packets whose successor it is.\<close>

definition count_is :: "nat \<Rightarrow> Packet option \<Rightarrow> bool" where
  "count_is k x \<longleftrightarrow> (case x of None \<Rightarrow> k = 0 | Some p \<Rightarrow> 0 < k \<and> unat (refcnt p) = k)"

definition counted :: "heap \<Rightarrow> (nat \<Rightarrow> nat) \<Rightarrow> bool" where
  "counted h ow \<longleftrightarrow> finite (dom h) \<and> (\<forall>a. count_is (ow a + pointing (next_of h) a) (h a))"

lemma count_is_simps [simp]:
  "count_is k None \<longleftrightarrow> k = 0" "count_is k (Some p) \<longleftrightarrow> 0 < k \<and> unat (refcnt p) = k"
  by (simp_all add: count_is_def)

lemma countedD: "counted h ow \<Longrightarrow> finite (dom h)" "counted h ow \<Longrightarrow> count_is (ow a + pointing (next_of h) a) (h a)"
  by (auto simp: counted_def)

text \<open>A change at one address.\<close>

lemma counted_at:
  assumes "counted h ow" and "count_is (ow' a + pointing (next_of (h(a := y))) a) y"
    and "\<And>x. x \<noteq> a \<Longrightarrow> ow' x + pointing (next_of (h(a := y))) x = ow x + pointing (next_of h) x"
  shows "counted (h(a := y)) ow'"
proof -
  have "count_is (ow' x + pointing (next_of (h(a := y))) x) ((h(a := y)) x)" for x
    using assms countedD(2) [OF assms(1), of x] by (cases "x = a") simp_all
  moreover have "finite (dom (h(a := y)))" using countedD(1) [OF assms(1)] by simp
  ultimately show ?thesis by (simp only: counted_def) blast
qed

lemma next_of_upd [simp]:
  "next_of (h(a := Some p)) = (next_of h)(a := pnext p)" "next_of (h(a := None)) = (next_of h)(a := None)"
  by (simp_all add: next_of_def fun_eq_iff)

lemma next_of_empty [simp]: "next_of (\<lambda>x. None) = (\<lambda>x. None)"
  by (simp add: next_of_def fun_eq_iff)

lemma next_of_live: "next_of h x = Some a \<Longrightarrow> x \<in> dom h"
  by (auto simp: next_of_def dom_def bind_eq_Some_conv)

lemma dom_next: "dom (next_of h) \<subseteq> dom h"
  by (auto simp: next_of_def dom_def bind_eq_Some_conv)

lemma pointing_upd:
  assumes "finite (dom f)"
  shows "pointing (f(v := y)) a + (if f v = Some a then 1 else 0) = pointing f a + (if y = Some a then 1 else 0)"
proof -
  have fin: "finite {x. f x = Some a}" by (rule finite_subset [OF _ assms]) auto
  let ?r = "{x. x \<noteq> v \<and> f x = Some a}"
  have finr: "finite ?r" by (rule finite_subset [OF _ fin]) auto
  have 1: "{x. (f(v := y)) x = Some a} = (if y = Some a then insert v ?r else ?r)" by auto
  have 2: "{x. f x = Some a} = (if f v = Some a then insert v ?r else ?r)" by auto
  show ?thesis unfolding pointing_def 1 2 using finr by simp
qed

lemma pointing_le: "finite (dom f) \<Longrightarrow> pointing f a \<le> card (dom f)"
  unfolding pointing_def by (rule card_mono) auto

lemma counted_live: "counted h ow \<Longrightarrow> 0 < ow a + pointing (next_of h) a \<Longrightarrow> \<exists>p. h a = Some p"
  using countedD(2) [of h ow a] by (cases "h a") simp_all

lemma pointing_pos: "finite (dom h) \<Longrightarrow> next_of h x = Some a \<Longrightarrow> 0 < pointing (next_of h) a"
  unfolding pointing_def using finite_subset [OF dom_next]
  by (auto simp: card_gt_0_iff intro: finite_subset [of _ "dom (next_of h)"])

lemma free_frame:
  "packet_free n b h = Inr h' \<Longrightarrow> h a = None \<Longrightarrow> packet_free n b (h(a := Some q)) = Inr (h'(a := Some q)) \<and> h' a = None"
proof (induction n arbitrary: b h h')
  case (Suc n)
  from Suc.prems obtain p where p: "h b = Some p" by (auto simp: deref_def split: option.splits)
  with Suc.prems(2) have ab: "b \<noteq> a" by auto
  let ?p = "p\<lparr>refcnt := refcnt p - 1\<rparr>"
  show ?case
  proof (cases "refcnt p - 1 = 0 \<and> pnext p \<noteq> None")
    case True
    then obtain c where c: "pnext p = Some c" by auto
    with True Suc.prems p obtain h1 where h1: "packet_free n c (h(b := Some ?p)) = Inr h1" "h' = h1(b := None)"
      by (auto simp: deref_def Let_def rbind_Inr_iff)
    have "(h(b := Some ?p)) a = None" using Suc.prems(2) ab by simp
    note frame = Suc.IH [OF h1(1) this, unfolded fun_upd_twist [OF ab]]
    have "packet_free (Suc n) b (h(a := Some q)) = rbind (packet_free n c (h(a := Some q, b := Some ?p))) (\<lambda>h. Inr (h(b := None)))"
      using True c p ab by (simp add: deref_def)
    also have "\<dots> = Inr (h'(a := Some q))"
      unfolding conjunct1 [OF frame] h1(2) rbind_simps fun_upd_twist [OF ab] by (rule refl)
    finally have "packet_free (Suc n) b (h(a := Some q)) = Inr (h'(a := Some q))" .
    moreover have "h' a = None" using conjunct2 [OF frame] h1(2) by simp
    ultimately show ?thesis by (rule conjI)
  next
    case False
    with Suc.prems p ab show ?thesis
      by (auto simp: deref_def Let_def fun_upd_twist split: if_splits)
  qed
qed simp


lemma counted_release:
  assumes "counted h ow" and "h a = Some p" and "refcnt p = 1" and "0 < ow a"
  shows "pointing (next_of h) a = 0" and "ow a = 1" and "pnext p \<noteq> Some a"
    and "counted (h(a := None)) (\<lambda>x. (if x = a then 0 else ow x) + (if pnext p = Some x then 1 else 0))"
proof -
  note fin = countedD(1) [OF assms(1)]
  from countedD(2) [OF assms(1), of a] assms(2,3,4) show 0: "pointing (next_of h) a = 0" and 1: "ow a = 1" by auto
  have nx: "next_of h a = pnext p" using assms(2) by (simp add: next_of_def)
  show 2: "pnext p \<noteq> Some a" using pointing_pos [OF fin, of a a] 0 nx by auto
  have upd: "pointing (next_of (h(a := None))) x + (if pnext p = Some x then 1 else 0) = pointing (next_of h) x" for x
    using pointing_upd [of "next_of h" a None x] finite_subset [OF dom_next fin] nx by simp
  show "counted (h(a := None)) (\<lambda>x. (if x = a then 0 else ow x) + (if pnext p = Some x then 1 else 0))"
  proof (rule counted_at [OF assms(1)])
    show "count_is ((if a = a then 0 else ow a) + (if pnext p = Some a then 1 else 0) + pointing (next_of (h(a := None))) a) None"
      using upd [of a] 0 2 by simp
    show "(if x = a then 0 else ow x) + (if pnext p = Some x then 1 else 0) + pointing (next_of (h(a := None))) x =
      ow x + pointing (next_of h) x" if "x \<noteq> a" for x using upd [of x] that by simp
  qed
qed

lemma counted_cong:
  assumes "counted h ow" and "\<And>x. map_option (\<lambda>p. (refcnt p, pnext p)) (h' x) = map_option (\<lambda>p. (refcnt p, pnext p)) (h x)"
  shows "counted h' ow"
proof -
  have n: "next_of h' = next_of h"
  proof
    fix x
    show "next_of h' x = next_of h x" using assms(2) [of x] by (cases "h x"; cases "h' x") (auto simp: next_of_def)
  qed
  have "h' x = None \<longleftrightarrow> h x = None" for x using assms(2) [of x] by (cases "h x"; cases "h' x") auto
  then have d: "dom h' = dom h" by (auto simp: dom_def)
  have "count_is (ow x + pointing (next_of h') x) (h' x)" for x
    using countedD(2) [OF assms(1), of x] assms(2) [of x] unfolding n by (cases "h x"; cases "h' x") auto
  with d assms(1) show ?thesis by (simp add: counted_def)
qed

text \<open>Giving an owner up always returns, with fuel for every live packet, and keeps the count.\<close>

lemma free_counted:
  "counted h ow \<Longrightarrow> 0 < ow a \<Longrightarrow> card (dom h) < n \<Longrightarrow>
   \<exists>h'. packet_free n a h = Inr h' \<and> counted h' (ow(a := ow a - 1)) \<and> dom h' \<subseteq> dom h"
proof (induction n arbitrary: a h ow)
  case (Suc n)
  obtain p where p: "h a = Some p" using counted_live [of h ow a] Suc.prems by auto
  have fin: "finite (dom h)" using Suc.prems(1) by (simp add: counted_def)
  let ?p = "p\<lparr>refcnt := refcnt p - 1\<rparr>"
  show ?case
  proof (cases "refcnt p = 1")
    case False
    have ref: "0 < ow a + pointing (next_of h) a" "unat (refcnt p) = ow a + pointing (next_of h) a"
      using countedD(2) [OF Suc.prems(1), of a] p by simp_all
    have nx: "next_of (h(a := Some ?p)) = next_of h" using p by (auto simp: next_of_def fun_eq_iff)
    have "refcnt p \<noteq> 0" using ref by auto
    then have one: "unat (refcnt p - 1) = unat (refcnt p) - 1" by (rule unat_minus_one)
    have "unat (refcnt p) \<noteq> 1" using False by (metis unat_1 word_unat_eq_iff)
    with ref one Suc.prems(2) have "count_is (ow a - 1 + pointing (next_of h) a) (Some ?p)" by simp
    then have "counted (h(a := Some ?p)) (ow(a := ow a - 1))"
      by (intro counted_at [OF Suc.prems(1)]) (simp_all only: nx fun_upd_same fun_upd_other not_False_eq_True)
    moreover have "packet_free (Suc n) a h = Inr (h(a := Some ?p))" using False p by (simp add: deref_def Let_def)
    moreover have "dom (h(a := Some ?p)) \<subseteq> dom h" using p by auto
    ultimately show ?thesis by blast
  next
    case True
    note rel = counted_release [OF Suc.prems(1) p True Suc.prems(2)]
    let ?h = "h(a := None)"
    show ?thesis
    proof (cases "pnext p")
      case None
      have "packet_free (Suc n) a h = Inr ?h" using True p None by (simp add: deref_def)
      moreover have ow: "(\<lambda>x. (if x = a then 0 else ow x) + (if pnext p = Some x then 1 else 0)) = ow(a := ow a - 1)"
        using rel(2) None by (auto simp: fun_eq_iff)
      moreover have "dom ?h \<subseteq> dom h" by auto
      ultimately show ?thesis using rel(4) [unfolded ow] by blast
    next
      case (Some b)
      have ab: "b \<noteq> a" using rel(3) Some by auto
      define ow' where "ow' = (\<lambda>x. (if x = a then 0 else ow x) + (if pnext p = Some x then 1 else 0))"
      have cnt: "counted ?h ow'" using rel(4) by (simp add: ow'_def)
      have "0 < card (dom h)" using fin p by (auto simp: card_gt_0_iff)
      then have "card (dom ?h) < n" using Suc.prems(3) fin p by (simp add: domI)
      moreover have "0 < ow' b" using Some by (simp add: ow'_def)
      ultimately obtain h' where h': "packet_free n b ?h = Inr h'" "counted h' (ow'(b := ow' b - 1))" "dom h' \<subseteq> dom ?h"
        using Suc.IH [OF cnt, of b] by blast
      have frame: "packet_free n b (?h(a := Some ?p)) = Inr (h'(a := Some ?p))" "h' a = None"
        using free_frame [OF h'(1), of a ?p] by auto
      have "packet_free (Suc n) a h = rbind (packet_free n b (h(a := Some ?p))) (\<lambda>h. Inr (h(a := None)))"
        using True p Some by (simp add: deref_def)
      also have "\<dots> = Inr (h'(a := None))"
        using frame(1) by (simp only: fun_upd_upd rbind_simps)
      also have "h'(a := None) = h'" using frame(2) by (rule fun_upd_idem)
      finally have "packet_free (Suc n) a h = Inr h'" .
      moreover have ow: "ow'(b := ow' b - 1) = ow(a := ow a - 1)"
        using rel(2) Some ab by (auto simp: ow'_def fun_eq_iff)
      moreover have "dom h' \<subseteq> dom h" using h'(3) by auto
      ultimately show ?thesis using h'(2) [unfolded ow] by blast
    qed
  qed
qed simp

subsection \<open>One owner handed on\<close>

text \<open>
  The state of the program while a raw pointer \<open>e\<close> is on its way from one owner to the next: every
  count is exact with \<open>e\<close> as one more owner.
\<close>

definition holding :: "world \<Rightarrow> nat option \<Rightarrow> bool" where
  "holding w e \<longleftrightarrow> dom (owner w) \<subseteq> {..<vars w} \<and>
     counted (heap_of w) (\<lambda>x. pointing (owner w) x + (if e = Some x then 1 else 0))"

lemma holding_owner: "holding w e \<Longrightarrow> finite (dom (owner w))"
  by (auto simp: holding_def intro: finite_subset)

lemma holding_heap: "holding w e \<Longrightarrow> finite (dom (heap_of w))"
  by (auto simp: holding_def dest: countedD)

lemma holding_live:
  assumes "holding w e" and "owner w v = Some a \<or> e = Some a"
  shows "\<exists>p. heap_of w a = Some p"
proof -
  have "0 < pointing (owner w) a" if "owner w v = Some a"
    unfolding pointing_def using that holding_owner [OF assms(1)]
    by (auto simp: card_gt_0_iff intro: finite_subset [of _ "dom (owner w)"])
  with assms show ?thesis unfolding holding_def
    by (intro counted_live [where ow = "\<lambda>x. pointing (owner w) x + (if e = Some x then 1 else 0)"]) auto
qed

lemma release_holding:
  assumes "holding w None"
  shows "holding (snd (ptr_release v w)) (fst (ptr_release v w))"
proof -
  have "pointing ((owner w)(v := None)) x + (if owner w v = Some x then 1 else 0) = pointing (owner w) x" for x
    using pointing_upd [OF holding_owner [OF assms], of v None x] by simp
  with assms show ?thesis by (auto simp: holding_def ptr_release_def)
qed

lemma new_var_holding:
  assumes "holding w e"
  shows "holding (new_var e w) None"
proof -
  have "owner w (vars w) = None" using assms by (auto simp: holding_def dom_def)
  then have "pointing ((owner w)(vars w := e)) x = pointing (owner w) x + (if e = Some x then 1 else 0)" for x
    using pointing_upd [OF holding_owner [OF assms], of "vars w" e x] by simp
  with assms show ?thesis by (auto simp: holding_def new_var_def)
qed

lemma reset_holding:
  assumes "holding w e" and "v < vars w" and "card (dom (heap_of w)) < fuel"
  shows "\<exists>w'. ptr_reset fuel v e w = Inr w' \<and> holding w' None \<and> owner w' = (owner w)(v := e) \<and> vars w' = vars w \<and>
    own_off w' = own_off w \<and> dom (heap_of w') \<subseteq> dom (heap_of w)"
proof -
  let ?w = "w\<lparr>owner := (owner w)(v := e)\<rparr>"
  have "holding ?w (owner w v)"
  proof -
    have "pointing ((owner w)(v := e)) x + (if owner w v = Some x then 1 else 0) =
        pointing (owner w) x + (if e = Some x then 1 else 0)" for x
      by (rule pointing_upd [OF holding_owner [OF assms(1)]])
    with assms(1,2) show ?thesis by (auto simp: holding_def)
  qed
  then have dom: "dom ((owner w)(v := e)) \<subseteq> {..<vars w}"
    and cnt: "counted (heap_of w) (\<lambda>x. pointing ((owner w)(v := e)) x + (if owner w v = Some x then 1 else 0))"
    by (auto simp: holding_def)
  show ?thesis
  proof (cases "owner w v")
    case None
    then show ?thesis using dom cnt by (simp add: ptr_reset_def holding_def)
  next
    case (Some b)
    define ow where "ow = (\<lambda>x. pointing ((owner w)(v := e)) x + (if owner w v = Some x then 1 else 0))"
    have "counted (heap_of w) ow" "0 < ow b" using cnt Some by (simp_all add: ow_def)
    from free_counted [OF this assms(3)] obtain h where h: "packet_free fuel b (heap_of w) = Inr h"
      "counted h (ow(b := ow b - 1))" "dom h \<subseteq> dom (heap_of w)" by blast
    have "ow(b := ow b - 1) = (\<lambda>x. pointing ((owner w)(v := e)) x + (if None = Some x then 1 else 0))"
      using Some by (auto simp: ow_def fun_eq_iff)
    with h dom Some show ?thesis by (simp add: ptr_reset_def holding_def Let_def)
  qed
qed

lemma set_off_simps [simp]:
  "heap_of (set_off v x w) = heap_of w" "owner (set_off v x w) = owner w" "vars (set_off v x w) = vars w"
  by (simp_all add: set_off_def)

lemma set_off_holding [simp]: "holding (set_off v off w) e = holding w e"
  by (simp add: holding_def)

subsection \<open>Steps on the packets\<close>

lemma window_holding:
  assumes "holding w e" and "heap_of w a = Some p"
  shows "\<exists>h. pkt_window a len off (heap_of w) = Inr h \<and> holding (w\<lparr>heap_of := h\<rparr>) e \<and> dom h = dom (heap_of w)"
proof -
  let ?h = "(heap_of w)(a := Some (p\<lparr>plength := len, poffset := off\<rparr>))"
  have "counted ?h ow" if "counted (heap_of w) ow" for ow
    by (rule counted_cong [OF that]) (use assms(2) in simp)
  with assms show ?thesis by (auto simp: pkt_window_def deref_def holding_def)
qed

lemma clone_holding:
  assumes "holding w None" and "heap_of w a = Some p" and "vars w + card (dom (heap_of w)) < 65535"
    and "pnext q = pnext p" and "refcnt q = refcnt p + 1"
  shows "holding (w\<lparr>heap_of := (heap_of w)(a := Some q)\<rparr>) (Some a)"
proof -
  let ?h = "heap_of w" and ?ow = "pointing (owner w)"
  have cnt: "counted ?h ?ow" and dom: "dom (owner w) \<subseteq> {..<vars w}" using assms(1) by (simp_all add: holding_def)
  have nx: "next_of (?h(a := Some q)) = next_of ?h" using assms(2,4) by (auto simp: next_of_def fun_eq_iff)
  have ref: "unat (refcnt p) = ?ow a + pointing (next_of ?h) a" using countedD(2) [OF cnt, of a] assms(2) by simp
  have "?ow a \<le> card (dom (owner w))" using holding_owner [OF assms(1)] by (rule pointing_le)
  also have "\<dots> \<le> vars w" using card_mono [OF finite_lessThan dom] by simp
  finally have 1: "?ow a \<le> vars w" .
  have "pointing (next_of ?h) a \<le> card (dom (next_of ?h))"
    using finite_subset [OF dom_next holding_heap [OF assms(1)]] by (rule pointing_le)
  also have "\<dots> \<le> card (dom ?h)" using holding_heap [OF assms(1)] dom_next by (rule card_mono)
  finally have "unat (refcnt p) + 1 < 2 ^ LENGTH(16)" using 1 ref assms(3) by simp
  then have "unat (refcnt q) = unat (refcnt p) + 1" using assms(5) by (simp add: unat_word_ariths)
  with ref have "counted (?h(a := Some q)) (\<lambda>x. ?ow x + (if Some a = Some x then 1 else 0))"
    by (intro counted_at [OF cnt]) (simp_all add: nx del: next_of_upd)
  with dom show ?thesis by (simp add: holding_def)
qed

lemma alloc_holding:
  assumes "holding w None" and "heap_of w a = None"
  shows "holding (w\<lparr>heap_of := allocPacket now raw a n (heap_of w)\<rparr>) (Some a)"
proof -
  let ?h = "heap_of w" and ?ow = "pointing (owner w)"
  have cnt: "counted ?h ?ow" and dom: "dom (owner w) \<subseteq> {..<vars w}" using assms(1) by (simp_all add: holding_def)
  obtain q where q: "allocPacket now raw a n ?h = ?h(a := Some q)" "refcnt q = 1" "pnext q = None"
    by (simp add: allocPacket_def init_details_def)
  have nx: "next_of (?h(a := Some q)) = next_of ?h" using assms(2) q(3) by (auto simp: next_of_def fun_eq_iff)
  have "?ow a + pointing (next_of ?h) a = 0" using countedD(2) [OF cnt, of a] assms(2) by simp
  then have "counted (?h(a := Some q)) (\<lambda>x. ?ow x + (if Some a = Some x then 1 else 0))"
    using q(2) by (intro counted_at [OF cnt]) (simp_all add: nx del: next_of_upd)
  with dom q(1) show ?thesis by (simp add: holding_def)
qed

lemma addPacket_effect:
  assumes "\<forall>x y. next_of h x = Some y \<longrightarrow> h y \<noteq> None"
  shows "h a \<noteq> None \<Longrightarrow> addPacket n a q h \<in> {Inl AssertFail, Inl Diverges} \<or>
    (\<exists>e p. addPacket n a q h = Inr (h(e := Some (p\<lparr>pnext := Some q\<rparr>))) \<and> h e = Some p \<and> pnext p = None)"
proof (induction n arbitrary: a)
  case (Suc n)
  then obtain p where p: "h a = Some p" by auto
  show ?case
  proof (cases "pnext p")
    case None
    show ?thesis
    proof (cases "q = a")
      case False
      with p None have "addPacket (Suc n) a q h = Inr (h(a := Some (p\<lparr>pnext := Some q\<rparr>)))" by (simp add: deref_def)
      with p None show ?thesis by (intro disjI2 exI [of _ a] exI [of _ p] conjI)
    qed simp
  next
    case (Some b)
    with p assms [rule_format, of a b] have "h b \<noteq> None" by (simp add: next_of_def)
    from Suc.IH [OF this] p Some show ?thesis by (cases "q = a") (auto simp: deref_def)
  qed
qed simp

lemma add_null_effect:
  assumes "\<forall>x y. next_of h x = Some y \<longrightarrow> h y \<noteq> None"
  shows "h a \<noteq> None \<Longrightarrow> add_null n a h \<in> {Inl Diverges, Inr h}"
proof (induction n arbitrary: a)
  case (Suc n)
  then obtain p where p: "h a = Some p" by auto
  show ?case
  proof (cases "pnext p")
    case None
    then have "p\<lparr>pnext := None\<rparr> = p" by simp
    with p None show ?thesis by (simp add: deref_def fun_upd_idem)
  next
    case (Some b)
    with p assms [rule_format, of a b] have "h b \<noteq> None" by (simp add: next_of_def)
    from Suc.IH [OF this] p Some show ?thesis by (auto simp: deref_def)
  qed
qed simp

lemma links_live:
  assumes "holding w e" and "next_of (heap_of w) x = Some y"
  shows "heap_of w y \<noteq> None"
proof -
  have "0 < pointing (next_of (heap_of w)) y"
    using pointing_pos [OF holding_heap [OF assms(1)] assms(2)] .
  then show ?thesis using assms(1) unfolding holding_def
    by (metis (no_types, lifting) add_gr_0 counted_live option.distinct(1))
qed

lemma add_holding:
  assumes "holding w (Some q)" and "heap_of w b = Some p" and "pnext p = None"
  shows "holding (w\<lparr>heap_of := (heap_of w)(b := Some (p\<lparr>pnext := Some q\<rparr>))\<rparr>) None"
proof -
  let ?h = "heap_of w" and ?ow = "pointing (owner w)"
  have cnt: "counted ?h (\<lambda>x. ?ow x + (if Some q = Some x then 1 else 0))" and dom: "dom (owner w) \<subseteq> {..<vars w}"
    using assms(1) by (simp_all add: holding_def)
  have "next_of ?h b = None" using assms(2,3) by (simp add: next_of_def)
  then have up: "pointing ((next_of ?h)(b := Some q)) x = pointing (next_of ?h) x + (if Some q = Some x then 1 else 0)" for x
    using pointing_upd [of "next_of ?h" b "Some q" x] finite_subset [OF dom_next holding_heap [OF assms(1)]] by simp
  have "counted (?h(b := Some (p\<lparr>pnext := Some q\<rparr>))) ?ow"
  proof (rule counted_at [OF cnt])
    show "count_is (?ow b + pointing (next_of (?h(b := Some (p\<lparr>pnext := Some q\<rparr>)))) b) (Some (p\<lparr>pnext := Some q\<rparr>))"
      using countedD(2) [OF cnt, of b] assms(2) up [of b] by (simp add: add_ac)
  qed (simp add: up)
  with dom show ?thesis by (simp add: holding_def)
qed

subsection \<open>Whole operations\<close>

text \<open>The variables an operation names, and those it declares.\<close>

fun uses :: "operation \<Rightarrow> nat list" where
  "uses Empty = []"
| "uses (Alloc now raw a n len off) = []"
| "uses (Moved u) = [u]"
| "uses (Window u len off) = [u]"
| "uses (OffsetOf u) = [u]"
| "uses (OffsetMoved u) = [u]"
| "uses (OffsetWindow u off) = [u]"
| "uses (Assign v u) = [v, u]"
| "uses (AssignOffset v u) = [v, u]"
| "uses (AssignOffsetPkt v u) = [v, u]"
| "uses (AssignBase v u) = [v, u]"
| "uses (Clone v) = [v]"
| "uses (CloneOffset v) = [v]"
| "uses (Append v u) = [v, u]"
| "uses (Destroy v) = [v]"

fun declares :: "operation \<Rightarrow> nat" where
  "declares (Assign v u) = 0"
| "declares (AssignOffset v u) = 0"
| "declares (AssignOffsetPkt v u) = 0"
| "declares (AssignBase v u) = 0"
| "declares (Append v u) = 0"
| "declares (Destroy v) = 0"
| "declares _ = 1"

fun scoped :: "nat \<Rightarrow> operation list \<Rightarrow> bool" where
  "scoped k [] = True"
| "scoped k (x # xs) = (list_all (\<lambda>v. v < k) (uses x) \<and> scoped (k + declares x) xs)"

definition sound :: "nat \<Rightarrow> world \<Rightarrow> world res \<Rightarrow> bool" where
  "sound d w r \<longleftrightarrow> (case r of Inl f \<Rightarrow> f \<in> {AssertFail, Diverges, Undefined}
     | Inr w' \<Rightarrow> holding w' None \<and> vars w' = vars w + d \<and> card (dom (heap_of w')) \<le> Suc (card (dom (heap_of w))))"

lemma sound_simps [simp]:
  "sound d w (Inl f) \<longleftrightarrow> f \<in> {AssertFail, Diverges, Undefined}"
  "sound d w (Inr w') \<longleftrightarrow> holding w' None \<and> vars w' = vars w + d \<and> card (dom (heap_of w')) \<le> Suc (card (dom (heap_of w)))"
  by (simp_all add: sound_def)

lemma release_same [simp]:
  "heap_of (snd (ptr_release v w)) = heap_of w" "vars (snd (ptr_release v w)) = vars w"
  "owner (snd (ptr_release v w)) = (owner w)(v := None)" "fst (ptr_release v w) = owner w v"
  by (simp_all add: ptr_release_def)

lemma new_var_same [simp]:
  "heap_of (new_var a w) = heap_of w" "vars (new_var a w) = Suc (vars w)" "owner (new_var a w) = (owner w)(vars w := a)"
  by (simp_all add: new_var_def)

lemma setPtr_sound:
  assumes "holding w None" and "v < vars w" and "card (dom (heap_of w)) < fuel"
  shows "\<exists>w'. setPtr fuel v u w = Inr w' \<and> holding w' None \<and> owner w' = (owner w)(u := None, v := owner w u) \<and>
    vars w' = vars w \<and> card (dom (heap_of w')) \<le> card (dom (heap_of w))"
proof -
  have "holding (snd (ptr_release u w)) (owner w u)" using release_holding [OF assms(1), of u] by simp
  from reset_holding [OF this, of v fuel] assms(2,3) obtain w' where
    w': "ptr_reset fuel v (owner w u) (snd (ptr_release u w)) = Inr w'" "holding w' None"
      "owner w' = (owner w)(u := None, v := owner w u)" "vars w' = vars w" "dom (heap_of w') \<subseteq> dom (heap_of w)"
    by auto
  have "card (dom (heap_of w')) \<le> card (dom (heap_of w))"
    by (rule card_mono [OF holding_heap [OF assms(1)] w'(5)])
  with w' show ?thesis by (auto simp: setPtr_def case_prod_unfold)
qed

lemma make_moved_sound: "holding w None \<Longrightarrow> sound 1 w (Inr (make_moved u w))"
  using new_var_holding [OF release_holding [of w u]] by (simp add: make_moved_def case_prod_unfold)

lemma make_pkt_sound:
  assumes "holding w a"
  shows "sound 1 w (make_pkt a len off w)"
proof (cases a)
  case (Some b)
  obtain p where "heap_of w b = Some p" using holding_live [OF assms, of 0 b] Some by auto
  with window_holding [OF new_var_holding [OF assms], of b p len off] Some show ?thesis
    by (auto simp: make_pkt_def)
qed (simp add: make_pkt_def)

lemma make_pkt_dom: "make_pkt a len off w = Inr w' \<Longrightarrow> dom (heap_of w') = dom (heap_of w)"
  by (cases a) (auto simp: make_pkt_def pkt_window_def deref_def rbind_Inr_iff insert_absorb Let_def split: option.splits if_splits)

lemma header_cases:
  assumes "holding w None"
  shows "header v w = Inl Undefined \<or> (\<exists>p. header v w = Inr p)"
  using holding_live [OF assms, of v] by (cases "owner w v") (auto simp: header_def deref_def)

lemma exec_sound:
  assumes "holding w None" and "list_all (\<lambda>v. v < vars w) (uses x)" and "vars w + card (dom (heap_of w)) < 65535"
    and "card (dom (heap_of w)) < fuel"
  shows "sound (declares x) w (exec fuel x w)"
proof (cases x)
  case Empty
  with new_var_holding [OF assms(1)] show ?thesis by (simp add: make_empty_def)
next
  case (Alloc now raw a n len off)
  show ?thesis
  proof (cases "heap_of w a")
    case None
    let ?w = "w\<lparr>heap_of := allocPacket now raw a n (heap_of w)\<rparr>"
    have "card (dom (heap_of ?w)) = Suc (card (dom (heap_of w)))"
      using None holding_heap [OF assms(1)] by (simp add: allocPacket_def domIff)
    moreover have "sound 1 ?w (make_pkt (Some a) len off ?w)"
      by (rule make_pkt_sound [OF alloc_holding [OF assms(1) None]])
    ultimately show ?thesis using Alloc None make_pkt_dom [of "Some a" len off ?w]
      by (cases "make_pkt (Some a) len off ?w") (auto simp: make_alloc_def)
  qed (simp add: Alloc make_alloc_def)
next
  case (Moved u)
  with make_moved_sound [OF assms(1)] show ?thesis by simp
next
  case (Window u len off)
  have "holding (snd (ptr_release u w)) (owner w u)" using release_holding [OF assms(1), of u] by simp
  from make_pkt_sound [OF this, of len off] Window show ?thesis
    by (cases "make_pkt (owner w u) len off (snd (ptr_release u w))") (simp_all add: make_window_def case_prod_unfold)
next
  case (OffsetOf u)
  with make_moved_sound [OF assms(1), of u] header_cases [of "make_moved u w" "vars w"] show ?thesis
    by (auto simp: offset_of_pkt_def Let_def)
next
  case (OffsetMoved u)
  with make_moved_sound [OF assms(1), of u] show ?thesis by (simp add: offset_moved_def)
next
  case (OffsetWindow u off)
  have "holding (snd (ptr_release u w)) (owner w u)" using release_holding [OF assms(1), of u] by simp
  from new_var_holding [OF this] OffsetWindow show ?thesis
    by (simp add: offset_window_def make_offset_def case_prod_unfold)
next
  case (Assign v u)
  with setPtr_sound [OF assms(1), of v fuel u] assms(2,4) show ?thesis by (auto simp: assign_def)
next
  case (AssignOffset v u)
  with setPtr_sound [OF assms(1), of v fuel u] assms(2,4) show ?thesis by (auto simp: assign_offset_def)
next
  case (AssignOffsetPkt v u)
  then obtain w' where w': "setPtr fuel v u w = Inr w'" "holding w' None" "vars w' = vars w"
      "card (dom (heap_of w')) \<le> card (dom (heap_of w))"
    using setPtr_sound [OF assms(1), of v fuel u] assms(2,4) by auto
  with AssignOffsetPkt header_cases [OF w'(2), of u] show ?thesis by (auto simp: assign_offset_pkt_def)
next
  case (AssignBase v u)
  then obtain w' where w': "setPtr fuel v u w = Inr w'" "holding w' None" "vars w' = vars w"
      "card (dom (heap_of w')) \<le> card (dom (heap_of w))"
    using setPtr_sound [OF assms(1), of v fuel u] assms(2,4) by auto
  with AssignBase header_cases [OF w'(2), of v] show ?thesis by (auto simp: assign_base_def)
next
  case (Clone v)
  show ?thesis
  proof (cases "owner w v")
    case (Some a)
    obtain p where p: "heap_of w a = Some p" using holding_live [OF assms(1), of v a] Some by auto
    let ?q = "p\<lparr>refcnt := refcnt p + 1, poffset := word_of_nat SIZEOF_PACKET\<rparr>"
    have "pkt_clone a (heap_of w) = Inr ((heap_of w)(a := Some ?q))"
      using p by (simp add: pkt_clone_def pkt_window_def deref_def)
    with new_var_holding [OF clone_holding [OF assms(1) p assms(3), of ?q]] Clone Some p show ?thesis
      by (simp add: clone_pkt_def insert_absorb domI)
  qed (simp add: Clone clone_pkt_def)
next
  case (CloneOffset v)
  show ?thesis
  proof (cases "owner w v")
    case (Some a)
    obtain p where p: "heap_of w a = Some p" using holding_live [OF assms(1), of v a] Some by auto
    let ?q = "p\<lparr>refcnt := refcnt p + 1\<rparr>"
    from new_var_holding [OF clone_holding [OF assms(1) p assms(3), of ?q]] CloneOffset Some p show ?thesis
      by (simp add: clone_offset_def make_offset_def deref_def insert_absorb domI)
  qed (simp add: CloneOffset clone_offset_def)
next
  case (Append v u)
  show ?thesis
  proof (cases "owner w v")
    case None
    with Append setPtr_sound [OF assms(1), of v fuel u] assms(2,4) show ?thesis by (auto simp: append_pkt_def)
  next
    case (Some a)
    let ?w = "snd (ptr_release u w)"
    have h: "holding ?w (owner w u)" using release_holding [OF assms(1), of u] by simp
    have a: "heap_of w a \<noteq> None" using holding_live [OF assms(1), of v a] Some by auto
    have links: "\<forall>x y. next_of (heap_of w) x = Some y \<longrightarrow> heap_of w y \<noteq> None"
      using links_live [OF assms(1)] by blast
    show ?thesis
    proof (cases "owner w u")
      case None
      have "?w\<lparr>heap_of := heap_of w\<rparr> = ?w" by (simp add: ptr_release_def)
      then have "holding (?w\<lparr>heap_of := heap_of w\<rparr>) None" using h None by (simp only:)
      with Append None Some add_null_effect [OF links a, of fuel] show ?thesis
        by (auto simp: append_pkt_def case_prod_unfold)
    next
      case q: (Some q)
      consider "addPacket fuel a q (heap_of w) \<in> {Inl AssertFail, Inl Diverges}"
        | e p where "addPacket fuel a q (heap_of w) = Inr ((heap_of w)(e := Some (p\<lparr>pnext := Some q\<rparr>)))"
            "heap_of w e = Some p" "pnext p = None"
        using addPacket_effect [OF links a, of fuel q] by blast
      then show ?thesis
      proof cases
        case 1
        with Append Some q show ?thesis by (auto simp: append_pkt_def case_prod_unfold)
      next
        case 2
        with add_holding [OF h [unfolded q], of e p] Append Some q show ?thesis
          by (simp add: append_pkt_def case_prod_unfold insert_absorb domI)
      qed
    qed
  qed
next
  case (Destroy v)
  then obtain w' where w': "ptr_reset fuel v None w = Inr w'" "holding w' None" "vars w' = vars w"
      "dom (heap_of w') \<subseteq> dom (heap_of w)"
    using reset_holding [OF assms(1) _ assms(4), of v] assms(2) by auto
  have "card (dom (heap_of w')) \<le> card (dom (heap_of w))" by (rule card_mono [OF holding_heap [OF assms(1)] w'(4)])
  with w' Destroy show ?thesis by (simp add: destroy_def)
qed

subsection \<open>Properties\<close>

lemma run_sound:
  assumes "scoped (vars w) xs" and "holding w None" and "card (dom (heap_of w)) + length xs < fuel"
    and "vars w + card (dom (heap_of w)) + 2 * length xs < 65537"
  shows "case run fuel xs w of Inl f \<Rightarrow> f \<in> {AssertFail, Diverges, Undefined}
    | Inr w' \<Rightarrow> holding w' None \<and> card (dom (heap_of w')) \<le> card (dom (heap_of w)) + length xs"
  using assms
proof (induction xs arbitrary: w)
  case (Cons x xs)
  have "sound (declares x) w (exec fuel x w)" using Cons.prems by (intro exec_sound) auto
  then show ?case
  proof (cases "exec fuel x w")
    case (Inr w')
    moreover have "declares x \<le> 1" by (cases x) simp_all
    ultimately have "case run fuel xs w' of Inl f \<Rightarrow> f \<in> {AssertFail, Diverges, Undefined}
        | Inr w'' \<Rightarrow> holding w'' None \<and> card (dom (heap_of w'')) \<le> card (dom (heap_of w')) + length xs"
      using \<open>sound (declares x) w (exec fuel x w)\<close> Cons.prems by (intro Cons.IH) auto
    with Inr \<open>sound (declares x) w (exec fuel x w)\<close> show ?thesis by (auto split: sum.splits)
  qed simp
qed simp

lemma start_holding: "holding start None"
  by (simp add: holding_def start_def counted_def pointing_def)

lemma run_from_start:
  assumes "scoped 0 ops" and "length ops < fuel" and "2 * length ops < 65537"
  shows "case run fuel ops start of Inl f \<Rightarrow> f \<in> {AssertFail, Diverges, Undefined}
    | Inr w \<Rightarrow> holding w None \<and> card (dom (heap_of w)) < fuel"
  using run_sound [of start ops fuel] start_holding assms by (auto simp: start_def split: sum.splits)

text \<open>C7. Whatever a program of at most 32768 operations does with the pointers in its scope (the reference count has 16 bits, and longer
  ones can wrap it: \<open>clone_count_wraps\<close>), no packet is used after it was freed and none is freed twice: only the assertion of \<open>addPacket\<close>, a cyclic chain or a null pointer can stop it. Where it
  does not stop, the reference count of every live packet is the number of pointers that own it
  and packets that link to it, and a further pointer can be destroyed.\<close>

theorem owners_counted:
  assumes "scoped 0 ops" and "length ops < fuel" and "2 * length ops < 65537"
  shows "case run fuel ops start of Inl f \<Rightarrow> f \<in> {AssertFail, Diverges, Undefined}
    | Inr w \<Rightarrow> (\<forall>a p. heap_of w a = Some p \<longrightarrow> 0 < refcnt p \<and>
          unat (refcnt p) = card {v. owner w v = Some a} + card {x. next_of (heap_of w) x = Some a}) \<and>
        (\<forall>v a. owner w v = Some a \<longrightarrow> heap_of w a \<noteq> None) \<and>
        (\<forall>v < vars w. \<exists>w'. destroy fuel v w = Inr w')"
proof (cases "run fuel ops start")
  case (Inl f)
  then show ?thesis using run_from_start [OF assms] by simp
next
  case (Inr w)
  then have w: "holding w None" "card (dom (heap_of w)) < fuel" using run_from_start [OF assms] by simp_all
  then have cnt: "counted (heap_of w) (pointing (owner w))" by (simp add: holding_def)
  have "0 < refcnt p \<and> unat (refcnt p) = card {v. owner w v = Some a} + card {x. next_of (heap_of w) x = Some a}"
    if "heap_of w a = Some p" for a p
    using countedD(2) [OF cnt, of a] that by (auto simp: pointing_def word_less_nat_alt)
  moreover have "heap_of w a \<noteq> None" if "owner w v = Some a" for v a
    using holding_live [OF w(1), of v a] that by auto
  moreover have "\<exists>w'. destroy fuel v w = Inr w'" if "v < vars w" for v
    using reset_holding [OF w(1) that w(2)] by (auto simp: destroy_def)
  ultimately show ?thesis using Inr by simp
qed

definition raw_details :: PacketDetails where
  "raw_details = \<lparr>flowHash = 7, lastIpLayer = 1, lastMtpLayer = 2, lastM3uaLayer = 3, layersCnt = 9, layers2Cnt = 0,
     layers3Cnt = 0, layers4Cnt = 0, more2Layers = True, more3Layers = False, more4Layers = False, layers = (\<lambda>_. 5)\<rparr>"

text \<open>Two packets, a second owner of the first, which is appended to the second, and the first owner
  converted.\<close>

definition demo_program :: "operation list" where
  "demo_program = [Alloc 0 raw_details 7 10 10 48, Alloc 0 raw_details 9 20 20 48, Clone 0, Append 1 2, OffsetOf 0]"

lemmas program_defs = make_alloc_def make_pkt_def new_var_def pkt_window_def deref_def allocPacket_def init_details_def
  update_time_def clone_pkt_def pkt_clone_def append_pkt_def ptr_release_def offset_of_pkt_def make_moved_def header_def
  set_off_def destroy_def ptr_reset_def setPtr_def assign_def

lemma demo_run: "\<exists>w. run 9 demo_program start = Inr w \<and> vars w = 4 \<and> heap_of w 7 \<noteq> None \<and> owner w 3 = Some 7"
  by (simp add: demo_program_def start_def program_defs zero_packet_def Let_def eval_nat_numeral)

theorem owners_counted_witness:
  "\<exists>w p. run 9 demo_program start = Inr w \<and> heap_of w 7 = Some p \<and>
     unat (refcnt p) = card {v. owner w v = Some 7} + card {x. next_of (heap_of w) x = Some 7} \<and>
     (\<exists>w'. destroy 9 3 w = Inr w')"
proof -
  have "scoped 0 demo_program" "length demo_program < 9" "2 * length demo_program < 65537"
    by (simp_all add: demo_program_def)
  from owners_counted [OF this] demo_run show ?thesis by auto
qed

text \<open>C31. With every pointer destroyed, all memory is free, unless packets were appended in a cycle.\<close>

theorem destroyed_all_freed:
  assumes "scoped 0 ops" and "length ops < fuel" and "2 * length ops < 65537" and "run fuel ops start = Inr w"
    and "owner w = Map.empty" and "acyclic {(x, y). next_of (heap_of w) x = Some y}"
  shows "heap_of w = Map.empty"
proof -
  have w: "holding w None" using run_from_start [OF assms(1-3)] assms(4) by simp
  then have cnt: "counted (heap_of w) (pointing (Map.empty :: nat \<Rightarrow> nat option))" using assms(5) by (simp add: holding_def)
  let ?r = "{(x, y). next_of (heap_of w) x = Some y}"
  have fin: "finite (dom (heap_of w))" using holding_heap [OF w] .
  have "?r \<subseteq> (\<lambda>x. (x, the (next_of (heap_of w) x))) ` dom (heap_of w)"
    using dom_next [of "heap_of w"] by force
  then have "finite ?r" using fin by (rule finite_surj [rotated])
  then have wf: "wf ?r" using assms(6) by (rule finite_acyclic_wf)
  have pred: "\<exists>x. x \<in> dom (heap_of w) \<and> next_of (heap_of w) x = Some a" if "heap_of w a = Some p" for a p
  proof -
    have "0 < pointing (next_of (heap_of w)) a" using countedD(2) [OF cnt, of a] that by (simp add: pointing_def)
    then have "{x. next_of (heap_of w) x = Some a} \<noteq> {}" unfolding pointing_def by (metis card.empty less_numeral_extra(3))
    then show ?thesis using next_of_live [of "heap_of w"] by blast
  qed
  have "dom (heap_of w) = {}"
  proof (rule ccontr)
    assume "dom (heap_of w) \<noteq> {}"
    then obtain z where z: "z \<in> dom (heap_of w)" "\<And>y. (y, z) \<in> ?r \<Longrightarrow> y \<notin> dom (heap_of w)"
      using wfE_min [OF wf] by (metis ex_in_conv)
    from z(1) obtain p where "heap_of w z = Some p" by auto
    with pred [OF this] z(2) show False by blast
  qed
  then show ?thesis by simp
qed

theorem destroyed_all_freed_witness:
  "\<exists>w. run 9 (demo_program @ [Destroy 1, Destroy 3]) start = Inr w \<and> heap_of w = Map.empty"
proof -
  let ?ops = "demo_program @ [Destroy 1, Destroy 3]"
  have "\<exists>w. run 9 ?ops start = Inr w \<and> owner w = Map.empty \<and> next_of (heap_of w) = Map.empty"
    by (simp add: demo_program_def start_def program_defs zero_packet_def Let_def eval_nat_numeral)
  then obtain w where w: "run 9 ?ops start = Inr w" "owner w = Map.empty" "next_of (heap_of w) = Map.empty" by blast
  have "scoped 0 ?ops" "length ?ops < 9" "2 * length ?ops < 65537" by (simp_all add: demo_program_def)
  from destroyed_all_freed [OF this w(1,2)] w(1,3) show ?thesis by (simp add: acyclic_def)
qed

text \<open>\<open>clone\<close> moves the window of the packet, for all its owners, back to the start of the data, with the
  length it had.\<close>

lemma clone_resets_offset:
  "\<exists>w p. run 9 [Alloc 0 raw_details 7 34 34 48, Window 0 20 62, Clone 1] start = Inr w \<and> owner w 1 = Some 7 \<and>
     heap_of w 7 = Some p \<and> poffset p = 48 \<and> pkt_getLength 1 w = Inr 20"
  by (simp add: pkt_getLength_def start_def program_defs zero_packet_def Let_def make_window_def SIZEOF_PACKET_def eval_nat_numeral)

text \<open>The packets of a cycle keep each other: two clones are enough to build it.\<close>

definition cyclic_program :: "operation list" where
  "cyclic_program = [Alloc 0 raw_details 7 10 10 48, Alloc 0 raw_details 9 20 20 48, Clone 0, Clone 1,
     Append 0 1, Append 3 2, Destroy 0, Destroy 3]"

lemma cycle_leaks:
  "\<exists>w. run 9 cyclic_program start = Inr w \<and> owner w = Map.empty \<and> heap_of w 7 \<noteq> None \<and> heap_of w 9 \<noteq> None"
  by (simp add: cyclic_program_def start_def program_defs zero_packet_def Let_def eval_nat_numeral)

text \<open>A \<^verbatim>\<open>Pkt\<close> assigned to a \<^verbatim>\<open>PktOffset\<close> never arrives: the packet that was held is given up, the
  pointer is moved, and then the offset is read through the pointer it was moved out of, which is
  null.\<close>

theorem offset_assignment_crashes:
  assumes "u \<noteq> v"
  shows "exec fuel (AssignOffsetPkt v u) w = rbind (exec fuel (Assign v u) w) (\<lambda>_. Inl Undefined)"
proof -
  have "header u w' = Inl Undefined" if "setPtr fuel v u w = Inr w'" for w'
  proof -
    have "owner w' u = None"
      using that assms by (auto simp: setPtr_def ptr_reset_def ptr_release_def rbind_Inr_iff Let_def split: option.splits)
    then show ?thesis by (simp add: header_def)
  qed
  then show ?thesis by (cases "setPtr fuel v u w") (simp_all add: assign_offset_pkt_def assign_def)
qed

theorem offset_assignment_crashes_witness:
  "run 9 [Empty, Alloc 0 raw_details 7 10 10 48, AssignOffsetPkt 0 1] start = Inl Undefined"
  by (simp add: offset_assignment_crashes start_def program_defs zero_packet_def make_empty_def Let_def eval_nat_numeral
    del: exec.simps(10))

end
