(* ===== verification/Flow_Key.thy ===== *)
theory Flow_Key
  imports Packet_Details
begin

text \<open>
  What the flow table relies on in \<^verbatim>\<open>src/core/PacketDetails.h\<close>: the key that
  \<open>fillAddresses\<close> writes is recognised by \<open>cmpAddresses\<close>, the two directions of a
  conversation have one hash and one key, the record never overruns its reserve while the
  pushes are counted, and where each of these ends.
\<close>

subsection \<open>The count is stable\<close>

lemma ao_unsetMix_idem [simp]: "ao_unsetMix (ao_unsetMix w) = ao_unsetMix w"
  by (rule bit_word_eqI) (auto simp: ao_unsetMix_def bit_simps)

lemma getLayersCnt_again:
  assumes "getLayersCnt l d = Inr (n, d')"
  shows "getLayersCnt l d' = Inr (n, d')"
proof (cases "lastIpLayer d = 0xFF")
  case True
  with assms show ?thesis by (auto simp: getLayersCnt_def rbind_Inr_iff)
next
  case False
  let ?i = "unat (lastIpLayer d)"
  from assms False have room: "?i < layers_room"
    and max: "layers2Cnt d \<le> layers2Max l \<and> layers3Cnt d \<le> layers3Max l \<and> layers4Cnt d \<le> layers4Max l"
    and d': "d' = d\<lparr>layers := (layers d)(?i := ao_unsetMix (layers d ?i))\<rparr>"
    and n: "n = layers2Cnt d + layers3Cnt d + layers4Cnt d"
    by (auto simp: getLayersCnt_def rbind_Inr_iff get_layer_def put_layer_def split: if_splits)
  show ?thesis using room max False n
    by (simp add: getLayersCnt_def d' get_layer_def put_layer_def)
qed

subsection \<open>A filled key is recognised\<close>

subsection \<open>A packet to try things on\<close>

definition demo_limits :: limits where
  "demo_limits = configure 2 2 2"

text \<open>A packet of an IPv4 header at 14 and a TCP header at 34, and the answer to it.\<close>

definition demo_packet :: mem where
  "demo_packet i = word_of_nat i"

definition demo_reply :: mem where
  "demo_reply i = (if 26 \<le> i \<and> i < 30 then word_of_nat (i + 4) else if 30 \<le> i \<and> i < 34 then word_of_nat (i - 4)
     else if i = 34 \<or> i = 35 then word_of_nat (i + 2) else if i = 36 \<or> i = 37 then word_of_nat (i - 2)
     else word_of_nat i)"

definition demo_details :: PacketDetails where
  "demo_details = \<lparr>flowHash = 0, lastIpLayer = 0xFF, lastMtpLayer = 0xFF, lastM3uaLayer = 0xFF, layersCnt = 0,
     layers2Cnt = 0, layers3Cnt = 0, layers4Cnt = 0, more2Layers = False, more3Layers = False,
     more4Layers = False, layers = (\<lambda>_. 0)\<rparr>"

definition demo_tcp :: PacketDetails where
  "demo_tcp = demo_details\<lparr>layersCnt := 2, layers3Cnt := 1, layers4Cnt := 1,
     layers := (\<lambda>_. 0)(0 := 26 * 32 + 4, 1 := 34 * 32 + 5)\<rparr>"

lemma demo_count: "getLayersCnt demo_limits demo_tcp = Inr (2, demo_tcp)"
  by (simp add: getLayersCnt_def demo_limits_def configure_def demo_tcp_def demo_details_def)

lemma demo_sides:
  "isSrcLowerAddr demo_limits demo_packet demo_tcp = Inr (True, demo_tcp)"
  "isSrcLowerAddr demo_limits demo_reply demo_tcp = Inr (False, demo_tcp)"
proof -
  have "src_lower_loop demo_packet demo_tcp 2 0 = Inr True" by code_simp
  then show "isSrcLowerAddr demo_limits demo_packet demo_tcp = Inr (True, demo_tcp)"
    by (simp add: isSrcLowerAddr_def demo_count)
  have "src_lower_loop demo_reply demo_tcp 2 0 = Inr False" by code_simp
  then show "isSrcLowerAddr demo_limits demo_reply demo_tcp = Inr (False, demo_tcp)"
    by (simp add: isSrcLowerAddr_def demo_count)
qed

lemma demo_key:
  "(case fillAddresses demo_limits demo_packet demo_tcp True (\<lambda>_. 0) of Inl _ \<Rightarrow> []
    | Inr (n, a, d) \<Rightarrow> n # slice a 0 13) = [12, 34, 35, 36, 37, 26, 27, 28, 29, 30, 31, 32, 33, 0]"
  by code_simp

text \<open>A packet matches the key that was filled from it: when \<^verbatim>\<open>fillAddresses\<close> returns, its
  buffer holds at most 31 address bytes, the bytes after the 32 of the key are untouched, the
  last byte is the length returned, and \<^verbatim>\<open>cmpAddresses\<close> with the same direction answers true.\<close>

theorem fill_then_cmp:
  assumes "fillAddresses l m d side a = Inr (n, a', d')"
  shows "unat n \<le> 31 \<and> a' 31 = n \<and> a' (31 + Suc k) = a (31 + Suc k) \<and>
    cmpAddresses l m d a' side = Inr (True, d')"
proof -
  from assms obtain c pos b where c: "getLayersCnt l d = Inr (c, d')"
    and fill: "fill_loop m d' side (unat c) 0 a = Inr (pos, b)"
    and n: "n = word_of_nat pos" and a': "a' = st8 31 n b"
    by (auto simp: fillAddresses_def rbind_Inr_iff CONFIG_FLOWADDR_SIZE_def)
  from fill_loop_keeps [OF fill] have pos: "pos \<le> 31" and keep: "b (31 + Suc k) = a (31 + Suc k)"
    by simp_all
  have "cmp_loop m d' side (unat c) 0 a' = Inr True"
    by (rule fill_cmp_loop [OF fill]) (simp_all add: a' n st8_def)
  then have "cmpAddresses l m d a' side = Inr (True, d')"
    by (simp add: cmpAddresses_def c)
  moreover have "unat n \<le> 31" using pos by (simp add: n unat_word_of_nat)
  ultimately show ?thesis using keep by (simp add: a' st8_def)
qed

theorem fill_then_cmp_witness:
  "case fillAddresses demo_limits demo_packet demo_tcp True (\<lambda>_. 0) of Inl _ \<Rightarrow> False
   | Inr (n, a', d') \<Rightarrow> cmpAddresses demo_limits demo_packet demo_tcp a' True = Inr (True, d') \<and> n = 12"
proof (cases "fillAddresses demo_limits demo_packet demo_tcp True (\<lambda>_. 0)")
  case (Inl e)
  with demo_key show ?thesis by simp
next
  case (Inr r)
  obtain n a' d' where r: "r = (n, a', d')" by (cases r)
  with Inr demo_key have "n = 12" by simp
  with fill_then_cmp [of demo_limits demo_packet demo_tcp True "\<lambda>_. 0" n a' d' 0] Inr r show ?thesis by simp
qed

subsection \<open>One key for both directions\<close>

text \<open>
  The packet \<open>m'\<close> goes the other way: at every layer the key uses, the two halves of the
  address have changed places; a layer with a single address has the same one.
\<close>

definition mirrored_layer :: "mem \<Rightarrow> mem \<Rightarrow> layer_addr \<Rightarrow> bool" where
  "mirrored_layer m m' la =
     (let h = la_len la div 2; a = la_off la
      in if la_mask la = 0
         then slice m' a h = slice m (a + h) h \<and> slice m' (a + h) h = slice m a h \<and>
              (la_len la = 1 \<longrightarrow> m' a = m a)
         else masked_addrs m' a (la_mask la) =
              rbind (masked_addrs m a (la_mask la)) (\<lambda>(src, dst). Inr (dst, src)))"

text \<open>The second argument of the disjunction: the key has no Vlan or Mpls tag of its own.\<close>

fun mirrored :: "mem \<Rightarrow> mem \<Rightarrow> PacketDetails \<Rightarrow> nat \<Rightarrow> bool" where
  "mirrored m m' d 0 = True"
| "mirrored m m' d (Suc i) =
     ((case getLayerAddr d i of Inl _ \<Rightarrow> True
       | Inr la \<Rightarrow> la_mix la \<or> ptype_code (la_type la) > ptype_code TBidir \<and> mirrored_layer m m' la)
      \<and> mirrored m m' d i)"

lemma mem_compare_swap: "mem_compare ys xs = - mem_compare xs ys"
  by (induction xs ys rule: mem_compare.induct) auto

lemma mem_compare_0: "mem_compare xs ys = 0 \<Longrightarrow> length xs = length ys \<Longrightarrow> xs = ys"
  by (induction xs ys rule: mem_compare.induct) (auto split: if_splits)

lemma layer_order_swap:
  assumes "mirrored_layer m m' la" and "layer_order m la = Inr r"
  shows "layer_order m' la = Inr (- r)"
proof (cases "la_mask la = 0")
  case True
  with assms show ?thesis
    by (auto simp: layer_order_def mirrored_layer_def Let_def rbind_Inr_iff intro: mem_compare_swap)
next
  case False
  with assms obtain s t where "masked_addrs m (la_off la) (la_mask la) = Inr (s, t)"
    and "r = (if s < t then -1 else if s > t then 1 else 0)"
    by (auto simp: layer_order_def Let_def rbind_Inr_iff)
  with assms(1) False show ?thesis by (auto simp: layer_order_def mirrored_layer_def Let_def)
qed

lemma slice_1: "slice m a (Suc 0) = [m a]"
  by (simp add: slice_def)

lemma slice_halves: "slice m a (2 * h) = slice m a h @ slice m (a + h) h"
  by (rule nth_equalityI) (auto simp: slice_nth nth_append)

lemma layer_key_swap:
  assumes "mirrored_layer m m' la"
  shows "layer_key m' la (\<not> side) = layer_key m la side"
proof (cases "la_mask la = 0")
  case True
  show ?thesis
  proof (cases "la_len la = 1")
    case True
    with \<open>la_mask la = 0\<close> assms show ?thesis
      by (simp add: layer_key_def mirrored_layer_def slice_1 Let_def)
  next
    case False
    show ?thesis
    proof (cases "even (la_len la)")
      case True
      then obtain h where "la_len la = 2 * h" by blast
      with \<open>la_mask la = 0\<close> assms show ?thesis
        by (cases side) (simp_all add: layer_key_def mirrored_layer_def slice_halves Let_def)
    qed (use \<open>la_mask la = 0\<close> False in \<open>simp add: layer_key_def\<close>)
  qed
next
  case False
  with assms show ?thesis
    by (cases "masked_addrs m (la_off la) (la_mask la)")
       (auto simp: layer_key_def mirrored_layer_def Let_def)
qed

text \<open>A layer whose two addresses are equal has one key.\<close>

lemma layer_key_equal:
  assumes "layer_order m la = Inr 0"
  shows "layer_key m la side = layer_key m la side'"
proof (cases "la_mask la = 0")
  case True
  with assms have "mem_compare (slice m (la_off la) (la_len la div 2))
      (slice m (la_off la + la_len la div 2) (la_len la div 2)) = 0"
    and len: "la_len la = 1 \<or> even (la_len la)"
    by (auto simp: layer_order_def Let_def rbind_Inr_iff)
  from mem_compare_0 [OF this(1)]
  have eq: "slice m (la_off la) (la_len la div 2) = slice m (la_off la + la_len la div 2) (la_len la div 2)"
    by simp
  show ?thesis
  proof (cases "la_len la = 1")
    case True
    with \<open>la_mask la = 0\<close> show ?thesis by (simp add: layer_key_def)
  next
    case False
    with len obtain h where "la_len la = 2 * h" by blast
    with eq \<open>la_mask la = 0\<close> show ?thesis by (simp add: layer_key_def slice_halves Let_def)
  qed
next
  case False
  with assms obtain x where "masked_addrs m (la_off la) (la_mask la) = Inr (x, x)"
    by (auto simp: layer_order_def Let_def rbind_Inr_iff split: if_splits)
  with False show ?thesis by (simp add: layer_key_def)
qed

lemma fill_loop_swap:
  "mirrored m m' d i \<Longrightarrow> fill_loop m' d (\<not> side) i pos a = fill_loop m d side i pos a"
proof (induction i arbitrary: pos a)
  case (Suc i)
  show ?case
  proof (cases "getLayerAddr d i")
    case (Inr la)
    show ?thesis
    proof (cases "la_mix la")
      case True
      with Inr Suc.IH Suc.prems show ?thesis by simp
    next
      case False
      with Inr Suc.prems have "mirrored_layer m m' la" and "mirrored m m' d i" by simp_all
      with Inr False Suc.IH show ?thesis by (simp add: layer_key_swap)
    qed
  qed simp
qed simp

lemma side_loops_swap:
  assumes "src_lower_loop m d i pos = Inr s" and "src_lower_loop m' d i pos = Inr s'" and "mirrored m m' d i"
  shows "fill_loop m' d s' i pos a = fill_loop m d s i pos a"
  using assms
proof (induction i arbitrary: pos a)
  case (Suc i)
  then obtain la where la: "getLayerAddr d i = Inr la" by (auto simp: rbind_Inr_iff)
  have mir: "mirrored m m' d i" using Suc.prems(3) by simp
  show ?case
  proof (cases "la_mix la")
    case True
    with Suc.IH [OF _ _ mir] Suc.prems(1,2) la show ?thesis by simp
  next
    case False
    with Suc.prems(3) la have bidir: "ptype_code (la_type la) > ptype_code TBidir"
      and ml: "mirrored_layer m m' la" by auto
    show ?thesis
    proof (cases "pos + la_len la > CONFIG_FLOWADDR_SIZE - 1")
      case True
      with la False show ?thesis by simp
    next
      case room: False
      with Suc.prems(1) la False bidir obtain r where r: "layer_order m la = Inr r"
        by (auto simp: rbind_Inr_iff)
      with ml have r': "layer_order m' la = Inr (- r)" by (rule layer_order_swap)
      show ?thesis
      proof (cases "r = 0")
        case True
        from Suc.prems(1,2) la False bidir room r r' True
        have "src_lower_loop m d i (pos + la_len la) = Inr s" "src_lower_loop m' d i (pos + la_len la) = Inr s'"
          by simp_all
        note IH = Suc.IH [OF this mir]
        have "layer_key m la s = layer_key m la (\<not> s')" using r True by (auto intro: layer_key_equal)
        with layer_key_swap [OF ml, of "\<not> s'"] have "layer_key m' la s' = layer_key m la s" by simp
        with la False IH show ?thesis by simp
      next
        case nz: False
        with Suc.prems(1,2) la False bidir room r r' have "s' = (\<not> s)" by (auto split: if_splits)
        then show ?thesis by (simp only: fill_loop_swap [OF Suc.prems(3)])
      qed
    qed
  qed
qed simp

text \<open>C6. The key is canonical: two packets with the same layers whose address halves are
  exchanged, each filled with the direction \<^verbatim>\<open>isSrcLowerAddr\<close> computes for it, give the same key
  (the same buffer and the same length), whatever mixture of layers the key is made of, as long
  as it contains no unmixed Vlan or Mpls tag.\<close>

theorem canonical_key:
  assumes "isSrcLowerAddr l m d = Inr (s, d')" and "isSrcLowerAddr l m' d = Inr (s', d')"
    and "mirrored m m' d' (unat (layers2Cnt d + layers3Cnt d + layers4Cnt d))"
  shows "fillAddresses l m' d s' a = fillAddresses l m d s a"
proof -
  from assms(1) obtain n where n: "getLayersCnt l d = Inr (n, d')" "src_lower_loop m d' (unat n) 0 = Inr s"
    by (auto simp: isSrcLowerAddr_def rbind_Inr_iff)
  with assms(2) have s': "src_lower_loop m' d' (unat n) 0 = Inr s'"
    by (auto simp: isSrcLowerAddr_def rbind_Inr_iff)
  from n(1) have "n = layers2Cnt d + layers3Cnt d + layers4Cnt d"
    by (auto simp: getLayersCnt_def rbind_Inr_iff put_layer_def split: if_splits)
  with assms(3) have "mirrored m m' d' (unat n)" by simp
  from side_loops_swap [OF n(2) s' this] show ?thesis by (simp add: fillAddresses_def n)
qed

theorem canonical_key_witness:
  "fillAddresses demo_limits demo_reply demo_tcp False (\<lambda>_. 0) =
   fillAddresses demo_limits demo_packet demo_tcp True (\<lambda>_. 0)"
proof (rule canonical_key)
  show "isSrcLowerAddr demo_limits demo_packet demo_tcp = Inr (True, demo_tcp)" by (rule demo_sides(1))
  show "isSrcLowerAddr demo_limits demo_reply demo_tcp = Inr (False, demo_tcp)" by (rule demo_sides(2))
  have "mirrored demo_packet demo_reply demo_tcp 2" by code_simp
  moreover have "unat (layers2Cnt demo_tcp + layers3Cnt demo_tcp + layers4Cnt demo_tcp) = 2" by code_simp
  ultimately show "mirrored demo_packet demo_reply demo_tcp
      (unat (layers2Cnt demo_tcp + layers3Cnt demo_tcp + layers4Cnt demo_tcp))" by simp
qed

text \<open>An unmixed Vlan tag breaks the canonical key: it is the same in both directions of the
  conversation, but \<^verbatim>\<open>fillAddresses\<close> exchanges its two bytes with the direction. With a tag of two
  different bytes in front of an IPv4 header, the two directions get different keys.\<close>

definition demo_vlan :: PacketDetails where
  "demo_vlan = demo_details\<lparr>layersCnt := 2, layers2Cnt := 1, layers3Cnt := 1,
     layers := (\<lambda>_. 0)(0 := 14 * 32, 1 := 26 * 32 + 4)\<rparr>"

theorem vlan_key_depends_on_direction:
  "(case isSrcLowerAddr demo_limits demo_packet demo_vlan of Inl _ \<Rightarrow> [] | Inr (s, d) \<Rightarrow>
      (case fillAddresses demo_limits demo_packet d s (\<lambda>_. 0) of Inl _ \<Rightarrow> [] | Inr (n, a, _) \<Rightarrow> slice a 0 (unat n)))
     = [26, 27, 28, 29, 30, 31, 32, 33, 14, 15] \<and>
   (case isSrcLowerAddr demo_limits demo_reply demo_vlan of Inl _ \<Rightarrow> [] | Inr (s, d) \<Rightarrow>
      (case fillAddresses demo_limits demo_reply d s (\<lambda>_. 0) of Inl _ \<Rightarrow> [] | Inr (n, a, _) \<Rightarrow> slice a 0 (unat n)))
     = [26, 27, 28, 29, 30, 31, 32, 33, 15, 14] \<and>
   slice demo_reply 14 2 = slice demo_packet 14 2"
  by code_simp

subsection \<open>Sequences of pushes\<close>

text \<open>The calls an extractor makes on one packet, with the position of each header.\<close>

datatype push = PEth nat bool | PVlan nat bool | PMpls nat bool | PMtp nat | PMtp3 nat | PIp4 nat bool
  | PIsup nat | PTcp nat | PUdp nat | PSctp nat | PSctpChunk nat | PM2ua nat | PM3ua nat nat u16

fun do_push :: "limits \<Rightarrow> mem \<Rightarrow> push \<Rightarrow> PacketDetails \<Rightarrow> PacketDetails res" where
  "do_push l m (PEth p mix) d = pushEth l m p mix d"
| "do_push l m (PVlan p mix) d = pushVlan l m p mix d"
| "do_push l m (PMpls p mix) d = pushMpls l m p mix d"
| "do_push l m (PMtp p) d = pushMtp l m p d"
| "do_push l m (PMtp3 p) d = pushMtp3 l m p d"
| "do_push l m (PIp4 p mix) d = pushIp4 l m p mix d"
| "do_push l m (PIsup p) d = pushIsup l m p d"
| "do_push l m (PTcp p) d = pushTcp l m p d"
| "do_push l m (PUdp p) d = pushUdp l m p d"
| "do_push l m (PSctp p) d = pushSctp l m p d"
| "do_push l m (PSctpChunk p) d = pushSctpChunk l m p d"
| "do_push l m (PM2ua p) d = pushM2ua l m p d"
| "do_push l m (PM3ua p b off) d = pushM3ua l m p b off d"

fun push_all :: "limits \<Rightarrow> mem \<Rightarrow> push list \<Rightarrow> PacketDetails \<Rightarrow> PacketDetails res" where
  "push_all l m [] d = Inr d"
| "push_all l m (p # ps) d = rbind (do_push l m p d) (push_all l m ps)"

text \<open>The header in the packet the other way: source and destination exchanged.\<close>

fun push_mirrored :: "mem \<Rightarrow> mem \<Rightarrow> push \<Rightarrow> bool" where
  "push_mirrored m m' (PEth p _) \<longleftrightarrow> slice m' p 6 = slice m (p + 6) 6 \<and> slice m' (p + 6) 6 = slice m p 6"
| "push_mirrored m m' (PVlan p _) \<longleftrightarrow> ld16 m' p = ld16 m p"
| "push_mirrored m m' (PMpls p _) \<longleftrightarrow> ld32 m' p = ld32 m p"
| "push_mirrored m m' (PMtp p) \<longleftrightarrow>
     rl_opc (ld32 m' (p + 4)) = rl_dpc (ld32 m (p + 4)) \<and> rl_dpc (ld32 m' (p + 4)) = rl_opc (ld32 m (p + 4))"
| "push_mirrored m m' (PMtp3 p) \<longleftrightarrow>
     rl_opc (ld32 m' (p + 1)) = rl_dpc (ld32 m (p + 1)) \<and> rl_dpc (ld32 m' (p + 1)) = rl_opc (ld32 m (p + 1))"
| "push_mirrored m m' (PIp4 p _) \<longleftrightarrow> ld32 m' (p + 12) = ld32 m (p + 16) \<and> ld32 m' (p + 16) = ld32 m (p + 12)"
| "push_mirrored m m' (PIsup p) \<longleftrightarrow> cic_cic (ld16 m' p) = cic_cic (ld16 m p)"
| "push_mirrored m m' (PTcp p) \<longleftrightarrow> ld16 m' p = ld16 m (p + 2) \<and> ld16 m' (p + 2) = ld16 m p"
| "push_mirrored m m' (PUdp p) \<longleftrightarrow> ld16 m' p = ld16 m (p + 2) \<and> ld16 m' (p + 2) = ld16 m p"
| "push_mirrored m m' (PSctp p) \<longleftrightarrow> ld16 m' p = ld16 m (p + 2) \<and> ld16 m' (p + 2) = ld16 m p"
| "push_mirrored m m' (PSctpChunk p) \<longleftrightarrow> True"
| "push_mirrored m m' (PM2ua p) \<longleftrightarrow> True"
| "push_mirrored m m' (PM3ua p b off) \<longleftrightarrow>
     ld32 m' (b + unat off) = ld32 m (b + unat off + 4) \<and> ld32 m' (b + unat off + 4) = ld32 m (b + unat off)"

lemma add_hash_commute: "add_hash x (add_hash y d) = add_hash y (add_hash x d)"
  by (simp add: add_hash_def ac_simps)

lemma mac_hash_slice: "slice m' a 6 = slice m b 6 \<Longrightarrow> mac_hash m' a = mac_hash m b"
proof -
  assume s: "slice m' a 6 = slice m b 6"
  have "m' (a + i) = m (b + i)" if "i < 6" for i
    using arg_cong [OF s, of "\<lambda>l. l ! i"] that by (simp add: slice_nth)
  from this [of 0] this [of 1] this [of 2] this [of 3] this [of 4] this [of 5]
  show ?thesis by (simp add: mac_hash_def ld32_def ld16_def add.assoc eval_nat_numeral)
qed

lemma do_push_mirrored:
  assumes "push_mirrored m m' p"
  shows "do_push l m' p d = do_push l m p d"
proof (cases p)
  case (PEth q mix)
  with assms have "mac_hash m' q = mac_hash m (q + 6)" "mac_hash m' (q + 6) = mac_hash m q"
    by (auto intro: mac_hash_slice)
  then show ?thesis by (simp add: PEth pushEth_def add_hash_commute)
next
  case (PM3ua q b off)
  with assms show ?thesis by (simp add: pushM3ua_def Let_def add_hash_commute)
qed (use assms in \<open>simp_all add: pushVlan_def pushMpls_def pushMtp_def pushMtp3_def pushIp4_def
  pushIsup_def pushTcp_def pushUdp_def pushSctp_def push_ports_def pushSctpChunk_def pushM2ua_def
  add_hash_commute\<close>)

text \<open>C30. The details do not depend on the direction: when every header of the packet has its source
  and destination exchanged (a circuit code, tag or label being the same), any sequence of pushes
  produces the same record, so both directions of a conversation hash to one bucket.\<close>

theorem pushes_direction_free:
  assumes "list_all (push_mirrored m m') ps"
  shows "push_all l m' ps d = push_all l m ps d"
  using assms
proof (induction ps arbitrary: d)
  case (Cons p ps)
  then have "push_all l m' ps = push_all l m ps" by auto
  with Cons.prems do_push_mirrored [of m m' p l d] show ?case by simp
qed simp

theorem pushes_direction_free_witness:
  "push_all demo_limits demo_reply [PIp4 14 False, PTcp 34] demo_details =
   push_all demo_limits demo_packet [PIp4 14 False, PTcp 34] demo_details"
proof (rule pushes_direction_free)
  show "list_all (push_mirrored demo_packet demo_reply) [PIp4 14 False, PTcp 34]" by code_simp
qed

subsection \<open>The record stays inside its reserve\<close>

lemma ao_set_fields:
  assumes "ao_set t off mix = Inr w"
  shows "ao_getType w = t \<and> ao_getMix w = mix \<and> unat (ao_getOffset w) = unat off mod 2048"
proof -
  have "push_bit 5 off = push_bit 5 (take_bit 11 off)"
    by (rule bit_word_eqI) (auto simp: bit_simps)
  with assms have w: "w = push_bit 5 (take_bit 11 off) + push_bit 4 (of_bool mix) + word_of_nat (ptype_code t)"
    by (simp add: ao_set_def rbind_Inr_iff)
  have n: "unat (take_bit 11 off) = unat off mod 2048" by (simp add: unat_take_bit)
  then have "take_bit 11 off < 2048" by (simp add: word_less_nat_alt)
  then have "unat w = (unat off mod 2048) * 32 + of_bool mix * 16 + ptype_code t"
    by (simp only: w ao_set_unat n)
  from ao_fields [OF this] show ?thesis by simp
qed

text \<open>The descriptor of a layer gives back its type, its mix flag and its offset modulo 2048:
  only 11 bits remain for the offset, while the assertion lets 14 pass.\<close>

theorem ao_set_readback:
  assumes "off \<le> 0x3FFF"
  shows "\<exists>w. ao_set t off mix = Inr w \<and> ao_getType w = t \<and> ao_getMix w = mix \<and>
    unat (ao_getOffset w) = unat off mod 2048"
proof -
  from assms obtain w where w: "ao_set t off mix = Inr w"
    by (simp add: ao_set_def ptype_code_less)
  with ao_set_fields [OF w] show ?thesis by simp
qed

theorem ao_set_readback_witness:
  "\<exists>w. ao_set TIp4 2074 False = Inr w \<and> ao_getType w = TIp4 \<and> \<not> ao_getMix w \<and> unat (ao_getOffset w) = 26"
  using ao_set_readback [of 2074 TIp4 False] by simp

definition readable :: "u16 \<Rightarrow> bool" where
  "readable w \<longleftrightarrow> ao_getType w \<noteq> TBidir \<and> ao_getType w \<noteq> TMaxValue"

definition layers_ok :: "PacketDetails \<Rightarrow> bool" where
  "layers_ok d \<longleftrightarrow> unat (layersCnt d) \<le> layers_room \<and> (\<forall>i < unat (layersCnt d). readable (layers d i))"

definition counts_ok :: "limits \<Rightarrow> PacketDetails \<Rightarrow> bool" where
  "counts_ok l d \<longleftrightarrow>
     unat (layersCnt d) = unat (layers2Cnt d) + unat (layers3Cnt d) + unat (layers4Cnt d) \<and>
     layers2Cnt d \<le> layers2Max l \<and> layers3Cnt d \<le> layers3Max l \<and> layers4Cnt d \<le> layers4Max l \<and>
     (lastIpLayer d = 0xFF \<or> lastIpLayer d < layersCnt d)"

definition limits_ok :: "limits \<Rightarrow> bool" where
  "limits_ok l \<longleftrightarrow> unat (layers2Max l) + unat (layers3Max l) + unat (layers4Max l) \<le> layers_room \<and>
     0 < layers3Max l \<and> 0 < layers4Max l"

text \<open>A push that is counted, of a header near enough to the start of the packet.\<close>

fun counted :: "push \<Rightarrow> bool" where
  "counted (PSctpChunk _) = False"
| "counted (PM2ua _) = False"
| "counted (PM3ua p _ off) = (p + unat off \<le> 0x3FFF)"
| "counted (PEth p _) = (p \<le> 0x3FF0)"
| "counted (PVlan p _) = (p \<le> 0x3FF0)"
| "counted (PMpls p _) = (p \<le> 0x3FF0)"
| "counted (PMtp p) = (p \<le> 0x3FF0)"
| "counted (PMtp3 p) = (p \<le> 0x3FF0)"
| "counted (PIp4 p _) = (p \<le> 0x3FF0)"
| "counted (PIsup p) = (p \<le> 0x3FF0)"
| "counted (PTcp p) = (p \<le> 0x3FF0)"
| "counted (PUdp p) = (p \<le> 0x3FF0)"
| "counted (PSctp p) = (p \<le> 0x3FF0)"

lemma near_offset: "n \<le> 0x3FFF \<Longrightarrow> (word_of_nat n :: u16) \<le> 0x3FFF"
  by (simp add: word_le_nat_alt unat_word_of_nat)

lemma add_layer_ok:
  assumes "layers_ok d" and "unat (layersCnt d) < layers_room" and "off \<le> 0x3FFF"
    and "t \<noteq> TBidir" and "t \<noteq> TMaxValue"
  obtains w where
    "add_layer t off mix d = Inr (d\<lparr>layers := (layers d)(unat (layersCnt d) := w), layersCnt := layersCnt d + 1\<rparr>)"
    and "layers_ok (d\<lparr>layers := (layers d)(unat (layersCnt d) := w), layersCnt := layersCnt d + 1\<rparr>)"
    and "unat (layersCnt d + 1) = unat (layersCnt d) + 1"
proof -
  obtain w where w: "ao_set t off mix = Inr w"
    using assms(3) by (simp add: ao_set_def ptype_code_less)
  with ao_set_fields [OF w] assms(4,5) have r: "readable w" by (simp add: readable_def)
  have n: "unat (layersCnt d + 1) = unat (layersCnt d) + 1"
    using assms(2) by (simp add: unat_word_ariths layers_room_def)
  show ?thesis
  proof (rule that [of w])
    show "add_layer t off mix d = Inr (d\<lparr>layers := (layers d)(unat (layersCnt d) := w), layersCnt := layersCnt d + 1\<rparr>)"
      using assms(2) by (simp add: add_layer_def w put_layer_def)
  qed (use assms(1,2) r n in \<open>auto simp: layers_ok_def less_Suc_eq\<close>)
qed

lemma replace_last_ok:
  assumes "layers_ok d" and "0 < layersCnt d" and "off \<le> 0x3FFF" and "t \<noteq> TBidir" and "t \<noteq> TMaxValue"
  obtains w where "replace_last t off d = Inr (d\<lparr>layers := (layers d)(unat (layersCnt d) - 1 := w)\<rparr>)"
    and "layers_ok (d\<lparr>layers := (layers d)(unat (layersCnt d) - 1 := w)\<rparr>)"
proof -
  obtain w where w: "ao_set t off False = Inr w"
    using assms(3) by (simp add: ao_set_def ptype_code_less)
  with ao_set_fields [OF w] assms(4,5) have r: "readable w" by (simp add: readable_def)
  have "0 < unat (layersCnt d)" using assms(2) by (simp add: word_less_nat_alt)
  moreover have "unat (layersCnt d) \<le> layers_room" using assms(1) by (simp add: layers_ok_def)
  ultimately have room: "unat (layersCnt d) - 1 < layers_room" by simp
  show ?thesis
  proof (rule that [of w])
    show "replace_last t off d = Inr (d\<lparr>layers := (layers d)(unat (layersCnt d) - 1 := w)\<rparr>)"
      using assms(2) room by (simp add: replace_last_def w put_layer_def)
  qed (use assms(1) r in \<open>auto simp: layers_ok_def\<close>)
qed

lemma u8_less_add1: "x < y \<Longrightarrow> (x :: u8) + 1 \<le> y"
  by (metis inc_le)

lemma u8_unat_add1:
  assumes "x < y"
  shows "unat ((x :: u8) + 1) = unat x + 1"
proof -
  have "unat x < unat y" using assms by (simp add: word_less_nat_alt)
  moreover have "unat y < 256" using unsigned_less [of y] by simp
  ultimately show ?thesis by (simp add: unat_word_ariths)
qed

text \<open>While \<^verbatim>\<open>pushIp4\<close> runs, the last IP layer may be the one about to be added.\<close>

definition adding_ok :: "limits \<Rightarrow> PacketDetails \<Rightarrow> bool" where
  "adding_ok l d \<longleftrightarrow> layers_ok d \<and> counts_ok l (d\<lparr>lastIpLayer := 0xFF\<rparr>) \<and>
     (lastIpLayer d = 0xFF \<or> lastIpLayer d \<le> layersCnt d)"

definition details_ok :: "limits \<Rightarrow> PacketDetails \<Rightarrow> bool" where
  "details_ok l d \<longleftrightarrow> layers_ok d \<and> counts_ok l d"

lemma adding_ok_room:
  assumes "limits_ok l" and "adding_ok l d"
    and "layers2Cnt d < layers2Max l \<or> layers3Cnt d < layers3Max l \<or> layers4Cnt d < layers4Max l"
  shows "unat (layersCnt d) < layers_room"
  using assms by (auto simp: limits_ok_def adding_ok_def counts_ok_def word_less_nat_alt word_le_nat_alt)

text \<open>Adding a layer of each kind, with its count.\<close>

lemma add_counted:
  assumes "limits_ok l" and "adding_ok l d" and "off \<le> 0x3FFF" and "t \<noteq> TBidir" and "t \<noteq> TMaxValue"
  shows "layers2Cnt d < layers2Max l \<Longrightarrow>
      \<exists>d'. rbind (add_layer t off mix d) (\<lambda>d. Inr (count2 d)) = Inr d' \<and> details_ok l d'"
    and "layers3Cnt d < layers3Max l \<Longrightarrow>
      \<exists>d'. rbind (add_layer t off mix d) (\<lambda>d. Inr (count3 d)) = Inr d' \<and> details_ok l d'"
    and "layers4Cnt d < layers4Max l \<Longrightarrow>
      \<exists>d'. rbind (add_layer t off mix d) (\<lambda>d. Inr (count4 d)) = Inr d' \<and> details_ok l d'"
proof -
  let ?d = "\<lambda>w. d\<lparr>layers := (layers d)(unat (layersCnt d) := w), layersCnt := layersCnt d + 1\<rparr>"
  have lay: "layers_ok d" using assms(2) by (simp add: adding_ok_def)
  have sum: "unat (layersCnt d) = unat (layers2Cnt d) + unat (layers3Cnt d) + unat (layers4Cnt d)"
    and le: "layers2Cnt d \<le> layers2Max l" "layers3Cnt d \<le> layers3Max l" "layers4Cnt d \<le> layers4Max l"
    using assms(2) by (auto simp: adding_ok_def counts_ok_def)
  have ip: "lastIpLayer d = 0xFF \<or> lastIpLayer d < layersCnt d + 1"
    if "unat (layersCnt d + 1) = unat (layersCnt d) + 1"
    using assms(2) that by (auto simp: adding_ok_def word_less_nat_alt word_le_nat_alt)
  { assume less: "layers2Cnt d < layers2Max l"
    then have room: "unat (layersCnt d) < layers_room"
      using adding_ok_room [OF assms(1,2)] by blast
    obtain w where w: "add_layer t off mix d = Inr (?d w)" "layers_ok (?d w)"
      "unat (layersCnt d + 1) = unat (layersCnt d) + 1"
      by (rule add_layer_ok [OF lay room assms(3,4,5), of mix])
    have "counts_ok l (count2 (?d w))"
      unfolding counts_ok_def
    proof (intro conjI)
      show "unat (layersCnt (count2 (?d w))) = unat (layers2Cnt (count2 (?d w))) +
          unat (layers3Cnt (count2 (?d w))) + unat (layers4Cnt (count2 (?d w)))"
        using sum w(3) u8_unat_add1 [OF less] by (simp only: count2_def) simp
      show "lastIpLayer (count2 (?d w)) = 0xFF \<or> lastIpLayer (count2 (?d w)) < layersCnt (count2 (?d w))"
        using ip [OF w(3)] by (simp only: count2_def) simp
    qed (use le u8_less_add1 [OF less] in \<open>simp_all only: count2_def, simp_all\<close>)
    moreover have "layers_ok (count2 (?d w))" using w(2) by (simp add: layers_ok_def count2_def)
    ultimately show "\<exists>d'. rbind (add_layer t off mix d) (\<lambda>d. Inr (count2 d)) = Inr d' \<and> details_ok l d'"
      by (simp add: w(1) details_ok_def) }
  { assume less: "layers3Cnt d < layers3Max l"
    then have room: "unat (layersCnt d) < layers_room"
      using adding_ok_room [OF assms(1,2)] by blast
    obtain w where w: "add_layer t off mix d = Inr (?d w)" "layers_ok (?d w)"
      "unat (layersCnt d + 1) = unat (layersCnt d) + 1"
      by (rule add_layer_ok [OF lay room assms(3,4,5), of mix])
    have "counts_ok l (count3 (?d w))"
      unfolding counts_ok_def
    proof (intro conjI)
      show "unat (layersCnt (count3 (?d w))) = unat (layers2Cnt (count3 (?d w))) +
          unat (layers3Cnt (count3 (?d w))) + unat (layers4Cnt (count3 (?d w)))"
        using sum w(3) u8_unat_add1 [OF less] by (simp only: count3_def) simp
      show "lastIpLayer (count3 (?d w)) = 0xFF \<or> lastIpLayer (count3 (?d w)) < layersCnt (count3 (?d w))"
        using ip [OF w(3)] by (simp only: count3_def) simp
    qed (use le u8_less_add1 [OF less] in \<open>simp_all only: count3_def, simp_all\<close>)
    moreover have "layers_ok (count3 (?d w))" using w(2) by (simp add: layers_ok_def count3_def)
    ultimately show "\<exists>d'. rbind (add_layer t off mix d) (\<lambda>d. Inr (count3 d)) = Inr d' \<and> details_ok l d'"
      by (simp add: w(1) details_ok_def) }
  { assume less: "layers4Cnt d < layers4Max l"
    then have room: "unat (layersCnt d) < layers_room"
      using adding_ok_room [OF assms(1,2)] by blast
    obtain w where w: "add_layer t off mix d = Inr (?d w)" "layers_ok (?d w)"
      "unat (layersCnt d + 1) = unat (layersCnt d) + 1"
      by (rule add_layer_ok [OF lay room assms(3,4,5), of mix])
    have "counts_ok l (count4 (?d w))"
      unfolding counts_ok_def
    proof (intro conjI)
      show "unat (layersCnt (count4 (?d w))) = unat (layers2Cnt (count4 (?d w))) +
          unat (layers3Cnt (count4 (?d w))) + unat (layers4Cnt (count4 (?d w)))"
        using sum w(3) u8_unat_add1 [OF less] by (simp only: count4_def) simp
      show "lastIpLayer (count4 (?d w)) = 0xFF \<or> lastIpLayer (count4 (?d w)) < layersCnt (count4 (?d w))"
        using ip [OF w(3)] by (simp only: count4_def) simp
    qed (use le u8_less_add1 [OF less] in \<open>simp_all only: count4_def, simp_all\<close>)
    moreover have "layers_ok (count4 (?d w))" using w(2) by (simp add: layers_ok_def count4_def)
    ultimately show "\<exists>d'. rbind (add_layer t off mix d) (\<lambda>d. Inr (count4 d)) = Inr d' \<and> details_ok l d'"
      by (simp add: w(1) details_ok_def) }
qed

lemma replace_counted:
  assumes "details_ok l d" and "0 < layersCnt d" and "off \<le> 0x3FFF" and "t \<noteq> TBidir" and "t \<noteq> TMaxValue"
  shows "\<exists>d'. rbind (replace_last t off d) (\<lambda>d. Inr (d\<lparr>more3Layers := True\<rparr>)) = Inr d' \<and> details_ok l d'"
    and "\<exists>d'. rbind (replace_last t off d) (\<lambda>d. Inr (d\<lparr>more4Layers := True\<rparr>)) = Inr d' \<and> details_ok l d'"
proof -
  have "layers_ok d" using assms(1) by (simp add: details_ok_def)
  then obtain w where w: "replace_last t off d = Inr (d\<lparr>layers := (layers d)(unat (layersCnt d) - 1 := w)\<rparr>)"
    "layers_ok (d\<lparr>layers := (layers d)(unat (layersCnt d) - 1 := w)\<rparr>)"
    using assms(2-5) by (rule replace_last_ok)
  with assms(1)
  show "\<exists>d'. rbind (replace_last t off d) (\<lambda>d. Inr (d\<lparr>more3Layers := True\<rparr>)) = Inr d' \<and> details_ok l d'"
    and "\<exists>d'. rbind (replace_last t off d) (\<lambda>d. Inr (d\<lparr>more4Layers := True\<rparr>)) = Inr d' \<and> details_ok l d'"
    by (simp_all add: details_ok_def counts_ok_def layers_ok_def)
qed

text \<open>Fields the invariant does not look at.\<close>

lemma details_ok_other [simp]:
  "details_ok l (add_hash h d) = details_ok l d"
  "details_ok l (d\<lparr>lastMtpLayer := x\<rparr>) = details_ok l d"
  "details_ok l (d\<lparr>lastM3uaLayer := x\<rparr>) = details_ok l d"
  "details_ok l (d\<lparr>more2Layers := b\<rparr>) = details_ok l d"
  by (simp_all add: details_ok_def layers_ok_def counts_ok_def add_hash_def)

lemma add_hash_fields [simp]:
  "layersCnt (add_hash h d) = layersCnt d" "layers2Cnt (add_hash h d) = layers2Cnt d"
  "layers3Cnt (add_hash h d) = layers3Cnt d" "layers4Cnt (add_hash h d) = layers4Cnt d"
  by (simp_all add: add_hash_def)

lemma details_adding:
  assumes "details_ok l d"
  shows "adding_ok l d" and "adding_ok l (d\<lparr>lastIpLayer := layersCnt d\<rparr>)"
  using assms by (auto simp: details_ok_def adding_ok_def layers_ok_def counts_ok_def)

lemma details_counts:
  assumes "details_ok l d"
  shows "layers2Cnt d \<noteq> layers2Max l \<Longrightarrow> layers2Cnt d < layers2Max l"
    and "layers3Cnt d \<noteq> layers3Max l \<Longrightarrow> layers3Cnt d < layers3Max l"
    and "layers4Cnt d \<noteq> layers4Max l \<Longrightarrow> layers4Cnt d < layers4Max l"
  using assms by (auto simp: details_ok_def counts_ok_def)

lemma full_nonempty:
  assumes "limits_ok l" and "details_ok l d" and "layers3Cnt d = layers3Max l \<or> layers4Cnt d = layers4Max l"
  shows "0 < layersCnt d"
  using assms by (auto simp: limits_ok_def details_ok_def counts_ok_def word_less_nat_alt)

lemma push_ports_ok:
  assumes "limits_ok l" and "details_ok l d" and "p \<le> 0x3FF0" and "t \<noteq> TBidir" and "t \<noteq> TMaxValue"
  shows "\<exists>d'. push_ports t l m p d = Inr d' \<and> details_ok l d'"
proof -
  let ?h = "add_hash (ucast (ld16 m (p + 2))) (add_hash (ucast (ld16 m p)) d)"
  have ok: "details_ok l ?h" using assms(2) by simp
  have off: "(word_of_nat p :: u16) \<le> 0x3FFF" using assms(3) by (intro near_offset) simp
  show ?thesis
  proof (cases "layers4Cnt d = layers4Max l")
    case True
    then have "0 < layersCnt ?h" using full_nonempty [OF assms(1,2)] by simp
    from replace_counted(2) [OF ok this off assms(4,5)] True show ?thesis
      by (simp add: push_ports_def)
  next
    case False
    then have "layers4Cnt ?h < layers4Max l" using details_counts(3) [OF assms(2)] by simp
    from add_counted(3) [OF assms(1) details_adding(1) [OF ok] off assms(4,5) this] False
    show ?thesis by (simp add: push_ports_def)
  qed
qed

lemma push_layer2_ok:
  assumes "limits_ok l" and "details_ok l d" and "details_ok l d0" and "layers2Cnt d0 = layers2Cnt d"
    and "n \<le> 0x3FFF" and "t \<noteq> TBidir" and "t \<noteq> TMaxValue"
  shows "\<exists>d'. (if layers2Cnt d \<noteq> layers2Max l
      then rbind (add_layer t (word_of_nat n) mix d0) (\<lambda>d. Inr (count2 d))
      else Inr (d\<lparr>more2Layers := True\<rparr>)) = Inr d' \<and> details_ok l d'"
proof (cases "layers2Cnt d = layers2Max l")
  case True
  with assms(2) show ?thesis by simp
next
  case False
  then have "layers2Cnt d0 < layers2Max l" using details_counts(1) [OF assms(2)] assms(4) by simp
  from add_counted(1) [OF assms(1) details_adding(1) [OF assms(3)] near_offset [OF assms(5)] assms(6,7) this] False
  show ?thesis by simp
qed

lemma push_mtp_ok:
  assumes "limits_ok l" and "details_ok l d" and "n \<le> 0x3FFF" and "t \<noteq> TBidir" and "t \<noteq> TMaxValue"
  shows "\<exists>d'. (if layers3Cnt d \<noteq> layers3Max l
      then rbind (add_layer t (word_of_nat n) mix d) (\<lambda>d. Inr (count3 d))
      else rbind (replace_last t (word_of_nat n) d) (\<lambda>d. Inr (d\<lparr>more3Layers := True\<rparr>))) = Inr d' \<and> details_ok l d'"
proof (cases "layers3Cnt d = layers3Max l")
  case True
  then have "0 < layersCnt d" using full_nonempty [OF assms(1,2)] by simp
  from replace_counted(1) [OF assms(2) this near_offset [OF assms(3)] assms(4,5)] True show ?thesis by simp
next
  case False
  then have "layers3Cnt d < layers3Max l" using details_counts(2) [OF assms(2)] by simp
  from add_counted(2) [OF assms(1) details_adding(1) [OF assms(2)] near_offset [OF assms(3)] assms(4,5) this] False
  show ?thesis by simp
qed

lemma pushIp4_ok:
  assumes "limits_ok l" and "details_ok l d" and "p \<le> 0x3FF0"
  shows "\<exists>d'. pushIp4 l m p mix d = Inr d' \<and> details_ok l d'"
proof (cases "layers3Cnt d = layers3Max l")
  case True
  let ?d = "add_hash (ucast (ld32 m (p + 16))) (add_hash (ucast (ld32 m (p + 12))) d)"
  have "details_ok l ?d" using assms(2) by simp
  from push_mtp_ok [OF assms(1) this, of "p + 12" TIp4] assms(3) True show ?thesis
    by (simp add: pushIp4_def Let_def)
next
  case False
  define d0 where "d0 = (if mix then d else add_hash (ucast (ld32 m (p + 16))) (add_hash (ucast (ld32 m (p + 12))) d))"
  have d0: "details_ok l d0" and c: "layers3Cnt d0 = layers3Cnt d"
    using assms(2) by (simp_all add: d0_def)
  have less: "layers3Cnt (d0\<lparr>lastIpLayer := layersCnt d0\<rparr>) < layers3Max l"
    using details_counts(2) [OF assms(2)] False c by simp
  have "(word_of_nat (p + 12) :: u16) \<le> 0x3FFF" using assms(3) by (intro near_offset) simp
  from add_counted(2) [OF assms(1) details_adding(2) [OF d0] this _ _ less, of TIp4 mix]
  have "\<exists>d'. rbind (add_layer TIp4 (word_of_nat (p + 12)) mix (d0\<lparr>lastIpLayer := layersCnt d0\<rparr>))
      (\<lambda>d. Inr (count3 d)) = Inr d' \<and> details_ok l d'" by simp
  moreover have "pushIp4 l m p mix d = rbind (add_layer TIp4 (word_of_nat (p + 12)) mix
      (d0\<lparr>lastIpLayer := layersCnt d0\<rparr>)) (\<lambda>d. Inr (count3 d))"
    using False by (simp add: pushIp4_def Let_def d0_def)
  ultimately show ?thesis by simp
qed

lemma pushIsup_ok:
  assumes "limits_ok l" and "details_ok l d" and "p \<le> 0x3FF0"
  shows "\<exists>d'. pushIsup l m p d = Inr d' \<and> details_ok l d'"
proof -
  let ?h = "add_hash (ucast (cic_cic (ld16 m p))) d"
  have ok: "details_ok l ?h" using assms(2) by simp
  have off: "(word_of_nat p :: u16) \<le> 0x3FFF" using assms(3) by (intro near_offset) simp
  show ?thesis
  proof (cases "layers4Cnt d = layers4Max l")
    case True
    then have "0 < layersCnt ?h" using full_nonempty [OF assms(1,2)] by simp
    from replace_counted(2) [OF ok this off, of TIsup] True show ?thesis by (simp add: pushIsup_def)
  next
    case False
    then have "layers4Cnt ?h < layers4Max l" using details_counts(3) [OF assms(2)] by simp
    from add_counted(3) [OF assms(1) details_adding(1) [OF ok] off _ _ this, of TIsup False] False
    show ?thesis by (simp add: pushIsup_def)
  qed
qed

lemma pushM3ua_ok:
  assumes "limits_ok l" and "details_ok l d" and "p + unat off \<le> 0x3FFF"
  shows "\<exists>d'. pushM3ua l m p b off d = Inr d' \<and> details_ok l d'"
proof -
  define d0 where "d0 = (if off \<noteq> 0
    then add_hash (ucast (ld32 m (b + unat off + 4))) (add_hash (ucast (ld32 m (b + unat off))) (d\<lparr>lastM3uaLayer := layersCnt d\<rparr>))
    else d\<lparr>lastM3uaLayer := layersCnt d\<rparr>)"
  have ok: "details_ok l d0" and c: "layers4Cnt d0 = layers4Cnt d"
    using assms(2) by (simp_all add: d0_def)
  have eq: "pushM3ua l m p b off d = (if layers4Cnt d0 \<noteq> layers4Max l
    then rbind (add_layer TM3ua (word_of_nat (p + unat off)) False d0) (\<lambda>d. Inr (count4 d)) else Inr d0)"
    by (simp add: pushM3ua_def Let_def d0_def)
  show ?thesis
  proof (cases "layers4Cnt d0 = layers4Max l")
    case True
    with ok eq show ?thesis by simp
  next
    case False
    then have "layers4Cnt d0 < layers4Max l" using details_counts(3) [OF ok] by simp
    from add_counted(3) [OF assms(1) details_adding(1) [OF ok] near_offset [OF assms(3)] _ _ this, of TM3ua False]
    show ?thesis using False by (simp add: eq)
  qed
qed

lemma do_push_ok:
  assumes "limits_ok l" and "details_ok l d" and "counted p"
  shows "\<exists>d'. do_push l m p d = Inr d' \<and> details_ok l d'"
proof (cases p)
  case (PEth q mix)
  let ?d = "if mix then d else add_hash (mac_hash m q) (add_hash (mac_hash m (q + 6)) d)"
  from push_layer2_ok [OF assms(1,2), of ?d "q + 6" TEth mix] assms(2,3) PEth
  show ?thesis
    by (cases mix; cases "layers2Cnt d = layers2Max l") (simp_all add: pushEth_def Let_def)
next
  case (PVlan q mix)
  let ?d = "if mix then d else add_hash (ucast (ld16 m q)) (add_hash (ucast (ld16 m q)) d)"
  from push_layer2_ok [OF assms(1,2), of ?d q TVlan mix] assms(2,3) PVlan
  show ?thesis
    by (cases mix; cases "layers2Cnt d = layers2Max l") (simp_all add: pushVlan_def Let_def)
next
  case (PMpls q mix)
  let ?d = "if mix then d else add_hash (ucast (mpls_label (ld32 m q))) (add_hash (ucast (mpls_label (ld32 m q))) d)"
  from push_layer2_ok [OF assms(1,2), of ?d q TMpls mix] assms(2,3) PMpls
  show ?thesis
    by (cases mix; cases "layers2Cnt d = layers2Max l") (simp_all add: pushMpls_def Let_def)
next
  case (PMtp q)
  let ?d = "add_hash (ucast (rl_dpc (ld32 m (q + 4)))) (add_hash (ucast (rl_opc (ld32 m (q + 4)))) d)"
  from push_mtp_ok [OF assms(1), of "?d\<lparr>lastMtpLayer := layersCnt ?d\<rparr>" "q + 4" TMtp False] assms(2,3) PMtp
  show ?thesis
    by (cases "layers3Cnt d = layers3Max l") (simp_all add: pushMtp_def Let_def)
next
  case (PMtp3 q)
  let ?d = "add_hash (ucast (rl_dpc (ld32 m (q + 1)))) (add_hash (ucast (rl_opc (ld32 m (q + 1)))) d)"
  from push_mtp_ok [OF assms(1), of "?d\<lparr>lastMtpLayer := layersCnt ?d\<rparr>" "q + 1" TMtp3 False] assms(2,3) PMtp3
  show ?thesis
    by (cases "layers3Cnt d = layers3Max l") (simp_all add: pushMtp3_def Let_def)
qed (use assms pushIp4_ok [OF assms(1,2)] pushIsup_ok [OF assms(1,2)] pushM3ua_ok [OF assms(1,2)]
  push_ports_ok [OF assms(1,2)] in \<open>simp_all add: pushTcp_def pushUdp_def pushSctp_def\<close>)

lemma push_all_ok:
  assumes "limits_ok l" and "list_all counted ps" and "details_ok l d"
  shows "\<exists>d'. push_all l m ps d = Inr d' \<and> details_ok l d'"
  using assms(2,3)
proof (induction ps arbitrary: d)
  case (Cons p ps)
  with do_push_ok [OF assms(1), of d p m] obtain d' where "do_push l m p d = Inr d'" "details_ok l d'"
    by auto
  with Cons show ?case by simp
qed simp

lemma readable_types:
  assumes "readable w"
  shows "\<exists>n k. getTypeLength (ao_getType w) = Inr n \<and> getTypeMask (ao_getType w) = Inr k \<and>
    (k = 0 \<or> k = 0xFF \<or> k = 0x3FFF)"
  using assms by (cases "ao_getType w") (auto simp: readable_def)

lemma unsetMix_type: "ao_getType (ao_unsetMix w) = ao_getType w"
proof -
  have "ao_unsetMix w AND 0xF = w AND 0xF"
    by (rule bit_word_eqI) (auto simp: ao_unsetMix_def bit_simps numeral_eq_Suc less_Suc_eq)
  then show ?thesis by (simp add: ao_getType_def)
qed

lemma details_count:
  assumes "details_ok l d"
  obtains d' where "getLayersCnt l d = Inr (layersCnt d, d')" and "details_ok l d'"
    and "layersCnt d' = layersCnt d"
proof -
  from assms have sum: "unat (layersCnt d) = unat (layers2Cnt d) + unat (layers3Cnt d) + unat (layers4Cnt d)"
    and max: "layers2Cnt d \<le> layers2Max l \<and> layers3Cnt d \<le> layers3Max l \<and> layers4Cnt d \<le> layers4Max l"
    and ip: "lastIpLayer d = 0xFF \<or> lastIpLayer d < layersCnt d"
    and room: "unat (layersCnt d) \<le> layers_room"
    by (simp_all add: details_ok_def counts_ok_def layers_ok_def)
  have cnt: "layers2Cnt d + layers3Cnt d + layers4Cnt d = layersCnt d"
  proof -
    have "layersCnt d = word_of_nat (unat (layersCnt d))" by simp
    also have "\<dots> = word_of_nat (unat (layers2Cnt d) + unat (layers3Cnt d) + unat (layers4Cnt d))"
      by (simp only: sum)
    finally show ?thesis by simp
  qed
  show ?thesis
  proof (cases "lastIpLayer d = 0xFF")
    case True
    with max cnt assms show ?thesis by (intro that [of d]) (simp_all add: getLayersCnt_def)
  next
    case False
    let ?i = "unat (lastIpLayer d)"
    have i: "?i < layers_room" using False ip room by (auto simp: word_less_nat_alt)
    show ?thesis
    proof (rule that [of "d\<lparr>layers := (layers d)(?i := ao_unsetMix (layers d ?i))\<rparr>"])
      show "details_ok l (d\<lparr>layers := (layers d)(?i := ao_unsetMix (layers d ?i))\<rparr>)"
        using assms by (auto simp: details_ok_def counts_ok_def layers_ok_def readable_def unsetMix_type)
    qed (use max cnt i False in \<open>simp_all add: getLayersCnt_def get_layer_def put_layer_def\<close>)
  qed
qed

lemma details_layer:
  assumes "details_ok l d" and "i < unat (layersCnt d)"
  obtains la where "getLayerAddr d i = Inr la" and "la_len la = 1 \<or> even (la_len la)"
    and "la_mask la = 0 \<or> la_mask la = 0xFF \<or> la_mask la = 0x3FFF"
proof -
  from assms have "readable (layers d i)" and "i < layers_room"
    and "i < unat (layers2Cnt d) + unat (layers3Cnt d) + unat (layers4Cnt d)"
    by (simp_all add: details_ok_def counts_ok_def layers_ok_def)
  moreover from this(1) obtain n k where "getTypeLength (ao_getType (layers d i)) = Inr n"
    "getTypeMask (ao_getType (layers d i)) = Inr k" "k = 0 \<or> k = 0xFF \<or> k = 0x3FFF"
    using readable_types by blast
  ultimately obtain la where la: "getLayerAddr d i = Inr la" "la_mask la = k"
    by (simp add: getLayerAddr_def get_layer_def)
  show ?thesis
  proof (rule that [OF la(1)])
    show "la_len la = 1 \<or> even (la_len la)" using getLayerAddr_len [OF la(1)] by auto
    show "la_mask la = 0 \<or> la_mask la = 0xFF \<or> la_mask la = 0x3FFF" using la(2) \<open>k = 0 \<or> _\<close> by simp
  qed
qed

lemma masked_defined:
  assumes "msk = 0xFF \<or> msk = 0x3FFF"
  obtains x y where "masked_addrs m p msk = Inr (x, y)"
proof -
  have "bitScanReverse 0xFF = Inr 8" "bitScanReverse 0x3FFF = Inr 14" by code_simp+
  with assms obtain e where "bitScanReverse msk = Inr e" "e \<noteq> 32" by auto
  then show ?thesis by (intro that) (simp add: masked_addrs_def Let_def)
qed

lemma layer_defined:
  assumes "la_len la = 1 \<or> even (la_len la)" and "la_mask la = 0 \<or> la_mask la = 0xFF \<or> la_mask la = 0x3FFF"
  shows "\<exists>r. layer_order m la = Inr r" and "\<exists>bs. layer_key m la side = Inr bs"
proof -
  show "\<exists>r. layer_order m la = Inr r"
  proof (cases "la_mask la = 0")
    case False
    with assms(2) obtain x y where "masked_addrs m (la_off la) (la_mask la) = Inr (x, y)"
      by (auto intro: masked_defined)
    with False show ?thesis by (simp add: layer_order_def)
  qed (use assms(1) in \<open>simp add: layer_order_def Let_def rassert_def\<close>)
  show "\<exists>bs. layer_key m la side = Inr bs"
  proof (cases "la_mask la = 0")
    case False
    with assms(2) obtain x y where "masked_addrs m (la_off la) (la_mask la) = Inr (x, y)"
      by (auto intro: masked_defined)
    with False show ?thesis by (simp add: layer_key_def Let_def)
  qed (use assms(1) in \<open>simp add: layer_key_def Let_def rassert_def\<close>)
qed

lemma loops_defined:
  assumes "details_ok l d"
  shows "i \<le> unat (layersCnt d) \<Longrightarrow> \<exists>s. src_lower_loop m d i pos = Inr s"
    and "i \<le> unat (layersCnt d) \<Longrightarrow> \<exists>r. fill_loop m d side i pos a = Inr r"
proof (induction i arbitrary: pos a)
  case (Suc i)
  {
    case 1
    then obtain la where "getLayerAddr d i = Inr la" "\<exists>r. layer_order m la = Inr r"
      using details_layer [OF assms, of i] layer_defined(1) by (metis Suc_le_lessD)
    with Suc.IH(1) 1 show ?case by (auto simp: Suc_leD)
  next
    case 2
    then obtain la where "getLayerAddr d i = Inr la" "\<exists>bs. layer_key m la side = Inr bs"
      using details_layer [OF assms, of i] layer_defined(2) by (metis Suc_le_lessD)
    with Suc.IH(2) 2 show ?case by (auto simp: Suc_leD)
  }
qed auto

text \<open>Counted pushes never leave the reserve: when the three maxima fit the 23 entries behind the
  packet and are not 0 for layers 3 and 4, any sequence of pushes that count themselves succeeds on a
  fresh record, \<^verbatim>\<open>getLayersCnt\<close> agrees with the number of entries written, and computing the
  direction and the key of the packet never meets a failing assertion or a read beyond the entries.\<close>

theorem counted_pushes_safe:
  assumes "limits_ok l" and "list_all counted ps"
  shows "\<exists>d d' s r. push_all l m ps (pd_init d0) = Inr d \<and> getLayersCnt l d = Inr (layersCnt d, d') \<and>
    isSrcLowerAddr l m d = Inr (s, d') \<and> fillAddresses l m d s a = Inr r"
proof -
  have "details_ok l (pd_init d0)"
    by (simp add: details_ok_def layers_ok_def counts_ok_def pd_init_def)
  from push_all_ok [OF assms this] obtain d where d: "push_all l m ps (pd_init d0) = Inr d" "details_ok l d"
    by blast
  from details_count [OF d(2)] obtain d' where d': "getLayersCnt l d = Inr (layersCnt d, d')"
    "details_ok l d'" "layersCnt d' = layersCnt d" .
  from loops_defined(1) [OF d'(2)] d'(3) obtain s where "src_lower_loop m d' (unat (layersCnt d)) 0 = Inr s"
    by fastforce
  then have s: "isSrcLowerAddr l m d = Inr (s, d')" by (simp add: isSrcLowerAddr_def d'(1))
  from loops_defined(2) [OF d'(2)] d'(3) obtain n b where "fill_loop m d' s (unat (layersCnt d)) 0 a = Inr (n, b)"
    by fastforce
  then have "\<exists>r. fillAddresses l m d s a = Inr r" by (simp add: fillAddresses_def d'(1))
  with d(1) d'(1) s show ?thesis by blast
qed

theorem counted_pushes_safe_witness:
  "\<exists>d d' s r. push_all demo_limits demo_packet [PEth 0 True, PIp4 14 False, PTcp 34, PTcp 54, PTcp 74] (pd_init demo_details) = Inr d \<and>
    getLayersCnt demo_limits d = Inr (layersCnt d, d') \<and> isSrcLowerAddr demo_limits demo_packet d = Inr (s, d') \<and>
    fillAddresses demo_limits demo_packet d s (\<lambda>_. 0) = Inr r"
proof (rule counted_pushes_safe)
  show "limits_ok demo_limits" by code_simp
qed simp

lemma chunk_step:
  assumes "layers4Cnt d \<noteq> layers4Max l" and "p \<le> 0x3FFF"
  shows "unat (layersCnt d) < layers_room \<Longrightarrow> \<exists>d'. do_push l m (PSctpChunk p) d = Inr d' \<and>
      layers4Cnt d' = layers4Cnt d \<and> unat (layersCnt d') = Suc (unat (layersCnt d))"
    and "layers_room \<le> unat (layersCnt d) \<Longrightarrow> do_push l m (PSctpChunk p) d = Inl OutOfBounds"
proof -
  from near_offset [OF assms(2)] obtain w where w: "ao_set TSctpChunk (word_of_nat p) False = Inr w"
    by (simp add: ao_set_def)
  show "\<exists>d'. do_push l m (PSctpChunk p) d = Inr d' \<and> layers4Cnt d' = layers4Cnt d \<and>
      unat (layersCnt d') = Suc (unat (layersCnt d))" if "unat (layersCnt d) < layers_room"
    using that assms(1) by (simp add: pushSctpChunk_def add_layer_def w put_layer_def unat_word_ariths layers_room_def)
  show "do_push l m (PSctpChunk p) d = Inl OutOfBounds" if "layers_room \<le> unat (layersCnt d)"
    using that assms(1) by (simp add: pushSctpChunk_def add_layer_def w put_layer_def)
qed

text \<open>Chunk layers are recorded and never counted: while the limit on fourth layers is not reached,
  exactly as many SCTP chunks as fill the reserve are recorded, and the next chunk of the packet writes
  past it, however low the configured limits are.\<close>

theorem chunks_overrun_reserve:
  assumes "layers4Cnt d \<noteq> layers4Max l" and "p \<le> 0x3FFF" and "unat (layersCnt d) + n = layers_room"
  shows "(\<exists>d'. push_all l m (replicate n (PSctpChunk p)) d = Inr d' \<and>
      layers4Cnt d' = layers4Cnt d \<and> unat (layersCnt d') = layers_room) \<and>
    push_all l m (replicate (Suc n) (PSctpChunk p)) d = Inl OutOfBounds"
  using assms(1,3)
proof (induction n arbitrary: d)
  case 0
  then show ?case using chunk_step(2) [OF 0(1) assms(2)] by simp
next
  case (Suc n)
  from chunk_step(1) [OF Suc.prems(1) assms(2), of m] Suc.prems(2)
  obtain d1 where d1: "do_push l m (PSctpChunk p) d = Inr d1" "layers4Cnt d1 = layers4Cnt d"
    "unat (layersCnt d1) = Suc (unat (layersCnt d))" by auto
  from Suc.IH [of d1] d1(2,3) Suc.prems show ?case
    by (simp add: d1(1) del: do_push.simps)
qed

theorem chunks_overrun_reserve_witness:
  "push_all demo_limits demo_packet (replicate 24 (PSctpChunk 46)) demo_details = Inl OutOfBounds"
proof -
  have "layers4Cnt demo_details \<noteq> layers4Max demo_limits" "unat (layersCnt demo_details) + 23 = layers_room"
    by (simp_all add: demo_details_def demo_limits_def configure_def layers_room_def)
  from chunks_overrun_reserve [OF this(1) _ this(2), of 46 demo_packet]
  have "push_all demo_limits demo_packet (replicate (Suc 23) (PSctpChunk 46)) demo_details = Inl OutOfBounds"
    by (auto simp del: replicate_Suc)
  moreover have "Suc 23 = 24" by simp
  ultimately show ?thesis by (simp only:)
qed

text \<open>The key of a packet after a sequence of pushes, filled in its own direction.\<close>

definition key_of :: "limits \<Rightarrow> mem \<Rightarrow> push list \<Rightarrow> u8 list res" where
  "key_of l m ps = rbind (push_all l m ps (pd_init demo_details)) (\<lambda>d. rbind (isSrcLowerAddr l m d) (\<lambda>(s, d).
     rbind (fillAddresses l m d s (\<lambda>_. 0)) (\<lambda>(n, a, _). Inr (slice a 0 (unat n)))))"

text \<open>An uncounted chunk makes the key lose the innermost layer: for an ISUP message inside MTP3, M3UA
  and SCTP, the circuit code at 90 reaches the key if the chunk is not recorded, and is
  missing from it, so that all circuits share one key, if it is.\<close>

theorem chunk_hides_circuit:
  "key_of (configure 1 2 3) demo_packet [PIp4 14 False, PSctp 34, PM3ua 62 62 0, PMtp3 80, PIsup 90] =
     Inr [90, 77, 17, 81, 18, 36, 37, 34, 35, 30, 31, 32, 33, 26, 27, 28, 29] \<and>
   key_of (configure 1 2 3) demo_packet [PIp4 14 False, PSctp 34, PSctpChunk 46, PM3ua 62 62 0, PMtp3 80, PIsup 90] =
     key_of (configure 1 2 3) (demo_packet(90 := 7)) [PIp4 14 False, PSctp 34, PSctpChunk 46, PM3ua 62 62 0, PMtp3 80, PIsup 90] \<and>
   key_of (configure 1 2 3) demo_packet [PIp4 14 False, PSctp 34, PM3ua 62 62 0, PMtp3 80, PIsup 90] \<noteq>
     key_of (configure 1 2 3) (demo_packet(90 := 7)) [PIp4 14 False, PSctp 34, PM3ua 62 62 0, PMtp3 80, PIsup 90]"
  by code_simp

text \<open>Once the limit on third layers is reached, a further MTP header makes the routing label
  unreadable: \<^verbatim>\<open>pushMtp\<close> replaces the last entry and succeeds, but it has set
  \<^verbatim>\<open>lastMtpLayer\<close> one past it, so \<^verbatim>\<open>getRl\<close> then fails its assertion.\<close>

theorem mtp_overflow_unreadable:
  assumes "limits_ok l" and "details_ok l d" and "layers3Cnt d = layers3Max l" and "p \<le> 0x3FF0"
  shows "\<exists>d'. pushMtp l m p d = Inr d' \<and> getRl d' t = Inl AssertFail"
proof -
  let ?d = "(add_hash (ucast (rl_dpc (ld32 m (p + 4)))) (add_hash (ucast (rl_opc (ld32 m (p + 4)))) d))
    \<lparr>lastMtpLayer := layersCnt d\<rparr>"
  have ok: "details_ok l ?d" using assms(2) by simp
  have ne: "0 < layersCnt ?d" using full_nonempty [OF assms(1,2)] assms(3) by simp
  have lay: "layers_ok ?d" using ok by (simp add: details_ok_def)
  have near: "(word_of_nat (p + 4) :: u16) \<le> 0x3FFF" using assms(4) by (intro near_offset) simp
  obtain w where w: "replace_last TMtp (word_of_nat (p + 4)) ?d =
      Inr (?d\<lparr>layers := (layers ?d)(unat (layersCnt ?d) - 1 := w)\<rparr>)"
    using replace_last_ok [OF lay ne near, of TMtp] by blast
  from assms(2) have "unat (layersCnt d) = unat (layers2Cnt d) + unat (layers3Cnt d) + unat (layers4Cnt d)"
    and "unat (layersCnt d) \<le> layers_room"
    by (simp_all add: details_ok_def counts_ok_def layers_ok_def)
  moreover from this(2) have "layersCnt d \<noteq> 0xFF" by (auto simp: layers_room_def)
  moreover have "pushMtp l m p d = Inr (?d\<lparr>layers := (layers ?d)(unat (layersCnt ?d) - 1 := w), more3Layers := True\<rparr>)"
    using w assms(3) by (simp add: pushMtp_def Let_def)
  ultimately show ?thesis by (simp add: getRl_def getLayerAddr_def rassert_def add_hash_def)
qed

theorem mtp_overflow_unreadable_witness:
  "\<exists>d'. pushMtp (configure 2 1 2) demo_packet 40 demo_tcp = Inr d' \<and> getRl d' TMtp = Inl AssertFail"
proof (rule mtp_overflow_unreadable)
  show "limits_ok (configure 2 1 2)" by code_simp
  show "details_ok (configure 2 1 2) demo_tcp"
  proof -
    have "readable (layers demo_tcp 0)" "readable (layers demo_tcp 1)" by code_simp+
    moreover have "unat (layersCnt demo_tcp) = 2" by code_simp
    ultimately have "layers_ok demo_tcp"
      by (auto simp: layers_ok_def layers_room_def dest!: less_2_cases)
    moreover have "counts_ok (configure 2 1 2) demo_tcp" by code_simp
    ultimately show ?thesis by (simp add: details_ok_def)
  qed
qed code_simp+

subsection \<open>Printing\<close>

text \<open>The four numbers of a dotted address are the four bytes in memory, the port the two bytes in
  network order.\<close>

lemma ld32_bytes:
  "unat (ld32 m a AND 0xFF) = unat (m a)"
  "unat (drop_bit 8 (ld32 m a AND 0xFF00)) = unat (m (a + 1))"
  "unat (drop_bit 16 (ld32 m a AND 0xFF0000)) = unat (m (a + 2))"
  "unat (drop_bit 24 (ld32 m a AND 0xFF000000)) = unat (m (a + 3))"
proof -
  have eq: "0xFF = (mask 8 :: u32)" "0xFF00 = push_bit 8 (mask 8 :: u32)"
    "0xFF0000 = push_bit 16 (mask 8 :: u32)" "0xFF000000 = push_bit 24 (mask 8 :: u32)"
    by (simp_all add: mask_eq_exp_minus_1 push_bit_eq_mult)
  have "ld32 m a AND 0xFF = ucast (m a)" unfolding eq
    by (rule bit_word_eqI) (auto simp: ld32_def ld16_def bit_simps dest: bit_imp_le_length)
  then show "unat (ld32 m a AND 0xFF) = unat (m a)" by (simp only: unat_ucast_u8)
  have "drop_bit 8 (ld32 m a AND 0xFF00) = ucast (m (a + 1))" unfolding eq
    by (rule bit_word_eqI) (auto simp: ld32_def ld16_def bit_simps dest: bit_imp_le_length)
  then show "unat (drop_bit 8 (ld32 m a AND 0xFF00)) = unat (m (a + 1))" by (simp only: unat_ucast_u8)
  have "drop_bit 16 (ld32 m a AND 0xFF0000) = ucast (m (a + 2))" unfolding eq
    by (rule bit_word_eqI) (auto simp: ld32_def ld16_def bit_simps dest: bit_imp_le_length)
  then show "unat (drop_bit 16 (ld32 m a AND 0xFF0000)) = unat (m (a + 2))" by (simp only: unat_ucast_u8)
  have "drop_bit 24 (ld32 m a AND 0xFF000000) = ucast (m (a + 3))" unfolding eq
    by (rule bit_word_eqI) (auto simp: ld32_def ld16_def bit_simps numeral_3_eq_3 dest: bit_imp_le_length)
  then show "unat (drop_bit 24 (ld32 m a AND 0xFF000000)) = unat (m (a + 3))" by (simp only: unat_ucast_u8)
qed

lemma dec_u8: "length (dec (unat (b :: u8))) \<le> 3"
proof (rule dec_length)
  have "unat b < 2 ^ LENGTH(8)" by (rule unsigned_less)
  then show "unat b < 10 ^ 3" by simp
qed simp

lemma dec_u16: "length (dec (unat (w :: u16))) \<le> 5"
proof (rule dec_length)
  have "unat w < 2 ^ LENGTH(16)" by (rule unsigned_less)
  then show "unat w < 10 ^ 5" by simp
qed simp

lemma dec_u14: "length (dec (unat (take_bit 14 (w :: u32)))) \<le> 5"
proof (rule dec_length)
  have "unat (take_bit 14 w) < 2 ^ 14" by (simp only: unat_take_bit) simp
  then show "unat (take_bit 14 w) < 10 ^ 5" by simp
qed simp

lemma dotted_bytes:
  "dotted (ld32 m a) = dec (unat (m a)) @ ''.'' @ dec (unat (m (a + 1))) @ ''.'' @
     dec (unat (m (a + 2))) @ ''.'' @ dec (unat (m (a + 3)))"
  by (simp only: dotted_def ld32_bytes)

lemma dotted_length: "length (dotted (ld32 m a)) \<le> 15"
  using dec_u8 [of "m a"] dec_u8 [of "m (a + 1)"] dec_u8 [of "m (a + 2)"] dec_u8 [of "m (a + 3)"]
  by (simp add: dotted_bytes)

lemma when_some_fits:
  assumes "\<And>i. x = Some i \<Longrightarrow> \<exists>s. f i = Inr s \<and> length s \<le> k" and "length buf + k < 64"
  obtains b where "when_some x f buf = Inr b" and "length b \<le> length buf + k"
proof (cases x)
  case None
  then show ?thesis by (intro that [of buf]) (simp_all add: when_some_def)
next
  case (Some i)
  with assms(1) obtain s where "f i = Inr s" "length s \<le> k" by blast
  with Some assms(2) show ?thesis
    by (intro that [of "buf @ s"]) (simp_all add: when_some_def snprintf_app_def AddrBuffer_Size_def)
qed

text \<open>The walk finds entries that exist; a M3UA entry has one below it.\<close>

lemma pick_layers_rooms:
  assumes "unat (layersCnt d) \<le> layers_room" and "ao_getType (layers d 0) \<noteq> TM3ua"
  shows "pick_layers d = Inr None \<or> (\<exists>p. pick_layers d = Inr (Some p) \<and>
    (\<forall>i. pl_ip4 p = Some i \<or> pl_mtp p = Some i \<or> pl_tcp p = Some i \<longrightarrow> i < layers_room) \<and>
    (\<forall>i. pl_m3ua p = Some i \<longrightarrow> unat (pl_layer p) < layers_room))"
proof (cases "layersCnt d = 0")
  case True
  then show ?thesis by (simp add: pick_layers_def)
next
  case False
  define n where "n = layersCnt d - 1"
  have pred: "unat (x - 1) = unat x - 1" if "x \<noteq> 0" for x :: u8
    using that by (simp add: unat_minus_one)
  have n: "unat n < layers_room" "n \<noteq> 0xFF"
  proof -
    have "0 < unat (layersCnt d)" using False by (simp add: unat_gt_0)
    then show "unat n < layers_room" using assms(1) False by (simp add: n_def pred)
    then show "n \<noteq> 0xFF" by (auto simp: layers_room_def)
  qed
  have n2: "unat (x - 1) < layers_room"
    if "ao_getType (layers d (unat x)) = TM3ua" "unat x < layers_room" for x :: u8
  proof -
    have "x \<noteq> 0" using that(1) assms(2) by auto
    with that(2) show ?thesis by (simp add: pred)
  qed
  show ?thesis
  proof (cases "n = 0")
    case True
    with n assms(2) show ?thesis
      by (cases "ao_getType (layers d 0)") (simp_all add: pick_layers_def get_layer_def Let_def flip: n_def)
  next
    case False
    then have "unat (n - 1) < layers_room" "n - 1 \<noteq> 0xFF" using n by (auto simp: pred)
    with n n2 [of n] n2 [of "n - 1"] show ?thesis
      by (cases "ao_getType (layers d (unat n))"; cases "ao_getType (layers d (unat (n - 1)))")
         (simp_all add: pick_layers_def get_layer_def Let_def flip: n_def)
  qed
qed

lemma layer_off_room: "i < layers_room \<Longrightarrow> layer_off d i = Inr (unat (ao_getOffset (layers d i)))"
  by (simp add: layer_off_def get_layer_def)

lemma print_addr_fits:
  assumes "unat (layersCnt d) \<le> layers_room" and "ao_getType (layers d 0) \<noteq> TM3ua"
    and pc: "\<And>w. length (dec (unat (pc w))) \<le> 5"
  shows "\<exists>s. print_addr i j pc d m = Inr s \<and> length s \<le> 32"
  using pick_layers_rooms [OF assms(1,2)]
proof (elim disjE exE conjE)
  assume "pick_layers d = Inr None"
  then show ?thesis by (simp add: print_addr_def)
next
  fix p
  assume p: "pick_layers d = Inr (Some p)"
    and rooms: "\<forall>i. pl_ip4 p = Some i \<or> pl_mtp p = Some i \<or> pl_tcp p = Some i \<longrightarrow> i < layers_room"
    and m3: "\<forall>i. pl_m3ua p = Some i \<longrightarrow> unat (pl_layer p) < layers_room"
  let ?ip = "\<lambda>k. rbind (layer_off d k) (\<lambda>a. Inr (dotted (ld32 m (a + i))))"
  let ?mtp = "\<lambda>k. rbind (layer_off d k) (\<lambda>a. Inr (dec (unat (pc (ld32 m a)))))"
  let ?port = "\<lambda>k. rbind (layer_off d k) (\<lambda>a. Inr ('':'' @ dec (unat (LS_ntohs (ld16 m (a + j))))))"
  obtain b1 where b1: "when_some (pl_ip4 p) ?ip [] = Inr b1" "length b1 \<le> length ([] :: string) + 15"
    by (rule when_some_fits [of "pl_ip4 p" ?ip 15 "[]"])
       (use rooms in \<open>simp_all add: layer_off_room dotted_length\<close>)
  obtain b2 where b2: "when_some (pl_mtp p) ?mtp b1 = Inr b2" "length b2 \<le> length b1 + 5"
    by (rule when_some_fits [of "pl_mtp p" ?mtp 5 b1])
       (use rooms b1 in \<open>simp_all add: layer_off_room pc\<close>)
  obtain b3 where b3: "when_some (pl_tcp p) ?port b2 = Inr b3" "length b3 \<le> length b2 + 6"
    by (rule when_some_fits [of "pl_tcp p" ?port 6 b2])
       (use rooms b1 b2 dec_u16 in \<open>simp_all add: layer_off_room\<close>)
  obtain b4 where b4: "when_some (pl_m3ua p) (\<lambda>_. ?port (unat (pl_layer p))) b3 = Inr b4" "length b4 \<le> length b3 + 6"
    by (rule when_some_fits [of "pl_m3ua p" "\<lambda>_. ?port (unat (pl_layer p))" 6 b3])
       (use m3 b1 b2 b3 dec_u16 in \<open>simp_all add: layer_off_room\<close>)
  from b1 b2 b3 b4 p show ?thesis by (simp add: print_addr_def)
qed

text \<open>Printing fits: for a record whose entries fit the reserve and do not begin with M3UA, both print
  functions return, with at most 32 characters for the 64 of the buffer.\<close>

theorem print_fits:
  assumes "unat (layersCnt d) \<le> layers_room" and "ao_getType (layers d 0) \<noteq> TM3ua"
  shows "(\<exists>s. printSrcAddr d m = Inr s \<and> length s \<le> 32) \<and> (\<exists>s. printDstAddr d m = Inr s \<and> length s \<le> 32)"
  using print_addr_fits [OF assms, of rl_opc 0 0 m] print_addr_fits [OF assms, of rl_dpc 4 2 m]
  by (simp add: printSrcAddr_def printDstAddr_def rl_opc_def rl_dpc_def dec_u14)

theorem print_fits_witness:
  "(\<exists>s. printSrcAddr demo_tcp demo_packet = Inr s \<and> length s \<le> 32) \<and>
   (\<exists>s. printDstAddr demo_tcp demo_packet = Inr s \<and> length s \<le> 32)"
proof (rule print_fits)
  show "unat (layersCnt demo_tcp) \<le> layers_room" by code_simp
  show "ao_getType (layers demo_tcp 0) \<noteq> TM3ua" by code_simp
qed

end
