(* ===== verification/Wire_Format.thy ===== *)
theory Wire_Format
  imports Prelude
begin

text \<open>
  How a structure of the sources lies in memory: members in order, integers in the little-endian order of the
  targets, bit fields from the least significant bit of their unit up, no padding. The sources have no function that writes or
  parses a header: they cast a pointer into a packet to a pointer to the structure. \<open>X_bytes\<close> gives the bytes such an object
  consists of, and \<open>X_view\<close> the object that a cast of a pointer to bytes is, with the bytes behind it. The locale \<open>struct_view\<close>
  relates the two, for the structures the sources view in more than one way.
\<close>

subsection \<open>Bit fields\<close>

text \<open>A field \<open>a\<close> and the fields above it.\<close>

definition join :: "'a::len word \<Rightarrow> 'b::len word \<Rightarrow> 'c::len word" where
  "join a b = ucast a OR push_bit LENGTH('a) (ucast b)"

definition low :: "'c::len word \<Rightarrow> 'a::len word" where "low w = ucast w"
definition above :: "nat \<Rightarrow> 'c::len word \<Rightarrow> 'b::len word" where "above k w = ucast (drop_bit k w)"

lemma low_join [simp]: "LENGTH('a) + LENGTH('b) = LENGTH('c) \<Longrightarrow>
  low (join (a :: 'a::len word) (b :: 'b::len word) :: 'c::len word) = a"
  unfolding low_def join_def by (rule bit_word_eqI) (auto simp: bit_simps)

lemma above_join [simp]: "LENGTH('a) + LENGTH('b) = LENGTH('c) \<Longrightarrow> k = LENGTH('a) \<Longrightarrow>
  above k (join (a :: 'a::len word) (b :: 'b::len word) :: 'c::len word) = b"
  unfolding above_def join_def by (rule bit_word_eqI) (auto simp: bit_simps dest: bit_imp_le_length)

lemma join_parts [simp]: "LENGTH('a) + LENGTH('b) = LENGTH('c) \<Longrightarrow> k = LENGTH('a) \<Longrightarrow>
  join (low w :: 'a::len word) (above k w :: 'b::len word) = (w :: 'c::len word)"
  unfolding above_def low_def join_def by (rule bit_word_eqI) (auto simp: bit_simps dest: bit_imp_le_length)

subsection \<open>Views\<close>

locale struct_view =
  fixes obj_bytes :: "'a \<Rightarrow> u8 list" and obj_view :: "u8 list \<Rightarrow> 'a \<times> u8 list" and n :: nat
  assumes bytes_length: "length (obj_bytes x) = n"
    and view_bytes: "obj_view (obj_bytes x @ rest) = (x, rest)"
    and every: "n \<le> length bs \<Longrightarrow> \<exists>x rest. bs = obj_bytes x @ rest"
begin

lemma bytes_view: "n \<le> length bs \<Longrightarrow> obj_view bs = (x, rest) \<Longrightarrow> obj_bytes x @ rest = bs"
proof -
  assume le: "n \<le> length bs" and got: "obj_view bs = (x, rest)"
  obtain y r where y: "bs = obj_bytes y @ r" using every [OF le] by blast
  have "obj_view bs = (y, r)" unfolding y by (rule view_bytes)
  with got y show "obj_bytes x @ rest = bs" by simp
qed

text \<open>The view of exactly its bytes is the same memory.\<close>

lemma same_memory: "length bs = n \<Longrightarrow> obj_bytes (fst (obj_view bs)) = bs"
proof -
  assume n: "length bs = n"
  obtain x r where x: "obj_view bs = (x, r)" by fastforce
  then have "obj_bytes x @ r = bs" using bytes_view [of bs x r] n by simp
  moreover from this have "r = []" using n bytes_length [of x] by (metis append_eq_conv_conj append_Nil2 length_append add_cancel_left_right length_0_conv)
  ultimately show "obj_bytes (fst (obj_view bs)) = bs" using x by simp
qed

end

definition mem_pair :: "('a \<Rightarrow> u8 list) \<Rightarrow> ('b \<Rightarrow> u8 list) \<Rightarrow> 'a \<times> 'b \<Rightarrow> u8 list" where
  "mem_pair p q = (\<lambda>(x, y). p x @ q y)"

definition view_pair :: "(u8 list \<Rightarrow> 'a \<times> u8 list) \<Rightarrow> (u8 list \<Rightarrow> 'b \<times> u8 list) \<Rightarrow> u8 list \<Rightarrow> ('a \<times> 'b) \<times> u8 list" where
  "view_pair g g' bs = (let (x, r) = g bs; (y, r) = g' r in ((x, y), r))"

lemma struct_pair:
  assumes "struct_view p g n" and "struct_view p' g' n'"
  shows "struct_view (mem_pair p p') (view_pair g g') (n + n')"
  unfolding mem_pair_def [abs_def] view_pair_def [abs_def]
proof
  note a = struct_view.bytes_length [OF assms(1)] struct_view.view_bytes [OF assms(1)]
  note b = struct_view.bytes_length [OF assms(2)] struct_view.view_bytes [OF assms(2)]
  show "length (case x of (x, y) \<Rightarrow> p x @ p' y) = n + n'" for x using a(1) b(1) by (cases x) simp
  show "(let (x, r) = g ((case x of (x, y) \<Rightarrow> p x @ p' y) @ rest); (y, r) = g' r in ((x, y), r)) = (x, rest)" for x rest
    using a(2) b(2) by (cases x) simp
  show "\<exists>x rest. bs = (case x of (x, y) \<Rightarrow> p x @ p' y) @ rest" if le: "n + n' \<le> length bs" for bs
  proof -
    obtain x r where x: "bs = p x @ r" using struct_view.every [OF assms(1), of bs] le by auto
    then have "n' \<le> length r" using le a(1) by simp
    then obtain y r' where "r = p' y @ r'" using struct_view.every [OF assms(2)] by blast
    with x show ?thesis by auto
  qed
qed

lemma struct_map:
  assumes "struct_view p g n" and "\<And>x. obj x = p (f x)" and "\<And>bs. view bs = (let (y, r) = g bs in (h y, r))"
    and "\<And>x. h (f x) = x" and "\<And>y. f (h y) = y" and "n = n'"
  shows "struct_view obj view n'"
proof
  show "length (obj x) = n'" for x using assms(2,6) struct_view.bytes_length [OF assms(1)] by simp
  show "view (obj x @ rest) = (x, rest)" for x rest
    using assms(2-4) struct_view.view_bytes [OF assms(1)] by simp
  show "\<exists>x rest. bs = obj x @ rest" if "n' \<le> length bs" for bs
  proof -
    have "n \<le> length bs" using that assms(6) by simp
    then obtain y r where "bs = p y @ r" using struct_view.every [OF assms(1)] by blast
    with assms(2,5) show ?thesis by (intro exI [of _ "h y"] exI [of _ r]) simp
  qed
qed

text \<open>Integers and arrays of bytes.\<close>

definition mem8 :: "u8 \<Rightarrow> u8 list" where "mem8 w = [w]"
definition mem16 :: "u16 \<Rightarrow> u8 list" where "mem16 w = [low w, above 8 w]"
definition mem32 :: "u32 \<Rightarrow> u8 list" where "mem32 w = mem16 (low w) @ mem16 (above 16 w)"
definition mem_bytes :: "u8 list \<Rightarrow> u8 list" where "mem_bytes bs = bs"

definition view8 :: "u8 list \<Rightarrow> u8 \<times> u8 list" where "view8 bs = (case bs of [] \<Rightarrow> (0, []) | b # r \<Rightarrow> (b, r))"

interpretation octet: struct_view mem8 view8 1
proof
  show "\<exists>x rest. bs = mem8 x @ rest" if "1 \<le> length bs" for bs
    using that by (cases bs) (auto simp: mem8_def)
qed (simp_all add: mem8_def view8_def)

end
