(* ===== verification/Wire_Headers.thy ===== *)
theory Wire_Headers
  imports Wire_Format
begin

text \<open>
  The headers of \<^verbatim>\<open>Eth.h\<close>, \<^verbatim>\<open>Vlan.h\<close>, \<^verbatim>\<open>Mpls.h\<close>, \<^verbatim>\<open>Ip4.h\<close>, \<^verbatim>\<open>Tcp.h\<close>, \<^verbatim>\<open>Udp.h\<close> and \<^verbatim>\<open>Sctp.h\<close> as the structures they
  are declared as. The type of a bit field is a word of its width; an integer is as it lies in memory, so network byte
  order is up to the functions that use it. \<open>X_units\<close> gives the storage units of a structure in order and
  \<open>X_bytes\<close> the bytes of an object.
\<close>

subsection \<open>Ethernet, VLAN, MPLS\<close>

record EthHdr =
  eth_dest :: "u8 list"
  eth_source :: "u8 list"
  eth_ethertype :: u16

definition EthHdr_units :: "EthHdr \<Rightarrow> (u8 list) \<times> (u8 list) \<times> u16" where
  "EthHdr_units h = (eth_dest h, eth_source h, eth_ethertype h)"

definition EthHdr_bytes :: "EthHdr \<Rightarrow> u8 list" where
  "EthHdr_bytes h = mem_pair mem_bytes (mem_pair mem_bytes mem16) (EthHdr_units h)"

record VlanHdr =
  vlan_tci :: u16
  vlan_proto :: u16

definition VlanHdr_units :: "VlanHdr \<Rightarrow> u16 \<times> u16" where
  "VlanHdr_units h = (vlan_tci h, vlan_proto h)"

definition VlanHdr_bytes :: "VlanHdr \<Rightarrow> u8 list" where
  "VlanHdr_bytes h = mem_pair mem16 mem16 (VlanHdr_units h)"

record MplsHdr =
  mpls_label_0 :: u16
  mpls_bs :: "1 word"
  mpls_tc :: "3 word"
  mpls_label_1 :: "4 word"
  mpls_ttl :: u8

definition MplsHdr_units :: "MplsHdr \<Rightarrow> u32" where
  "MplsHdr_units h = join (mpls_label_0 h) (join (mpls_bs h) (join (mpls_tc h) (join (mpls_label_1 h) (mpls_ttl h) ::
       12 word) :: 15 word) :: u16)"

definition MplsHdr_bytes :: "MplsHdr \<Rightarrow> u8 list" where
  "MplsHdr_bytes h = mem32 (MplsHdr_units h)"

subsection \<open>IP and its users\<close>

record Ip4Hdr =
  ip_ihl :: "4 word"
  ip_version :: "4 word"
  ip_tos :: u8
  ip_length :: u16
  ip_id :: u16
  ip_frag_offset :: "5 word"
  ip_more_fragment :: "1 word"
  ip_dont_fragment :: "1 word"
  ip_reserved_zero :: "1 word"
  ip_frag_offset1 :: u8
  ip_ttl :: u8
  ip_proto :: u8
  ip_checksum :: u16
  ip_srcaddr :: u32
  ip_dstaddr :: u32

definition Ip4Hdr_units :: "Ip4Hdr \<Rightarrow> u8 \<times> u8 \<times> u16 \<times> u16 \<times> u8 \<times> u8
     \<times> u8 \<times> u8 \<times> u16 \<times> u32 \<times> u32" where
  "Ip4Hdr_units h = (
     join (ip_ihl h) (ip_version h), ip_tos h, ip_length h, ip_id h,
     join (ip_frag_offset h) (join (ip_more_fragment h) (join (ip_dont_fragment h) (ip_reserved_zero h) :: 2 word) ::
          3 word),
     ip_frag_offset1 h, ip_ttl h, ip_proto h, ip_checksum h, ip_srcaddr h, ip_dstaddr h)"

definition Ip4Hdr_bytes :: "Ip4Hdr \<Rightarrow> u8 list" where
  "Ip4Hdr_bytes h = mem_pair mem8 (mem_pair mem8 (mem_pair mem16 (mem_pair mem16 (mem_pair mem8 (mem_pair mem8
       (mem_pair mem8 (mem_pair mem8 (mem_pair mem16 (mem_pair mem32 mem32))))))))) (Ip4Hdr_units h)"

record TcpHdr =
  tcp_source_port :: u16
  tcp_dest_port :: u16
  tcp_sequence :: u32
  tcp_acknowledge :: u32
  tcp_ns :: "1 word"
  tcp_reserved_part1 :: "3 word"
  tcp_offset :: "4 word"
  tcp_fin :: "1 word"
  tcp_syn :: "1 word"
  tcp_rst :: "1 word"
  tcp_psh :: "1 word"
  tcp_ack :: "1 word"
  tcp_urg :: "1 word"
  tcp_ecn :: "1 word"
  tcp_cwr :: "1 word"
  tcp_window :: u16
  tcp_checksum :: u16
  tcp_urgent_pointer :: u16

definition TcpHdr_units :: "TcpHdr \<Rightarrow> u16 \<times> u16 \<times> u32 \<times> u32 \<times> u8 \<times> u8
     \<times> u16 \<times> u16 \<times> u16" where
  "TcpHdr_units h = (
     tcp_source_port h, tcp_dest_port h, tcp_sequence h, tcp_acknowledge h,
     join (tcp_ns h) (join (tcp_reserved_part1 h) (tcp_offset h) :: 7 word),
     join (tcp_fin h) (join (tcp_syn h) (join (tcp_rst h) (join (tcp_psh h) (join (tcp_ack h) (join (tcp_urg h) (join
          (tcp_ecn h) (tcp_cwr h) :: 2 word) :: 3 word) :: 4 word) :: 5 word) :: 6 word) :: 7 word),
     tcp_window h, tcp_checksum h, tcp_urgent_pointer h)"

definition TcpHdr_bytes :: "TcpHdr \<Rightarrow> u8 list" where
  "TcpHdr_bytes h = mem_pair mem16 (mem_pair mem16 (mem_pair mem32 (mem_pair mem32 (mem_pair mem8 (mem_pair mem8
       (mem_pair mem16 (mem_pair mem16 mem16))))))) (TcpHdr_units h)"

record UdpHdr =
  udp_source_port :: u16
  udp_dest_port :: u16
  udp_length :: u16
  udp_checksum :: u16

definition UdpHdr_units :: "UdpHdr \<Rightarrow> u16 \<times> u16 \<times> u16 \<times> u16" where
  "UdpHdr_units h = (
     udp_source_port h, udp_dest_port h, udp_length h, udp_checksum h)"

definition UdpHdr_bytes :: "UdpHdr \<Rightarrow> u8 list" where
  "UdpHdr_bytes h = mem_pair mem16 (mem_pair mem16 (mem_pair mem16 mem16)) (UdpHdr_units h)"

record SctpHdr =
  sctp_source_port :: u16
  sctp_dest_port :: u16
  sctp_verification_tag :: u32
  sctp_checksum :: u32

definition SctpHdr_units :: "SctpHdr \<Rightarrow> u16 \<times> u16 \<times> u32 \<times> u32" where
  "SctpHdr_units h = (
     sctp_source_port h, sctp_dest_port h, sctp_verification_tag h, sctp_checksum h)"

definition SctpHdr_bytes :: "SctpHdr \<Rightarrow> u8 list" where
  "SctpHdr_bytes h = mem_pair mem16 (mem_pair mem16 (mem_pair mem32 mem32)) (SctpHdr_units h)"

record ChunkHdr =
  chunk_kind :: u8
  chunk_flags :: u8
  chunk_size :: u16

definition ChunkHdr_units :: "ChunkHdr \<Rightarrow> u8 \<times> u8 \<times> u16" where
  "ChunkHdr_units h = (chunk_kind h, chunk_flags h, chunk_size h)"

definition ChunkHdr_bytes :: "ChunkHdr \<Rightarrow> u8 list" where
  "ChunkHdr_bytes h = mem_pair mem8 (mem_pair mem8 mem16) (ChunkHdr_units h)"

record ChunkData =
  data_hdr :: ChunkHdr
  data_tsn :: u32
  data_stream_id :: u16
  data_stream_sn :: u16
  data_proto :: u32

definition ChunkData_units :: "ChunkData \<Rightarrow> ChunkHdr \<times> u32 \<times> u16 \<times> u16 \<times> u32"
     where
  "ChunkData_units h = (
     data_hdr h, data_tsn h, data_stream_id h, data_stream_sn h, data_proto h)"

definition ChunkData_bytes :: "ChunkData \<Rightarrow> u8 list" where
  "ChunkData_bytes h = mem_pair ChunkHdr_bytes (mem_pair mem32 (mem_pair mem16 (mem_pair mem16 mem32))) (ChunkData_units
       h)"

end
