(* ===== verification/Wire_Signalling.thy ===== *)
theory Wire_Signalling
  imports Wire_Headers
begin

text \<open>
  The headers of \<^verbatim>\<open>lib/libstack/ss7\<close> and \<^verbatim>\<open>Gfp.h\<close> as the structures they are declared as, like \<open>Wire_Headers\<close>.
\<close>

subsection \<open>SIGTRAN\<close>

record M2uaParameter =
  m2ua_tag :: u16
  m2ua_plength :: u16

definition M2uaParameter_units :: "M2uaParameter \<Rightarrow> u16 \<times> u16" where
  "M2uaParameter_units h = (m2ua_tag h, m2ua_plength h)"

definition M2uaParameter_bytes :: "M2uaParameter \<Rightarrow> u8 list" where
  "M2uaParameter_bytes h = mem_pair mem16 mem16 (M2uaParameter_units h)"

record M2uaHdr =
  m2ua_version :: u8
  m2ua_reserved :: u8
  m2ua_class :: u8
  m2ua_kind :: u8
  m2ua_length :: u32
  m2ua_parameter :: M2uaParameter

definition M2uaHdr_units :: "M2uaHdr \<Rightarrow> u8 \<times> u8 \<times> u8 \<times> u8 \<times> u32 \<times>
     M2uaParameter" where
  "M2uaHdr_units h = (
     m2ua_version h, m2ua_reserved h, m2ua_class h, m2ua_kind h, m2ua_length h, m2ua_parameter h)"

definition M2uaHdr_bytes :: "M2uaHdr \<Rightarrow> u8 list" where
  "M2uaHdr_bytes h = mem_pair mem8 (mem_pair mem8 (mem_pair mem8 (mem_pair mem8 (mem_pair mem32 M2uaParameter_bytes))))
       (M2uaHdr_units h)"

record M3uaHdr =
  m3ua_version :: u8
  m3ua_reserved :: u8
  m3ua_class :: u8
  m3ua_kind :: u8
  m3ua_size :: u32

definition M3uaHdr_units :: "M3uaHdr \<Rightarrow> u8 \<times> u8 \<times> u8 \<times> u8 \<times> u32" where
  "M3uaHdr_units h = (
     m3ua_version h, m3ua_reserved h, m3ua_class h, m3ua_kind h, m3ua_size h)"

definition M3uaHdr_bytes :: "M3uaHdr \<Rightarrow> u8 list" where
  "M3uaHdr_bytes h = mem_pair mem8 (mem_pair mem8 (mem_pair mem8 (mem_pair mem8 mem32))) (M3uaHdr_units h)"

record M3uaParamter =
  m3ua_tag :: u16
  m3ua_plength :: u16

definition M3uaParamter_units :: "M3uaParamter \<Rightarrow> u16 \<times> u16" where
  "M3uaParamter_units h = (m3ua_tag h, m3ua_plength h)"

definition M3uaParamter_bytes :: "M3uaParamter \<Rightarrow> u8 list" where
  "M3uaParamter_bytes h = mem_pair mem16 mem16 (M3uaParamter_units h)"

record M3uaProtocolData =
  pdata_param :: M3uaParamter
  pdata_opc :: u32
  pdata_dpk :: u32
  pdata_si :: u8
  pdata_ni :: u8
  pdata_mp :: u8
  pdata_sls :: u8

definition M3uaProtocolData_units :: "M3uaProtocolData \<Rightarrow> M3uaParamter \<times> u32 \<times> u32 \<times>
     u8 \<times> u8 \<times> u8 \<times> u8" where
  "M3uaProtocolData_units h = (
     pdata_param h, pdata_opc h, pdata_dpk h, pdata_si h, pdata_ni h, pdata_mp h, pdata_sls h)"

definition M3uaProtocolData_bytes :: "M3uaProtocolData \<Rightarrow> u8 list" where
  "M3uaProtocolData_bytes h = mem_pair M3uaParamter_bytes (mem_pair mem32 (mem_pair mem32 (mem_pair mem8 (mem_pair mem8
       (mem_pair mem8 mem8))))) (M3uaProtocolData_units h)"

subsection \<open>Message transfer part\<close>

record sio_t =
  sio_service :: "4 word"
  sio_priority :: "2 word"
  sio_network :: "2 word"

definition sio_t_units :: "sio_t \<Rightarrow> u8" where
  "sio_t_units h = join (sio_service h) (join (sio_priority h) (sio_network h) :: 4 word)"

definition sio_t_bytes :: "sio_t \<Rightarrow> u8 list" where
  "sio_t_bytes h = mem8 (sio_t_units h)"

record li_t =
  li_length :: "6 word"
  li_spare :: "2 word"

definition li_t_units :: "li_t \<Rightarrow> u8" where
  "li_t_units h = join (li_length h) (li_spare h)"

definition li_t_bytes :: "li_t \<Rightarrow> u8 list" where
  "li_t_bytes h = mem8 (li_t_units h)"

record routing_label_t =
  rl_dpc :: "14 word"
  rl_opc :: "14 word"
  rl_sls :: "4 word"

definition routing_label_t_units :: "routing_label_t \<Rightarrow> u32" where
  "routing_label_t_units h = join (rl_dpc h) (join (rl_opc h) (rl_sls h) :: 18 word)"

definition routing_label_t_bytes :: "routing_label_t \<Rightarrow> u8 list" where
  "routing_label_t_bytes h = mem32 (routing_label_t_units h)"

record mtp_bsn_t =
  bsn_number :: "7 word"
  bsn_bib :: "1 word"

definition mtp_bsn_t_units :: "mtp_bsn_t \<Rightarrow> u8" where
  "mtp_bsn_t_units h = join (bsn_number h) (bsn_bib h)"

definition mtp_bsn_t_bytes :: "mtp_bsn_t \<Rightarrow> u8 list" where
  "mtp_bsn_t_bytes h = mem8 (mtp_bsn_t_units h)"

record mtp_fsn_t =
  fsn_number :: "7 word"
  fsn_fib :: "1 word"

definition mtp_fsn_t_units :: "mtp_fsn_t \<Rightarrow> u8" where
  "mtp_fsn_t_units h = join (fsn_number h) (fsn_fib h)"

definition mtp_fsn_t_bytes :: "mtp_fsn_t \<Rightarrow> u8 list" where
  "mtp_fsn_t_bytes h = mem8 (mtp_fsn_t_units h)"

record MtpHdr =
  mtp_backward :: mtp_bsn_t
  mtp_forward :: mtp_fsn_t
  mtp_li :: li_t
  mtp_service :: sio_t
  mtp_rl :: routing_label_t

definition MtpHdr_units :: "MtpHdr \<Rightarrow> mtp_bsn_t \<times> mtp_fsn_t \<times> li_t \<times> sio_t \<times>
     routing_label_t" where
  "MtpHdr_units h = (
     mtp_backward h, mtp_forward h, mtp_li h, mtp_service h, mtp_rl h)"

definition MtpHdr_bytes :: "MtpHdr \<Rightarrow> u8 list" where
  "MtpHdr_bytes h = mem_pair mtp_bsn_t_bytes (mem_pair mtp_fsn_t_bytes (mem_pair li_t_bytes (mem_pair sio_t_bytes
       routing_label_t_bytes))) (MtpHdr_units h)"

record Mtp3Hdr =
  mtp3_service :: sio_t
  mtp3_rl :: routing_label_t

definition Mtp3Hdr_units :: "Mtp3Hdr \<Rightarrow> sio_t \<times> routing_label_t" where
  "Mtp3Hdr_units h = (mtp3_service h, mtp3_rl h)"

definition Mtp3Hdr_bytes :: "Mtp3Hdr \<Rightarrow> u8 list" where
  "Mtp3Hdr_bytes h = mem_pair sio_t_bytes routing_label_t_bytes (Mtp3Hdr_units h)"

record IsupHdr =
  isup_cic :: "12 word"
  isup_spare :: "4 word"

definition IsupHdr_units :: "IsupHdr \<Rightarrow> u16" where
  "IsupHdr_units h = join (isup_cic h) (isup_spare h)"

definition IsupHdr_bytes :: "IsupHdr \<Rightarrow> u8 list" where
  "IsupHdr_bytes h = mem16 (IsupHdr_units h)"

subsection \<open>HDLC and LAPD\<close>

record HdlcHdr =
  hdlc_address :: u8
  hdlc_control :: u8

definition HdlcHdr_units :: "HdlcHdr \<Rightarrow> u8 \<times> u8" where
  "HdlcHdr_units h = (hdlc_address h, hdlc_control h)"

definition HdlcHdr_bytes :: "HdlcHdr \<Rightarrow> u8 list" where
  "HdlcHdr_bytes h = mem_pair mem8 mem8 (HdlcHdr_units h)"

record address_t =
  addr_ea0 :: "1 word"
  addr_cr :: "1 word"
  addr_sapi :: "6 word"
  addr_ea1 :: "1 word"
  addr_tei :: "7 word"

definition address_t_units :: "address_t \<Rightarrow> u8 \<times> u8" where
  "address_t_units h = (join (addr_ea0 h) (join (addr_cr h) (addr_sapi h) :: 7 word), join (addr_ea1 h) (addr_tei h))"

definition address_t_of :: "u8 \<times> u8 \<Rightarrow> address_t" where
  "address_t_of = (\<lambda>(a, b).
     let a1 = above 1 a :: 7 word
     in \<lparr>addr_ea0 = low a, addr_cr = low a1, addr_sapi = above 1 a1, addr_ea1 = low b, addr_tei = above 1
          b\<rparr>)"

definition address_t_bytes :: "address_t \<Rightarrow> u8 list" where
  "address_t_bytes h = mem_pair mem8 mem8 (address_t_units h)"

definition address_t_view :: "u8 list \<Rightarrow> address_t \<times> u8 list" where
  "address_t_view bs = (let (u, r) = view_pair view8 view8 bs in (address_t_of u, r))"

interpretation lapd_address: struct_view address_t_bytes address_t_view 2
  by (rule struct_map [OF struct_pair [OF octet.struct_view_axioms octet.struct_view_axioms],
        where f = address_t_units and h = address_t_of])
    (auto simp: address_t_bytes_def address_t_view_def address_t_units_def address_t_of_def Let_def)

record control_t =
  ctl_bit_1 :: "1 word"
  ctl_bit_2 :: "1 word"
  ctl_unused :: "6 word"

definition control_t_units :: "control_t \<Rightarrow> u8" where
  "control_t_units h = join (ctl_bit_1 h) (join (ctl_bit_2 h) (ctl_unused h) :: 7 word)"

definition control_t_of :: "u8 \<Rightarrow> control_t" where
  "control_t_of = (\<lambda>a.
     let a1 = above 1 a :: 7 word
     in \<lparr>ctl_bit_1 = low a, ctl_bit_2 = low a1, ctl_unused = above 1 a1\<rparr>)"

definition control_t_bytes :: "control_t \<Rightarrow> u8 list" where
  "control_t_bytes h = mem8 (control_t_units h)"

definition control_t_view :: "u8 list \<Rightarrow> control_t \<times> u8 list" where
  "control_t_view bs = (let (u, r) = view8 bs in (control_t_of u, r))"

interpretation lapd_control: struct_view control_t_bytes control_t_view 1
  by (rule struct_map [OF octet.struct_view_axioms,
        where f = control_t_units and h = control_t_of])
    (auto simp: control_t_bytes_def control_t_view_def control_t_units_def control_t_of_def Let_def)

record control_I_t =
  I_bit_1 :: "1 word"
  I_send :: "7 word"
  I_bit_1b :: "1 word"
  I_receive :: "7 word"

definition control_I_t_units :: "control_I_t \<Rightarrow> u8 \<times> u8" where
  "control_I_t_units h = (join (I_bit_1 h) (I_send h), join (I_bit_1b h) (I_receive h))"

definition control_I_t_of :: "u8 \<times> u8 \<Rightarrow> control_I_t" where
  "control_I_t_of = (\<lambda>(a, b).
     \<lparr>I_bit_1 = low a, I_send = above 1 a, I_bit_1b = low b, I_receive = above 1 b\<rparr>)"

definition control_I_t_bytes :: "control_I_t \<Rightarrow> u8 list" where
  "control_I_t_bytes h = mem_pair mem8 mem8 (control_I_t_units h)"

definition control_I_t_view :: "u8 list \<Rightarrow> control_I_t \<times> u8 list" where
  "control_I_t_view bs = (let (u, r) = view_pair view8 view8 bs in (control_I_t_of u, r))"

interpretation lapd_I: struct_view control_I_t_bytes control_I_t_view 2
  by (rule struct_map [OF struct_pair [OF octet.struct_view_axioms octet.struct_view_axioms],
        where f = control_I_t_units and h = control_I_t_of])
    (auto simp: control_I_t_bytes_def control_I_t_view_def control_I_t_units_def control_I_t_of_def Let_def)

record control_S_t =
  S_bit_1 :: "1 word"
  S_bit_2 :: "1 word"
  S_function :: "2 word"
  S_reserved :: "4 word"
  S_poll :: "1 word"
  S_receive :: "7 word"

definition control_S_t_units :: "control_S_t \<Rightarrow> u8 \<times> u8" where
  "control_S_t_units h = (join (S_bit_1 h) (join (S_bit_2 h) (join (S_function h) (S_reserved h) :: 6 word) :: 7
       word), join (S_poll h) (S_receive h))"

definition control_S_t_of :: "u8 \<times> u8 \<Rightarrow> control_S_t" where
  "control_S_t_of = (\<lambda>(a, b).
     let a1 = above 1 a :: 7 word; a2 = above 1 a1 :: 6 word
     in \<lparr>S_bit_1 = low a, S_bit_2 = low a1, S_function = low a2, S_reserved = above 2 a2, S_poll = low b,
       S_receive = above 1 b\<rparr>)"

definition control_S_t_bytes :: "control_S_t \<Rightarrow> u8 list" where
  "control_S_t_bytes h = mem_pair mem8 mem8 (control_S_t_units h)"

definition control_S_t_view :: "u8 list \<Rightarrow> control_S_t \<times> u8 list" where
  "control_S_t_view bs = (let (u, r) = view_pair view8 view8 bs in (control_S_t_of u, r))"

interpretation lapd_S: struct_view control_S_t_bytes control_S_t_view 2
  by (rule struct_map [OF struct_pair [OF octet.struct_view_axioms octet.struct_view_axioms],
        where f = control_S_t_units and h = control_S_t_of])
    (auto simp: control_S_t_bytes_def control_S_t_view_def control_S_t_units_def control_S_t_of_def Let_def)

record control_U_t =
  U_bit_1 :: "1 word"
  U_bit_2 :: "1 word"
  U_modifier_34 :: "2 word"
  U_poll :: "1 word"
  U_modifier_678 :: "3 word"

definition control_U_t_units :: "control_U_t \<Rightarrow> u8" where
  "control_U_t_units h = join (U_bit_1 h) (join (U_bit_2 h) (join (U_modifier_34 h) (join (U_poll h) (U_modifier_678
       h) :: 4 word) :: 6 word) :: 7 word)"

definition control_U_t_of :: "u8 \<Rightarrow> control_U_t" where
  "control_U_t_of = (\<lambda>a.
     let a1 = above 1 a :: 7 word; a2 = above 1 a1 :: 6 word; a3 = above 2 a2 :: 4 word
     in \<lparr>U_bit_1 = low a, U_bit_2 = low a1, U_modifier_34 = low a2, U_poll = low a3, U_modifier_678 = above 1
          a3\<rparr>)"

definition control_U_t_bytes :: "control_U_t \<Rightarrow> u8 list" where
  "control_U_t_bytes h = mem8 (control_U_t_units h)"

definition control_U_t_view :: "u8 list \<Rightarrow> control_U_t \<times> u8 list" where
  "control_U_t_view bs = (let (u, r) = view8 bs in (control_U_t_of u, r))"

interpretation lapd_U: struct_view control_U_t_bytes control_U_t_view 1
  by (rule struct_map [OF octet.struct_view_axioms,
        where f = control_U_t_units and h = control_U_t_of])
    (auto simp: control_U_t_bytes_def control_U_t_view_def control_U_t_units_def control_U_t_of_def Let_def)

record LapdHdr =
  lapd_addr :: address_t
  lapd_ctl :: control_t

definition LapdHdr_units :: "LapdHdr \<Rightarrow> address_t \<times> control_t" where
  "LapdHdr_units h = (lapd_addr h, lapd_ctl h)"

definition LapdHdr_of :: "address_t \<times> control_t \<Rightarrow> LapdHdr" where
  "LapdHdr_of = (\<lambda>(a, b).
     \<lparr>lapd_addr = a, lapd_ctl = b\<rparr>)"

definition LapdHdr_bytes :: "LapdHdr \<Rightarrow> u8 list" where
  "LapdHdr_bytes h = mem_pair address_t_bytes control_t_bytes (LapdHdr_units h)"

definition LapdHdr_view :: "u8 list \<Rightarrow> LapdHdr \<times> u8 list" where
  "LapdHdr_view bs = (let (u, r) = view_pair address_t_view control_t_view bs in (LapdHdr_of u, r))"

interpretation lapd: struct_view LapdHdr_bytes LapdHdr_view 3
  by (rule struct_map [OF struct_pair [OF lapd_address.struct_view_axioms lapd_control.struct_view_axioms],
        where f = LapdHdr_units and h = LapdHdr_of])
    (auto simp: LapdHdr_bytes_def LapdHdr_view_def LapdHdr_units_def LapdHdr_of_def Let_def)

record LapdHdrI =
  lapd_I_address :: address_t
  lapd_I_control :: control_I_t

definition LapdHdrI_units :: "LapdHdrI \<Rightarrow> address_t \<times> control_I_t" where
  "LapdHdrI_units h = (lapd_I_address h, lapd_I_control h)"

definition LapdHdrI_of :: "address_t \<times> control_I_t \<Rightarrow> LapdHdrI" where
  "LapdHdrI_of = (\<lambda>(a, b).
     \<lparr>lapd_I_address = a, lapd_I_control = b\<rparr>)"

definition LapdHdrI_bytes :: "LapdHdrI \<Rightarrow> u8 list" where
  "LapdHdrI_bytes h = mem_pair address_t_bytes control_I_t_bytes (LapdHdrI_units h)"

definition LapdHdrI_view :: "u8 list \<Rightarrow> LapdHdrI \<times> u8 list" where
  "LapdHdrI_view bs = (let (u, r) = view_pair address_t_view control_I_t_view bs in (LapdHdrI_of u, r))"

interpretation lapd_hdr_I: struct_view LapdHdrI_bytes LapdHdrI_view 4
  by (rule struct_map [OF struct_pair [OF lapd_address.struct_view_axioms lapd_I.struct_view_axioms],
        where f = LapdHdrI_units and h = LapdHdrI_of])
    (auto simp: LapdHdrI_bytes_def LapdHdrI_view_def LapdHdrI_units_def LapdHdrI_of_def Let_def)

record LapdHdrS =
  lapd_S_address :: address_t
  lapd_S_control :: control_S_t

definition LapdHdrS_units :: "LapdHdrS \<Rightarrow> address_t \<times> control_S_t" where
  "LapdHdrS_units h = (lapd_S_address h, lapd_S_control h)"

definition LapdHdrS_of :: "address_t \<times> control_S_t \<Rightarrow> LapdHdrS" where
  "LapdHdrS_of = (\<lambda>(a, b).
     \<lparr>lapd_S_address = a, lapd_S_control = b\<rparr>)"

definition LapdHdrS_bytes :: "LapdHdrS \<Rightarrow> u8 list" where
  "LapdHdrS_bytes h = mem_pair address_t_bytes control_S_t_bytes (LapdHdrS_units h)"

definition LapdHdrS_view :: "u8 list \<Rightarrow> LapdHdrS \<times> u8 list" where
  "LapdHdrS_view bs = (let (u, r) = view_pair address_t_view control_S_t_view bs in (LapdHdrS_of u, r))"

interpretation lapd_hdr_S: struct_view LapdHdrS_bytes LapdHdrS_view 4
  by (rule struct_map [OF struct_pair [OF lapd_address.struct_view_axioms lapd_S.struct_view_axioms],
        where f = LapdHdrS_units and h = LapdHdrS_of])
    (auto simp: LapdHdrS_bytes_def LapdHdrS_view_def LapdHdrS_units_def LapdHdrS_of_def Let_def)

record LapdHdrU =
  lapd_U_address :: address_t
  lapd_U_control :: control_U_t

definition LapdHdrU_units :: "LapdHdrU \<Rightarrow> address_t \<times> control_U_t" where
  "LapdHdrU_units h = (lapd_U_address h, lapd_U_control h)"

definition LapdHdrU_of :: "address_t \<times> control_U_t \<Rightarrow> LapdHdrU" where
  "LapdHdrU_of = (\<lambda>(a, b).
     \<lparr>lapd_U_address = a, lapd_U_control = b\<rparr>)"

definition LapdHdrU_bytes :: "LapdHdrU \<Rightarrow> u8 list" where
  "LapdHdrU_bytes h = mem_pair address_t_bytes control_U_t_bytes (LapdHdrU_units h)"

definition LapdHdrU_view :: "u8 list \<Rightarrow> LapdHdrU \<times> u8 list" where
  "LapdHdrU_view bs = (let (u, r) = view_pair address_t_view control_U_t_view bs in (LapdHdrU_of u, r))"

interpretation lapd_hdr_U: struct_view LapdHdrU_bytes LapdHdrU_view 3
  by (rule struct_map [OF struct_pair [OF lapd_address.struct_view_axioms lapd_U.struct_view_axioms],
        where f = LapdHdrU_units and h = LapdHdrU_of])
    (auto simp: LapdHdrU_bytes_def LapdHdrU_view_def LapdHdrU_units_def LapdHdrU_of_def Let_def)

subsection \<open>Generic framing procedure\<close>

record GfpHdr =
  gfp_pli :: u16
  gfp_cHec :: u16

definition GfpHdr_units :: "GfpHdr \<Rightarrow> u16 \<times> u16" where
  "GfpHdr_units h = (gfp_pli h, gfp_cHec h)"

definition GfpHdr_bytes :: "GfpHdr \<Rightarrow> u8 list" where
  "GfpHdr_bytes h = mem_pair mem16 mem16 (GfpHdr_units h)"

record GdpType =
  gdp_pti :: "3 word"
  gdp_pfi :: "1 word"
  gdp_exi :: "4 word"
  gdp_upi :: u8

definition GdpType_units :: "GdpType \<Rightarrow> u8 \<times> u8" where
  "GdpType_units h = (join (gdp_pti h) (join (gdp_pfi h) (gdp_exi h) :: 5 word), gdp_upi h)"

definition GdpType_bytes :: "GdpType \<Rightarrow> u8 list" where
  "GdpType_bytes h = mem_pair mem8 mem8 (GdpType_units h)"

record GfpPayloadHdr =
  gfp_ptype :: GdpType
  gfp_tHec :: u16

definition GfpPayloadHdr_units :: "GfpPayloadHdr \<Rightarrow> GdpType \<times> u16" where
  "GfpPayloadHdr_units h = (gfp_ptype h, gfp_tHec h)"

definition GfpPayloadHdr_bytes :: "GfpPayloadHdr \<Rightarrow> u8 list" where
  "GfpPayloadHdr_bytes h = mem_pair GdpType_bytes mem16 (GfpPayloadHdr_units h)"

record LinearframeHdr =
  lf_cid :: u8
  lf_spare :: u8
  lf_eHec :: u16

definition LinearframeHdr_units :: "LinearframeHdr \<Rightarrow> u8 \<times> u8 \<times> u16" where
  "LinearframeHdr_units h = (lf_cid h, lf_spare h, lf_eHec h)"

definition LinearframeHdr_bytes :: "LinearframeHdr \<Rightarrow> u8 list" where
  "LinearframeHdr_bytes h = mem_pair mem8 (mem_pair mem8 mem16) (LinearframeHdr_units h)"

end
