(* ===== verification/Layers.thy ===== *)
theory Layers
  imports Packet_Chain
begin

text \<open>
  \<^verbatim>\<open>lib/libstack/PacketPtr.h\<close>, \<^verbatim>\<open>HeaderIf.h\<close> and the header classes of \<^verbatim>\<open>libstack\<close>: a
  packet whose headers are read in place. A smart pointer gives the window of the packet that is
  still to be parsed, as an offset and a length; a header class such as
  \<^verbatim>\<open>Tcp<Ip4<Eth<Pkt>>>\<close> is that pointer with a stack of layers over it, here the list of the
  layers, outermost first. \<open>push\<close> and \<open>rebase\<close> give the pointer whose window starts behind, or at, the
  outermost header.

  Positions are counted from the start of the \<^verbatim>\<open>Packet\<close>. A read at or beyond the end of its
  allocation is \<open>OutOfBounds\<close>. The bodies of \<open>make*\<close> only move the pointer into another
  class: they are the stack with one more layer.
\<close>

subsection \<open>Smart pointers\<close>

record Captured = Packet +
  content :: mem
  content_end :: nat

text \<open>
  \<open>Pkt\<close> keeps its window in the packet itself, \<open>PktOffset\<close> has an offset of its own.
\<close>

datatype base = Pkt (packet: Captured) | PktOffset (packet: Captured) (own_offset: u16)

fun setLength :: "u16 \<Rightarrow> base \<Rightarrow> base" where
  "setLength len (Pkt p) = Pkt (p\<lparr>plength := len\<rparr>)"
| "setLength len (PktOffset p off) = PktOffset p off"

fun base_length :: "base \<Rightarrow> u16" where
  "base_length (Pkt p) = plength p"
| "base_length (PktOffset p off) = plength p - (off - poffset p)"

fun setOffset :: "u16 \<Rightarrow> base \<Rightarrow> base" where
  "setOffset off (Pkt p) = Pkt (p\<lparr>poffset := off\<rparr>)"
| "setOffset off (PktOffset p _) = PktOffset p off"

fun getOffset :: "base \<Rightarrow> u16" where
  "getOffset (Pkt p) = poffset p"
| "getOffset (PktOffset p off) = off"

text \<open>The constructor that takes over the pointer of \<open>b\<close> with a length and an offset.\<close>

definition make_ptr :: "base \<Rightarrow> u16 \<Rightarrow> u16 \<Rightarrow> base" where
  "make_ptr b len off = setOffset off (setLength len b)"

text \<open>\<^verbatim>\<open>PktOffset(Pkt&&)\<close>, and the constructor of \<open>PktOffset\<close> from a pointer and an offset.\<close>

definition to_PktOffset :: "base \<Rightarrow> base" where
  "to_PktOffset b = PktOffset (packet b) (poffset (packet b))"

definition new_PktOffset :: "base \<Rightarrow> u16 \<Rightarrow> u16 \<Rightarrow> base" where
  "new_PktOffset b len off = PktOffset (packet b) off"

definition base_payload :: "base \<Rightarrow> nat" where
  "base_payload b = unat (getOffset b)"

definition rd8 :: "nat \<Rightarrow> base \<Rightarrow> u8 res" where
  "rd8 a b = (if a < content_end (packet b) then Inr (content (packet b) a) else Inl OutOfBounds)"

definition rd16 :: "nat \<Rightarrow> base \<Rightarrow> u16 res" where
  "rd16 a b = (if a + 1 < content_end (packet b) then Inr (ld16 (content (packet b)) a) else Inl OutOfBounds)"

definition rd32 :: "nat \<Rightarrow> base \<Rightarrow> u32 res" where
  "rd32 a b = (if a + 3 < content_end (packet b) then Inr (ld32 (content (packet b)) a) else Inl OutOfBounds)"

subsection \<open>Layers\<close>

datatype layer = Eth | Vlan | Mpls | Ip4 | Tcp | Udp | Sctp | SctpChunk | SctpChunkData | M2ua | M3ua
  | Mtp | Mtp3 | Hdlc | Lapd | Isup | Sccp | Tcap

fun sizeof_hdr :: "layer \<Rightarrow> u16" where
  "sizeof_hdr Eth = 14"
| "sizeof_hdr Vlan = 4"
| "sizeof_hdr Mpls = 4"
| "sizeof_hdr Ip4 = 20"
| "sizeof_hdr Tcp = 20"
| "sizeof_hdr Udp = 8"
| "sizeof_hdr Sctp = 12"
| "sizeof_hdr SctpChunk = 4"
| "sizeof_hdr SctpChunkData = 16"
| "sizeof_hdr M2ua = 12"
| "sizeof_hdr M3ua = 8"
| "sizeof_hdr Mtp = 8"
| "sizeof_hdr Mtp3 = 5"
| "sizeof_hdr Hdlc = 2"
| "sizeof_hdr Lapd = 4"
| "sizeof_hdr Isup = 2"
| "sizeof_hdr Sccp = 1"
| "sizeof_hdr Tcap = 1"

text \<open>Header fields, the header at \<open>a\<close>.\<close>

definition eth_type :: "nat \<Rightarrow> base \<Rightarrow> u16 res" where
  "eth_type a b = rd16 (a + 12) b"

definition vlan_tpid :: "nat \<Rightarrow> base \<Rightarrow> u16 res" where
  "vlan_tpid a b = rd16 (a + 2) b"

definition mpls_getBs :: "nat \<Rightarrow> base \<Rightarrow> u8 res" where
  "mpls_getBs a b = rbind (rd8 (a + 2) b) (\<lambda>x. Inr (take_bit 1 x))"

definition mpls_getTc :: "nat \<Rightarrow> base \<Rightarrow> u8 res" where
  "mpls_getTc a b = rbind (rd8 (a + 2) b) (\<lambda>x. Inr (take_bit 3 (drop_bit 1 x)))"

definition mpls_getTtl :: "nat \<Rightarrow> base \<Rightarrow> u8 res" where
  "mpls_getTtl a b = rd8 (a + 3) b"

definition mpls_getLabel :: "nat \<Rightarrow> base \<Rightarrow> u32 res" where
  "mpls_getLabel a b = rbind (rd32 a b) (\<lambda>w. Inr (take_bit 16 w + push_bit 16 (take_bit 4 (drop_bit 20 w))))"

definition ip_header_len :: "nat \<Rightarrow> base \<Rightarrow> u8 res" where
  "ip_header_len a b = rbind (rd8 a b) (\<lambda>x. Inr (take_bit 4 x))"

definition ip_total_length :: "nat \<Rightarrow> base \<Rightarrow> u16 res" where
  "ip_total_length a b = rd16 (a + 2) b"

definition ip_protocol :: "nat \<Rightarrow> base \<Rightarrow> u8 res" where
  "ip_protocol a b = rd8 (a + 9) b"

definition tcp_data_offset :: "nat \<Rightarrow> base \<Rightarrow> u8 res" where
  "tcp_data_offset a b = rbind (rd8 (a + 12) b) (\<lambda>x. Inr (drop_bit 4 x))"

definition chunk_type :: "nat \<Rightarrow> base \<Rightarrow> u8 res" where
  "chunk_type a b = rd8 a b"

definition chunk_length :: "nat \<Rightarrow> base \<Rightarrow> u16 res" where
  "chunk_length a b = rd16 (a + 2) b"

definition chunk_proto :: "nat \<Rightarrow> base \<Rightarrow> u32 res" where
  "chunk_proto a b = rd32 (a + 12) b"

definition m3ua_msgClass :: "nat \<Rightarrow> base \<Rightarrow> u8 res" where
  "m3ua_msgClass a b = rd8 (a + 2) b"

definition m3ua_type :: "nat \<Rightarrow> base \<Rightarrow> u8 res" where
  "m3ua_type a b = rd8 (a + 3) b"

definition m3ua_length :: "nat \<Rightarrow> base \<Rightarrow> u32 res" where
  "m3ua_length a b = rd32 (a + 4) b"

text \<open>\<^verbatim>\<open>size()\<close>: most layers have the size of their header structure, four read it from the packet.\<close>

definition ip4_size :: "nat \<Rightarrow> base \<Rightarrow> u16 res" where
  "ip4_size a b = rbind (ip_header_len a b) (\<lambda>n. Inr (push_bit 2 (ucast n)))"

definition tcp_size :: "nat \<Rightarrow> base \<Rightarrow> u16 res" where
  "tcp_size a b = rbind (tcp_data_offset a b) (\<lambda>n. Inr (push_bit 2 (ucast n)))"

definition sctp_chunk_size :: "nat \<Rightarrow> base \<Rightarrow> u16 res" where
  "sctp_chunk_size a b = rbind (chunk_length a b) (\<lambda>n. Inr (LS_ntohs n))"

definition m3ua_size_field :: "nat \<Rightarrow> base \<Rightarrow> u16 res" where
  "m3ua_size_field a b = rbind (m3ua_length a b) (\<lambda>n. Inr (ucast (LS_ntohl n)))"

definition layer_size :: "layer \<Rightarrow> nat \<Rightarrow> base \<Rightarrow> u16 res" where
  "layer_size l a b =
     (case l of
        Ip4 \<Rightarrow> ip4_size a b
      | Tcp \<Rightarrow> tcp_size a b
      | SctpChunk \<Rightarrow> sctp_chunk_size a b
      | M3ua \<Rightarrow> m3ua_size_field a b
      | _ \<Rightarrow> Inr (sizeof_hdr l))"

lemmas layer_sizes = layer_size_def ip4_size_def tcp_size_def sctp_chunk_size_def m3ua_size_field_def

subsection \<open>HeaderIf\<close>

fun fullSize :: "layer list \<Rightarrow> base \<Rightarrow> u16 res" where
  "fullSize [] b = Inr 0"
| "fullSize (l # sub) b =
     rbind (fullSize sub b) (\<lambda>s. rbind (layer_size l (unat (getOffset b) + unat s) b) (\<lambda>z. Inr (z + s)))"

text \<open>Where the header of the outermost layer is.\<close>

definition hdr :: "layer list \<Rightarrow> base \<Rightarrow> nat res" where
  "hdr ls b = rbind (fullSize (tl ls) b) (\<lambda>s. Inr (unat (getOffset b) + unat s))"

definition size_of :: "layer list \<Rightarrow> base \<Rightarrow> u16 res" where
  "size_of ls b = rbind (hdr ls b) (\<lambda>a. layer_size (hd ls) a b)"

text \<open>
  \<^verbatim>\<open>getLength\<close> of the outermost layer: \<open>Ip4\<close> overrides it, the others inherit it from the
  layer below.
\<close>

fun getLength :: "layer list \<Rightarrow> base \<Rightarrow> u16 res" where
  "getLength [] b = Inr (base_length b)"
| "getLength (l # sub) b =
     (if l = Ip4 then rbind (hdr (l # sub) b) (\<lambda>a. rbind (ip_total_length a b) (\<lambda>n. Inr (LS_ntohs n)))
      else getLength sub b)"

definition push :: "layer list \<Rightarrow> base \<Rightarrow> base res" where
  "push ls b = rbind (getLength ls b) (\<lambda>n. rbind (fullSize ls b) (\<lambda>s.
     Inr (make_ptr b (n - s) (getOffset b + s))))"

definition rebase :: "layer list \<Rightarrow> base \<Rightarrow> base res" where
  "rebase ls b = rbind (getLength ls b) (\<lambda>n. rbind (fullSize (tl ls) b) (\<lambda>s.
     Inr (make_ptr b (n - s) (getOffset b + s))))"

definition payload :: "layer list \<Rightarrow> base \<Rightarrow> nat res" where
  "payload ls b = rbind (getLength ls b) (\<lambda>n. rbind (size_of ls b) (\<lambda>z. rbind (rassert (n \<ge> z)) (\<lambda>_.
     rbind (fullSize ls b) (\<lambda>s. Inr (unat (getOffset b) + unat s)))))"

definition payloadLength :: "layer list \<Rightarrow> base \<Rightarrow> u16 res" where
  "payloadLength ls b = rbind (getLength ls b) (\<lambda>n. rbind (size_of ls b) (\<lambda>z. rbind (rassert (n \<ge> z)) (\<lambda>_.
     rbind (fullSize ls b) (\<lambda>s. Inr (n - s)))))"

text \<open>
  \<^verbatim>\<open>Tcp<Pkt>\<close> keeps in the packet how much of its payload was already taken;
  \<open>payload_shift\<close> is a member of the packet, so these operations exist on the base pointer only.
\<close>

definition setPayloadShift :: "u16 \<Rightarrow> base \<Rightarrow> base" where
  "setPayloadShift s b =
     (case b of Pkt p \<Rightarrow> Pkt (p\<lparr>payload_shift := s\<rparr>) | PktOffset p off \<Rightarrow> PktOffset (p\<lparr>payload_shift := s\<rparr>) off)"

definition getPayloadShift :: "base \<Rightarrow> u16" where
  "getPayloadShift b = payload_shift (packet b)"

definition addPayloadShift :: "u16 \<Rightarrow> base \<Rightarrow> base" where
  "addPayloadShift s b = setPayloadShift (getPayloadShift b + s) b"

definition tcp_payload :: "base \<Rightarrow> nat res" where
  "tcp_payload b = rbind (payloadLength [Tcp] b) (\<lambda>n. rbind (rassert (n \<ge> getPayloadShift b)) (\<lambda>_.
     rbind (payload [Tcp] b) (\<lambda>a. Inr (a + unat (getPayloadShift b)))))"

definition tcp_payloadLength :: "base \<Rightarrow> u16 res" where
  "tcp_payloadLength b = rbind (payloadLength [Tcp] b) (\<lambda>n. rbind (rassert (n \<ge> getPayloadShift b)) (\<lambda>_.
     Inr (n - getPayloadShift b)))"

text \<open>\<^verbatim>\<open>Tcap\<close> hides both: its own header counts as payload.\<close>

definition tcap_payload :: "layer list \<Rightarrow> base \<Rightarrow> nat res" where
  "tcap_payload sub b = rbind (fullSize sub b) (\<lambda>s. Inr (unat (getOffset b) + unat s))"

definition tcap_payloadLength :: "layer list \<Rightarrow> base \<Rightarrow> u16 res" where
  "tcap_payloadLength sub b = rbind (getLength (Tcap # sub) b) (\<lambda>n. rbind (fullSize sub b) (\<lambda>s. Inr (n - s)))"

subsection \<open>Windows\<close>

text \<open>
  What the layers rely on in the smart pointer: a narrowed window starts where it was asked to
  and keeps its end, and the packet stays. \<open>Pkt\<close> stores both numbers, \<open>PktOffset\<close> stores the
  offset and computes the length; both provide the contract.
\<close>

locale window =
  fixes len :: "'p \<Rightarrow> u16" and off :: "'p \<Rightarrow> u16" and mk :: "'p \<Rightarrow> u16 \<Rightarrow> u16 \<Rightarrow> 'p"
    and bytes_of :: "'p \<Rightarrow> mem" and end_of :: "'p \<Rightarrow> nat"
  assumes off_mk: "off (mk b l i) = i"
    and len_mk: "len (mk b (len b - k) (off b + k)) = len b - k"
    and bytes_mk: "bytes_of (mk b l i) = bytes_of b"
    and end_mk: "end_of (mk b l i) = end_of b"
begin

text \<open>Any number of steps into the packet, each by the size of a header.\<close>

definition narrow :: "u16 \<Rightarrow> 'p \<Rightarrow> 'p" where
  "narrow k b = mk b (len b - k) (off b + k)"

lemma narrowed:
  "off (fold narrow ks b) = off b + sum_list ks \<and> len (fold narrow ks b) = len b - sum_list ks \<and>
   bytes_of (fold narrow ks b) = bytes_of b \<and> end_of (fold narrow ks b) = end_of b"
  by (induction ks arbitrary: b)
     (simp_all add: narrow_def off_mk len_mk bytes_mk end_mk add.assoc diff_diff_eq)

end

interpretation pointer: window base_length getOffset make_ptr "\<lambda>b. content (packet b)" "\<lambda>b. content_end (packet b)"
proof
  fix b l i k
  show "getOffset (make_ptr b l i) = i" by (cases b) (simp_all add: make_ptr_def)
  show "base_length (make_ptr b (base_length b - k) (getOffset b + k)) = base_length b - k"
    by (cases b) (simp_all add: make_ptr_def algebra_simps)
  show "content (packet (make_ptr b l i)) = content (packet b)" by (cases b) (simp_all add: make_ptr_def)
  show "content_end (packet (make_ptr b l i)) = content_end (packet b)" by (cases b) (simp_all add: make_ptr_def)
qed

lemma rd_make [simp]:
  "rd8 a (make_ptr b l i) = rd8 a b" "rd16 a (make_ptr b l i) = rd16 a b" "rd32 a (make_ptr b l i) = rd32 a b"
  by (simp_all add: rd8_def rd16_def rd32_def pointer.bytes_mk pointer.end_mk)

lemma layer_size_make [simp]: "layer_size l a (make_ptr b n i) = layer_size l a b"
  by (cases l) (simp_all add: layer_sizes ip_header_len_def tcp_data_offset_def chunk_length_def m3ua_length_def)

subsection \<open>Well-formed stacks\<close>

text \<open>
  A stack of layers is well-formed on a packet when every header lies in the allocation as far as
  its size is read from there, and no sum of sizes leaves 16 bits.
\<close>

fun stack_ok :: "layer list \<Rightarrow> base \<Rightarrow> bool" where
  "stack_ok [] b = True"
| "stack_ok (l # sub) b = (stack_ok sub b \<and>
     (case fullSize sub b of Inl _ \<Rightarrow> False | Inr s \<Rightarrow>
       (case layer_size l (unat (getOffset b) + unat s) b of Inl _ \<Rightarrow> False
        | Inr z \<Rightarrow> unat (getOffset b) + unat s + unat z < 65536)))"

lemma stack_ok_sizes:
  "stack_ok ls b \<Longrightarrow> \<exists>s. fullSize ls b = Inr s \<and> unat (getOffset b) + unat s < 65536"
proof (induction ls)
  case Nil
  have "unat (getOffset b) < 2 ^ 16" using unsigned_less [of "getOffset b"] by simp
  then show ?case by simp
next
  case (Cons l ls)
  then obtain s z where "fullSize ls b = Inr s" "layer_size l (unat (getOffset b) + unat s) b = Inr z"
    "unat (getOffset b) + unat s + unat z < 65536" by (auto split: sum.splits)
  moreover from this have "unat (z + s) = unat z + unat s" by (simp add: unat_word_ariths)
  ultimately show ?case by simp
qed

lemma stack_ok_append: "stack_ok (us @ ls) b \<Longrightarrow> stack_ok ls b"
  by (induction us) (auto split: sum.splits)

lemma u16_add: "unat (x :: u16) + unat y < 65536 \<Longrightarrow> unat (x + y) = unat x + unat y"
  by (simp add: unat_word_ariths)

lemma fullSize_rebased:
  assumes "stack_ok (us @ ls) b" and s: "fullSize ls b = Inr s" and b': "b' = make_ptr b n (getOffset b + s)"
  shows "stack_ok us b' \<and> (\<exists>t. fullSize us b' = Inr t \<and> fullSize (us @ ls) b = Inr (t + s) \<and>
    unat (t + s) = unat t + unat s \<and> unat (getOffset b') + unat t < 65536 \<and>
    unat (getOffset b) + unat (t + s) = unat (getOffset b') + unat t)"
  using assms(1)
proof (induction us)
  case Nil
  then have "unat (getOffset b) + unat s < 65536" using stack_ok_sizes s by fastforce
  then show ?case using s b' by (simp add: pointer.off_mk u16_add)
next
  case (Cons u us)
  then obtain t where t: "stack_ok us b'" "fullSize us b' = Inr t" "fullSize (us @ ls) b = Inr (t + s)"
    "unat (t + s) = unat t + unat s" "unat (getOffset b) + unat (t + s) = unat (getOffset b') + unat t" by auto
  from Cons.prems t(3) obtain z where z: "layer_size u (unat (getOffset b) + unat (t + s)) b = Inr z"
    "unat (getOffset b) + unat (t + s) + unat z < 65536" by (auto split: sum.splits)
  then have z': "layer_size u (unat (getOffset b') + unat t) b' = Inr z" using t(5) b' by simp
  have "unat (z + (t + s)) = unat z + unat (t + s)" "unat (z + t) = unat z + unat t"
    using z t(4) by (simp_all add: u16_add)
  with t z z' show ?case by (simp add: ac_simps)
qed

lemma make_ptr_length:
  "base_length (make_ptr b (n - s) (getOffset b + s)) = (if is_Pkt b then n - s else base_length b - s)"
  by (cases b) (simp_all add: make_ptr_def algebra_simps)

text \<open>C21. A stack that is well-formed, so that its headers are allocated and no sum of their sizes leaves 16 bits, is rebased
  without getting stuck. The new window starts behind the headers below the outermost layer of \<open>l # sub\<close>, at the exact sum of the offset and
  their sizes; its length is the length that layer answers less those sizes, or, on a pointer with an offset of its own, the length of the
  window less them, modulo \<open>2 ^ 16\<close>; and when that layer answers the length of the window and the window holds
  those headers, the difference is exact and the window ends where it did. The layers from \<open>l\<close> upwards form a
  well-formed stack on the new pointer, with every header at the address it had, in the same bytes.\<close>

theorem rebase_typed:
  assumes "stack_ok (us @ l # sub) b" and "getLength (l # sub) b = Inr n"
  shows "\<exists>b' s. rebase (l # sub) b = Inr b' \<and> fullSize sub b = Inr s \<and>
    unat (getOffset b') = unat (getOffset b) + unat s \<and>
    base_length b' = (if is_Pkt b then n - s else base_length b - s) \<and>
    (n = base_length b \<and> s \<le> n \<longrightarrow> unat (base_length b') = unat n - unat s \<and>
       unat (getOffset b') + unat (base_length b') = unat (getOffset b) + unat (base_length b)) \<and>
    stack_ok (us @ [l]) b' \<and>
    (\<exists>a. hdr (us @ [l]) b' = Inr a \<and> hdr (us @ l # sub) b = Inr a) \<and>
    content (packet b') = content (packet b) \<and> content_end (packet b') = content_end (packet b)"
proof -
  have sub: "stack_ok sub b" using stack_ok_append [of "us @ [l]" sub b] assms(1) by simp
  then obtain s where s: "fullSize sub b = Inr s" "unat (getOffset b) + unat s < 65536" using stack_ok_sizes by blast
  let ?b = "make_ptr b (n - s) (getOffset b + s)"
  have r: "rebase (l # sub) b = Inr ?b" using assms(2) s by (simp add: rebase_def)
  have off: "unat (getOffset ?b) = unat (getOffset b) + unat s" using s(2) by (simp add: pointer.off_mk u16_add)
  note len = make_ptr_length [of b n s]
  have exact: "unat (base_length ?b) = unat n - unat s" "unat s \<le> unat n" if "n = base_length b \<and> s \<le> n"
    using that unat_sub [of s "base_length b"] by (auto simp: pointer.len_mk word_le_nat_alt)
  have ok: "stack_ok (us @ [l]) ?b" using fullSize_rebased [of "us @ [l]" sub b s] assms(1) s by simp
  have tl: "stack_ok (tl (us @ [l]) @ sub) b"
    using assms(1) stack_ok_append [of "[hd (us @ l # sub)]" "tl (us @ l # sub)" b] by (cases us) auto
  have "\<exists>a. hdr (us @ [l]) ?b = Inr a \<and> hdr (us @ l # sub) b = Inr a"
    using fullSize_rebased [OF tl s(1) refl, of "n - s"] by (cases us) (auto simp: hdr_def)
  moreover have "n = base_length b \<and> s \<le> n \<longrightarrow> unat (base_length ?b) = unat n - unat s \<and>
      unat (getOffset ?b) + unat (base_length ?b) = unat (getOffset b) + unat (base_length b)"
    using exact off by auto
  ultimately show ?thesis
    using r s(1) off len ok by (intro exI [of _ ?b] exI [of _ s]) (simp add: pointer.bytes_mk pointer.end_mk)
qed

text \<open>A captured packet with the bytes \<open>bs\<close> behind its header, of which \<open>n\<close> are announced.\<close>

definition captured :: "u8 list \<Rightarrow> u16 \<Rightarrow> base" where
  "captured bs n = Pkt (Packet.extend (zero_packet\<lparr>refcnt := 1, caplen := n, plength := n, poffset := 48\<rparr>)
     \<lparr>content = memcpy 48 bs (\<lambda>_. 0), content_end = 48 + length bs + 64\<rparr>)"

lemma captured_simps [simp]:
  "getOffset (captured bs n) = 48" "base_length (captured bs n) = n"
  "content (packet (captured bs n)) = memcpy 48 bs (\<lambda>_. 0)"
  "content_end (packet (captured bs n)) = 112 + length bs"
  by (simp_all add: captured_def zero_packet_def Packet.extend_def)

lemma fixed_sizes [simp]: "layer_size Eth a b = Inr 14" "layer_size Vlan a b = Inr 4" "layer_size Mpls a b = Inr 4"
  "layer_size Udp a b = Inr 8" "layer_size Sctp a b = Inr 12" "layer_size SctpChunkData a b = Inr 16"
  "layer_size M2ua a b = Inr 12" "layer_size Mtp a b = Inr 8" "layer_size Mtp3 a b = Inr 5"
  "layer_size Hdlc a b = Inr 2" "layer_size Lapd a b = Inr 4" "layer_size Isup a b = Inr 2"
  "layer_size Sccp a b = Inr 1" "layer_size Tcap a b = Inr 1"
  by (simp_all add: layer_sizes)

theorem rebase_typed_witness:
  "\<exists>b'. rebase [Vlan, Eth] (captured [] 60) = Inr b' \<and> unat (getOffset b') = 62 \<and> unat (base_length b') = 46 \<and>
    stack_ok [Mpls, Vlan] b' \<and> hdr [Mpls, Vlan] b' = Inr 66"
  using rebase_typed [of "[Mpls]" Vlan "[Eth]" "captured [] 60" 60] by (auto simp: hdr_def)

text \<open>The length check of \<open>payloadLength\<close> compares the window with the size of the outermost header
  alone: with a window that holds it but not the headers below it, the answer of the two-layer
  stack is beyond 65000 bytes instead of an assertion.\<close>

theorem payloadLength_wraps:
  assumes "l \<in> {Vlan, Mpls}" and "m \<in> {Eth, Vlan, Mpls}" and "4 \<le> base_length b"
  shows "payloadLength [l, m] b = Inr (base_length b - (4 + sizeof_hdr m)) \<and>
    (if 4 + unat (sizeof_hdr m) \<le> unat (base_length b)
     then unat (base_length b - (4 + sizeof_hdr m)) = unat (base_length b) - (4 + unat (sizeof_hdr m))
     else unat (base_length b - (4 + sizeof_hdr m)) = 65536 + unat (base_length b) - (4 + unat (sizeof_hdr m)))"
proof -
  have sz: "unat (4 + sizeof_hdr m) = 4 + unat (sizeof_hdr m)" using assms(2) by auto
  have "payloadLength [l, m] b = Inr (base_length b - (4 + sizeof_hdr m))"
    using assms by (auto simp: payloadLength_def size_of_def hdr_def)
  then show ?thesis by (simp add: unat_sub_if' sz)
qed

lemma payloadLength_wraps_witness: "payloadLength [Vlan, Eth] (captured [] 10) = Inr 65528"
  using payloadLength_wraps [of Vlan Eth "captured [] 10"] by simp

end
