(* ===== verification/Extract_Eth.thy ===== *)
theory Extract_Eth
  imports Layers
begin

text \<open>
  \<^verbatim>\<open>lib/libstack/ExtractorEth.h\<close> and \<^verbatim>\<open>ExtractorIp4.h\<close>: the walk from an Ethernet header over
  VLAN tags and MPLS labels to the IP header, and from there to the transport header.

  The extractors are base classes of the application's parser, the \<^verbatim>\<open>PARENT\<close>: it is a parameter
  here, a record of its member functions with a state of its own. \<open>None\<close> is the null pointer. The
  argument \<^verbatim>\<open>depth\<close> is only passed on to callbacks and has no influence.
\<close>

subsection \<open>The application's parser\<close>

type_synonym 's got = "base \<Rightarrow> 's \<Rightarrow> (base option \<times> 's) res"

record 's parent =
  skipVlan :: "layer list \<Rightarrow> base \<Rightarrow> 's \<Rightarrow> (bool \<times> 's) res"
  skipMpls :: "layer list \<Rightarrow> base \<Rightarrow> 's \<Rightarrow> (bool \<times> 's) res"
  gotEth :: "'s got"
  gotIp4 :: "'s got"
  gotTcp :: "'s got"
  gotUdp :: "'s got"
  gotSctp :: "'s got"

subsection \<open>Ethernet, VLAN and MPLS\<close>

text \<open>The enumerators hold the types in network order, as a load on a little-endian host gives them.\<close>

definition EthIP4 :: u16 where "EthIP4 = 0x0008"
definition EthVlan :: u16 where "EthVlan = 0x0081"
definition EthQinQ :: u16 where "EthQinQ = 0xA888"
definition EthMplsU :: u16 where "EthMplsU = 0x4788"
definition EthMplsM :: u16 where "EthMplsM = 0x4888"
definition VlanIP4 :: u16 where "VlanIP4 = 0x0008"
definition VlanVlan :: u16 where "VlanVlan = 0x0081"
definition VlanMplsU :: u16 where "VlanMplsU = 0x4788"
definition VlanMplsM :: u16 where "VlanMplsM = 0x4888"
definition MplsIP4 :: u8 where "MplsIP4 = 1"

text \<open>\<^verbatim>\<open>PARENT::gotX(x.makeX().rebase())\<close> with \<open>x\<close> the stack \<open>ls\<close>.\<close>

definition got :: "'s got \<Rightarrow> layer list \<Rightarrow> base \<Rightarrow> 's \<Rightarrow> (base option \<times> 's) res" where
  "got f ls b s = rbind (rebase ls b) (\<lambda>b'. f b' s)"

definition extractMpls :: "'s parent \<Rightarrow> layer list \<Rightarrow> base \<Rightarrow> 's \<Rightarrow> (base option \<times> 's) res" where
  "extractMpls P mpls1 b s =
     rbind (skipMpls P mpls1 b s) (\<lambda>(skip, s).
     if \<not> skip then Inr (Some b, s)
     else rbind (hdr mpls1 b) (\<lambda>a. rbind (mpls_getBs a b) (\<lambda>bs.
       if bs = MplsIP4 then got (gotIp4 P) (Ip4 # mpls1) b s
       else let mpls2 = Mpls # mpls1 in
         rbind (skipMpls P mpls2 b s) (\<lambda>(skip, s).
         if \<not> skip then Inr (Some b, s)
         else rbind (hdr mpls2 b) (\<lambda>a. rbind (mpls_getBs a b) (\<lambda>bs.
           if bs = MplsIP4 then got (gotIp4 P) (Ip4 # mpls2) b s
           else let mpls3 = Mpls # mpls2 in
             rbind (skipMpls P mpls3 b s) (\<lambda>(skip, s).
             if \<not> skip then Inr (Some b, s)
             else rbind (hdr mpls3 b) (\<lambda>a. rbind (mpls_getBs a b) (\<lambda>bs.
               if bs = MplsIP4 then got (gotIp4 P) (Ip4 # mpls3) b s
               else got (gotEth P) (Eth # mpls3) b s)))))))))"

definition extractEth :: "'s parent \<Rightarrow> layer list \<Rightarrow> base \<Rightarrow> 's \<Rightarrow> (base option \<times> 's) res" where
  "extractEth P eth b s =
     rbind (hdr eth b) (\<lambda>a. rbind (eth_type a b) (\<lambda>type.
       if type = EthIP4 then got (gotIp4 P) (Ip4 # eth) b s
       else if type = EthVlan \<or> type = EthQinQ then
         (let vlan1 = Vlan # eth in
          rbind (skipVlan P vlan1 b s) (\<lambda>(skip, s).
          if \<not> skip then Inr (Some b, s)
          else rbind (hdr vlan1 b) (\<lambda>a. rbind (vlan_tpid a b) (\<lambda>tpid.
            if tpid = VlanIP4 then got (gotIp4 P) (Ip4 # vlan1) b s
            else if tpid = VlanVlan then
              (let vlan2 = Vlan # vlan1 in
               rbind (skipVlan P vlan2 b s) (\<lambda>(skip, s).
               if \<not> skip then Inr (Some b, s)
               else rbind (hdr vlan2 b) (\<lambda>a. rbind (vlan_tpid a b) (\<lambda>tpid.
                 if tpid = VlanIP4 then got (gotIp4 P) (Ip4 # vlan2) b s
                 else if tpid = VlanMplsU \<or> tpid = VlanMplsM then extractMpls P (Mpls # vlan2) b s
                 else Inr (Some b, s)))))
            else if tpid = VlanMplsU \<or> tpid = VlanMplsM then extractMpls P (Mpls # vlan1) b s
            else Inr (Some b, s)))))
       else if type = EthMplsU \<or> type = EthMplsM then extractMpls P (Mpls # eth) b s
       else Inr (Some b, s)))"

subsection \<open>IPv4\<close>

definition Ip4Tcp :: u8 where "Ip4Tcp = 0x06"
definition Ip4Udp :: u8 where "Ip4Udp = 0x11"
definition Ip4Sctp :: u8 where "Ip4Sctp = 0x84"
definition Ip4Ip4 :: u8 where "Ip4Ip4 = 0x85"

definition extractIp4 :: "'s parent \<Rightarrow> layer list \<Rightarrow> base \<Rightarrow> 's \<Rightarrow> (base option \<times> 's) res" where
  "extractIp4 P ip b s =
     rbind (getLength ip b) (\<lambda>n. rbind (size_of ip b) (\<lambda>z. rbind (hdr ip b) (\<lambda>a. rbind (ip_total_length a b) (\<lambda>t.
       if n \<ge> z \<and> LS_ntohs t \<le> n
       then rbind (ip_protocol a b) (\<lambda>p.
              if p = Ip4Ip4 then got (gotIp4 P) (Ip4 # ip) b s
              else if p = Ip4Tcp then got (gotTcp P) (Tcp # ip) b s
              else if p = Ip4Udp then got (gotUdp P) (Udp # ip) b s
              else if p = Ip4Sctp then got (gotSctp P) (Sctp # ip) b s
              else Inr (Some b, s))
       else Inr (Some b, s)))))"

subsection \<open>Frames\<close>

text \<open>
  An Ethernet frame with VLAN tags, the first of them of either type, and a stack of MPLS entries
  of which only the last has the bottom-of-stack bit.
\<close>

type_synonym label = "u8 \<times> u8 \<times> u8 \<times> u8"

fun mpls_entry :: "bool \<Rightarrow> label \<Rightarrow> u8 list" where
  "mpls_entry bottom (b0, b1, b2, ttl) = [b0, b1, if bottom then b2 OR 1 else b2 AND NOT 1, ttl]"

fun mpls_wire :: "label list \<Rightarrow> u8 list" where
  "mpls_wire [] = []"
| "mpls_wire (k # ls) = mpls_entry (ls = []) k @ mpls_wire ls"

fun after_macs :: "bool \<Rightarrow> (u8 \<times> u8) list \<Rightarrow> label list \<Rightarrow> u8 list" where
  "after_macs q [] [] = [0x08, 0x00]"
| "after_macs q [] (l # ls) = [0x88, 0x47] @ mpls_wire (l # ls)"
| "after_macs q ((hi, lo) # vs) ls = (if q then [0x88, 0xA8] else [0x81, 0x00]) @ [hi, lo] @ after_macs False vs ls"

definition eth_frame :: "u8 list \<Rightarrow> bool \<Rightarrow> (u8 \<times> u8) list \<Rightarrow> label list \<Rightarrow> u8 list \<Rightarrow> u8 list" where
  "eth_frame macs q vs ls ip = macs @ after_macs q vs ls @ ip"

lemma rd_captured:
  "48 \<le> a \<Longrightarrow> a < 48 + length bs \<Longrightarrow> rd8 a (captured bs n) = Inr (bs ! (a - 48))"
  "48 \<le> a \<Longrightarrow> a + 1 < 48 + length bs \<Longrightarrow>
   rd16 a (captured bs n) = Inr (word_cat (bs ! (a - 47)) (bs ! (a - 48)))"
  by (simp_all add: rd8_def rd16_def ld16_def memcpy_def)

lemma mpls_entry_simps: "length (mpls_entry fin k) = 4" "take_bit 1 (mpls_entry fin k ! 2) = (if fin then 1 else 0)"
proof -
  have or: "take_bit 1 ((x :: u8) OR 1) = 1" for x by (rule bit_word_eqI) (auto simp: bit_simps)
  have and_not: "take_bit 1 ((x :: u8) AND NOT 1) = 0" for x by (rule bit_word_eqI) (auto simp: bit_simps)
  obtain b0 b1 b2 b3 where k: "k = (b0, b1, b2, b3)" by (cases k)
  then have "mpls_entry fin k ! 2 = (if fin then b2 OR 1 else b2 AND NOT 1)" by simp
  then show "take_bit 1 (mpls_entry fin k ! 2) = (if fin then 1 else 0)" by (simp only: or and_not if_distrib [of "take_bit 1"])
  show "length (mpls_entry fin k) = 4" using k by simp
qed

lemma type_words: "word_cat (0 :: u8) (8 :: u8) = (0x0008 :: u16)" "word_cat (0 :: u8) (129 :: u8) = (0x0081 :: u16)"
  "word_cat (168 :: u8) (136 :: u8) = (0xA888 :: u16)" "word_cat (71 :: u8) (136 :: u8) = (0x4788 :: u16)"
  by (simp_all add: word_cat_eq)

lemmas eth_types = EthIP4_def EthVlan_def EthQinQ_def EthMplsU_def EthMplsM_def VlanIP4_def VlanVlan_def
  VlanMplsU_def VlanMplsM_def MplsIP4_def

lemma got_ip4:
  assumes "fullSize sub b = Inr s" and "unat s = length pre" and "b = captured (pre @ ip) n" and "4 \<le> length ip"
  shows "got f (Ip4 # sub) b st = f (make_ptr b (LS_ntohs (word_cat (ip ! 3) (ip ! 2)) - s) (48 + s)) st"
proof -
  have "rd16 (48 + unat s + 2) b = Inr (word_cat (ip ! 3) (ip ! 2))"
    using assms rd_captured(2) [of "48 + unat s + 2" "pre @ ip" n] by (simp add: nth_append)
  then show ?thesis
    using assms(1,3) by (simp add: got_def rebase_def hdr_def ip_total_length_def)
qed

lemma mpls_bs:
  assumes "fullSize sub b = Inr s" and "unat s = length pre" and "b = captured (pre @ mpls_entry fin k @ rest) n"
  shows "rbind (hdr (Mpls # sub) b) (\<lambda>a. rbind (mpls_getBs a b) f) = f (if fin then 1 else 0)"
proof -
  have "rd8 (48 + unat s + 2) b = Inr (mpls_entry fin k ! 2)"
    using assms rd_captured(1) [of "48 + unat s + 2" "pre @ mpls_entry fin k @ rest" n]
    by (simp add: nth_append mpls_entry_simps)
  then have "mpls_getBs (48 + unat s) b = Inr (if fin then 1 else 0)"
    by (simp only: mpls_getBs_def rbind_simps mpls_entry_simps)
  then show ?thesis using assms(1,3) by (simp add: hdr_def)
qed

text \<open>The labels, behind \<open>pre\<close> bytes that the layers below account for.\<close>

lemma mpls_walk:
  assumes "fullSize sub b = Inr z" and "unat z = length pre" and "length pre \<le> 100" and "1 \<le> length ls" and "length ls \<le> 3"
    and b: "b = captured (pre @ mpls_wire ls @ ip) n" and "4 \<le> length ip"
    and skip: "\<And>ls b s. skipMpls P ls b s = Inr (True, s)"
  shows "extractMpls P (Mpls # sub) b s =
    (let h = z + word_of_nat (4 * length ls)
     in gotIp4 P (make_ptr b (LS_ntohs (word_cat (ip ! 3) (ip ! 2)) - h) (48 + h)) s)"
proof -
  have z: "unat (z + 4) = length pre + 4" "unat (z + 8) = length pre + 8" "unat (z + 12) = length pre + 12"
    using assms(2,3) by (simp_all add: u16_add)
  have f: "fullSize (Mpls # sub) b = Inr (z + 4)" "fullSize (Mpls # Mpls # sub) b = Inr (z + 8)"
    "fullSize (Mpls # Mpls # Mpls # sub) b = Inr (z + 12)" using assms(1) by (simp_all add: add.commute)
  note entry1 = mpls_bs [OF assms(1,2)]
  note entry2 = mpls_bs [OF f(1), of "pre @ mpls_entry False k" for k]
  note entry3 = mpls_bs [OF f(2), of "pre @ mpls_entry False k @ mpls_entry False l" for k l]
  have "(\<exists>k. ls = [k]) \<or> (\<exists>k l. ls = [k, l]) \<or> (\<exists>k l m. ls = [k, l, m])"
    using assms(4,5) by (cases ls; cases "tl ls"; cases "tl (tl ls)") auto
  then show ?thesis
  proof (elim disjE exE)
    fix k assume ls: "ls = [k]"
    then have e1: "b = captured (pre @ mpls_entry True k @ ip) n" using b by simp
    have g: "got f (Ip4 # Mpls # sub) b st =
        f (make_ptr b (LS_ntohs (word_cat (ip ! 3) (ip ! 2)) - (z + 4)) (48 + (z + 4))) st" for f :: "'a got" and st
      using z b assms(7) ls by (intro got_ip4 [OF f(1), of "pre @ mpls_wire ls"]) (simp_all add: mpls_entry_simps)
    show ?thesis
      using ls by (simp add: extractMpls_def skip MplsIP4_def entry1 [OF e1] g del: fullSize.simps)
  next
    fix k l assume ls: "ls = [k, l]"
    then have e1: "b = captured (pre @ mpls_entry False k @ mpls_entry True l @ ip) n" using b by simp
    then have e2: "b = captured ((pre @ mpls_entry False k) @ mpls_entry True l @ ip) n" by simp
    have g: "got f (Ip4 # Mpls # Mpls # sub) b st =
        f (make_ptr b (LS_ntohs (word_cat (ip ! 3) (ip ! 2)) - (z + 8)) (48 + (z + 8))) st" for f :: "'a got" and st
      using z b assms(7) ls by (intro got_ip4 [OF f(2), of "pre @ mpls_wire ls"]) (simp_all add: mpls_entry_simps)
    have "unat (z + 4) = length (pre @ mpls_entry False k)" using z by (simp add: mpls_entry_simps)
    then show ?thesis
      using ls by (simp add: extractMpls_def skip MplsIP4_def entry1 [OF e1] entry2 [OF _ e2] g del: fullSize.simps)
  next
    fix k l m assume ls: "ls = [k, l, m]"
    then have e1: "b = captured (pre @ mpls_entry False k @ mpls_entry False l @ mpls_entry True m @ ip) n"
      using b by simp
    then have e2: "b = captured ((pre @ mpls_entry False k) @ mpls_entry False l @ mpls_entry True m @ ip) n"
      and e3: "b = captured ((pre @ mpls_entry False k @ mpls_entry False l) @ mpls_entry True m @ ip) n" by simp_all
    have g: "got f (Ip4 # Mpls # Mpls # Mpls # sub) b st =
        f (make_ptr b (LS_ntohs (word_cat (ip ! 3) (ip ! 2)) - (z + 12)) (48 + (z + 12))) st" for f :: "'a got" and st
      using z b assms(7) ls by (intro got_ip4 [OF f(3), of "pre @ mpls_wire ls"]) (simp_all add: mpls_entry_simps)
    have "unat (z + 4) = length (pre @ mpls_entry False k)"
      "unat (z + 8) = length (pre @ mpls_entry False k @ mpls_entry False l)" using z by (simp_all add: mpls_entry_simps)
    then show ?thesis
      using ls by (simp add: extractMpls_def skip MplsIP4_def entry1 [OF e1] entry2 [OF _ e2] entry3 [OF _ e3] g
          del: fullSize.simps)
  qed
qed

lemma type_at: "b = captured (pre @ x # y # rest) n \<Longrightarrow> a = 48 + length pre \<Longrightarrow> rd16 a b = Inr (word_cat y x)"
  using rd_captured(2) [of "48 + length pre" "pre @ [x, y] @ rest" n] by (simp add: nth_append)

lemma mpls_type_at:
  assumes "b = captured (pre @ after_macs q [] ls @ ip) n" and "a = 48 + length pre"
  shows "rd16 a b = Inr (if ls = [] then 0x0008 else 0x4788)"
  using assms type_at [of b pre "0x08" "0x00" ip n a] type_at [of b pre "0x88" "0x47" "mpls_wire ls @ ip" n a]
  by (cases ls) (simp_all add: type_words)

lemma vlan_type_at:
  assumes "b = captured (pre @ after_macs q ((x, y) # vs) ls @ ip) n" and "a = 48 + length pre"
  shows "rd16 a b = Inr (if q then 0xA888 else 0x0081)"
  using assms type_at [of b pre "if q then 0x88 else 0x81" "if q then 0xA8 else 0x00" "[x, y] @ after_macs False vs ls @ ip" n a]
  by (simp add: type_words split: if_splits)

text \<open>Behind the tags: the IP header, or the labels and then the IP header.\<close>

lemma after_tags:
  assumes "fullSize sub b = Inr z" and "unat z = length pre + 2" and "length pre \<le> 90" and "length ls \<le> 3"
    and b: "b = captured (pre @ after_macs q [] ls @ ip) n" and "4 \<le> length ip"
    and skip: "\<And>ls b s. skipMpls P ls b s = Inr (True, s)"
  shows "(if ls = [] then got (gotIp4 P) (Ip4 # sub) b s else extractMpls P (Mpls # sub) b s) =
    (let h = z + word_of_nat (4 * length ls)
     in gotIp4 P (make_ptr b (LS_ntohs (word_cat (ip ! 3) (ip ! 2)) - h) (48 + h)) s)"
proof (cases ls)
  case Nil
  then have "b = captured ((pre @ [0x08, 0x00]) @ ip) n" using b by simp
  from got_ip4 [OF assms(1) _ this assms(6), of "gotIp4 P" s] assms(2) Nil show ?thesis by simp
next
  case (Cons k ks)
  then have "b = captured ((pre @ [0x88, 0x47]) @ mpls_wire ls @ ip) n" using b by simp
  from mpls_walk [OF assms(1) _ _ _ assms(4) this assms(6) skip, of s] assms(2,3) Cons show ?thesis by simp
qed

text \<open>The tags: \<open>st\<close> are the layers in front of the type field that ends them, \<open>pre\<close> the bytes.\<close>

lemma walk_tags:
  assumes b: "b = captured (macs @ after_macs q vs ls @ ip) n" and "length macs = 12" and "length vs \<le> 2"
    and skip: "\<And>ls b s. skipVlan P ls b s = Inr (True, s)"
  obtains st pre q' where
    "extractEth P [Eth] b s = (if ls = [] then got (gotIp4 P) (Ip4 # st) b s else extractMpls P (Mpls # st) b s)"
    "fullSize st b = Inr (word_of_nat (14 + 4 * length vs))" "b = captured (pre @ after_macs q' [] ls @ ip) n"
    "length pre = 12 + 4 * length vs"
proof -
  have off: "getOffset b = 48" by (simp add: b)
  note walk = extractEth_def hdr_def off eth_type_def vlan_tpid_def eth_types skip
  let ?tag = "\<lambda>q x y. (if q then [0x88, 0xA8] else [0x81, 0x00]) @ [x, y]"
  from assms(3) consider "vs = []" | x y where "vs = [(x, y)]" | x y x' y' where "vs = [(x, y), (x', y')]"
    by (cases vs; cases "tl vs") auto
  then show thesis
  proof cases
    case 1
    with b have e: "b = captured (macs @ after_macs q [] ls @ ip) n" by simp
    have "rd16 60 b = Inr (if ls = [] then 0x0008 else 0x4788)" using mpls_type_at [OF e] assms(2) by simp
    then have "extractEth P [Eth] b s = (if ls = [] then got (gotIp4 P) (Ip4 # [Eth]) b s else extractMpls P (Mpls # [Eth]) b s)"
      by (simp add: walk)
    then show thesis by (rule that [OF _ _ e]) (use assms(2) 1 in simp_all)
  next
    case (2 x y)
    have e: "b = captured (macs @ after_macs q [(x, y)] ls @ ip) n" using b 2 by simp
    then have e': "b = captured ((macs @ ?tag q x y) @ after_macs False [] ls @ ip) n" by simp
    have "rd16 60 b = Inr (if q then 0xA888 else 0x0081)" using vlan_type_at [OF e] assms(2) by simp
    moreover have "rd16 64 b = Inr (if ls = [] then 0x0008 else 0x4788)" using assms(2) by (intro mpls_type_at [OF e']) simp
    ultimately have "extractEth P [Eth] b s =
        (if ls = [] then got (gotIp4 P) (Ip4 # [Vlan, Eth]) b s else extractMpls P (Mpls # [Vlan, Eth]) b s)"
      by (simp add: walk)
    then show thesis by (rule that [OF _ _ e']) (use assms(2) 2 in simp_all)
  next
    case (3 x y x' y')
    have e: "b = captured (macs @ after_macs q [(x, y), (x', y')] ls @ ip) n" using b 3 by simp
    then have e': "b = captured ((macs @ ?tag q x y) @ after_macs False [(x', y')] ls @ ip) n" by simp
    then have e'': "b = captured ((macs @ ?tag q x y @ ?tag False x' y') @ after_macs False [] ls @ ip) n" by simp
    have "rd16 60 b = Inr (if q then 0xA888 else 0x0081)" using vlan_type_at [OF e] assms(2) by simp
    moreover have "rd16 64 b = Inr 0x0081" using vlan_type_at [OF e', of 64] assms(2) by simp
    moreover have "rd16 68 b = Inr (if ls = [] then 0x0008 else 0x4788)" using assms(2) by (intro mpls_type_at [OF e'']) simp
    ultimately have "extractEth P [Eth] b s =
        (if ls = [] then got (gotIp4 P) (Ip4 # [Vlan, Vlan, Eth]) b s else extractMpls P (Mpls # [Vlan, Vlan, Eth]) b s)"
      by (simp add: walk)
    then show thesis by (rule that [OF _ _ e'']) (use assms(2) 3 in simp_all)
  qed
qed

text \<open>C17. On a frame with at most two VLAN tags and three MPLS entries, whose tags the application
  accepts, the walk ends in \<open>gotIp4\<close> with a window that starts at the IP header.\<close>

theorem extract_eth_roundtrip:
  assumes "length macs = 12" and "length vs \<le> 2" and "length ls \<le> 3" and "4 \<le> length ip"
    and "\<And>ls b s. skipVlan P ls b s = Inr (True, s)" and "\<And>ls b s. skipMpls P ls b s = Inr (True, s)"
  shows "extractEth P [Eth] (captured (eth_frame macs q vs ls ip) n) s =
    (let h = word_of_nat (14 + 4 * length vs + 4 * length ls); b = captured (eth_frame macs q vs ls ip) n
     in gotIp4 P (make_ptr b (LS_ntohs (word_cat (ip ! 3) (ip ! 2)) - h) (48 + h)) s)"
proof -
  define b where b: "b = captured (eth_frame macs q vs ls ip) n"
  then have "b = captured (macs @ after_macs q vs ls @ ip) n" by (simp add: eth_frame_def)
  from walk_tags [OF this assms(1,2,5), where s = s] obtain st pre q' where
    w: "extractEth P [Eth] b s = (if ls = [] then got (gotIp4 P) (Ip4 # st) b s else extractMpls P (Mpls # st) b s)"
      "fullSize st b = Inr (word_of_nat (14 + 4 * length vs))" "b = captured (pre @ after_macs q' [] ls @ ip) n"
      "length pre = 12 + 4 * length vs" by blast
  have "14 + 4 * length vs < 2 ^ LENGTH(16)" using assms(2) by simp
  from unat_word_of_nat [OF this] have "unat (word_of_nat (14 + 4 * length vs) :: u16) = length pre + 2" "length pre \<le> 90"
    using w(4) assms(2) by simp_all
  from after_tags [OF w(2) this assms(3) w(3) assms(4,6), of s] w(1) show ?thesis by (simp add: b Let_def)
qed

text \<open>An application that accepts every tag and records the windows it is given.\<close>

definition recorder :: "base list parent" where
  "recorder = (let g = (\<lambda>b s. Inr (None, b # s)) in
     \<lparr>skipVlan = (\<lambda>ls b s. Inr (True, s)), skipMpls = (\<lambda>ls b s. Inr (True, s)), gotEth = g, gotIp4 = g, gotTcp = g,
      gotUdp = g, gotSctp = g\<rparr>)"

lemma recorder_simps [simp]:
  "skipVlan recorder ls b s = Inr (True, s)" "skipMpls recorder ls b s = Inr (True, s)"
  "gotIp4 recorder b s = Inr (None, b # s)" "gotEth recorder b s = Inr (None, b # s)"
  "gotUdp recorder b s = Inr (None, b # s)" "gotTcp recorder b s = Inr (None, b # s)"
  "gotSctp recorder b s = Inr (None, b # s)"
  by (simp_all add: recorder_def Let_def)

lemma extract_eth_roundtrip_witness:
  "extractEth recorder [Eth] (captured (eth_frame (replicate 12 0) True [(0, 1)] [(0, 1, 2, 64)] [0x45, 0, 0, 40]) 26) [] =
   Inr (None, [make_ptr (captured (eth_frame (replicate 12 0) True [(0, 1)] [(0, 1, 2, 64)] [0x45, 0, 0, 40]) 26) 18 70])"
  using extract_eth_roundtrip [of "replicate 12 0" "[(0, 1)]" "[(0, 1, 2, 64)]" "[0x45, 0, 0, 40]" recorder True 26 "[]"]
  by (simp add: LS_ntohs_def word_cat_eq Let_def)

subsection \<open>Reads\<close>

lemma rd_reserve:
  "unat (getOffset b) + 64 \<le> content_end (packet b) \<Longrightarrow> a < 63 \<Longrightarrow>
   (\<exists>v. rd8 (unat (getOffset b) + a) b = Inr v) \<and> (\<exists>v. rd16 (unat (getOffset b) + a) b = Inr v)"
  by (simp add: rd8_def rd16_def)

lemma got_safe:
  assumes "unat (getOffset b) + 64 \<le> content_end (packet b)" and "fullSize sub b = Inr z" and "unat z < 60"
    and "l = Ip4 \<or> (\<exists>n. getLength (l # sub) b = Inr n)" and "\<And>b. f b s \<noteq> Inl OutOfBounds"
  shows "got f (l # sub) b s \<noteq> Inl OutOfBounds"
proof -
  have "\<exists>n. getLength (l # sub) b = Inr n"
  proof (cases "l = Ip4")
    case True
    with assms(2) rd_reserve [OF assms(1), of "unat z + 2"] assms(3) show ?thesis
      by (auto simp: hdr_def ip_total_length_def add.assoc)
  next
    case False
    with assms(4) show ?thesis by blast
  qed
  then show ?thesis using assms(2,5) by (auto simp: got_def rebase_def)
qed

text \<open>What the application may do so that a fault is not its own.\<close>

definition parent_ok :: "'s parent \<Rightarrow> bool" where
  "parent_ok P \<longleftrightarrow> (\<forall>ls b s. skipVlan P ls b s \<noteq> Inl OutOfBounds \<and> skipMpls P ls b s \<noteq> Inl OutOfBounds) \<and>
     (\<forall>b s. gotEth P b s \<noteq> Inl OutOfBounds \<and> gotIp4 P b s \<noteq> Inl OutOfBounds)"

lemma tag_step:
  assumes "m \<noteq> Inl OutOfBounds" and "\<exists>a v. A = Inr a \<and> R a = Inr v" and "\<And>s v. G s v \<noteq> Inl OutOfBounds"
  shows "rbind m (\<lambda>(skip, s). if \<not> skip then Inr (c, s) else rbind A (\<lambda>a. rbind (R a) (G s))) \<noteq> Inl OutOfBounds"
  using assms by (cases m) (auto split: prod.splits)

lemma field_safe:
  assumes "unat (getOffset b) + 64 \<le> content_end (packet b)" and "fullSize sub b = Inr z" and "unat z < 60"
  shows "\<exists>a v. hdr (l # sub) b = Inr a \<and> mpls_getBs a b = Inr v" and "\<exists>a v. hdr (l # sub) b = Inr a \<and> vlan_tpid a b = Inr v"
  using rd_reserve [OF assms(1), of "unat z + 2"] assms(2,3)
  by (auto simp: hdr_def mpls_getBs_def vlan_tpid_def add.assoc)

lemma parent_okD:
  "parent_ok P \<Longrightarrow> skipVlan P ls b s \<noteq> Inl OutOfBounds" "parent_ok P \<Longrightarrow> skipMpls P ls b s \<noteq> Inl OutOfBounds"
  "parent_ok P \<Longrightarrow> gotEth P b s \<noteq> Inl OutOfBounds" "parent_ok P \<Longrightarrow> gotIp4 P b s \<noteq> Inl OutOfBounds"
  by (simp_all add: parent_ok_def)

lemma mpls_safe:
  assumes P: "parent_ok P" and e: "unat (getOffset b) + 64 \<le> content_end (packet b)" and z: "fullSize sub b = Inr z" "unat z < 40"
    and len: "getLength sub b = Inr n"
  shows "extractMpls P (Mpls # sub) b s \<noteq> Inl OutOfBounds"
proof -
  have f: "fullSize (Mpls # sub) b = Inr (z + 4)" "fullSize (Mpls # Mpls # sub) b = Inr (z + 8)"
    "fullSize (Mpls # Mpls # Mpls # sub) b = Inr (z + 12)" using z by (simp_all add: add.commute)
  have u: "unat z < 60" "unat (z + 4) < 60" "unat (z + 8) < 60" "unat (z + 12) < 60" using z(2) by (simp_all add: u16_add)
  have ip: "got (gotIp4 P) (Ip4 # Mpls # sub) b s \<noteq> Inl OutOfBounds" "got (gotIp4 P) (Ip4 # Mpls # Mpls # sub) b s \<noteq> Inl OutOfBounds"
    "got (gotIp4 P) (Ip4 # Mpls # Mpls # Mpls # sub) b s \<noteq> Inl OutOfBounds"
    "got (gotEth P) (Eth # Mpls # Mpls # Mpls # sub) b s \<noteq> Inl OutOfBounds" for s
    using got_safe [OF e f(1) u(2), of Ip4 "gotIp4 P" s] got_safe [OF e f(2) u(3), of Ip4 "gotIp4 P" s]
      got_safe [OF e f(3) u(4), of Ip4 "gotIp4 P" s] got_safe [OF e f(3) u(4), of Eth "gotEth P" s] len
    by (simp_all add: parent_okD [OF P])
  show ?thesis
    unfolding extractMpls_def Let_def
    by (intro tag_step parent_okD [OF P] field_safe [OF e z(1) u(1)] field_safe [OF e f(1) u(2)] field_safe [OF e f(2) u(3)])
       (simp add: ip, intro impI tag_step parent_okD [OF P] field_safe [OF e f(1) u(2)] field_safe [OF e f(2) u(3)],
        simp add: ip, intro impI tag_step parent_okD [OF P] field_safe [OF e f(2) u(3)], simp add: ip)
qed

text \<open>C29. No length is checked on the way, but with the reserve behind every captured packet
  the walk never reads outside the allocation: whatever the bytes are, even none, the only faults are
  those of the application.\<close>

theorem extractEth_stays_in_allocation:
  assumes "parent_ok P" and "unat (getOffset b) + 64 \<le> content_end (packet b)"
  shows "extractEth P [Eth] b s \<noteq> Inl OutOfBounds"
proof -
  note P = assms(1) and e = assms(2)
  have f: "fullSize [Eth] b = Inr 14" "fullSize [Vlan, Eth] b = Inr 18" "fullSize [Vlan, Vlan, Eth] b = Inr 22" by simp_all
  have ip: "got (gotIp4 P) (Ip4 # [Eth]) b s \<noteq> Inl OutOfBounds" "got (gotIp4 P) (Ip4 # [Vlan, Eth]) b s \<noteq> Inl OutOfBounds"
    "got (gotIp4 P) (Ip4 # [Vlan, Vlan, Eth]) b s \<noteq> Inl OutOfBounds" for s
    using got_safe [OF e f(1), of Ip4 "gotIp4 P" s] got_safe [OF e f(2), of Ip4 "gotIp4 P" s]
      got_safe [OF e f(3), of Ip4 "gotIp4 P" s] by (simp_all add: parent_okD [OF P])
  have mpls: "extractMpls P (Mpls # [Eth]) b s \<noteq> Inl OutOfBounds" "extractMpls P (Mpls # [Vlan, Eth]) b s \<noteq> Inl OutOfBounds"
    "extractMpls P (Mpls # [Vlan, Vlan, Eth]) b s \<noteq> Inl OutOfBounds" for s
    using mpls_safe [OF P e f(1)] mpls_safe [OF P e f(2)] mpls_safe [OF P e f(3)] by simp_all
  obtain v where "rd16 (unat (getOffset b) + 12) b = Inr v" using rd_reserve [OF e, of 12] by auto
  then have "rbind (hdr [Eth] b) (\<lambda>a. rbind (eth_type a b) g) = g v" for g :: "u16 \<Rightarrow> (base option \<times> 'a) res"
    by (simp add: hdr_def eth_type_def)
  then show ?thesis
    unfolding extractEth_def Let_def
    by (simp add: ip mpls, intro impI conjI tag_step parent_okD [OF P] field_safe [OF e f(1)] field_safe [OF e f(2)];
        simp add: ip mpls; intro impI conjI tag_step parent_okD [OF P] field_safe [OF e f(2)]; simp add: ip mpls)
qed

lemma extractEth_stays_in_allocation_witness:
  "extractEth recorder [Eth] (captured [] 0) [] \<noteq> Inl OutOfBounds"
  using extractEth_stays_in_allocation [of recorder "captured [] 0" "[]"] by (simp add: parent_ok_def)

subsection \<open>IPv4\<close>

text \<open>The dispatch on an IP header, at the start of the window: the second half of the length check
  compares \<open>total_length\<close> with itself, so neither the number of captured bytes nor the
  window's length has any influence, and the window given on is as long as the header claims. Code
  0x85, and not 4, is taken for IP in IP; header lengths below 5 pass.\<close>

theorem ip4_dispatch:
  assumes "rd8 (unat (getOffset b)) b = Inr v" and "rd16 (unat (getOffset b) + 2) b = Inr t"
    and "rd8 (unat (getOffset b) + 9) b = Inr p"
  shows "let z = push_bit 2 (ucast (take_bit 4 v)) :: u16; n = LS_ntohs t; w = make_ptr b (n - z) (getOffset b + z)
    in (p \<noteq> Ip4Ip4 \<or> n < z) \<longrightarrow> extractIp4 P [Ip4] b s =
      (if n < z then Inr (Some b, s) else if p = 6 then gotTcp P w s else if p = 17 then gotUdp P w s
       else if p = 132 then gotSctp P w s else Inr (Some b, s))"
  using assms
  by (auto simp: extractIp4_def Let_def got_def rebase_def hdr_def size_of_def layer_sizes ip_header_len_def
      ip_total_length_def ip_protocol_def Ip4Ip4_def Ip4Tcp_def Ip4Udp_def Ip4Sctp_def not_less)

lemma ip4_dispatch_witness:
  "extractIp4 recorder [Ip4] (captured [0x45, 0, 5, 220, 0, 0, 0, 0, 64, 17] 10) [] =
   Inr (None, [make_ptr (captured [0x45, 0, 5, 220, 0, 0, 0, 0, 64, 17] 10) 1480 68])"
  using ip4_dispatch [of "captured [0x45, 0, 5, 220, 0, 0, 0, 0, 64, 17] 10" "0x45" "0xDC05" 17 recorder "[]"]
  by (simp add: rd_captured word_cat_eq LS_ntohs_def Ip4Ip4_def Let_def)

end
