(* ===== verification/Extract_Sigtran.thy ===== *)
theory Extract_Sigtran
  imports Extract_Eth
begin

text \<open>
  \<^verbatim>\<open>lib/libstack/ss7/ExtractorSctp.h\<close> and \<^verbatim>\<open>ExtractorM3ua.h\<close>, with the header classes they use:
  from an SCTP chunk to the adaptation layer in it, and from an M3UA message over its
  parameters to the SCCP message in the protocol data.

  The loop over the parameters takes a unit of fuel for each; the lemmas say how much is enough
  for a message of known parameters, and which messages no fuel is enough for.
\<close>

text \<open>The application's parser, as in the extractors of the lower layers.\<close>

record 's ss7_parent =
  gotM2ua :: "'s got"
  gotM3ua :: "'s got"
  gotIsup :: "'s got"
  gotSccp :: "'s got"
  gotTcap :: "'s got"

subsection \<open>SCTP chunks\<close>

definition SCTP_DATA :: u8 where "SCTP_DATA = 0"
definition SctpM2ua :: u32 where "SctpM2ua = 0x02000000"
definition SctpM3ua :: u32 where "SctpM3ua = 0x03000000"

text \<open>
  \<open>SctpChunkData<PKT>(move(chunk))\<close> takes the pointer out of \<open>chunk\<close>: what is returned after
  the inner \<^verbatim>\<open>break\<close> is a null pointer, and the packet goes with \<open>chunkData\<close>.
\<close>

definition extractSctpChunk :: "'s ss7_parent \<Rightarrow> layer list \<Rightarrow> base \<Rightarrow> 's \<Rightarrow> (base option \<times> 's) res" where
  "extractSctpChunk P chunk b s =
     rbind (getLength chunk b) (\<lambda>n. rbind (size_of chunk b) (\<lambda>z.
     if n < z then Inr (Some b, s)
     else rbind (hdr chunk b) (\<lambda>a. rbind (chunk_type a b) (\<lambda>type.
       if type = SCTP_DATA then
         (let chunkData = SctpChunkData # tl chunk in
          rbind (hdr chunkData b) (\<lambda>a. rbind (chunk_proto a b) (\<lambda>proto.
          if proto = SctpM2ua then got (gotM2ua P) (M2ua # chunkData) b s
          else if proto = SctpM3ua then got (gotM3ua P) (M3ua # chunkData) b s
          else Inr (None, s))))
       else Inr (None, s)))))"

subsection \<open>M3UA\<close>

definition PDATA :: u16 where "PDATA = 0x0210"
definition SI_SCCP :: u8 where "SI_SCCP = 3"
definition SI_ISUP :: u8 where "SI_ISUP = 5"

text \<open>\<^verbatim>\<open>sizeof\<close> of \<^verbatim>\<open>M3uaHdr\<close>, \<^verbatim>\<open>M3uaParamter\<close> and \<^verbatim>\<open>M3uaProtocolData\<close>.\<close>

definition SIZEOF_M3uaHdr :: u16 where "SIZEOF_M3uaHdr = 8"
definition SIZEOF_M3uaParamter :: u16 where "SIZEOF_M3uaParamter = 4"
definition SIZEOF_M3uaProtocolData :: u16 where "SIZEOF_M3uaProtocolData = 16"

text \<open>
  \<open>getWithOffset\<close> counts from the start of the window, not from the header: it is meant for a rebased
  message.
\<close>

definition getWithOffset :: "u16 \<Rightarrow> base \<Rightarrow> nat" where
  "getWithOffset offset b = unat (getOffset b) + unat offset"

text \<open>\<^verbatim>\<open>*(T*)p\<close>: the bytes of the structure are read.\<close>

definition rd_block :: "nat \<Rightarrow> nat \<Rightarrow> base \<Rightarrow> unit res" where
  "rd_block a n b = (if a + n \<le> content_end (packet b) then Inr () else Inl OutOfBounds)"

definition param_getTag :: "nat \<Rightarrow> base \<Rightarrow> u16 res" where
  "param_getTag a b = rbind (rd16 a b) (\<lambda>w. Inr (LS_ntohs w))"

definition param_getLength :: "nat \<Rightarrow> base \<Rightarrow> u16 res" where
  "param_getLength a b = rbind (rd16 (a + 2) b) (\<lambda>w. Inr (LS_ntohs w))"

definition pd_si :: "nat \<Rightarrow> base \<Rightarrow> u8 res" where
  "pd_si a b = rbind (rd_block a (unat SIZEOF_M3uaProtocolData) b) (\<lambda>_. rd8 (a + 12) b)"

text \<open>\<^verbatim>\<open>details->pushM3ua(m3ua, opcOffset)\<close> on the details behind the packet's data.\<close>

definition map_packet :: "(Captured \<Rightarrow> Captured) \<Rightarrow> base \<Rightarrow> base" where
  "map_packet f b = (case b of Pkt p \<Rightarrow> Pkt (f p) | PktOffset p off \<Rightarrow> PktOffset (f p) off)"

definition push_details :: "limits \<Rightarrow> layer list \<Rightarrow> u16 \<Rightarrow> base \<Rightarrow> base res" where
  "push_details lim m3ua opcOffset b =
     (let k = unat (caplen (packet b)) in
      case pdetails (packet b) k of
        None \<Rightarrow> Inl BadIterator
      | Some d \<Rightarrow>
          rbind (hdr m3ua b) (\<lambda>a.
          rbind (pushM3ua lim (\<lambda>i. content (packet b) (SIZEOF_PACKET + i)) (a - SIZEOF_PACKET)
                   (unat (getOffset b) - SIZEOF_PACKET) opcOffset d) (\<lambda>d.
          Inr (map_packet (\<lambda>p. p\<lparr>pdetails := (pdetails p)(k \<mapsto> d)\<rparr>) b))))"

fun m3ua_params ::
  "nat \<Rightarrow> limits \<Rightarrow> 's ss7_parent \<Rightarrow> layer list \<Rightarrow> u16 \<Rightarrow> base \<Rightarrow> 's \<Rightarrow> (base option \<times> 's) res" where
  "m3ua_params 0 lim P m3ua offset b s = Inl Diverges"
| "m3ua_params (Suc n) lim P m3ua offset b s =
     rbind (size_of m3ua b) (\<lambda>z.
     if offset \<le> z then
       (let a = getWithOffset offset b in
        rbind (rd_block a 4 b) (\<lambda>_. rbind (param_getTag a b) (\<lambda>tag.
        if tag = PDATA then
          rbind (pd_si a b) (\<lambda>si. rbind (push_details lim m3ua (offset + SIZEOF_M3uaParamter) b) (\<lambda>b.
          if si = SI_SCCP then
            (let offset = offset + SIZEOF_M3uaProtocolData in
             rbind (getLength m3ua b) (\<lambda>len.
             gotSccp P (new_PktOffset b (len - offset) (offset + getOffset b)) s))
          else Inr (None, s)))
        else rbind (param_getLength a b) (\<lambda>len. m3ua_params n lim P m3ua (offset + len) b s))))
     else rbind (push_details lim m3ua 0 b) (\<lambda>b. Inr (Some b, s)))"

definition extractM3ua ::
  "nat \<Rightarrow> limits \<Rightarrow> 's ss7_parent \<Rightarrow> layer list \<Rightarrow> base \<Rightarrow> 's \<Rightarrow> (base option \<times> 's) res" where
  "extractM3ua fuel lim P m3ua b s =
     rbind (hdr m3ua b) (\<lambda>a. rbind (m3ua_type a b) (\<lambda>_. rbind (m3ua_msgClass a b) (\<lambda>_.
     rbind (size_of m3ua b) (\<lambda>z.
     if z > SIZEOF_M3uaHdr then m3ua_params fuel lim P m3ua SIZEOF_M3uaHdr b s
     else rbind (push_details lim m3ua 0 b) (\<lambda>b. Inr (Some b, s))))))"

subsection \<open>Messages\<close>

text \<open>The window of \<open>b\<close> starts with the bytes \<open>bs\<close>, all of them allocated.\<close>

definition holds :: "base \<Rightarrow> u8 list \<Rightarrow> bool" where
  "holds b bs \<longleftrightarrow> unat (getOffset b) + length bs \<le> content_end (packet b) \<and>
     (\<forall>i < length bs. content (packet b) (unat (getOffset b) + i) = bs ! i)"

definition be16 :: "u16 \<Rightarrow> u8 list" where
  "be16 w = [ucast (drop_bit 8 w), ucast w]"

definition be32 :: "u32 \<Rightarrow> u8 list" where
  "be32 w = be16 (ucast (drop_bit 16 w)) @ be16 (ucast w)"

lemma be_length [simp]: "length (be16 w) = 2" "length (be32 v) = 4"
  by (simp_all add: be16_def be32_def)

lemma holds_rd8: "holds b (pre @ x # rest) \<Longrightarrow> a = unat (getOffset b) + length pre \<Longrightarrow> rd8 a b = Inr x"
  by (force simp: holds_def rd8_def nth_append dest: spec [of _ "length pre"])

lemma holds_rd16:
  "holds b (pre @ x # y # rest) \<Longrightarrow> a = unat (getOffset b) + length pre \<Longrightarrow> rd16 a b = Inr (word_cat y x)"
proof -
  assume h: "holds b (pre @ x # y # rest)" and a: "a = unat (getOffset b) + length pre"
  have "content (packet b) a = x" "content (packet b) (a + 1) = y" "a + 1 < content_end (packet b)"
    using h a spec [of "\<lambda>i. i < length (pre @ x # y # rest) \<longrightarrow> content (packet b) (unat (getOffset b) + i) = (pre @ x # y # rest) ! i" "length pre"]
      spec [of "\<lambda>i. i < length (pre @ x # y # rest) \<longrightarrow> content (packet b) (unat (getOffset b) + i) = (pre @ x # y # rest) ! i" "length pre + 1"]
    by (auto simp: holds_def nth_append)
  then show ?thesis by (simp add: rd16_def ld16_def)
qed

lemma ntohs_be: "LS_ntohs (word_cat (ucast w :: u8) (ucast (drop_bit 8 w) :: u8)) = (w :: u16)"
  by (rule bit_word_eqI) (auto simp: LS_ntohs_def bit_simps)

lemma holds_be16:
  "holds b (pre @ be16 w @ rest) \<Longrightarrow> a = unat (getOffset b) + length pre \<Longrightarrow> rd16 a b = Inr (LS_ntohs w)"
  using holds_rd16 [of b pre "ucast (drop_bit 8 w)" "ucast w" rest a] ntohs_be [of w]
  by (simp add: be16_def) (metis LS_ntohs_involution)

lemma holds_be32:
  assumes "holds b (pre @ be32 w @ rest)" and "a = unat (getOffset b) + length pre"
  shows "rd32 a b = Inr (LS_ntohl w)"
proof -
  have "rd16 a b = Inr (LS_ntohs (ucast (drop_bit 16 w)))"
    using holds_be16 [of b pre "ucast (drop_bit 16 w)" "be16 (ucast w) @ rest" a] assms by (simp add: be32_def)
  moreover have "rd16 (a + 2) b = Inr (LS_ntohs (ucast w))"
    using holds_be16 [of b "pre @ be16 (ucast (drop_bit 16 w))" "ucast w" rest "a + 2"] assms by (simp add: be32_def)
  moreover have "word_cat (LS_ntohs (ucast w)) (LS_ntohs (ucast (drop_bit 16 w))) = LS_ntohl w"
    by (simp add: LS_ntohl_def)
  ultimately show ?thesis
    by (auto simp: rd32_def rd16_def ld32_def split: if_splits)
qed

definition m3ua_param :: "u16 \<times> u8 list \<Rightarrow> u8 list" where
  "m3ua_param p = be16 (fst p) @ be16 (word_of_nat (4 + length (snd p))) @ snd p"

text \<open>As RFC 4666 writes it: padded to a multiple of four bytes, which the length does not count.\<close>

definition m3ua_tlv :: "u16 \<times> u8 list \<Rightarrow> u8 list" where
  "m3ua_tlv p = m3ua_param p @ replicate ((4 - length (snd p) mod 4) mod 4) 0"

lemma tlv_aligned: "length (snd p) mod 4 = 0 \<Longrightarrow> m3ua_tlv p = m3ua_param p"
  by (simp add: m3ua_tlv_def)

lemma tlvs_aligned: "\<forall>p \<in> set ps. length (snd p) mod 4 = 0 \<Longrightarrow> map m3ua_tlv ps = map m3ua_param ps"
  by (simp add: tlv_aligned)

definition m3ua_header :: "u8 \<Rightarrow> u8 \<Rightarrow> u32 \<Rightarrow> u8 list" where
  "m3ua_header cls type len = [1, 0, cls, type] @ be32 len"

lemma m3ua_header_length [simp]: "length (m3ua_header c t l) = 8"
  by (simp add: m3ua_header_def)

lemma holds_prefix: "holds b (xs @ ys) \<Longrightarrow> holds b xs"
  by (auto simp: holds_def nth_append dest: spec)

lemma m3ua_size:
  assumes "holds b (m3ua_header c t l @ rest)"
  shows "size_of [M3ua] b = Inr (ucast l)"
  using holds_be32 [of b "[1, 0, c, t]" l rest "unat (getOffset b) + 4"] assms
  by (simp add: size_of_def hdr_def layer_sizes m3ua_length_def m3ua_header_def)

text \<open>One step over a parameter that is not protocol data, by the length it gives.\<close>

lemma m3ua_step:
  assumes h: "holds b (pre @ be16 t @ be16 l @ rest)" and z: "size_of [M3ua] b = Inr z" and o: "unat off = length pre"
    and "length pre \<le> unat z" and t: "t \<noteq> PDATA"
  shows "m3ua_params (Suc n) lim P [M3ua] off b s = m3ua_params n lim P [M3ua] (off + l) b s"
proof -
  have a: "getWithOffset off b = unat (getOffset b) + length pre" using o by (simp add: getWithOffset_def)
  have "rd16 (unat (getOffset b) + length pre) b = Inr (LS_ntohs t)"
    using holds_be16 [of b pre t] h by simp
  moreover have "rd16 (unat (getOffset b) + length pre + 2) b = Inr (LS_ntohs l)"
    using holds_be16 [of b "pre @ be16 t" l rest] h by simp
  moreover have "rd_block (unat (getOffset b) + length pre) 4 b = Inr ()"
    using h by (simp add: rd_block_def holds_def)
  moreover have "off \<le> z" using o assms(4) by (simp add: word_le_nat_alt)
  ultimately show ?thesis
    using t by (simp add: z a param_getTag_def param_getLength_def Let_def)
qed

lemma m3ua_skip:
  assumes h: "holds b (pre @ m3ua_param (t, v) @ rest)" and z: "size_of [M3ua] b = Inr z" and o: "unat off = length pre"
    and "length pre \<le> unat z" and t: "t \<noteq> PDATA"
  shows "m3ua_params (Suc n) lim P [M3ua] off b s = m3ua_params n lim P [M3ua] (off + word_of_nat (4 + length v)) b s"
  using assms by (intro m3ua_step [of b pre t _ "v @ rest"]) (simp_all add: m3ua_param_def)

lemma m3ua_skips:
  assumes "holds b (pre @ concat (map m3ua_param ps) @ rest)" and "size_of [M3ua] b = Inr z" and "unat off = length pre"
    and "length pre + length (concat (map m3ua_param ps)) < 65536"
    and "length pre + length (concat (map m3ua_param ps)) \<le> unat z" and "PDATA \<notin> fst ` set ps"
  shows "m3ua_params (length ps + n) lim P [M3ua] off b s =
    m3ua_params n lim P [M3ua] (off + word_of_nat (length (concat (map m3ua_param ps)))) b s"
  using assms
proof (induction ps arbitrary: pre off)
  case (Cons p ps)
  obtain t v where p: "p = (t, v)" by (cases p)
  have len: "length (m3ua_param p) = 4 + length v" by (simp add: p m3ua_param_def)
  have "m3ua_params (Suc (length ps + n)) lim P [M3ua] off b s =
      m3ua_params (length ps + n) lim P [M3ua] (off + word_of_nat (4 + length v)) b s"
    using Cons.prems p len by (intro m3ua_skip [of b pre t v "concat (map m3ua_param ps) @ rest" z]) auto
  also have "\<dots> = m3ua_params n lim P [M3ua]
      (off + word_of_nat (4 + length v) + word_of_nat (length (concat (map m3ua_param ps)))) b s"
    using Cons.prems p len by (intro Cons.IH [of "pre @ m3ua_param p"]) (auto simp: u16_add unat_word_of_nat)
  finally show ?case using len by (simp add: add.assoc)
qed simp

definition m3ua_pdata :: "u32 \<Rightarrow> u32 \<Rightarrow> u8 \<Rightarrow> u8 list \<Rightarrow> u16 \<Rightarrow> u8 list" where
  "m3ua_pdata opc dpc si rest len = be16 PDATA @ be16 len @ be32 opc @ be32 dpc @ [si] @ rest"

lemma getOffset_map: "(\<And>p. poffset (f p) = poffset p) \<Longrightarrow> getOffset (map_packet f b) = getOffset b"
  by (cases b) (simp_all add: map_packet_def)

lemma push_details_offset: "push_details lim ls o1 b = Inr b' \<Longrightarrow> getOffset b' = getOffset b"
  by (auto simp: push_details_def rbind_Inr_iff Let_def split: option.splits intro!: getOffset_map)

lemma extractM3ua_start:
  assumes "holds b (m3ua_header cls ty L @ rest)" and "8 < unat (ucast L :: u16)"
  shows "extractM3ua fuel lim P [M3ua] b s = m3ua_params fuel lim P [M3ua] 8 b s"
proof -
  have "m3ua_msgClass (unat (getOffset b)) b = Inr cls" unfolding m3ua_msgClass_def
    by (rule holds_rd8 [of b "[1, 0]" _ "ty # be32 L @ rest"]) (use assms(1) in \<open>simp_all add: m3ua_header_def\<close>)
  moreover have "m3ua_type (unat (getOffset b)) b = Inr ty" unfolding m3ua_type_def
    by (rule holds_rd8 [of b "[1, 0, cls]" _ "be32 L @ rest"]) (use assms(1) in \<open>simp_all add: m3ua_header_def\<close>)
  moreover have "SIZEOF_M3uaHdr < ucast L" using assms(2) by (simp add: SIZEOF_M3uaHdr_def word_less_nat_alt)
  ultimately show ?thesis
    by (simp add: extractM3ua_def hdr_def m3ua_size [OF assms(1)] SIZEOF_M3uaHdr_def)
qed

lemma m3ua_reaches_sccp:
  assumes "holds b (m3ua_header cls ty L @ concat (map m3ua_param ps) @ m3ua_pdata opc dpc SI_SCCP ([ni, mp, sls] @ msg) len)"
    and "PDATA \<notin> fst ` set ps" and "8 + length (concat (map m3ua_param ps)) + 16 < 65536"
    and "8 + length (concat (map m3ua_param ps)) \<le> unat (ucast L :: u16)" and "8 < unat (ucast L :: u16)"
    and "length ps < fuel"
  shows "extractM3ua fuel lim P [M3ua] b s =
    rbind (push_details lim [M3ua] (word_of_nat (12 + length (concat (map m3ua_param ps)))) b) (\<lambda>b'.
      gotSccp P (PktOffset (packet b') (getOffset b + word_of_nat (24 + length (concat (map m3ua_param ps))))) s)"
proof -
  let ?k = "length (concat (map m3ua_param ps))" and ?hd = "m3ua_header cls ty L"
  let ?pre = "?hd @ concat (map m3ua_param ps)" and ?off = "8 + word_of_nat (length (concat (map m3ua_param ps))) :: u16"
  have z: "size_of [M3ua] b = Inr (ucast L)" by (rule m3ua_size [OF assms(1)])
  obtain n where fuel: "fuel = length ps + Suc n" using assms(6) by (auto simp: less_iff_Suc_add)
  have off: "unat ?off = 8 + ?k" using assms(3) by (simp add: u16_add unat_word_of_nat)
  have "m3ua_params fuel lim P [M3ua] 8 b s = m3ua_params (Suc n) lim P [M3ua] ?off b s"
    unfolding fuel using assms by (intro m3ua_skips [OF assms(1) z]) simp_all
  moreover have "m3ua_params (Suc n) lim P [M3ua] ?off b s =
      rbind (push_details lim [M3ua] (word_of_nat (12 + ?k)) b) (\<lambda>b'. gotSccp P (PktOffset (packet b') (getOffset b + word_of_nat (24 + ?k))) s)"
  proof -
    define a where "a = unat (getOffset b) + length ?pre"
    have a: "getWithOffset ?off b = a" using off by (simp add: getWithOffset_def a_def)
    have h: "holds b (?pre @ m3ua_pdata opc dpc SI_SCCP ([ni, mp, sls] @ msg) len)" using assms(1) by simp
    have tag: "rd16 a b = Inr (LS_ntohs PDATA)"
      by (rule holds_be16 [of b ?pre _ "be16 len @ be32 opc @ be32 dpc @ [SI_SCCP, ni, mp, sls] @ msg"])
         (use h in \<open>simp_all add: m3ua_pdata_def a_def\<close>)
    have si: "rd8 (a + 12) b = Inr SI_SCCP"
      by (rule holds_rd8 [of b "?pre @ be16 PDATA @ be16 len @ be32 opc @ be32 dpc" _ "[ni, mp, sls] @ msg"])
         (use h in \<open>simp_all add: m3ua_pdata_def a_def\<close>)
    have blk: "rd_block a 4 b = Inr ()"
      using h by (simp add: rd_block_def holds_def m3ua_pdata_def a_def)
    have "rd_block a 16 b = Inr ()"
      using h by (simp add: rd_block_def holds_def m3ua_pdata_def a_def)
    with si have pdsi: "pd_si a b = Inr SI_SCCP" by (simp add: pd_si_def SIZEOF_M3uaProtocolData_def)
    have le: "?off \<le> ucast L" using off assms(4) by (simp add: word_le_nat_alt)
    have pd: "?off + 4 = word_of_nat (12 + ?k)" by (simp add: add.commute add.left_commute)
    show ?thesis
    proof (cases "push_details lim [M3ua] (word_of_nat (12 + ?k)) b")
      case (Inr b')
      with push_details_offset [OF Inr] pd show ?thesis
        by (simp add: z le a blk tag pdsi param_getTag_def Let_def SIZEOF_M3uaProtocolData_def
            SIZEOF_M3uaParamter_def new_PktOffset_def add.commute add.left_commute)
    next
      case (Inl e)
      with pd show ?thesis
        by (simp add: z le a blk tag pdsi param_getTag_def Let_def SIZEOF_M3uaParamter_def add.commute add.left_commute)
    qed
  qed
  ultimately show ?thesis by (simp only: extractM3ua_start [OF assms(1,5)])
qed

text \<open>C18. A message is walked one step for each parameter before the protocol data, which have other
  tags and values of a multiple of four bytes; the protocol data is entered into the details with the position of
  its point codes, whatever becomes of that; and when it is entered an SCCP message is handed on with a window that starts behind the
  16 bytes of the protocol data structure. The length of the message, modulo \<open>2 ^ 16\<close>, covers the parameters, the protocol data
  starts below 65520, and the fuel is above the number of parameters.\<close>

theorem m3ua_delivers_sccp:
  assumes "holds b (m3ua_header cls ty L @ concat (map m3ua_tlv ps) @ m3ua_pdata opc dpc SI_SCCP ([ni, mp, sls] @ msg) len)"
    and "PDATA \<notin> fst ` set ps" and "\<forall>p \<in> set ps. length (snd p) mod 4 = 0"
    and "8 + length (concat (map m3ua_tlv ps)) + 16 < 65536"
    and "8 + length (concat (map m3ua_tlv ps)) \<le> unat (ucast L :: u16)" and "8 < unat (ucast L :: u16)"
    and "length ps < fuel"
  shows "extractM3ua fuel lim P [M3ua] b s =
    rbind (push_details lim [M3ua] (word_of_nat (12 + length (concat (map m3ua_tlv ps)))) b) (\<lambda>b'.
      gotSccp P (PktOffset (packet b') (getOffset b + word_of_nat (24 + length (concat (map m3ua_tlv ps))))) s)"
  using assms unfolding tlvs_aligned [OF assms(3)] by (intro m3ua_reaches_sccp) simp_all

text \<open>Padding is not skipped. A value of one byte more than a multiple of four, as RFC 4666 pads it, makes the next
  parameter be read from the padding: it has the length 2, and the one behind it, read from the last zero byte and the tag of
  the protocol data, 4096. A message that ends before that is returned as if it had no protocol data.\<close>

theorem m3ua_padding_loses_sccp:
  assumes "holds b (m3ua_header cls ty L @ concat (map m3ua_tlv ps) @ m3ua_tlv (t, v) @ m3ua_pdata opc dpc SI_SCCP msg len)"
    and "PDATA \<notin> fst ` set ps" and "\<forall>p \<in> set ps. length (snd p) mod 4 = 0" and "t \<noteq> PDATA" and "length v mod 4 = 1" and "len < 256"
    and "q = 12 + length (concat (map m3ua_tlv ps)) + length v" and "q + 4098 < 65536"
    and "q + 2 \<le> unat (ucast L :: u16)" and "unat (ucast L :: u16) < q + 4098" and "length ps + 4 \<le> fuel"
  shows "extractM3ua fuel lim P [M3ua] b s = rbind (push_details lim [M3ua] 0 b) (\<lambda>b. Inr (Some b, s))"
proof -
  let ?z = "ucast L :: u16" and ?ps = "ps @ [(t, v)]"
  let ?pre = "m3ua_header cls ty L @ concat (map m3ua_param ?ps)"
  define n where "n = fuel - (length ps + 4)"
  then have fuel: "fuel = length ?ps + Suc (Suc (Suc n))" using assms(11) by simp
  have "(4 - length v mod 4) mod 4 = 3" unfolding assms(5) by simp
  then have pad: "m3ua_tlv (t, v) = m3ua_param (t, v) @ [0, 0, 0]"
    unfolding m3ua_tlv_def snd_conv by (simp only:) (simp add: numeral_3_eq_3)
  have bytes: "be16 PDATA = [2, 16]" "be16 0 = [0, 0]" "be16 2 = [0, 2]" "be16 4096 = [16, 0]"
    by (simp_all add: be16_def PDATA_def)
  have tags: "0 \<noteq> PDATA" "2 \<noteq> PDATA" by (simp_all add: PDATA_def)
  have len: "be16 len = [0, ucast len]"
  proof -
    have "unat len div 2 ^ 8 = 0" using assms(6) by (simp add: word_less_nat_alt)
    then have "unat (drop_bit 8 len) = 0" by (simp only: unat_drop_bit)
    then show ?thesis by (simp add: be16_def unat_eq_0)
  qed
  have h: "holds b (?pre @ [0, 0, 0, 2, 16, 0, ucast len] @ be32 opc @ be32 dpc @ [SI_SCCP] @ msg)"
    using assms(1) unfolding pad tlvs_aligned [OF assms(3)] m3ua_pdata_def len bytes by simp
  then have h0: "holds b (m3ua_header cls ty L @ concat (map m3ua_param ?ps) @ [0, 0, 0, 2, 16, 0, ucast len] @ be32 opc @ be32 dpc @ [SI_SCCP] @ msg)"
    by simp
  have z: "size_of [M3ua] b = Inr ?z" by (rule m3ua_size [OF h0])
  have q: "8 + length (concat (map m3ua_param ?ps)) = q" using assms(7) tlvs_aligned [OF assms(3)] by (simp add: m3ua_param_def)
  then have pre: "length ?pre = q" by simp
  have w: "unat (word_of_nat k :: u16) = k" if "k < 65536" for k using that by (intro unat_word_of_nat) simp
  have "m3ua_params fuel lim P [M3ua] 8 b s =
      m3ua_params (Suc (Suc (Suc n))) lim P [M3ua] (8 + word_of_nat (length (concat (map m3ua_param ?ps)))) b s"
    unfolding fuel using assms(2,4,8,9) q by (intro m3ua_skips [OF h0 z]) auto
  also have "8 + word_of_nat (length (concat (map m3ua_param ?ps))) = (word_of_nat q :: u16)" using q [symmetric] by simp
  also have "m3ua_params (Suc (Suc (Suc n))) lim P [M3ua] (word_of_nat q) b s = m3ua_params (Suc (Suc n)) lim P [M3ua] (word_of_nat q + 2) b s"
    by (rule m3ua_step [of b ?pre 0 2 "[16, 0, ucast len] @ be32 opc @ be32 dpc @ [SI_SCCP] @ msg" ?z])
       (use h pre w [of q] z assms(8,9) in \<open>simp_all add: bytes tags\<close>)
  also have "\<dots> = m3ua_params (Suc n) lim P [M3ua] (word_of_nat q + 2 + 4096) b s"
    by (rule m3ua_step [of b "?pre @ [0, 0]" 2 4096 "[ucast len] @ be32 opc @ be32 dpc @ [SI_SCCP] @ msg" ?z])
       (use h pre w [of "q + 2"] z assms(8,9) in \<open>simp_all add: bytes tags add.commute\<close>)
  also have "\<dots> = rbind (push_details lim [M3ua] 0 b) (\<lambda>b. Inr (Some b, s))"
  proof -
    have "\<not> word_of_nat q + 2 + 4096 \<le> ?z" using w [of "q + 4098"] assms(8,10) by (simp add: word_le_nat_alt add.commute)
    then show ?thesis by (simp add: z)
  qed
  finally show ?thesis
    using extractM3ua_start [OF h0, of fuel lim P s] assms(7,9) by simp
qed

text \<open>The loop runs while the offset is at most the length of the message: behind the last
  parameter it reads one more, beyond the message. Where zero bytes follow, its length is 0 and the
  loop never ends, for every message without protocol data.\<close>

theorem m3ua_hangs_on_padding:
  assumes "holds b (m3ua_header cls ty L @ concat (map m3ua_param ps) @ [0, 0, 0, 0])" and "PDATA \<notin> fst ` set ps"
    and "8 + length (concat (map m3ua_param ps)) < 65536" and "L = word_of_nat (8 + length (concat (map m3ua_param ps)))"
    and "ps \<noteq> []"
  shows "extractM3ua fuel lim P [M3ua] b s = Inl Diverges"
proof -
  let ?k = "length (concat (map m3ua_param ps))"
  let ?pre = "m3ua_header cls ty L @ concat (map m3ua_param ps)" and ?off = "8 + word_of_nat (length (concat (map m3ua_param ps))) :: u16"
  have k: "0 < ?k" using assms(5) by (cases ps) (simp_all add: m3ua_param_def)
  have L: "unat (ucast L :: u16) = 8 + ?k"
  proof -
    have "unat L = 8 + ?k" unfolding assms(4) using assms(3) by (intro unat_word_of_nat) simp
    with assms(3) show ?thesis by (simp add: unsigned_ucast_eq take_bit_nat_eq_self)
  qed
  have z: "size_of [M3ua] b = Inr (ucast L)" by (rule m3ua_size [OF assms(1)])
  have off: "unat ?off = 8 + ?k" using assms(3) by (simp add: u16_add unat_word_of_nat)
  define a where "a = unat (getOffset b) + length ?pre"
  have a: "getWithOffset ?off b = a" using off by (simp add: getWithOffset_def a_def)
  have h: "holds b (?pre @ [0, 0, 0, 0])" using assms(1) by simp
  have zero: "rd16 a b = Inr 0" "rd16 (a + 2) b = Inr 0"
    using holds_rd16 [of b ?pre 0 0 "[0, 0]" a] holds_rd16 [of b "?pre @ [0, 0]" 0 0 "[]" "a + 2"] h
    by (simp_all add: a_def word_cat_eq)
  have blk: "rd_block a 4 b = Inr ()" using h by (simp add: rd_block_def holds_def a_def)
  have le: "?off \<le> ucast L" using off L by (simp add: word_le_nat_alt)
  have zero2: "rd16 (Suc (Suc a)) b = Inr 0" using zero(2) by simp
  have stuck: "m3ua_params n lim P [M3ua] ?off b s = Inl Diverges" for n
    by (induction n)
       (simp_all add: z le a blk zero zero2 param_getTag_def param_getLength_def LS_ntohs_def word_cat_eq PDATA_def Let_def)
  have "m3ua_params fuel lim P [M3ua] 8 b s = Inl Diverges"
  proof (cases "length ps \<le> fuel")
    case True
    then obtain n where fuel: "fuel = length ps + n" using le_Suc_ex by blast
    have "m3ua_params fuel lim P [M3ua] 8 b s = m3ua_params n lim P [M3ua] ?off b s"
      unfolding fuel using assms(2,3) L by (intro m3ua_skips [OF assms(1) z]) simp_all
    with stuck show ?thesis by simp
  next
    case False
    let ?xs = "take fuel ps"
    have ps: "concat (map m3ua_param ps) = concat (map m3ua_param ?xs) @ concat (map m3ua_param (drop fuel ps))"
      by (metis append_take_drop_id concat_append map_append)
    have h: "holds b (m3ua_header cls ty L @ concat (map m3ua_param ?xs) @ concat (map m3ua_param (drop fuel ps)) @ [0, 0, 0, 0])"
      using assms(1) ps by simp
    have "m3ua_params (length ?xs + 0) lim P [M3ua] 8 b s =
        m3ua_params 0 lim P [M3ua] (8 + word_of_nat (length (concat (map m3ua_param ?xs)))) b s"
      using assms(2,3) L ps by (intro m3ua_skips [OF h z]) (auto dest: in_set_takeD)
    with False show ?thesis by simp
  qed
  moreover have "8 < unat (ucast L :: u16)" using L k by simp
  ultimately show ?thesis by (simp only: extractM3ua_start [OF assms(1)])
qed

text \<open>An SCTP chunk: DATA with a known payload protocol goes to the adaptation layer with the window
  behind the 16 bytes of the chunk's header, wrapping around when the window is shorter than that; every
  other chunk that is not longer than the window gives a null pointer and the packet is lost, also the
  DATA chunk of an unknown protocol that the code means to return.\<close>

theorem chunk_dispatch:
  assumes "holds b (ty # fl # be16 n @ tsn @ be32 (LS_ntohl proto) @ rest)" and "length tsn = 8"
  shows "extractSctpChunk P [SctpChunk] b s =
    (let w = make_ptr b (base_length b - 16) (getOffset b + 16)
     in if base_length b < n then Inr (Some b, s)
        else if ty = 0 \<and> proto = SctpM2ua then gotM2ua P w s
        else if ty = 0 \<and> proto = SctpM3ua then gotM3ua P w s
        else Inr (None, s))"
proof -
  let ?o = "unat (getOffset b)"
  have 1: "rd8 ?o b = Inr ty" using holds_rd8 [of b "[]" ty] assms(1) by simp
  have 2: "rd16 (?o + 2) b = Inr (LS_ntohs n)"
    using holds_be16 [of b "[ty, fl]" n "tsn @ be32 (LS_ntohl proto) @ rest"] assms(1) by simp
  have len2: "rd16 (Suc (Suc ?o)) b = Inr (LS_ntohs n)" using 2 by simp
  have 3: "rd32 (?o + 12) b = Inr proto"
    using holds_be32 [of b "ty # fl # be16 n @ tsn" "LS_ntohl proto" rest] assms by simp
  show ?thesis
    by (simp add: extractSctpChunk_def size_of_def hdr_def layer_sizes chunk_length_def chunk_type_def
        chunk_proto_def 1 2 len2 3 got_def rebase_def SCTP_DATA_def Let_def)
qed

text \<open>Examples: a parser that records its windows, and packets with fresh details.\<close>

definition ss7_recorder :: "base list ss7_parent" where
  "ss7_recorder = (let g = (\<lambda>b s. Inr (None, b # s)) in
     \<lparr>gotM2ua = g, gotM3ua = g, gotIsup = g, gotSccp = g, gotTcap = g\<rparr>)"

lemma ss7_recorder_simps [simp]:
  "gotM2ua ss7_recorder b s = Inr (None, b # s)" "gotM3ua ss7_recorder b s = Inr (None, b # s)"
  "gotIsup ss7_recorder b s = Inr (None, b # s)" "gotSccp ss7_recorder b s = Inr (None, b # s)"
  "gotTcap ss7_recorder b s = Inr (None, b # s)"
  by (simp_all add: ss7_recorder_def Let_def)

definition fresh_details :: PacketDetails where
  "fresh_details = \<lparr>flowHash = 0, lastIpLayer = 0xFF, lastMtpLayer = 0xFF, lastM3uaLayer = 0xFF, layersCnt = 0,
     layers2Cnt = 0, layers3Cnt = 0, layers4Cnt = 0, more2Layers = False, more3Layers = False,
     more4Layers = False, layers = (\<lambda>_. 0)\<rparr>"

definition with_details :: "u8 list \<Rightarrow> base" where
  "with_details bs = map_packet (\<lambda>p. p\<lparr>pdetails := (\<lambda>_. Some fresh_details)\<rparr>) (captured bs (word_of_nat (length bs)))"

lemma with_details_simps [simp]:
  "getOffset (with_details bs) = 48" "base_length (with_details bs) = word_of_nat (length bs)"
  "pdetails (packet (with_details bs)) = (\<lambda>_. Some fresh_details)"
  "caplen (packet (with_details bs)) = word_of_nat (length bs)"
  by (simp_all add: with_details_def map_packet_def captured_def Packet.extend_def zero_packet_def)

lemma holds_details: "holds (with_details bs) bs"
  by (simp add: holds_def with_details_def map_packet_def captured_def Packet.extend_def zero_packet_def memcpy_def)

definition demo_m3ua :: "u8 list" where
  "demo_m3ua = m3ua_header 1 1 32 @ concat (map m3ua_param [(6, [0, 0, 0, 1])]) @
     m3ua_pdata 7 9 SI_SCCP ([2, 0, 0] @ [9, 1]) 18"

text \<open>A routing context of four bytes before the protocol data, and a text of five.\<close>

theorem m3ua_delivers_sccp_witness:
  "\<exists>b'. extractM3ua 2 default_limits ss7_recorder [M3ua] (with_details demo_m3ua) [] =
    Inr (None, [PktOffset (packet b') 80])"
proof -
  have "\<exists>b'. push_details default_limits [M3ua] 20 (with_details demo_m3ua) = Inr b'"
    by (simp add: push_details_def hdr_def pushM3ua_def default_limits_def fresh_details_def add_hash_def Let_def)
  then obtain b' where b': "push_details default_limits [M3ua] 20 (with_details demo_m3ua) = Inr b'" by blast
  show ?thesis
    using m3ua_delivers_sccp [of "with_details demo_m3ua" 1 1 32 "[(6, [0, 0, 0, 1])]" 7 9 2 0 0 "[9, 1]" 18 2
        default_limits ss7_recorder "[]"] holds_details [of demo_m3ua] b'
    by (auto simp: demo_m3ua_def m3ua_tlv_def m3ua_param_def PDATA_def)
qed

definition demo_text :: "u8 list" where
  "demo_text = m3ua_header 1 1 38 @ concat (map m3ua_tlv []) @ m3ua_tlv (4, [97, 98, 99, 100, 101]) @
     m3ua_pdata 7 9 SI_SCCP ([2, 0, 0] @ [9, 1]) 18"

theorem m3ua_padding_loses_sccp_witness:
  "\<exists>b'. extractM3ua 4 default_limits ss7_recorder [M3ua] (with_details demo_text) [] = Inr (Some b', [])"
proof -
  have "\<exists>b'. push_details default_limits [M3ua] 0 (with_details demo_text) = Inr b'"
    by (simp add: push_details_def hdr_def pushM3ua_def default_limits_def fresh_details_def add_hash_def Let_def)
  then obtain b' where b': "push_details default_limits [M3ua] 0 (with_details demo_text) = Inr b'" by blast
  have h: "holds (with_details demo_text) (m3ua_header 1 1 38 @ concat (map m3ua_tlv []) @ m3ua_tlv (4, [97, 98, 99, 100, 101]) @
      m3ua_pdata 7 9 SI_SCCP ([2, 0, 0] @ [9, 1]) 18)"
    using holds_details [of demo_text] by (simp only: demo_text_def)
  show ?thesis using m3ua_padding_loses_sccp [OF h, of 17 4 default_limits ss7_recorder "[]"] b' by (auto simp: PDATA_def)
qed

definition demo_padded :: "u8 list" where
  "demo_padded = m3ua_header 3 1 16 @ concat (map m3ua_param [(4, [97, 98, 99, 100])]) @ [0, 0, 0, 0]"

lemma m3ua_hangs_on_padding_witness:
  "\<forall>fuel. extractM3ua fuel default_limits ss7_recorder [M3ua] (with_details demo_padded) [] = Inl Diverges"
proof
  fix fuel
  have h: "holds (with_details demo_padded) (m3ua_header 3 1 16 @ concat (map m3ua_param [(4, [97, 98, 99, 100])]) @ [0, 0, 0, 0])"
    using holds_details [of demo_padded] by (simp only: demo_padded_def)
  show "extractM3ua fuel default_limits ss7_recorder [M3ua] (with_details demo_padded) [] = Inl Diverges"
    by (rule m3ua_hangs_on_padding [OF h]) (simp_all add: m3ua_param_def PDATA_def)
qed

definition demo_chunk :: "u8 list" where
  "demo_chunk = 0 # 3 # be16 18 @ replicate 8 0 @ be32 (LS_ntohl SctpM3ua) @ [1, 0]"

lemma chunk_dispatch_witness:
  "extractSctpChunk ss7_recorder [SctpChunk] (with_details demo_chunk) [] =
   Inr (None, [make_ptr (with_details demo_chunk) 2 64])"
proof -
  have h: "holds (with_details demo_chunk) (0 # 3 # be16 18 @ replicate 8 0 @ be32 (LS_ntohl SctpM3ua) @ [1, 0])"
    using holds_details [of demo_chunk] by (simp only: demo_chunk_def)
  have "base_length (with_details demo_chunk) = 18" by (simp add: demo_chunk_def)
  then show ?thesis
    using chunk_dispatch [OF h, of ss7_recorder "[]"] by (simp add: SctpM2ua_def SctpM3ua_def)
qed

end
