(* ===== verification/Ss7_Link.thy ===== *)
theory Ss7_Link
  imports Extract_Sigtran
begin

text \<open>
  The signalling link layers: \<^verbatim>\<open>lib/libstack/ss7/Lapd.h\<close> (frames on the D-channel, and the circuit
  a frame belongs to), \<^verbatim>\<open>Mtp.h\<close>, \<^verbatim>\<open>Mtp3.h\<close>, \<^verbatim>\<open>ss7types.h\<close> and \<^verbatim>\<open>ExtractorMtp.h\<close> (message
  transfer part), and the bit fields of \<^verbatim>\<open>Gfp.h\<close>. Bit fields are allocated from the least
  significant bit, as the ABI of the targets does.
\<close>

subsection \<open>LAPD\<close>

text \<open>The address octets.\<close>

definition lapd_ea0 :: "u8 \<Rightarrow> u8" where "lapd_ea0 o1 = take_bit 1 o1"
definition lapd_cr :: "u8 \<Rightarrow> u8" where "lapd_cr o1 = take_bit 1 (drop_bit 1 o1)"
definition lapd_sapi :: "u8 \<Rightarrow> u8" where "lapd_sapi o1 = drop_bit 2 o1"
definition lapd_ea1 :: "u8 \<Rightarrow> u8" where "lapd_ea1 o2 = take_bit 1 o2"
definition lapd_tei :: "u8 \<Rightarrow> u8" where "lapd_tei o2 = drop_bit 1 o2"

definition is_q931 :: "u8 \<Rightarrow> bool" where "is_q931 o1 \<longleftrightarrow> lapd_sapi o1 = 0"
definition is_x25 :: "u8 \<Rightarrow> bool" where "is_x25 o1 \<longleftrightarrow> lapd_sapi o1 = 16"

text \<open>The first octet of the control field tells its format.\<close>

definition bit1 :: "u8 \<Rightarrow> u8" where "bit1 c = take_bit 1 c"
definition bit2 :: "u8 \<Rightarrow> u8" where "bit2 c = take_bit 1 (drop_bit 1 c)"

definition is_I_type :: "u8 \<Rightarrow> bool" where "is_I_type c \<longleftrightarrow> bit1 c = 0"
definition is_S_type :: "u8 \<Rightarrow> bool" where "is_S_type c \<longleftrightarrow> bit1 c = 1 \<and> bit2 c = 0"
definition is_U_type :: "u8 \<Rightarrow> bool" where "is_U_type c \<longleftrightarrow> bit1 c = 1 \<and> bit2 c = 1"

text \<open>Sequence numbers and modifiers of the three formats.\<close>

definition I_ns :: "u8 \<Rightarrow> u8" where "I_ns c = drop_bit 1 c"
definition I_nr :: "u8 \<Rightarrow> u8" where "I_nr c2 = drop_bit 1 c2"
definition S_s :: "u8 \<Rightarrow> u8" where "S_s c = take_bit 2 (drop_bit 2 c)"
definition S_x :: "u8 \<Rightarrow> u8" where "S_x c = drop_bit 4 c"
definition S_pf :: "u8 \<Rightarrow> u8" where "S_pf c2 = take_bit 1 c2"
definition S_nr :: "u8 \<Rightarrow> u8" where "S_nr c2 = drop_bit 1 c2"
definition U_m_34 :: "u8 \<Rightarrow> u8" where "U_m_34 c = take_bit 2 (drop_bit 2 c)"
definition U_pf :: "u8 \<Rightarrow> u8" where "U_pf c = take_bit 1 (drop_bit 4 c)"
definition U_m_678 :: "u8 \<Rightarrow> u8" where "U_m_678 c = drop_bit 5 c"

text \<open>The channel number of the packet: five bits of time slot, the rest the E1 in the STM.\<close>

definition getStmE1Id :: "base \<Rightarrow> u16" where
  "getStmE1Id b = drop_bit 5 (chanid (packet b))"

definition getTs :: "base \<Rightarrow> u16" where
  "getTs b = chanid (packet b) mod 32"

definition getStmE1IdBase :: "base \<Rightarrow> u16" where
  "getStmE1IdBase b = (let i = getStmE1Id b in if i \<ge> 16 * 63 then i - 16 * 63 else i)"

definition getStmE1IdPair :: "base \<Rightarrow> u16" where
  "getStmE1IdPair b = (let i = getStmE1Id b in if i \<ge> 16 * 63 then i - 16 * 63 else i + 16 * 63)"

definition stmE1IdToPc :: "u16 \<Rightarrow> u16" where
  "stmE1IdToPc i = i OR 0x4000"

definition lapd_getHash :: "base \<Rightarrow> u16" where "lapd_getHash b = getStmE1IdBase b"
definition lapd_getOpc :: "base \<Rightarrow> u16" where "lapd_getOpc b = stmE1IdToPc (getStmE1Id b)"
definition lapd_getDpc :: "base \<Rightarrow> u16" where "lapd_getDpc b = stmE1IdToPc (getStmE1IdPair b)"
definition lapd_getCic :: "base \<Rightarrow> u16" where "lapd_getCic b = getTs b"

subsection \<open>Message transfer part\<close>

definition mtp_bsn :: "u8 \<Rightarrow> u8" where "mtp_bsn w = take_bit 7 w"
definition mtp_bib :: "u8 \<Rightarrow> u8" where "mtp_bib w = drop_bit 7 w"
definition mtp_fsn :: "u8 \<Rightarrow> u8" where "mtp_fsn w = take_bit 7 w"
definition mtp_fib :: "u8 \<Rightarrow> u8" where "mtp_fib w = drop_bit 7 w"
definition li_li :: "u8 \<Rightarrow> u8" where "li_li w = take_bit 6 w"
definition sio_si :: "u8 \<Rightarrow> u8" where "sio_si w = take_bit 4 w"
definition sio_prio :: "u8 \<Rightarrow> u8" where "sio_prio w = take_bit 2 (drop_bit 4 w)"
definition sio_ni :: "u8 \<Rightarrow> u8" where "sio_ni w = drop_bit 6 w"

definition mtp_sio :: "nat \<Rightarrow> base \<Rightarrow> u8 res" where "mtp_sio a b = rd8 (a + 3) b"
definition mtp3_sio :: "nat \<Rightarrow> base \<Rightarrow> u8 res" where "mtp3_sio a b = rd8 a b"

definition MTP_SCCP :: u8 where "MTP_SCCP = 3"
definition MTP_ISUP :: u8 where "MTP_ISUP = 5"

text \<open>An SCCP message over MTP2 is only given the class \<open>Sccp\<close> and returned.\<close>

definition extractMtp :: "'s ss7_parent \<Rightarrow> layer list \<Rightarrow> base \<Rightarrow> 's \<Rightarrow> (base option \<times> 's) res" where
  "extractMtp P mtp b s =
     rbind (hdr mtp b) (\<lambda>a. rbind (mtp_sio a b) (\<lambda>sio.
       if sio_si sio = MTP_ISUP then got (gotIsup P) (Isup # mtp) b s
       else if sio_si sio = MTP_SCCP then Inr (Some b, s)
       else Inr (Some b, s)))"

definition extractMtp3 :: "'s ss7_parent \<Rightarrow> layer list \<Rightarrow> base \<Rightarrow> 's \<Rightarrow> (base option \<times> 's) res" where
  "extractMtp3 P mtp3 b s =
     rbind (hdr mtp3 b) (\<lambda>a. rbind (mtp3_sio a b) (\<lambda>sio.
       if sio_si sio = MTP_ISUP then got (gotIsup P) (Isup # mtp3) b s
       else if sio_si sio = MTP_SCCP then got (gotSccp P) (Sccp # mtp3) b s
       else Inr (Some b, s)))"

subsection \<open>GFP\<close>

text \<open>The type field of the payload header, as declared.\<close>

definition gfp_pti :: "u8 \<Rightarrow> u8" where "gfp_pti w = take_bit 3 w"
definition gfp_pfi :: "u8 \<Rightarrow> u8" where "gfp_pfi w = take_bit 1 (drop_bit 3 w)"
definition gfp_exi :: "u8 \<Rightarrow> u8" where "gfp_exi w = drop_bit 4 w"

subsection \<open>Circuits\<close>

definition with_chanid :: "u16 \<Rightarrow> base \<Rightarrow> base" where
  "with_chanid c b = map_packet (\<lambda>p. p\<lparr>chanid := c\<rparr>) b"

lemma u8_eqI:
  fixes a b :: u8
  assumes "bit a 0 = bit b 0" "bit a 1 = bit b 1" "bit a 2 = bit b 2" "bit a 3 = bit b 3" "bit a 4 = bit b 4"
    "bit a 5 = bit b 5" "bit a 6 = bit b 6" "bit a 7 = bit b 7"
  shows "a = b"
proof (rule bit_word_eqI)
  fix n assume "n < LENGTH(8)"
  then have "n \<in> {0, 1, 2, 3, 4, 5, 6, 7}" by auto
  with assms show "bit a n = bit b n" by auto
qed

lemmas u8_bits = bit_or_iff bit_push_bit_iff bit_take_bit_iff bit_drop_bit_eq comp_def possible_bit_word

lemma with_chanid_simps [simp]: "chanid (packet (with_chanid c b)) = c"
  by (cases b) (simp_all add: with_chanid_def map_packet_def)

lemma pc_take: "take_bit 14 (stmE1IdToPc i) = take_bit 14 i"
  unfolding stmE1IdToPc_def by (rule bit_word_eqI) (auto simp: bit_simps)

lemma pc_inj: "unat i < 2048 \<Longrightarrow> unat j < 2048 \<Longrightarrow> stmE1IdToPc i = stmE1IdToPc j \<longleftrightarrow> i = j"
proof
  assume ij: "unat i < 2048" "unat j < 2048" and "stmE1IdToPc i = stmE1IdToPc j"
  then have "take_bit 14 i = take_bit 14 j" using pc_take by metis
  then have "unat (take_bit 14 i) = unat (take_bit 14 j)" by simp
  with ij show "i = j" by (simp add: unat_take_bit word_unat_eq_iff)
qed simp

lemma id_nat: "unat (drop_bit 5 (c :: u16)) = unat c div 32"
  by (simp add: unat_drop_bit)

lemma id_shift:
  fixes c :: u16
  shows "unat c < 32256 \<Longrightarrow> drop_bit 5 (c + 32256) = drop_bit 5 c + 1008"
    and "unat c < 32256 \<Longrightarrow> (c + 32256) mod 32 = c mod 32"
proof -
  assume c: "unat c < 32256"
  have u: "unat (c + 32256) = unat c + 32256" using c by (simp add: u16_add)
  have d: "unat (drop_bit 5 c + 1008) = unat c div 32 + 1008" using c by (simp add: u16_add id_nat)
  show "drop_bit 5 (c + 32256) = drop_bit 5 c + 1008" by (simp add: word_unat_eq_iff id_nat u d)
  have "(unat c + 32 * 1008) mod 32 = unat c mod 32" by (rule mod_mult_self2)
  then have "(unat c + 32256) mod 32 = unat c mod 32" by (simp del: mod_mult_self2)
  then show "(c + 32256) mod 32 = c mod 32" by (simp add: word_unat_eq_iff unat_mod u)
qed

text \<open>The channels \<open>c\<close> and \<open>c + 32256\<close>, below 64512, are the two directions of one circuit: the point codes
  change places, hash and circuit are the same, and the two ends differ.\<close>

theorem lapd_directions:
  assumes "unat c < 32256"
  shows "lapd_getOpc (with_chanid (c + 32256) b) = lapd_getDpc (with_chanid c b) \<and>
    lapd_getDpc (with_chanid (c + 32256) b) = lapd_getOpc (with_chanid c b) \<and>
    lapd_getHash (with_chanid (c + 32256) b) = lapd_getHash (with_chanid c b) \<and>
    lapd_getCic (with_chanid (c + 32256) b) = lapd_getCic (with_chanid c b) \<and>
    lapd_getOpc (with_chanid c b) \<noteq> lapd_getDpc (with_chanid c b)"
proof -
  let ?i = "drop_bit 5 c"
  have i: "unat ?i < 1008" using assms by (simp add: id_nat)
  have i': "unat (?i + 1008) = unat ?i + 1008" using i by (simp add: u16_add)
  have lt: "\<not> 1008 \<le> ?i" "1008 \<le> ?i + 1008" using i i' by (simp_all add: word_le_nat_alt)
  have "stmE1IdToPc ?i \<noteq> stmE1IdToPc (?i + 1008)" using i i' by (simp add: pc_inj)
  then show ?thesis
    using lt id_shift(1,2) [OF assms]
    by (simp add: lapd_getOpc_def lapd_getDpc_def lapd_getHash_def lapd_getCic_def getTs_def
        getStmE1Id_def getStmE1IdBase_def getStmE1IdPair_def Let_def)
qed

lemma lapd_directions_witness:
  "lapd_getOpc (with_chanid 32293 (captured [] 0)) = lapd_getDpc (with_chanid 37 (captured [] 0)) \<and>
   lapd_getCic (with_chanid 32293 (captured [] 0)) = lapd_getCic (with_chanid 37 (captured [] 0))"
  using lapd_directions [of 37 "captured [] 0"] by simp

lemma control_bits:
  "is_I_type c \<longleftrightarrow> \<not> bit c 0" "is_S_type c \<longleftrightarrow> bit c 0 \<and> \<not> bit c 1" "is_U_type c \<longleftrightarrow> bit c 0 \<and> bit c 1"
proof -
  have t: "take_bit 1 w = of_bool (bit w 0)" for w :: u8 by (simp add: bit_0 mod_2_eq_odd)
  show "is_I_type c \<longleftrightarrow> \<not> bit c 0" "is_S_type c \<longleftrightarrow> bit c 0 \<and> \<not> bit c 1" "is_U_type c \<longleftrightarrow> bit c 0 \<and> bit c 1"
    by (simp_all add: is_I_type_def is_S_type_def is_U_type_def bit1_def bit2_def t bit_drop_bit_eq del: One_nat_def)
qed

lemma three_mask: "(3 :: u8) = mask 2"
  by (simp add: mask_eq_exp_minus_1)

lemma low_bits: "take_bit k v = v \<Longrightarrow> c = push_bit k (drop_bit k c) OR v \<longleftrightarrow> take_bit k c = (v :: u8)"
proof -
  assume v: "take_bit k v = v"
  have parts: "c = push_bit k (drop_bit k c) OR take_bit k c" by (rule bit_word_eqI) (auto simp: bit_simps)
  have "take_bit k (push_bit k (drop_bit k c) OR v) = take_bit k v" by (rule bit_word_eqI) (auto simp: bit_simps)
  with v parts show ?thesis by metis
qed

lemma control_low:
  "take_bit 1 c = (0 :: u8) \<longleftrightarrow> \<not> bit c 0" "take_bit 2 c = (1 :: u8) \<longleftrightarrow> bit c 0 \<and> \<not> bit c 1"
  "take_bit 2 c = (3 :: u8) \<longleftrightarrow> bit c 0 \<and> bit c 1"
proof -
  have low: "bit (take_bit 2 c) n = (n < 2 \<and> bit c n)" for n by (simp add: bit_take_bit_iff)
  have eq: "take_bit 2 c = v \<longleftrightarrow> bit c 0 = bit v 0 \<and> bit c 1 = bit v 1" if "take_bit 2 v = v" for v :: u8
  proof
    assume e: "take_bit 2 c = v"
    have "bit (take_bit 2 c) 0 = bit c 0" "bit (take_bit 2 c) 1 = bit c 1" by (simp_all add: low)
    with e show "bit c 0 = bit v 0 \<and> bit c 1 = bit v 1" by simp
  next
    assume e: "bit c 0 = bit v 0 \<and> bit c 1 = bit v 1"
    have "take_bit 2 c = take_bit 2 v" by (rule u8_eqI) (use e in \<open>simp_all add: bit_take_bit_iff\<close>)
    with that show "take_bit 2 c = v" by simp
  qed
  show "take_bit 2 c = (1 :: u8) \<longleftrightarrow> bit c 0 \<and> \<not> bit c 1" using eq [of 1] by simp
  show "take_bit 2 c = (3 :: u8) \<longleftrightarrow> bit c 0 \<and> bit c 1" using eq [of 3] by simp
  show "take_bit 1 c = (0 :: u8) \<longleftrightarrow> \<not> bit c 0" by (simp add: bit_0 mod_2_eq_odd)
qed

text \<open>The three predicates on the control field cover every octet and exclude each other, and
  each is the shape of its format with the fields put back in place.\<close>

theorem lapd_formats:
  "(is_I_type c \<or> is_S_type c \<or> is_U_type c) \<and> \<not> (is_I_type c \<and> is_S_type c) \<and>
   \<not> (is_I_type c \<and> is_U_type c) \<and> \<not> (is_S_type c \<and> is_U_type c) \<and>
   (is_I_type c = (c = push_bit 1 (I_ns c))) \<and>
   (is_S_type c = (c = push_bit 4 (S_x c) OR push_bit 2 (S_s c) OR 1)) \<and>
   (is_U_type c = (c = push_bit 5 (U_m_678 c) OR push_bit 4 (U_pf c) OR push_bit 2 (U_m_34 c) OR 3))"
proof -
  have I: "push_bit 1 (I_ns c) = push_bit 1 (drop_bit 1 c) OR 0" by (simp add: I_ns_def)
  have S: "push_bit 4 (S_x c) OR push_bit 2 (S_s c) OR 1 = push_bit 2 (drop_bit 2 c) OR 1"
    unfolding S_x_def S_s_def by (rule u8_eqI; simp only: u8_bits; simp)
  have U: "push_bit 5 (U_m_678 c) OR push_bit 4 (U_pf c) OR push_bit 2 (U_m_34 c) OR 3 = push_bit 2 (drop_bit 2 c) OR 3"
    unfolding U_m_678_def U_pf_def U_m_34_def
    by (rule u8_eqI; simp only: u8_bits three_mask bit_mask_iff; simp)
  have v: "take_bit 2 (1 :: u8) = 1" "take_bit 2 (3 :: u8) = 3" "take_bit 1 (0 :: u8) = 0" by simp_all
  show ?thesis
    by (simp only: I S U low_bits [OF v(1)] low_bits [OF v(2)] low_bits [OF v(3)] control_low control_bits) auto
qed

text \<open>The same service information octet leads to different places: over MTP3 an SCCP message goes to
  the application, over MTP2 it comes back as it was, like a message of an unknown user part.\<close>

theorem mtp_sccp_dropped:
  assumes "rd8 (unat (getOffset b) + 3) b = Inr sio" and "rd8 (unat (getOffset b')) b' = Inr sio"
  shows "if sio_si sio = 5 then
      extractMtp P [Mtp] b s = gotIsup P (make_ptr b (base_length b - 8) (getOffset b + 8)) s \<and>
      extractMtp3 P [Mtp3] b' s = gotIsup P (make_ptr b' (base_length b' - 5) (getOffset b' + 5)) s
    else extractMtp P [Mtp] b s = Inr (Some b, s) \<and>
      extractMtp3 P [Mtp3] b' s =
        (if sio_si sio = 3 then gotSccp P (make_ptr b' (base_length b' - 5) (getOffset b' + 5)) s else Inr (Some b', s))"
  using assms
  by (simp add: extractMtp_def extractMtp3_def hdr_def mtp_sio_def mtp3_sio_def got_def rebase_def MTP_SCCP_def MTP_ISUP_def)

lemma mtp_sccp_dropped_witness:
  "extractMtp ss7_recorder [Mtp] (captured [0, 0, 8, 0x83] 9) [] = Inr (Some (captured [0, 0, 8, 0x83] 9), []) \<and>
   extractMtp3 ss7_recorder [Mtp3] (captured [0x83] 6) [] = Inr (None, [make_ptr (captured [0x83] 6) 1 53])"
proof -
  have "rd8 51 (captured [0, 0, 8, 0x83] 9) = Inr 0x83" "rd8 48 (captured [0x83] 6) = Inr 0x83"
    by (simp_all add: rd_captured)
  with mtp_sccp_dropped [of "captured [0, 0, 8, 0x83] 9" "0x83" "captured [0x83] 6" ss7_recorder "[]"]
  show ?thesis by (simp add: sio_si_def)
qed

text \<open>The octet of a GFP payload type, built as the standard has it with the type in the upper three bits,
  is read with the members holding each other's bits.\<close>

theorem gfp_fields_swapped:
  "gfp_pti (push_bit 5 (take_bit 3 pti) OR push_bit 4 (take_bit 1 pfi) OR take_bit 4 exi) = take_bit 3 exi \<and>
   gfp_pfi (push_bit 5 (take_bit 3 pti) OR push_bit 4 (take_bit 1 pfi) OR take_bit 4 exi) = take_bit 1 (drop_bit 3 exi) \<and>
   gfp_exi (push_bit 5 (take_bit 3 pti) OR push_bit 4 (take_bit 1 pfi) OR take_bit 4 exi) =
     push_bit 1 (take_bit 3 pti) OR take_bit 1 pfi"
  unfolding gfp_pti_def gfp_pfi_def gfp_exi_def
  by (intro conjI; rule u8_eqI; simp only: u8_bits; simp)

end
