(* ===== verification/Header_Fields.thy ===== *)
theory Header_Fields
  imports Wire_Signalling Ss7_Link
begin

text \<open>
  The declared layouts of the headers against the rest of the model: their sizes are those \<open>Layers\<close> counts with, and
  every function that reads a member in place reads the member of that name. Also the typed views of a LAPD frame,
  \<^verbatim>\<open>LapdHdrTempl\<close>, whose check casts the control field to the untyped one.
\<close>

subsection \<open>LAPD frames\<close>

definition is_I_view :: "control_t \<Rightarrow> bool" where "is_I_view c \<longleftrightarrow> ctl_bit_1 c = 0"
definition is_S_view :: "control_t \<Rightarrow> bool" where "is_S_view c \<longleftrightarrow> ctl_bit_1 c = 1 \<and> ctl_bit_2 c = 0"
definition is_U_view :: "control_t \<Rightarrow> bool" where "is_U_view c \<longleftrightarrow> ctl_bit_1 c = 1 \<and> ctl_bit_2 c = 1"

text \<open>\<^verbatim>\<open>(const control_t *)this\<close>\<close>

definition as_control :: "u8 list \<Rightarrow> control_t" where
  "as_control bs = fst (control_t_view bs)"

definition check_type_I :: "LapdHdrI \<Rightarrow> bool" where "check_type_I h \<longleftrightarrow> is_I_view (as_control (control_I_t_bytes (lapd_I_control h)))"
definition check_type_S :: "LapdHdrS \<Rightarrow> bool" where "check_type_S h \<longleftrightarrow> is_S_view (as_control (control_S_t_bytes (lapd_S_control h)))"
definition check_type_U :: "LapdHdrU \<Rightarrow> bool" where "check_type_U h \<longleftrightarrow> is_U_view (as_control (control_U_t_bytes (lapd_U_control h)))"

definition lapd_is_q931 :: "LapdHdr \<Rightarrow> bool" where "lapd_is_q931 h \<longleftrightarrow> addr_sapi (lapd_addr h) = 0"
definition lapd_is_x25 :: "LapdHdr \<Rightarrow> bool" where "lapd_is_x25 h \<longleftrightarrow> addr_sapi (lapd_addr h) = 16"

definition templ_is_q931 :: "LapdHdrI \<Rightarrow> bool" where
  "templ_is_q931 h \<longleftrightarrow> lapd_is_q931 (fst (LapdHdr_view (LapdHdrI_bytes h)))"

definition mac_lengths :: "EthHdr \<Rightarrow> bool" where
  "mac_lengths h \<longleftrightarrow> length (eth_dest h) = 6 \<and> length (eth_source h) = 6"

subsection \<open>Members in place\<close>

lemmas mem_units = mem_pair_def mem8_def mem16_def mem32_def mem_bytes_def

text \<open>The structures are as large as the layers count, which the sources assert for some of them.\<close>

lemma header_sizes:
  "length (VlanHdr_bytes a) = unat (sizeof_hdr Vlan)" "length (MplsHdr_bytes b) = unat (sizeof_hdr Mpls)"
  "length (Ip4Hdr_bytes c) = unat (sizeof_hdr Ip4)" "length (TcpHdr_bytes d) = unat (sizeof_hdr Tcp)"
  "length (UdpHdr_bytes e) = unat (sizeof_hdr Udp)" "length (SctpHdr_bytes f) = unat (sizeof_hdr Sctp)"
  "length (ChunkHdr_bytes g) = unat (sizeof_hdr SctpChunk)"
  "length (ChunkData_bytes h) = unat (sizeof_hdr SctpChunkData)" "length (M2uaHdr_bytes i) = unat (sizeof_hdr M2ua)"
  "length (M3uaHdr_bytes j) = unat (sizeof_hdr M3ua)" "length (MtpHdr_bytes k) = unat (sizeof_hdr Mtp)"
  "length (Mtp3Hdr_bytes l) = unat (sizeof_hdr Mtp3)" "length (HdlcHdr_bytes m) = unat (sizeof_hdr Hdlc)"
  "length (LapdHdrI_bytes n) = unat (sizeof_hdr Lapd)" "length (IsupHdr_bytes z) = unat (sizeof_hdr Isup)"
  by (simp_all add: mem_units
     VlanHdr_bytes_def VlanHdr_units_def MplsHdr_bytes_def MplsHdr_units_def Ip4Hdr_bytes_def Ip4Hdr_units_def
     TcpHdr_bytes_def TcpHdr_units_def UdpHdr_bytes_def UdpHdr_units_def SctpHdr_bytes_def SctpHdr_units_def
     ChunkHdr_bytes_def ChunkHdr_units_def ChunkData_bytes_def ChunkData_units_def M2uaHdr_bytes_def
     M2uaHdr_units_def M3uaHdr_bytes_def M3uaHdr_units_def MtpHdr_bytes_def MtpHdr_units_def Mtp3Hdr_bytes_def
     Mtp3Hdr_units_def HdlcHdr_bytes_def HdlcHdr_units_def LapdHdrI_bytes_def LapdHdrI_units_def IsupHdr_bytes_def
     IsupHdr_units_def M2uaParameter_bytes_def M2uaParameter_units_def li_t_bytes_def li_t_units_def
     sio_t_bytes_def sio_t_units_def routing_label_t_bytes_def routing_label_t_units_def mtp_bsn_t_bytes_def
     mtp_bsn_t_units_def mtp_fsn_t_bytes_def mtp_fsn_t_units_def address_t_bytes_def address_t_units_def
     control_I_t_bytes_def control_I_t_units_def)


definition stored_at :: "nat \<Rightarrow> u8 list \<Rightarrow> base \<Rightarrow> bool" where
  "stored_at a bs b \<longleftrightarrow> a + length bs \<le> content_end (packet b) \<and> slice (content (packet b)) a (length bs) = bs"

lemma stored_byte: "stored_at a bs b \<Longrightarrow> i < length bs \<Longrightarrow> a + i < content_end (packet b) \<and> content (packet b) (a + i) = bs ! i"
  unfolding stored_at_def by (metis slice_nth add_strict_left_mono order_less_le_trans)

lemma stored_rd8: "stored_at a bs b \<Longrightarrow> i < length bs \<Longrightarrow> rd8 (a + i) b = Inr (bs ! i)"
  using stored_byte [of a bs b i] by (simp add: rd8_def)

lemma join_cat: "join (x :: u8) (y :: u8) = (word_cat y x :: u16)" "join (v :: u16) (w :: u16) = (word_cat w v :: u32)"
  unfolding join_def by (rule bit_word_eqI; auto simp: bit_simps dest: bit_imp_le_length)+

lemma stored_rd16: "stored_at a bs b \<Longrightarrow> i + 1 < length bs \<Longrightarrow> rd16 (a + i) b = Inr (join (bs ! i) (bs ! (i + 1)))"
  using stored_byte [of a bs b i] stored_byte [of a bs b "i + 1"]
  by (simp add: rd16_def ld16_def join_cat add.assoc)

lemma stored_rd32: "stored_at a bs b \<Longrightarrow> i + 3 < length bs \<Longrightarrow>
  rd32 (a + i) b = Inr (join (join (bs ! i) (bs ! (i + 1)) :: u16) (join (bs ! (i + 2)) (bs ! (i + 3)) :: u16))"
  using stored_byte [of a bs b i] stored_byte [of a bs b "i + 1"] stored_byte [of a bs b "i + 2"] stored_byte [of a bs b "i + 3"]
  by (simp add: rd32_def ld32_def ld16_def join_cat add.assoc numeral_3_eq_3)

lemmas stored_reads = stored_rd8 stored_rd8 [of _ _ _ 0, simplified] stored_rd16 stored_rd16 [of _ _ _ 0, simplified]
  stored_rd32 stored_rd32 [of _ _ _ 0, simplified]

lemma bit_join: "bit (join (x :: 'a::len word) (y :: 'b::len word) :: 'c::len word) n \<longleftrightarrow>
  n < LENGTH('c) \<and> (if n < LENGTH('a) then bit x n else bit y (n - LENGTH('a)))"
  unfolding join_def by (auto simp: bit_simps dest: bit_imp_le_length)

lemma bit_low: "bit (low (w :: 'c::len word) :: 'a::len word) n \<longleftrightarrow> n < LENGTH('a) \<and> bit w n"
  unfolding low_def by (auto simp: bit_simps dest: bit_imp_le_length)

lemma bit_above: "bit (above k (w :: 'c::len word) :: 'a::len word) n \<longleftrightarrow> n < LENGTH('a) \<and> bit w (k + n)"
  unfolding above_def by (auto simp: bit_simps dest: bit_imp_le_length)

lemmas bit_fields = bit_join bit_low bit_above bit_take_bit_iff bit_drop_bit_eq comp_def bit_ucast_iff

lemma take_low: "LENGTH('a) \<le> LENGTH('c) \<Longrightarrow> k = LENGTH('a) \<Longrightarrow>
  take_bit k (join (x :: 'a::len word) (y :: 'b::len word) :: 'c::len word) = ucast x"
  unfolding join_def by (rule bit_word_eqI) (auto simp: bit_simps dest: bit_imp_le_length)

lemma drop_above: "LENGTH('a) + LENGTH('b) \<le> LENGTH('c) \<Longrightarrow> k = LENGTH('a) \<Longrightarrow>
  drop_bit k (join (x :: 'a::len word) (y :: 'b::len word) :: 'c::len word) = ucast y"
  unfolding join_def by (rule bit_word_eqI) (auto simp: bit_simps dest: bit_imp_le_length)

subsection \<open>Properties\<close>

lemma eth_read: "stored_at a (EthHdr_bytes e) b \<Longrightarrow> mac_lengths e \<Longrightarrow> eth_type a b = Inr (eth_ethertype e)"
  using stored_rd16 [of a "EthHdr_bytes e" b 12]
  by (simp add: eth_type_def EthHdr_bytes_def EthHdr_units_def mem_units mac_lengths_def nth_append)

lemma vlan_read: "stored_at a (VlanHdr_bytes v) b \<Longrightarrow> vlan_tpid a b = Inr (vlan_proto v)"
  using stored_rd16 [of a "VlanHdr_bytes v" b 2]
  by (simp add: vlan_tpid_def VlanHdr_bytes_def VlanHdr_units_def mem_units)

lemma nibble_up: "(ucast (ucast (x :: 4 word) :: u8) :: u16) = ucast x"
  by (rule bit_word_eqI) (auto simp: bit_simps dest: bit_imp_le_length)

lemma nibble_top: "drop_bit 4 (join (x :: 1 word) (join (y :: 3 word) (z :: 4 word) :: 7 word) :: u8) = ucast z"
  by (rule bit_word_eqI) (auto simp: bit_fields dest: bit_imp_le_length)

lemma ip4_read:
  assumes "stored_at a (Ip4Hdr_bytes i) b"
  shows "ip_header_len a b = Inr (ucast (ip_ihl i))" "layer_size Ip4 a b = Inr (push_bit 2 (ucast (ip_ihl i)))"
    "ip_total_length a b = Inr (ip_length i)" "ip_protocol a b = Inr (ip_proto i)"
proof -
  note defs = Ip4Hdr_bytes_def Ip4Hdr_units_def mem_units
  show *: "ip_header_len a b = Inr (ucast (ip_ihl i))"
    using stored_rd8 [OF assms, of 0] by (simp add: ip_header_len_def defs take_low)
  show "layer_size Ip4 a b = Inr (push_bit 2 (ucast (ip_ihl i)))"
    using * by (simp add: layer_sizes nibble_up)
  show "ip_total_length a b = Inr (ip_length i)"
    using stored_rd16 [OF assms, of 2] by (simp add: ip_total_length_def defs)
  show "ip_protocol a b = Inr (ip_proto i)"
    using stored_rd8 [OF assms, of 9] by (simp add: ip_protocol_def defs)
qed


lemma tcp_read:
  assumes "stored_at a (TcpHdr_bytes t) b"
  shows "tcp_data_offset a b = Inr (ucast (tcp_offset t))" "layer_size Tcp a b = Inr (push_bit 2 (ucast (tcp_offset t)))"
proof -
  show *: "tcp_data_offset a b = Inr (ucast (tcp_offset t))"
    using stored_rd8 [OF assms, of 12]
    by (simp add: tcp_data_offset_def TcpHdr_bytes_def TcpHdr_units_def mem_units nibble_top)
  show "layer_size Tcp a b = Inr (push_bit 2 (ucast (tcp_offset t)))"
    using * by (simp add: layer_sizes nibble_up)
qed

lemma mpls_octets:
  "take_bit 1 (low (join (x :: 1 word) (r :: 15 word) :: u16) :: u8) = ucast x"
  "take_bit 3 (drop_bit 1 (low (join (x :: 1 word) (join (y :: 3 word) (s :: 12 word) :: 15 word) :: u16) :: u8)) = ucast y"
  "above 8 (join (x :: 1 word) (join (y :: 3 word) (join (z :: 4 word) (t :: u8) :: 12 word) :: 15 word) :: u16) = t"
  by (rule bit_word_eqI, simp only: bit_fields, auto simp del: bit_0 dest: bit_imp_le_length)+

lemma mpls_label:
  "take_bit 16 w + push_bit 16 (take_bit 4 (drop_bit 20 w)) =
   ucast (x :: u16) + push_bit 16 (ucast (z :: 4 word))"
  if "w = (join x (join (b :: 1 word) (join (y :: 3 word) (join z (t :: u8) :: 12 word) :: 15 word) :: u16) :: u32)"
proof -
  have "take_bit 16 w = ucast x" "take_bit 4 (drop_bit 20 w) = ucast z"
    unfolding that by (rule bit_word_eqI, simp only: bit_fields, auto simp del: bit_0 dest: bit_imp_le_length)+
  then show ?thesis by simp
qed

lemma mpls_read:
  assumes "stored_at a (MplsHdr_bytes m) b"
  shows "mpls_getBs a b = Inr (ucast (mpls_bs m))" "mpls_getTc a b = Inr (ucast (mpls_tc m))" "mpls_getTtl a b = Inr (mpls_ttl m)"
    "mpls_getLabel a b = Inr (ucast (mpls_label_0 m) + push_bit 16 (ucast (mpls_label_1 m)))"
proof -
  note defs = MplsHdr_bytes_def MplsHdr_units_def mem_units
  note reads = stored_rd8 [OF assms, of 2] stored_rd8 [OF assms, of 3] stored_rd32 [OF assms, of 0]
  show "mpls_getBs a b = Inr (ucast (mpls_bs m))"
    using reads(1) mpls_octets(1) [of "mpls_bs m"] by (simp add: mpls_getBs_def defs del: One_nat_def)
  show "mpls_getTc a b = Inr (ucast (mpls_tc m))"
    using reads(1) mpls_octets(2) [of "mpls_bs m" "mpls_tc m"] by (simp add: mpls_getTc_def defs del: One_nat_def)
  show "mpls_getTtl a b = Inr (mpls_ttl m)"
    using reads(2) mpls_octets(3) [of "mpls_bs m" "mpls_tc m" "mpls_label_1 m" "mpls_ttl m"] by (simp add: mpls_getTtl_def defs)
  show "mpls_getLabel a b = Inr (ucast (mpls_label_0 m) + push_bit 16 (ucast (mpls_label_1 m)))"
    using reads(3) mpls_label [OF refl, of "mpls_label_0 m" "mpls_bs m" "mpls_tc m" "mpls_label_1 m" "mpls_ttl m"]
    by (simp add: mpls_getLabel_def defs)
qed

lemma chunk_read:
  assumes "stored_at a (ChunkData_bytes d) b"
  shows "chunk_type a b = Inr (chunk_kind (data_hdr d))" "chunk_length a b = Inr (chunk_size (data_hdr d))"
    "layer_size SctpChunk a b = Inr (LS_ntohs (chunk_size (data_hdr d)))" "chunk_proto a b = Inr (data_proto d)"
proof -
  note defs = ChunkData_bytes_def ChunkData_units_def ChunkHdr_bytes_def ChunkHdr_units_def mem_units
  note reads = stored_rd8 [OF assms, of 0] stored_rd16 [OF assms, of 2] stored_rd32 [OF assms, of 12]
  show "chunk_type a b = Inr (chunk_kind (data_hdr d))" using reads by (simp add: chunk_type_def defs)
  show *: "chunk_length a b = Inr (chunk_size (data_hdr d))" using reads by (simp add: chunk_length_def defs)
  show "layer_size SctpChunk a b = Inr (LS_ntohs (chunk_size (data_hdr d)))" using * by (simp add: layer_sizes)
  show "chunk_proto a b = Inr (data_proto d)" using reads by (simp add: chunk_proto_def defs)
qed

lemma m3ua_read:
  assumes "stored_at a (M3uaHdr_bytes h) b"
  shows "m3ua_msgClass a b = Inr (m3ua_class h)" "m3ua_type a b = Inr (m3ua_kind h)" "m3ua_length a b = Inr (m3ua_size h)"
    "layer_size M3ua a b = Inr (ucast (LS_ntohl (m3ua_size h)))"
proof -
  note defs = M3uaHdr_bytes_def M3uaHdr_units_def mem_units
  note reads = stored_rd8 [OF assms, of 2] stored_rd8 [OF assms, of 3] stored_rd32 [OF assms, of 4]
  show "m3ua_msgClass a b = Inr (m3ua_class h)" using reads by (simp add: m3ua_msgClass_def defs)
  show "m3ua_type a b = Inr (m3ua_kind h)" using reads by (simp add: m3ua_type_def defs)
  show *: "m3ua_length a b = Inr (m3ua_size h)" using reads by (simp add: m3ua_length_def defs)
  show "layer_size M3ua a b = Inr (ucast (LS_ntohl (m3ua_size h)))" using * by (simp add: layer_sizes)
qed

lemma pdata_read:
  assumes "stored_at a (M3uaProtocolData_bytes p) b"
  shows "param_getTag a b = Inr (LS_ntohs (m3ua_tag (pdata_param p)))" "param_getLength a b = Inr (LS_ntohs (m3ua_plength (pdata_param p)))"
    "pd_si a b = Inr (pdata_si p)"
proof -
  note defs = M3uaProtocolData_bytes_def M3uaProtocolData_units_def M3uaParamter_bytes_def M3uaParamter_units_def mem_units
  note reads = stored_rd16 [OF assms, of 0] stored_rd16 [OF assms, of 2] stored_rd8 [OF assms, of 12]
  have "a + 16 \<le> content_end (packet b)" using assms by (simp add: stored_at_def defs)
  then show "pd_si a b = Inr (pdata_si p)"
    using reads by (simp add: pd_si_def rd_block_def SIZEOF_M3uaProtocolData_def defs)
  show "param_getTag a b = Inr (LS_ntohs (m3ua_tag (pdata_param p)))" using reads by (simp add: param_getTag_def defs)
  show "param_getLength a b = Inr (LS_ntohs (m3ua_plength (pdata_param p)))" using reads by (simp add: param_getLength_def defs)
qed

lemma mtp_read:
  assumes "stored_at a (MtpHdr_bytes h) b" and "stored_at a' (Mtp3Hdr_bytes h3) b"
  shows "rbind (mtp_sio a b) (\<lambda>w. Inr (sio_si w)) = Inr (ucast (sio_service (mtp_service h)))"
    "rbind (mtp3_sio a' b) (\<lambda>w. Inr (sio_si w)) = Inr (ucast (sio_service (mtp3_service h3)))"
proof -
  note units = sio_t_bytes_def sio_t_units_def mem_units
  note defs = MtpHdr_bytes_def MtpHdr_units_def mtp_bsn_t_bytes_def mtp_fsn_t_bytes_def li_t_bytes_def routing_label_t_bytes_def units
  note defs3 = Mtp3Hdr_bytes_def Mtp3Hdr_units_def routing_label_t_bytes_def units
  show "rbind (mtp_sio a b) (\<lambda>w. Inr (sio_si w)) = Inr (ucast (sio_service (mtp_service h)))"
    using stored_rd8 [OF assms(1), of 3] by (simp add: mtp_sio_def sio_si_def defs take_low)
  show "rbind (mtp3_sio a' b) (\<lambda>w. Inr (sio_si w)) = Inr (ucast (sio_service (mtp3_service h3)))"
    using stored_rd8 [OF assms(2), of 0] by (simp add: mtp3_sio_def sio_si_def defs3 take_low)
qed


text \<open>C16. A header written with its declared layout anywhere in a packet is read six member by member by the functions
  the rest of the model uses: the types and protocols the extractors branch on, the sizes that lead
  to the next header, and the labels.\<close>

theorem readers_read_members:
  "(\<forall>a b h. stored_at a (EthHdr_bytes h) b \<and> mac_lengths h \<longrightarrow> eth_type a b = Inr (eth_ethertype h)) \<and>
   (\<forall>a b h. stored_at a (VlanHdr_bytes h) b \<longrightarrow> vlan_tpid a b = Inr (vlan_proto h)) \<and>
   (\<forall>a b h. stored_at a (MplsHdr_bytes h) b \<longrightarrow> mpls_getBs a b = Inr (ucast (mpls_bs h)) \<and> mpls_getTc a b = Inr (ucast (mpls_tc h)) \<and>
      mpls_getTtl a b = Inr (mpls_ttl h) \<and> mpls_getLabel a b = Inr (ucast (mpls_label_0 h) + push_bit 16 (ucast (mpls_label_1 h)))) \<and>
   (\<forall>a b h. stored_at a (Ip4Hdr_bytes h) b \<longrightarrow> layer_size Ip4 a b = Inr (push_bit 2 (ucast (ip_ihl h))) \<and>
      ip_total_length a b = Inr (ip_length h) \<and> ip_protocol a b = Inr (ip_proto h)) \<and>
   (\<forall>a b h. stored_at a (TcpHdr_bytes h) b \<longrightarrow> layer_size Tcp a b = Inr (push_bit 2 (ucast (tcp_offset h)))) \<and>
   (\<forall>a b h. stored_at a (ChunkData_bytes h) b \<longrightarrow> chunk_type a b = Inr (chunk_kind (data_hdr h)) \<and>
      layer_size SctpChunk a b = Inr (LS_ntohs (chunk_size (data_hdr h))) \<and> chunk_proto a b = Inr (data_proto h)) \<and>
   (\<forall>a b h. stored_at a (M3uaHdr_bytes h) b \<longrightarrow> m3ua_msgClass a b = Inr (m3ua_class h) \<and> m3ua_type a b = Inr (m3ua_kind h) \<and>
      layer_size M3ua a b = Inr (ucast (LS_ntohl (m3ua_size h)))) \<and>
   (\<forall>a b h. stored_at a (M3uaProtocolData_bytes h) b \<longrightarrow> param_getTag a b = Inr (LS_ntohs (m3ua_tag (pdata_param h))) \<and>
      param_getLength a b = Inr (LS_ntohs (m3ua_plength (pdata_param h))) \<and> pd_si a b = Inr (pdata_si h)) \<and>
   (\<forall>a a' b h h'. stored_at a (MtpHdr_bytes h) b \<and> stored_at a' (Mtp3Hdr_bytes h') b \<longrightarrow>
      rbind (mtp_sio a b) (\<lambda>w. Inr (sio_si w)) = Inr (ucast (sio_service (mtp_service h))) \<and>
      rbind (mtp3_sio a' b) (\<lambda>w. Inr (sio_si w)) = Inr (ucast (sio_service (mtp3_service h'))))"
  by (intro conjI allI impI)
    (auto simp: eth_read vlan_read mpls_read ip4_read tcp_read chunk_read m3ua_read pdata_read mtp_read)

lemma stored_captured: "stored_at 48 bs (captured bs n)"
  by (simp add: stored_at_def mem_simps)

definition demo_ip4 :: Ip4Hdr where
  "demo_ip4 = \<lparr>ip_ihl = 6, ip_version = 4, ip_tos = 0, ip_length = 0x1800, ip_id = 0, ip_frag_offset = 0, ip_more_fragment = 0,
     ip_dont_fragment = 0, ip_reserved_zero = 0, ip_frag_offset1 = 0, ip_ttl = 64, ip_proto = 6, ip_checksum = 0,
     ip_srcaddr = 1, ip_dstaddr = 2\<rparr>"
definition demo_mpls :: MplsHdr where
  "demo_mpls = \<lparr>mpls_label_0 = 0x1234, mpls_bs = 1, mpls_tc = 5, mpls_label_1 = 3, mpls_ttl = 9\<rparr>"

theorem readers_read_members_witness:
  "layer_size Ip4 48 (captured (Ip4Hdr_bytes demo_ip4) 24) = Inr 24 \<and>
   ip_protocol 48 (captured (Ip4Hdr_bytes demo_ip4) 24) = Inr 6 \<and>
   mpls_getTc 48 (captured (MplsHdr_bytes demo_mpls) 4) = Inr 5 \<and>
   mpls_getLabel 48 (captured (MplsHdr_bytes demo_mpls) 4) = Inr 0x31234"
proof -
  have "ip_ihl demo_ip4 = 6" "ip_proto demo_ip4 = 6" by (simp_all add: demo_ip4_def)
  then show ?thesis
    using readers_read_members stored_captured [of "Ip4Hdr_bytes demo_ip4" 24] stored_captured [of "MplsHdr_bytes demo_mpls" 4]
    by (simp add: demo_mpls_def)
qed

subsection \<open>The views of a LAPD frame\<close>

text \<open>The check of a typed view looks at its fixed bits.\<close>

lemmas view_defs = as_control_def control_t_view_def control_t_of_def view8_def mem_pair_def mem8_def is_I_view_def is_S_view_def is_U_view_def

lemma check_types:
  "check_type_I h1 \<longleftrightarrow> I_bit_1 (lapd_I_control h1) = 0"
  "check_type_S h2 \<longleftrightarrow> S_bit_1 (lapd_S_control h2) = 1 \<and> S_bit_2 (lapd_S_control h2) = 0"
  "check_type_U h3 \<longleftrightarrow> U_bit_1 (lapd_U_control h3) = 1 \<and> U_bit_2 (lapd_U_control h3) = 1"
  by (simp_all add: check_type_I_def check_type_S_def check_type_U_def view_defs Let_def
      control_I_t_bytes_def control_S_t_bytes_def control_U_t_bytes_def control_I_t_units_def control_S_t_units_def control_U_t_units_def)

lemma templ_q931: "templ_is_q931 h \<longleftrightarrow> addr_sapi (lapd_I_address h) = 0"
proof -
  have "LapdHdrI_bytes h = address_t_bytes (lapd_I_address h) @ control_I_t_bytes (lapd_I_control h)"
    by (simp add: LapdHdrI_bytes_def LapdHdrI_units_def mem_pair_def)
  then show ?thesis
    using lapd_address.view_bytes [of "lapd_I_address h" "control_I_t_bytes (lapd_I_control h)"]
    by (simp add: templ_is_q931_def lapd_is_q931_def LapdHdr_view_def view_pair_def LapdHdr_of_def case_prod_unfold Let_def)
qed

lemma one_bit: "(low (w :: u8) :: 1 word) = 0 \<longleftrightarrow> \<not> bit w 0" "(low (w :: u8) :: 1 word) = 1 \<longleftrightarrow> bit w 0"
  "(low (above 1 (w :: u8) :: 7 word) :: 1 word) = 0 \<longleftrightarrow> \<not> bit w 1" "(low (above 1 (w :: u8) :: 7 word) :: 1 word) = 1 \<longleftrightarrow> bit w 1"
proof -
  have eq: "x = y \<longleftrightarrow> bit x 0 = bit y 0" for x y :: "1 word"
    by (auto intro: bit_word_eqI simp del: bit_0)
  have b: "x = 0 \<longleftrightarrow> \<not> bit x 0" "x = 1 \<longleftrightarrow> bit x 0" for x :: "1 word"
    using eq [of x 0] eq [of x 1] by simp_all
  show "(low (w :: u8) :: 1 word) = 0 \<longleftrightarrow> \<not> bit w 0" "(low (w :: u8) :: 1 word) = 1 \<longleftrightarrow> bit w 0"
    "(low (above 1 (w :: u8) :: 7 word) :: 1 word) = 0 \<longleftrightarrow> \<not> bit w 1" "(low (above 1 (w :: u8) :: 7 word) :: 1 word) = 1 \<longleftrightarrow> bit w 1"
    by (simp_all only: b bit_fields) auto
qed

text \<open>Whatever the frame, exactly one of the three typed views of it passes its check, and it is the one the
  untyped header names; the addresses agree too.\<close>

theorem lapd_views_agree:
  assumes "length bs = 4"
  shows "LapdHdrI_bytes (fst (LapdHdrI_view bs)) = bs \<and> LapdHdrS_bytes (fst (LapdHdrS_view bs)) = bs \<and>
    check_type_I (fst (LapdHdrI_view bs)) = is_I_type (bs ! 2) \<and> check_type_S (fst (LapdHdrS_view bs)) = is_S_type (bs ! 2) \<and>
    check_type_U (fst (LapdHdrU_view bs)) = is_U_type (bs ! 2) \<and>
    templ_is_q931 (fst (LapdHdrI_view bs)) = lapd_is_q931 (fst (LapdHdr_view bs)) \<and>
    lapd_is_q931 (fst (LapdHdr_view bs)) = is_q931 (bs ! 0) \<and> lapd_is_x25 (fst (LapdHdr_view bs)) = is_x25 (bs ! 0)"
proof -
  obtain a b c d where bs: "bs = [a, b, c, d]" using assms by (auto simp: length_Suc_conv numeral_eq_Suc)
  note addr = address_t_view_def address_t_of_def view_pair_def view8_def Let_def
  have I: "I_bit_1 (lapd_I_control (fst (LapdHdrI_view bs))) = low c" "lapd_I_address (fst (LapdHdrI_view bs)) = fst (address_t_view bs)"
    by (simp_all add: bs LapdHdrI_view_def LapdHdrI_of_def control_I_t_view_def control_I_t_of_def addr)
  have S: "S_bit_1 (lapd_S_control (fst (LapdHdrS_view bs))) = low c" "S_bit_2 (lapd_S_control (fst (LapdHdrS_view bs))) = low (above 1 c :: 7 word)"
    by (simp_all add: bs LapdHdrS_view_def LapdHdrS_of_def control_S_t_view_def control_S_t_of_def addr)
  have U: "U_bit_1 (lapd_U_control (fst (LapdHdrU_view bs))) = low c" "U_bit_2 (lapd_U_control (fst (LapdHdrU_view bs))) = low (above 1 c :: 7 word)"
    by (simp_all add: bs LapdHdrU_view_def LapdHdrU_of_def control_U_t_view_def control_U_t_of_def addr)
  have L: "lapd_addr (fst (LapdHdr_view bs)) = fst (address_t_view bs)" "addr_sapi (fst (address_t_view bs)) = above 1 (above 1 a :: 7 word)"
    by (simp_all add: bs LapdHdr_view_def LapdHdr_of_def control_t_view_def control_t_of_def addr)
  have "(above 1 (above 1 a :: 7 word) :: 6 word) = ucast (drop_bit 2 a)"
    by (rule bit_word_eqI) (simp only: bit_fields, auto)
  moreover have "ucast (ucast (drop_bit 2 a) :: 6 word) = drop_bit 2 a"
    by (rule bit_word_eqI) (simp only: bit_fields, auto dest: bit_imp_le_length)
  ultimately have sapi: "ucast (above 1 (above 1 a :: 7 word) :: 6 word) = lapd_sapi a" by (simp add: lapd_sapi_def)
  have six: "(y = z) = (ucast y = (ucast z :: u8))" for y z :: "6 word"
  proof
    assume "ucast y = (ucast z :: u8)"
    moreover have "ucast (ucast x :: u8) = x" for x :: "6 word"
      by (rule bit_word_eqI) (simp add: bit_ucast_iff)
    ultimately show "y = z" by metis
  qed simp
  have "is_q931 (bs ! 0) \<longleftrightarrow> (above 1 (above 1 a :: 7 word) :: 6 word) = 0"
    "is_x25 (bs ! 0) \<longleftrightarrow> (above 1 (above 1 a :: 7 word) :: 6 word) = 16"
    using sapi six [of "above 1 (above 1 a :: 7 word)" 0] six [of "above 1 (above 1 a :: 7 word)" 16] by (auto simp: is_q931_def is_x25_def bs)
  with lapd_hdr_I.same_memory [OF assms] lapd_hdr_S.same_memory [OF assms] show ?thesis
    by (simp add: check_types templ_q931 lapd_is_q931_def lapd_is_x25_def I S U L one_bit one_bit [unfolded One_nat_def] control_bits) (simp add: bs)
qed


theorem lapd_views_agree_witness:
  "check_type_S (fst (LapdHdrS_view [0x40, 3, 5, 8])) \<and> lapd_is_x25 (fst (LapdHdr_view [0x40, 3, 5, 8]))"
proof -
  have "is_S_type 5" "is_x25 0x40" by (simp_all add: is_S_type_def bit1_def bit2_def is_x25_def lapd_sapi_def)
  with lapd_views_agree [of "[0x40, 3, 5, 8]"] show ?thesis by simp
qed

end
