(* ===== verification/Ss7_Codes.thy ===== *)
theory Ss7_Codes
  imports Prelude
begin

text \<open>
  The enumerations of \<^verbatim>\<open>lib/libstack/ss7\<close> and \<^verbatim>\<open>Gfp.h\<close>: a datatype with the enumerators of the source, behind a prefix where
  two of them share a name, and the table of their codes in the order of the source. The locale \<open>code_table\<close> says that
  a table gives every enumerator one code of its own. At the end the type mask that
  \<^verbatim>\<open>ExtractorM3ua.h\<close> computes from class and type of a message.
\<close>

subsection \<open>Tables of codes\<close>

definition encode :: "('c \<times> 'x) list \<Rightarrow> 'x \<Rightarrow> 'c" where
  "encode codes x = the (map_of (map prod.swap codes) x)"

definition decode :: "('c \<times> 'x) list \<Rightarrow> 'c \<Rightarrow> 'x option" where
  "decode codes c = map_of codes c"

locale code_table =
  fixes codes :: "('c \<times> 'x) list"
  assumes codes_distinct: "distinct (map fst codes)"
    and members_distinct: "distinct (map snd codes)"
    and all_members: "x \<in> snd ` set codes"
begin

lemma swap_distinct: "distinct (map fst (map prod.swap codes))"
proof -
  have "map fst (map prod.swap codes) = map snd codes" by (simp add: fun_eq_iff)
  then show ?thesis using members_distinct by (simp only:)
qed

lemma encode_iff: "encode codes x = c \<longleftrightarrow> (c, x) \<in> set codes"
proof -
  obtain d where d: "(d, x) \<in> set codes" using all_members [of x] by auto
  then have "(x, d) \<in> set (map prod.swap codes)" by force
  then have "map_of (map prod.swap codes) x = Some d" using map_of_eq_Some_iff [OF swap_distinct] by simp
  then have "encode codes x = d" by (simp add: encode_def)
  moreover have "c = d" if "(c, x) \<in> set codes"
  proof -
    from that have "(x, c) \<in> set (map prod.swap codes)" by force
    from eq_key_imp_eq_value [OF swap_distinct this \<open>(x, d) \<in> set (map prod.swap codes)\<close>] show ?thesis .
  qed
  ultimately show ?thesis using d by auto
qed

lemma decode_iff: "decode codes c = Some x \<longleftrightarrow> (c, x) \<in> set codes"
  using codes_distinct by (simp add: decode_def map_of_eq_Some_iff)

lemma decode_encode: "decode codes (encode codes x) = Some x"
  using encode_iff decode_iff by blast

lemma encode_decode: "decode codes c = Some x \<longleftrightarrow> encode codes x = c"
  by (simp add: encode_iff decode_iff)

lemma encode_inj: "encode codes x = encode codes y \<longleftrightarrow> x = y"
  by (metis decode_encode option.inject)

end

subsection \<open>Message transfer part\<close>

datatype mtp_ni = NI_INT | NI_NAT

definition mtp_ni_codes :: "(u8 \<times> mtp_ni) list" where
  "mtp_ni_codes = [(0, NI_INT), (2, NI_NAT)]"

interpretation mtp_ni: code_table mtp_ni_codes
proof
  show "x \<in> snd ` set mtp_ni_codes" for x by (cases x) (simp_all add: mtp_ni_codes_def)
qed (simp_all add: mtp_ni_codes_def)

datatype mtp_si = SI_SCCP | SI_TUP | SI_ISUP | SI_DUPCC | SI_DUPFRC | SI_MTPTUP | SI_BISUP | SI_SISUP

definition mtp_si_codes :: "(u8 \<times> mtp_si) list" where
  "mtp_si_codes = [(3, SI_SCCP), (4, SI_TUP), (5, SI_ISUP), (6, SI_DUPCC), (7, SI_DUPFRC), (8, SI_MTPTUP), (9, SI_BISUP),
     (10, SI_SISUP)]"

interpretation mtp_si: code_table mtp_si_codes
proof
  show "x \<in> snd ` set mtp_si_codes" for x by (cases x) (simp_all add: mtp_si_codes_def)
qed (simp_all add: mtp_si_codes_def)

datatype mtp_lsi = LSI_SIO | LSI_SIN | LSI_SIE | LSI_SIOS | LSI_SIPO | LSI_SIB

definition mtp_lsi_codes :: "(u8 \<times> mtp_lsi) list" where
  "mtp_lsi_codes = [(0, LSI_SIO), (1, LSI_SIN), (2, LSI_SIE), (3, LSI_SIOS), (4, LSI_SIPO), (5, LSI_SIB)]"

interpretation mtp_lsi: code_table mtp_lsi_codes
proof
  show "x \<in> snd ` set mtp_lsi_codes" for x by (cases x) (simp_all add: mtp_lsi_codes_def)
qed (simp_all add: mtp_lsi_codes_def)

datatype mtp_type = SU_FISU | SU_LSSU | SU_MSU | SU_MSU_MAX

definition mtp_type_codes :: "(u8 \<times> mtp_type) list" where
  "mtp_type_codes = [(0, SU_FISU), (1, SU_LSSU), (3, SU_MSU), (63, SU_MSU_MAX)]"

interpretation mtp_type: code_table mtp_type_codes
proof
  show "x \<in> snd ` set mtp_type_codes" for x by (cases x) (simp_all add: mtp_type_codes_def)
qed (simp_all add: mtp_type_codes_def)

datatype mtp3_ni = NI3_INT | NI3_NAT

definition mtp3_ni_codes :: "(u8 \<times> mtp3_ni) list" where
  "mtp3_ni_codes = [(0, NI3_INT), (2, NI3_NAT)]"

interpretation mtp3_ni: code_table mtp3_ni_codes
proof
  show "x \<in> snd ` set mtp3_ni_codes" for x by (cases x) (simp_all add: mtp3_ni_codes_def)
qed (simp_all add: mtp3_ni_codes_def)

datatype mtp3_si = SI3_SCCP | SI3_TUP | SI3_ISUP | SI3_DUPCC | SI3_DUPFRC | SI3_MTPTUP | SI3_BISUP | SI3_SISUP

definition mtp3_si_codes :: "(u8 \<times> mtp3_si) list" where
  "mtp3_si_codes = [(3, SI3_SCCP), (4, SI3_TUP), (5, SI3_ISUP), (6, SI3_DUPCC), (7, SI3_DUPFRC), (8, SI3_MTPTUP),
     (9, SI3_BISUP), (10, SI3_SISUP)]"

interpretation mtp3_si: code_table mtp3_si_codes
proof
  show "x \<in> snd ` set mtp3_si_codes" for x by (cases x) (simp_all add: mtp3_si_codes_def)
qed (simp_all add: mtp3_si_codes_def)

subsection \<open>SIGTRAN\<close>

datatype m3ua_si = SIA_SCCP | SIA_TUP | SIA_ISUP | SIA_BISUP | SIA_SISUP | SIA_AAL2 | SIA_BICC | SIA_GCP

definition m3ua_si_codes :: "(u8 \<times> m3ua_si) list" where
  "m3ua_si_codes = [(0x3, SIA_SCCP), (0x4, SIA_TUP), (0x5, SIA_ISUP), (0x9, SIA_BISUP), (0x10, SIA_SISUP), (0x12, SIA_AAL2),
     (0x13, SIA_BICC), (0x14, SIA_GCP)]"

interpretation m3ua_si: code_table m3ua_si_codes
proof
  show "x \<in> snd ` set m3ua_si_codes" for x by (cases x) (simp_all add: m3ua_si_codes_def)
qed (simp_all add: m3ua_si_codes_def)

datatype m3ua_class = M3_MGMT | M3_TM | M3_SNMP | M3_ASPSM | M3_ASPTM | M3_RKM

definition m3ua_class_codes :: "(u8 \<times> m3ua_class) list" where
  "m3ua_class_codes = [(0x0, M3_MGMT), (0x1, M3_TM), (0x2, M3_SNMP), (0x3, M3_ASPSM), (0x4, M3_ASPTM), (0x8, M3_RKM)]"

interpretation m3ua_class: code_table m3ua_class_codes
proof
  show "x \<in> snd ` set m3ua_class_codes" for x by (cases x) (simp_all add: m3ua_class_codes_def)
qed (simp_all add: m3ua_class_codes_def)

datatype m3ua_type_mask = MGMT_ERR | MGMT_NTFY | TM_DATA | SNMP_DUNA | SNMP_DAVA | SNMP_DAUD | SNMP_SCON | SNMP_DUPU | SNMP_DRST
  | ASPSM_UP | ASPSM_DN | ASPSM_BEAT | ASPSM_UPACK | ASPSM_DNACK | ASPSM_BEATACK | ASPTM_AC | ASPTM_IA
  | ASPTM_ACACK | ASPTM_IAACK | RKM_REGREQ | RKM_REGRSP | RKM_DEREGREQ | RKM_DEREGRSP

definition m3ua_type_mask_codes :: "(u16 \<times> m3ua_type_mask) list" where
  "m3ua_type_mask_codes = [(0x0000, MGMT_ERR), (0x0001, MGMT_NTFY), (0x0101, TM_DATA), (0x0201, SNMP_DUNA), (0x0202, SNMP_DAVA),
     (0x0203, SNMP_DAUD), (0x0204, SNMP_SCON), (0x0205, SNMP_DUPU), (0x0206, SNMP_DRST), (0x0301, ASPSM_UP),
     (0x0302, ASPSM_DN), (0x0303, ASPSM_BEAT), (0x0304, ASPSM_UPACK), (0x0305, ASPSM_DNACK),
     (0x0306, ASPSM_BEATACK), (0x0401, ASPTM_AC), (0x0402, ASPTM_IA), (0x0403, ASPTM_ACACK),
     (0x0404, ASPTM_IAACK), (0x0901, RKM_REGREQ), (0x0902, RKM_REGRSP), (0x0903, RKM_DEREGREQ),
     (0x0904, RKM_DEREGRSP)]"

interpretation m3ua_type_mask: code_table m3ua_type_mask_codes
proof
  show "x \<in> snd ` set m3ua_type_mask_codes" for x by (cases x) (simp_all add: m3ua_type_mask_codes_def)
qed (simp_all add: m3ua_type_mask_codes_def)

datatype m3ua_tag = TAG_INFO | TAG_RCTX | TAG_DINFO | TAG_HBDATA | TAG_TMT | TAG_ERR | TAG_STATUS | TAG_NA | TAG_USR | TAG_CI
  | TAG_CDST | TAG_RKEY | TAG_RRES | TAG_DRES | TAG_LRKI | TAG_DPC | TAG_SI | TAG_OPCL | TAG_CR | TAG_PDATA
  | TAG_RSTATUS | TAG_DSTATUS

definition m3ua_tag_codes :: "(u16 \<times> m3ua_tag) list" where
  "m3ua_tag_codes = [(0x0004, TAG_INFO), (0x0006, TAG_RCTX), (0x0007, TAG_DINFO), (0x0009, TAG_HBDATA), (0x000b, TAG_TMT),
     (0x000c, TAG_ERR), (0x000d, TAG_STATUS), (0x0200, TAG_NA), (0x0204, TAG_USR), (0x0205, TAG_CI),
     (0x0206, TAG_CDST), (0x0207, TAG_RKEY), (0x0208, TAG_RRES), (0x0209, TAG_DRES), (0x020a, TAG_LRKI),
     (0x020b, TAG_DPC), (0x020c, TAG_SI), (0x020e, TAG_OPCL), (0x020f, TAG_CR), (0x0210, TAG_PDATA),
     (0x0212, TAG_RSTATUS), (0x0213, TAG_DSTATUS)]"

interpretation m3ua_tag: code_table m3ua_tag_codes
proof
  show "x \<in> snd ` set m3ua_tag_codes" for x by (cases x) (simp_all add: m3ua_tag_codes_def)
qed (simp_all add: m3ua_tag_codes_def)

datatype m2ua_class = M2_MGMT | M2_TM | M2_SSNM | M2_ASPSM | M2_ASPTM | M2_QPTM | M2_MAUP | M2_CM | M2_COM | M2_RKM | M2_IIM

definition m2ua_class_codes :: "(u8 \<times> m2ua_class) list" where
  "m2ua_class_codes = [(0x0, M2_MGMT), (0x1, M2_TM), (0x2, M2_SSNM), (0x3, M2_ASPSM), (0x4, M2_ASPTM), (0x5, M2_QPTM),
     (0x6, M2_MAUP), (0x7, M2_CM), (0x8, M2_COM), (0x9, M2_RKM), (0x10, M2_IIM)]"

interpretation m2ua_class: code_table m2ua_class_codes
proof
  show "x \<in> snd ` set m2ua_class_codes" for x by (cases x) (simp_all add: m2ua_class_codes_def)
qed (simp_all add: m2ua_class_codes_def)

datatype sctp_chunk_type = CT_DATA | CT_INIT | CT_INIT_ACK | CT_SACK | CT_HEARTBEAT | CT_HEARTBEAT_ACK | CT_ABORT | CT_SHUTDOWN
  | CT_SHUTDOWN_ACK | CT_ERROR | CT_COOKIE_ECHO | CT_COOKIE_ACK | CT_ECNE | CT_CWR | CT_SHUTDOWN_COMPLETE

definition sctp_chunk_type_codes :: "(u8 \<times> sctp_chunk_type) list" where
  "sctp_chunk_type_codes = [(0, CT_DATA), (0x1, CT_INIT), (0x2, CT_INIT_ACK), (0x3, CT_SACK), (0x4, CT_HEARTBEAT),
     (0x5, CT_HEARTBEAT_ACK), (0x6, CT_ABORT), (0x7, CT_SHUTDOWN), (0x8, CT_SHUTDOWN_ACK), (0x9, CT_ERROR),
     (0xa, CT_COOKIE_ECHO), (0xb, CT_COOKIE_ACK), (0xc, CT_ECNE), (0xd, CT_CWR), (0xe, CT_SHUTDOWN_COMPLETE)]"

interpretation sctp_chunk_type: code_table sctp_chunk_type_codes
proof
  show "x \<in> snd ` set sctp_chunk_type_codes" for x by (cases x) (simp_all add: sctp_chunk_type_codes_def)
qed (simp_all add: sctp_chunk_type_codes_def)

datatype sctp_proto = PP_M2ua | PP_M3ua

definition sctp_proto_codes :: "(u32 \<times> sctp_proto) list" where
  "sctp_proto_codes = [(0x02000000, PP_M2ua), (0x03000000, PP_M3ua)]"

interpretation sctp_proto: code_table sctp_proto_codes
proof
  show "x \<in> snd ` set sctp_proto_codes" for x by (cases x) (simp_all add: sctp_proto_codes_def)
qed (simp_all add: sctp_proto_codes_def)

subsection \<open>SCCP\<close>

datatype sccp_parameter = PAR_END | PAR_DST | PAR_SRC | PAR_CALLED | PAR_CALLING | PAR_PC | PAR_SEGREAS | PAR_RCN | PAR_SEQSEG
  | PAR_CREDIT | PAR_RELEASE | PAR_RETURN | PAR_RESET | PAR_ERR | PAR_REFUSE | PAR_DATA | PAR_SEG | PAR_HC
  | PAR_IMP | PAR_LDATA

definition sccp_parameter_codes :: "(u8 \<times> sccp_parameter) list" where
  "sccp_parameter_codes = [(0x00, PAR_END), (0x01, PAR_DST), (0x02, PAR_SRC), (0x03, PAR_CALLED), (0x04, PAR_CALLING), (0x05, PAR_PC),
     (0x06, PAR_SEGREAS), (0x07, PAR_RCN), (0x08, PAR_SEQSEG), (0x09, PAR_CREDIT), (0x0a, PAR_RELEASE),
     (0x0b, PAR_RETURN), (0x0c, PAR_RESET), (0x0d, PAR_ERR), (0x0e, PAR_REFUSE), (0x0f, PAR_DATA),
     (0x10, PAR_SEG), (0x11, PAR_HC), (0x12, PAR_IMP), (0x13, PAR_LDATA)]"

interpretation sccp_parameter: code_table sccp_parameter_codes
proof
  show "x \<in> snd ` set sccp_parameter_codes" for x by (cases x) (simp_all add: sccp_parameter_codes_def)
qed (simp_all add: sccp_parameter_codes_def)

datatype sccp_ssn = Ssn_UNKNOWN | Ssn_SCMG | Ssn_ISUP | Ssn_OMAP | Ssn_MAP | Ssn_HLR | Ssn_VLR | Ssn_MSC | Ssn_EIC | Ssn_AUC
  | Ssn_ISDNSS | Ssn_INAP | Ssn_BISDN | Ssn_TCTR | Ssn_RANAP | Ssn_RNSAP | Ssn_GMLC | Ssn_CAP | Ssn_GSMSCF
  | Ssn_SIWF | Ssn_SGSN | Ssn_GGSN | Ssn_MTX | Ssn_HLRMUP | Ssn_BSCBSSAPP | Ssn_MSCBSSAP | Ssn_SMLCBSSAPP
  | Ssn_BSSOM | Ssn_BSSAP

definition sccp_ssn_codes :: "(u8 \<times> sccp_ssn) list" where
  "sccp_ssn_codes = [(0x0, Ssn_UNKNOWN), (0x1, Ssn_SCMG), (0x3, Ssn_ISUP), (0x4, Ssn_OMAP), (0x5, Ssn_MAP), (0x6, Ssn_HLR),
     (0x7, Ssn_VLR), (0x8, Ssn_MSC), (0x9, Ssn_EIC), (0xa, Ssn_AUC), (0xb, Ssn_ISDNSS), (0xc, Ssn_INAP),
     (0xd, Ssn_BISDN), (0xe, Ssn_TCTR), (0x8e, Ssn_RANAP), (0x8f, Ssn_RNSAP), (0x91, Ssn_GMLC), (0x92, Ssn_CAP),
     (0x93, Ssn_GSMSCF), (0x94, Ssn_SIWF), (0x95, Ssn_SGSN), (0x96, Ssn_GGSN), (0xf8, Ssn_MTX),
     (0xf9, Ssn_HLRMUP), (0xfa, Ssn_BSCBSSAPP), (0xfb, Ssn_MSCBSSAP), (0xfc, Ssn_SMLCBSSAPP), (0xfd, Ssn_BSSOM),
     (0xfe, Ssn_BSSAP)]"

interpretation sccp_ssn: code_table sccp_ssn_codes
proof
  show "x \<in> snd ` set sccp_ssn_codes" for x by (cases x) (simp_all add: sccp_ssn_codes_def)
qed (simp_all add: sccp_ssn_codes_def)

subsection \<open>Generic framing procedure\<close>

datatype gfp_upi = UPI_F_ETH | UPI_F_PPP | UPI_T_FIBRE_CHANNEL | UPI_T_FICON | UPI_T_ESCON | UPI_T_GB_ETH | UPI_F_MAPOS
  | UPI_T_DVB_ASI | UPI_F_IEEE_802_17 | UPI_F_BBW | UPI_AT_FIBRE_CHANNEL | UPI_F_MPLS_UNI | UPI_F_MPLS_MULTI
  | UPI_F_ISIS | UPI_F_IPV4 | UPI_F_IPV6 | UPI_F_DVB_ASI

definition gfp_upi_codes :: "(u32 \<times> gfp_upi) list" where
  "gfp_upi_codes = [(0x01, UPI_F_ETH), (0x02, UPI_F_PPP), (0x3, UPI_T_FIBRE_CHANNEL), (0x04, UPI_T_FICON), (0x05, UPI_T_ESCON),
     (0x06, UPI_T_GB_ETH), (0x08, UPI_F_MAPOS), (0x09, UPI_T_DVB_ASI), (0x0A, UPI_F_IEEE_802_17),
     (0x0B, UPI_F_BBW), (0x0C, UPI_AT_FIBRE_CHANNEL), (0x0D, UPI_F_MPLS_UNI), (0x0E, UPI_F_MPLS_MULTI),
     (0x0F, UPI_F_ISIS), (0x10, UPI_F_IPV4), (0x11, UPI_F_IPV6), (0x12, UPI_F_DVB_ASI)]"

interpretation gfp_upi: code_table gfp_upi_codes
proof
  show "x \<in> snd ` set gfp_upi_codes" for x by (cases x) (simp_all add: gfp_upi_codes_def)
qed (simp_all add: gfp_upi_codes_def)

subsection \<open>Properties\<close>

text \<open>\<^verbatim>\<open>uint16_t typeMask = m3ua->type; typeMask |= m3ua->msgClass << 8;\<close>\<close>

definition m3ua_typeMask :: "u8 \<Rightarrow> u8 \<Rightarrow> u16" where
  "m3ua_typeMask cls type = ucast type OR push_bit 8 (ucast cls)"

definition one_to_one :: "('c \<times> 'x) list \<Rightarrow> bool" where
  "one_to_one codes \<longleftrightarrow> (\<forall>x c. decode codes c = Some x \<longleftrightarrow> encode codes x = c)"

lemma table_one_to_one: "code_table codes \<Longrightarrow> one_to_one codes"
  by (simp add: one_to_one_def code_table.encode_decode)

text \<open>No enumeration gives one code to two of its enumerators, so that a code that was read names at most
  one, and the code of each is read back as it.\<close>

theorem enumerations_one_to_one:
  "one_to_one mtp_ni_codes \<and> one_to_one mtp_si_codes \<and> one_to_one mtp_lsi_codes \<and> one_to_one mtp_type_codes \<and>
   one_to_one mtp3_ni_codes \<and> one_to_one mtp3_si_codes \<and> one_to_one m3ua_si_codes \<and> one_to_one m3ua_class_codes \<and>
   one_to_one m3ua_type_mask_codes \<and> one_to_one m3ua_tag_codes \<and> one_to_one m2ua_class_codes \<and> one_to_one sctp_chunk_type_codes \<and>
   one_to_one sctp_proto_codes \<and> one_to_one sccp_parameter_codes \<and> one_to_one sccp_ssn_codes \<and> one_to_one gfp_upi_codes"
  by (intro conjI table_one_to_one) (rule mtp_ni.code_table_axioms,
    rule mtp_si.code_table_axioms,
    rule mtp_lsi.code_table_axioms,
    rule mtp_type.code_table_axioms,
    rule mtp3_ni.code_table_axioms,
    rule mtp3_si.code_table_axioms,
    rule m3ua_si.code_table_axioms,
    rule m3ua_class.code_table_axioms,
    rule m3ua_type_mask.code_table_axioms,
    rule m3ua_tag.code_table_axioms,
    rule m2ua_class.code_table_axioms,
    rule sctp_chunk_type.code_table_axioms,
    rule sctp_proto.code_table_axioms,
    rule sccp_parameter.code_table_axioms,
    rule sccp_ssn.code_table_axioms,
    rule gfp_upi.code_table_axioms)

lemma typeMask_class: "ucast (drop_bit 8 (m3ua_typeMask cls type)) = cls" "ucast (m3ua_typeMask cls type) = type"
  unfolding m3ua_typeMask_def by (rule bit_word_eqI; auto simp: bit_simps dest: bit_imp_le_length)+

definition routing_key :: "m3ua_type_mask \<Rightarrow> bool" where
  "routing_key x \<longleftrightarrow> x \<in> {RKM_REGREQ, RKM_REGRSP, RKM_DEREGREQ, RKM_DEREGRSP}"

lemma type_mask_class:
  "if routing_key x then ucast (drop_bit 8 (encode m3ua_type_mask_codes x)) = (9 :: u8)
   else decode m3ua_class_codes (ucast (drop_bit 8 (encode m3ua_type_mask_codes x))) \<noteq> None"
  by (cases x) (simp_all add: routing_key_def encode_def decode_def m3ua_type_mask_codes_def m3ua_class_codes_def)

text \<open>Every message the type masks name belongs to a class of the enumeration of classes, except the routing key
  messages: their masks have class 9, which is the class of that name for M2UA, while a message of the class
  that M3UA declares for them, 8, has a mask that is none of the enumerators.\<close>

theorem routing_keys_unreachable:
  assumes "decode m3ua_type_mask_codes (m3ua_typeMask cls type) = Some x"
  shows "if routing_key x then decode m3ua_class_codes cls = None \<and> decode m2ua_class_codes cls = Some M2_RKM
    else (\<exists>c. c \<noteq> M3_RKM \<and> decode m3ua_class_codes cls = Some c)"
proof -
  have mask: "encode m3ua_type_mask_codes x = m3ua_typeMask cls type" using assms by (simp add: m3ua_type_mask.encode_decode)
  have cls: "ucast (drop_bit 8 (encode m3ua_type_mask_codes x)) = cls" unfolding mask by (rule typeMask_class(1))
  have "cls \<noteq> 8" unfolding cls [symmetric] by (cases x) (simp_all add: encode_def m3ua_type_mask_codes_def)
  then have "decode m3ua_class_codes cls \<noteq> Some M3_RKM"
    unfolding m3ua_class.encode_decode by (simp add: encode_def m3ua_class_codes_def)
  moreover have "decode m3ua_class_codes 9 = None" "decode m2ua_class_codes 9 = Some M2_RKM"
    by (simp_all add: decode_def m3ua_class_codes_def m2ua_class_codes_def)
  ultimately show ?thesis using type_mask_class [of x] cls by (auto split: if_splits)
qed

theorem routing_keys_unreachable_witness:
  "decode m3ua_class_codes 9 = None \<and> (\<exists>c. c \<noteq> M3_RKM \<and> decode m3ua_class_codes 3 = Some c)"
proof -
  have "decode m3ua_type_mask_codes (m3ua_typeMask 9 1) = Some RKM_REGREQ" "decode m3ua_type_mask_codes (m3ua_typeMask 3 4) = Some ASPSM_UPACK"
    by (simp_all add: decode_def m3ua_type_mask_codes_def m3ua_typeMask_def)
  from this [THEN routing_keys_unreachable] show ?thesis by (simp add: routing_key_def)
qed

text \<open>The service indicators of MTP2 and MTP3 are the same; those of M3UA agree with them up to the broadband user part,
  from the satellite user part on they are the decimal codes written as hexadecimal.\<close>

lemma service_indicators:
  "map fst mtp_si_codes = map fst mtp3_si_codes" "encode m3ua_si_codes SIA_SCCP = encode mtp_si_codes SI_SCCP"
  "encode m3ua_si_codes SIA_TUP = encode mtp_si_codes SI_TUP" "encode m3ua_si_codes SIA_ISUP = encode mtp_si_codes SI_ISUP"
  "encode m3ua_si_codes SIA_BISUP = encode mtp_si_codes SI_BISUP"
  "encode m3ua_si_codes SIA_SISUP = 0x10" "encode mtp_si_codes SI_SISUP = 10"
  by (simp_all add: encode_def mtp_si_codes_def mtp3_si_codes_def m3ua_si_codes_def)

end
