(* ===== verification/Extract_Sccp.thy ===== *)
theory Extract_Sccp
  imports Extract_Sigtran
begin

text \<open>
  \<^verbatim>\<open>lib/libstack/ss7/ExtractorSccp.h\<close>: the walk over an SCCP message to the TCAP message in
  it. The offset has 16 bits and counts from the start of the window. \<^verbatim>\<open>LS_ASSERT\<close> on what was
  received is \<open>AssertFail\<close>: a store through a null pointer.
\<close>

subsection \<open>Constants\<close>

definition SSN_UNKNOWN :: u8 where "SSN_UNKNOWN = 0"
definition P_END :: u8 where "P_END = 0"

definition SCCP_MSG_TYPE_LENGTH :: u16 where "SCCP_MSG_TYPE_LENGTH = 1"
definition SCCP_DST_LOCAL_REFERENCE_LENGTH :: u16 where "SCCP_DST_LOCAL_REFERENCE_LENGTH = 3"
definition SCCP_SRC_LOCAL_REFERENCE_LENGTH :: u16 where "SCCP_SRC_LOCAL_REFERENCE_LENGTH = 3"
definition SCCP_PROTOCOL_CLASS_LENGTH :: u16 where "SCCP_PROTOCOL_CLASS_LENGTH = 1"
definition SCCP_SEGMENTING_REASSEMBLING_LENGTH :: u16 where "SCCP_SEGMENTING_REASSEMBLING_LENGTH = 1"
definition SCCP_RELEASE_CAUSE_LENGTH :: u16 where "SCCP_RELEASE_CAUSE_LENGTH = 1"
definition SCCP_RETURN_CAUSE_LENGTH :: u16 where "SCCP_RETURN_CAUSE_LENGTH = 1"
definition SCCP_REFUSAL_CAUSE_LENGTH :: u16 where "SCCP_REFUSAL_CAUSE_LENGTH = 1"
definition SCCP_HOP_COUNTER_LENGTH :: u16 where "SCCP_HOP_COUNTER_LENGTH = 1"
definition SCCP_PARAMETER_NAME_LENGTH :: u16 where "SCCP_PARAMETER_NAME_LENGTH = 1"
definition SCCP_PARAMETER_LENGTH_LENGTH :: u16 where "SCCP_PARAMETER_LENGTH_LENGTH = 1"
definition SCCP_POINTER_LENGTH :: u16 where "SCCP_POINTER_LENGTH = 1"
definition SCCP_ADDRESS_INDICATOR_LENGTH :: u8 where "SCCP_ADDRESS_INDICATOR_LENGTH = 1"
definition SCCP_AI_PC_LENGTH :: u8 where "SCCP_AI_PC_LENGTH = 2"

lemmas sccp_lengths = SCCP_MSG_TYPE_LENGTH_def SCCP_DST_LOCAL_REFERENCE_LENGTH_def SCCP_SRC_LOCAL_REFERENCE_LENGTH_def
  SCCP_PROTOCOL_CLASS_LENGTH_def SCCP_SEGMENTING_REASSEMBLING_LENGTH_def SCCP_RELEASE_CAUSE_LENGTH_def
  SCCP_RETURN_CAUSE_LENGTH_def SCCP_REFUSAL_CAUSE_LENGTH_def SCCP_HOP_COUNTER_LENGTH_def
  SCCP_PARAMETER_NAME_LENGTH_def SCCP_PARAMETER_LENGTH_LENGTH_def SCCP_POINTER_LENGTH_def
  SCCP_ADDRESS_INDICATOR_LENGTH_def SCCP_AI_PC_LENGTH_def

text \<open>The message types of \<^verbatim>\<open>Sccp::Type\<close>; the other codes are not enumerators.\<close>

datatype sccp_type = T_CR | T_CC | T_CREF | T_RLSD | T_RLC | T_DT1 | T_DT2 | T_AK | T_UDT | T_UDTS | T_ED | T_EA
  | T_RSR | T_RSC | T_ERR | T_IT | T_XUDT | T_XUDTS | T_LUDT | T_LUDTS

definition sccp_codes :: "(u8 \<times> sccp_type) list" where
  "sccp_codes = [(0x01, T_CR), (0x02, T_CC), (0x03, T_CREF), (0x04, T_RLSD), (0x05, T_RLC), (0x06, T_DT1),
     (0x07, T_DT2), (0x08, T_AK), (0x09, T_UDT), (0x0a, T_UDTS), (0x0b, T_ED), (0x0c, T_EA), (0x0d, T_RSR),
     (0x0e, T_RSC), (0x0f, T_ERR), (0x10, T_IT), (0x12, T_XUDT), (0x13, T_XUDTS), (0x14, T_LUDT), (0x15, T_LUDTS)]"

definition sccp_type_of :: "u8 \<Rightarrow> sccp_type option" where
  "sccp_type_of c = map_of sccp_codes c"

subsection \<open>Parameters\<close>

text \<open>The address indicator: bit 0 a point code, bit 1 a subsystem number.\<close>

definition ai_pci :: "u8 \<Rightarrow> bool" where "ai_pci w = bit w 0"
definition ai_ssni :: "u8 \<Rightarrow> bool" where "ai_ssni w = bit w 1"

definition getSsn :: "nat \<Rightarrow> u16 \<Rightarrow> base \<Rightarrow> u8 res" where
  "getSsn parameter len b =
     rbind (rd8 parameter b) (\<lambda>address.
       let offset = SCCP_ADDRESS_INDICATOR_LENGTH;
           offset = (if ai_pci address then offset + SCCP_AI_PC_LENGTH else offset)
       in if ai_ssni address then rd8 (parameter + unat offset) b else Inr SSN_UNKNOWN)"

fun optional_loop :: "nat \<Rightarrow> u8 \<Rightarrow> u16 \<Rightarrow> base \<Rightarrow> u16 res" where
  "optional_loop 0 name offset b = Inl Diverges"
| "optional_loop (Suc n) name offset b =
     (if name \<noteq> P_END
      then rbind (rd8 (getWithOffset offset b) b) (\<lambda>len.
             let offset = offset + SCCP_PARAMETER_LENGTH_LENGTH; offset = offset + ucast len
             in rbind (rd8 (getWithOffset offset b) b) (\<lambda>name.
                optional_loop n name (offset + SCCP_PARAMETER_NAME_LENGTH) b))
      else Inr (offset + SCCP_PARAMETER_NAME_LENGTH))"

definition gotOptionalParameter :: "nat \<Rightarrow> u16 \<Rightarrow> base \<Rightarrow> 's \<Rightarrow> (base option \<times> 's) res" where
  "gotOptionalParameter fuel offset b s =
     rbind (rd8 (getWithOffset offset b) b) (\<lambda>name.
     rbind (optional_loop fuel name (offset + 1) b) (\<lambda>_. Inr (None, s)))"

text \<open>The macros: \<open>OPTIONAL_PARAMETER\<close> returns or goes on, \<open>VARIABLE_PARAMETER\<close> checks a pointer.\<close>

definition OPTIONAL_PARAMETER ::
  "nat \<Rightarrow> u16 \<Rightarrow> base \<Rightarrow> 's \<Rightarrow> (base option \<times> 's) res \<Rightarrow> (base option \<times> 's) res" where
  "OPTIONAL_PARAMETER fuel offset b s k =
     rbind (rd8 (getWithOffset offset b) b) (\<lambda>oParameterPtr.
     if oParameterPtr \<noteq> 0 then gotOptionalParameter fuel (offset + SCCP_POINTER_LENGTH) b s else k)"

definition VARIABLE_PARAMETER :: "u16 \<Rightarrow> base \<Rightarrow> u16 res" where
  "VARIABLE_PARAMETER offset b =
     rbind (rd8 (getWithOffset offset b) b) (\<lambda>var. rbind (rassert (var \<noteq> 0)) (\<lambda>_.
     Inr (offset + SCCP_POINTER_LENGTH)))"

text \<open>A length octet and the parameter behind it.\<close>

definition skip_parameter :: "u16 \<Rightarrow> base \<Rightarrow> u16 res" where
  "skip_parameter offset b =
     rbind (rd8 (getWithOffset offset b) b) (\<lambda>len. Inr (offset + SCCP_PARAMETER_LENGTH_LENGTH + ucast len))"

subsection \<open>Messages\<close>

definition extract_CR :: "nat \<Rightarrow> base \<Rightarrow> 's \<Rightarrow> (base option \<times> 's) res" where
  "extract_CR fuel b s =
     (let offset = SCCP_MSG_TYPE_LENGTH + SCCP_SRC_LOCAL_REFERENCE_LENGTH
      in rbind (rd8 (getWithOffset offset b) b) (\<lambda>protocolClass.
         rbind (rassert (protocolClass = 2 \<or> protocolClass = 3)) (\<lambda>_.
         rbind (VARIABLE_PARAMETER (offset + SCCP_PROTOCOL_CLASS_LENGTH) b) (\<lambda>offset.
         rbind (rd8 (getWithOffset offset b) b) (\<lambda>oParameterPtr.
         rbind (skip_parameter (offset + SCCP_POINTER_LENGTH) b) (\<lambda>offset.
         if oParameterPtr \<noteq> 0 then gotOptionalParameter fuel offset b s else Inr (Some b, s)))))))"

definition extract_CC :: "nat \<Rightarrow> base \<Rightarrow> 's \<Rightarrow> (base option \<times> 's) res" where
  "extract_CC fuel b s =
     (let offset = SCCP_MSG_TYPE_LENGTH + SCCP_DST_LOCAL_REFERENCE_LENGTH + SCCP_SRC_LOCAL_REFERENCE_LENGTH
      in rbind (rd8 (getWithOffset offset b) b) (\<lambda>protocolClass.
         rbind (rassert (protocolClass = 2 \<or> protocolClass = 3)) (\<lambda>_.
         OPTIONAL_PARAMETER fuel (offset + SCCP_PROTOCOL_CLASS_LENGTH) b s (Inr (None, s)))))"

definition extract_CREF :: "nat \<Rightarrow> base \<Rightarrow> 's \<Rightarrow> (base option \<times> 's) res" where
  "extract_CREF fuel b s =
     OPTIONAL_PARAMETER fuel (SCCP_MSG_TYPE_LENGTH + SCCP_DST_LOCAL_REFERENCE_LENGTH + SCCP_REFUSAL_CAUSE_LENGTH) b s
       (Inr (None, s))"

definition extract_RLSD :: "nat \<Rightarrow> base \<Rightarrow> 's \<Rightarrow> (base option \<times> 's) res" where
  "extract_RLSD fuel b s =
     OPTIONAL_PARAMETER fuel (SCCP_MSG_TYPE_LENGTH + SCCP_DST_LOCAL_REFERENCE_LENGTH + SCCP_SRC_LOCAL_REFERENCE_LENGTH +
       SCCP_RELEASE_CAUSE_LENGTH) b s (Inr (None, s))"

definition extract_DT1 :: "base \<Rightarrow> 's \<Rightarrow> (base option \<times> 's) res" where
  "extract_DT1 b s =
     rbind (VARIABLE_PARAMETER (SCCP_MSG_TYPE_LENGTH + SCCP_DST_LOCAL_REFERENCE_LENGTH +
       SCCP_SEGMENTING_REASSEMBLING_LENGTH) b) (\<lambda>offset.
     rbind (skip_parameter offset b) (\<lambda>_. Inr (None, s)))"

definition extract_UDT ::
  "nat \<Rightarrow> 's ss7_parent \<Rightarrow> layer list \<Rightarrow> sccp_type \<Rightarrow> base \<Rightarrow> 's \<Rightarrow> (base option \<times> 's) res" where
  "extract_UDT fuel P sccp mt b s =
     (let offset = SCCP_MSG_TYPE_LENGTH;
          offset = (if mt = T_UDT \<or> mt = T_XUDT then offset + SCCP_PROTOCOL_CLASS_LENGTH
                    else offset + SCCP_RETURN_CAUSE_LENGTH);
          offset = (if mt = T_XUDT \<or> mt = T_XUDTS then offset + SCCP_HOP_COUNTER_LENGTH else offset)
      in rbind (VARIABLE_PARAMETER offset b) (\<lambda>offset. rbind (VARIABLE_PARAMETER offset b) (\<lambda>offset.
         rbind (VARIABLE_PARAMETER offset b) (\<lambda>offset.
         rbind (if mt = T_XUDT \<or> mt = T_XUDTS
                then rbind (rd8 (getWithOffset offset b) b) (\<lambda>p. Inr (p, offset + SCCP_POINTER_LENGTH))
                else Inr (0, offset)) (\<lambda>(oParameterPtr, offset).
         rbind (skip_parameter offset b) (\<lambda>offset.
         rbind (rd8 (getWithOffset offset b) b) (\<lambda>vParameterLength2.
         let offset = offset + SCCP_PARAMETER_LENGTH_LENGTH
         in rbind (getSsn (getWithOffset offset b) (ucast vParameterLength2) b) (\<lambda>ssn.
            let offset = offset + ucast vParameterLength2
            in rbind (rd8 (getWithOffset offset b) b) (\<lambda>vParameterLength3.
               let offset = offset + SCCP_PARAMETER_LENGTH_LENGTH
               in if ssn \<noteq> 0
                  then rbind (getLength sccp b) (\<lambda>len.
                         gotTcap P (new_PktOffset b (len - offset) (offset + getOffset b)) s)
                  else if (mt = T_XUDT \<or> mt = T_XUDTS) \<and> oParameterPtr \<noteq> 0
                  then gotOptionalParameter fuel (offset + ucast vParameterLength3) b s
                  else Inr (Some b, s)))))))))) "

definition extractSccp ::
  "nat \<Rightarrow> 's ss7_parent \<Rightarrow> layer list \<Rightarrow> base \<Rightarrow> 's \<Rightarrow> (base option \<times> 's) res" where
  "extractSccp fuel P sccp b s =
     rbind (hdr sccp b) (\<lambda>a. rbind (rd8 a b) (\<lambda>mt.
       case sccp_type_of mt of
         None \<Rightarrow> Inr (None, s)
       | Some t \<Rightarrow>
           if t = T_CR then extract_CR fuel b s
           else if t = T_CC then extract_CC fuel b s
           else if t = T_CREF then extract_CREF fuel b s
           else if t = T_RLSD then extract_RLSD fuel b s
           else if t = T_DT1 then extract_DT1 b s
           else if t = T_UDT \<or> t = T_UDTS \<or> t = T_XUDT \<or> t = T_XUDTS then extract_UDT fuel P sccp t b s
           else Inr (None, s)))"

subsection \<open>Delivery\<close>

lemma rd_at: "holds b (pre @ x # rest) \<Longrightarrow> unat off = length pre \<Longrightarrow> rd8 (getWithOffset off b) b = Inr x"
  by (rule holds_rd8) (simp_all add: getWithOffset_def)

text \<open>A parameter of variable length: its length in one octet and its octets.\<close>

definition variable_part :: "u8 list \<Rightarrow> u8 list" where
  "variable_part v = word_of_nat (length v) # v"

lemma skip_at:
  assumes "holds b (pre @ variable_part v @ rest)" and "unat off = length pre" and "length v < 256"
    and "length pre + 1 + length v < 65536"
  shows "\<exists>off'. skip_parameter off b = Inr off' \<and> unat off' = length pre + length (variable_part v)"
proof -
  have "rd8 (getWithOffset off b) b = Inr (word_of_nat (length v))"
    using rd_at [of b pre "word_of_nat (length v)" "v @ rest"] assms by (simp add: variable_part_def)
  moreover have "unat (ucast (word_of_nat (length v) :: u8) :: u16) = length v"
    using assms(3) by (simp add: unsigned_ucast_eq unat_word_of_nat take_bit_nat_eq_self)
  ultimately show ?thesis
    using assms by (simp add: skip_parameter_def sccp_lengths u16_add variable_part_def)
qed

lemma ssn_at:
  assumes "holds b (pre @ ai # pc @ ssn # rest)" and "a = unat (getOffset b) + length pre"
    and "ai_ssni ai" and "length pc = (if ai_pci ai then 2 else 0)"
  shows "getSsn a len b = Inr ssn"
proof -
  have "rd8 a b = Inr ai" by (rule holds_rd8 [OF assms(1,2)])
  moreover have "rd8 (a + (if ai_pci ai then 3 else 1)) b = Inr ssn"
    by (rule holds_rd8 [of b "pre @ ai # pc" ssn rest]) (use assms(1,2,4) in simp_all)
  ultimately show ?thesis using assms(3) by (auto simp: getSsn_def sccp_lengths)
qed

lemma var_at:
  assumes "holds b (pre @ p # rest)" and "unat off = length pre" and "p \<noteq> 0"
  shows "VARIABLE_PARAMETER off b = Inr (off + 1)"
  using rd_at [OF assms(1,2)] assms(3) by (simp add: VARIABLE_PARAMETER_def sccp_lengths)

text \<open>The connectionless messages: the fixed part, the pointers, and three variable parts one behind the other.\<close>

definition extended :: "sccp_type \<Rightarrow> bool" where
  "extended t \<longleftrightarrow> t = T_XUDT \<or> t = T_XUDTS"

definition unitdata :: "sccp_type \<Rightarrow> u8 \<Rightarrow> u8 \<Rightarrow> u8 list \<Rightarrow> u8 \<Rightarrow> u8 \<Rightarrow> u8 list" where
  "unitdata t code cls ptrs hop optr =
     [code, cls] @ (if extended t then [hop] else []) @ ptrs @ (if extended t then [optr] else [])"

text \<open>The pointers, and the pointer to the optional part with the position behind it.\<close>

definition unitdata_pointers :: "sccp_type \<Rightarrow> base \<Rightarrow> (u8 \<times> u16) res" where
  "unitdata_pointers t b =
     rbind (VARIABLE_PARAMETER (if extended t then 3 else 2) b) (\<lambda>offset. rbind (VARIABLE_PARAMETER offset b) (\<lambda>offset.
     rbind (VARIABLE_PARAMETER offset b) (\<lambda>offset.
     if extended t then rbind (rd8 (getWithOffset offset b) b) (\<lambda>p. Inr (p, offset + 1)) else Inr (0, offset))))"

lemma pointers_at:
  assumes "holds b (unitdata t code cls [p1, p2, p3] hop optr @ rest)" and "p1 \<noteq> 0" and "p2 \<noteq> 0" and "p3 \<noteq> 0"
  shows "unitdata_pointers t b = Inr (if extended t then (optr, 7) else (0, 5))"
proof (cases "extended t")
  case True
  then have h: "holds b ([code, cls, hop] @ p1 # p2 # p3 # optr # rest)" using assms(1) by (simp add: unitdata_def)
  have "VARIABLE_PARAMETER 3 b = Inr 4" "VARIABLE_PARAMETER 4 b = Inr 5" "VARIABLE_PARAMETER 5 b = Inr 6"
    "rd8 (getWithOffset 6 b) b = Inr optr"
    using var_at [of b "[code, cls, hop]" p1 _ 3] var_at [of b "[code, cls, hop, p1]" p2 _ 4]
      var_at [of b "[code, cls, hop, p1, p2]" p3 _ 5] rd_at [of b "[code, cls, hop, p1, p2, p3]" optr _ 6] h assms(2-4) by auto
  with True show ?thesis by (simp add: unitdata_pointers_def)
next
  case False
  then have h: "holds b ([code, cls] @ p1 # p2 # p3 # rest)" using assms(1) by (simp add: unitdata_def)
  have "VARIABLE_PARAMETER 2 b = Inr 3" "VARIABLE_PARAMETER 3 b = Inr 4" "VARIABLE_PARAMETER 4 b = Inr 5"
    using var_at [of b "[code, cls]" p1 _ 2] var_at [of b "[code, cls, p1]" p2 _ 3] var_at [of b "[code, cls, p1, p2]" p3 _ 4]
      h assms(2-4) by auto
  with False show ?thesis by (simp add: unitdata_pointers_def)
qed

lemma rbind_if: "rbind (if c then m else n) f = (if c then rbind m f else rbind n f)"
  by simp

lemma rbind_assoc: "rbind (rbind m f) g = rbind m (\<lambda>x. rbind (f x) g)"
  by (cases m) simp_all

text \<open>The four messages behind their pointers.\<close>

lemma extract_UDT_parts:
  "extract_UDT fuel P [Sccp] t b s =
    rbind (unitdata_pointers t b) (\<lambda>(oParameterPtr, offset).
    rbind (skip_parameter offset b) (\<lambda>offset.
    rbind (rd8 (getWithOffset offset b) b) (\<lambda>vParameterLength2.
    rbind (getSsn (getWithOffset (offset + 1) b) (ucast vParameterLength2) b) (\<lambda>ssn.
    rbind (rd8 (getWithOffset (offset + 1 + ucast vParameterLength2) b) b) (\<lambda>vParameterLength3.
      let offset = offset + 1 + ucast vParameterLength2 + 1
      in if ssn \<noteq> 0 then rbind (getLength [Sccp] b) (\<lambda>len.
           gotTcap P (new_PktOffset b (len - offset) (offset + getOffset b)) s)
         else if extended t \<and> oParameterPtr \<noteq> 0 then gotOptionalParameter fuel (offset + ucast vParameterLength3) b s
         else Inr (Some b, s))))))"
  unfolding extract_UDT_def extended_def [symmetric] Let_def sccp_lengths unitdata_pointers_def rbind_assoc
  by (simp add: extended_def)

text \<open>The variable parts: the called address is skipped, the subsystem number of the calling address found, and the user
  data are behind it.\<close>

lemma parts_at:
  assumes "holds b (pre @ variable_part called @ variable_part calling @ dlen # data)" and "unat off = length pre" and "length pre \<le> 7"
    and "length called < 256" and "length pc = (if ai_pci ai then 2 else 0)" and "ai_ssni ai"
    and "calling = ai # pc @ ssn # gt" and "length calling < 256"
  obtains o1 where "skip_parameter off b = Inr o1" and "rd8 (getWithOffset o1 b) b = Inr (word_of_nat (length calling))"
    and "\<And>l. getSsn (getWithOffset (o1 + 1) b) l b = Inr ssn"
    and "rd8 (getWithOffset (o1 + 1 + ucast (word_of_nat (length calling) :: u8)) b) b = Inr dlen"
    and "o1 + 1 + ucast (word_of_nat (length calling) :: u8) + 1 = word_of_nat (length pre + length called + length calling + 3)"
proof -
  note h = assms(1)
  have "length pre + 1 + length called < 65536" using assms(3,4) by linarith
  from skip_at [OF h assms(2,4) this] obtain o1 where
    o1: "skip_parameter off b = Inr o1" "unat o1 = length (pre @ variable_part called)" by auto
  have ol: "unat o1 \<le> 263" using o1(2) assms(3,4) by (simp add: variable_part_def)
  have u1: "unat (o1 + 1) = unat o1 + 1" using ol by (simp add: u16_add)
  have "rd8 (getWithOffset o1 b) b = Inr (word_of_nat (length calling))"
    by (rule rd_at [of b "pre @ variable_part called" _ "calling @ dlen # data"]) (use h o1 in \<open>simp_all add: variable_part_def\<close>)
  moreover have "getSsn (getWithOffset (o1 + 1) b) l b = Inr ssn" for l
    by (rule ssn_at [of b "pre @ variable_part called @ [word_of_nat (length calling)]" ai pc ssn "gt @ dlen # data"])
       (use h o1 u1 assms(5-7) in \<open>simp_all add: getWithOffset_def variable_part_def\<close>)
  moreover define o3 where "o3 = o1 + 1 + ucast (word_of_nat (length calling) :: u8)"
  have "unat (ucast (word_of_nat (length calling) :: u8) :: u16) = length calling"
    using assms(8) by (simp add: unsigned_ucast_eq unat_word_of_nat take_bit_nat_eq_self)
  then have o3: "unat o3 = unat o1 + 1 + length calling" using u1 ol assms(8) by (simp add: o3_def u16_add)
  have "rd8 (getWithOffset o3 b) b = Inr dlen"
    by (rule rd_at [of b "pre @ variable_part called @ variable_part calling" _ data]) (use h o1 o3 in \<open>simp_all add: variable_part_def\<close>)
  moreover have "o3 + 1 = word_of_nat (length pre + length called + length calling + 3)"
    using o3 o1(2) ol assms(3,4,8)
    by (intro word_unat_eq_iff [THEN iffD2]) (simp add: u16_add unat_word_of_nat variable_part_def)
  ultimately show thesis using that o1(1) unfolding o3_def by blast
qed

text \<open>C19. A connectionless message whose variable parts follow the pointers without a gap, and whose
  calling address has a subsystem number other than 0, is handed on with a window that starts at the
  user data; the values of the pointers play no role as long as they are not 0.\<close>

theorem unitdata_delivers_tcap:
  assumes "t \<in> {T_UDT, T_UDTS, T_XUDT, T_XUDTS}" and "map_of sccp_codes code = Some t"
    and "p1 \<noteq> 0" and "p2 \<noteq> 0" and "p3 \<noteq> 0"
    and "length called < 256" and "length pc = (if ai_pci ai then 2 else 0)" and "ai_ssni ai" and "ssn \<noteq> 0"
    and "calling = ai # pc @ ssn # gt" and "length calling < 256"
    and "holds b (unitdata t code cls [p1, p2, p3] hop optr @ variable_part called @ variable_part calling @ dlen # data)"
  shows "extractSccp fuel P [Sccp] b s =
    gotTcap P (PktOffset (packet b) (getOffset b + word_of_nat (length (unitdata t code cls [p1, p2, p3] hop optr) +
      length called + length calling + 3))) s"
proof -
  let ?hd = "unitdata t code cls [p1, p2, p3] hop optr"
  note h = assms(12)
  have hd: "unat (if extended t then 7 else 5 :: u16) = length ?hd" "length ?hd \<le> 7" by (simp_all add: unitdata_def)
  obtain o1 where o1: "skip_parameter (if extended t then 7 else 5) b = Inr o1"
    "rd8 (getWithOffset o1 b) b = Inr (word_of_nat (length calling))" "\<And>l. getSsn (getWithOffset (o1 + 1) b) l b = Inr ssn"
    "rd8 (getWithOffset (o1 + 1 + ucast (word_of_nat (length calling) :: u8)) b) b = Inr dlen"
    "o1 + 1 + ucast (word_of_nat (length calling) :: u8) + 1 = word_of_nat (length ?hd + length called + length calling + 3)"
    using parts_at [OF h hd assms(6-8,10,11)] by metis
  have "extract_UDT fuel P [Sccp] t b s = gotTcap P (PktOffset (packet b)
      (o1 + 1 + ucast (word_of_nat (length calling) :: u8) + 1 + getOffset b)) s"
    using o1(1-4) assms(9) by (cases "extended t") (simp_all add: extract_UDT_parts pointers_at [OF h assms(3-5)] new_PktOffset_def Let_def)
  moreover have "rd8 (unat (getOffset b)) b = Inr code" using holds_rd8 [of b "[]" code] h by (simp add: unitdata_def)
  moreover have "sccp_type_of code = Some t" using assms(2) by (simp add: sccp_type_of_def)
  ultimately show ?thesis using assms(1) unfolding o1(5) by (auto simp: extractSccp_def hdr_def add.commute)
qed

definition demo_udt :: "u8 list" where
  "demo_udt = unitdata T_UDT 9 0 [3, 5, 9] 0 0 @ variable_part [66, 8] @ variable_part (67 # [1, 2] @ 6 # []) @ 2 # [100, 101]"

lemma unitdata_delivers_tcap_witness:
  "extractSccp 0 ss7_recorder [Sccp] (with_details demo_udt) [] =
   Inr (None, [PktOffset (packet (with_details demo_udt)) 62])"
proof -
  have h: "holds (with_details demo_udt) (unitdata T_UDT 9 0 [3, 5, 9] 0 0 @ variable_part [66, 8] @
      variable_part (67 # [1, 2] @ 6 # []) @ 2 # [100, 101])"
    using holds_details [of demo_udt] by (simp only: demo_udt_def)
  have "ai_ssni 67" "ai_pci 67" by (simp_all add: ai_ssni_def ai_pci_def)
  from unitdata_delivers_tcap [OF _ _ _ _ _ _ _ this(1) _ _ _ h, where pc = "[1, 2]" and ssn = 6 and gt = "[]" and P = ss7_recorder and s = "[]" and fuel = 0] this(2) show ?thesis
    by (simp add: sccp_codes_def unitdata_def extended_def)
qed

subsection \<open>Faults\<close>

text \<open>What a peer sends decides on assertions: a connection request or confirm of any other
  protocol class than 2 and 3, and a connectionless message with a zero pointer, stop the process.\<close>

theorem sccp_aborts_on_input:
  assumes "(\<exists>r0 r1 r2. bs = [1, r0, r1, r2, cls] @ rest \<and> cls \<noteq> 2 \<and> cls \<noteq> 3) \<or>
    (\<exists>r0 r1 r2 r3 r4 r5. bs = [2, r0, r1, r2, r3, r4, r5, cls] @ rest \<and> cls \<noteq> 2 \<and> cls \<noteq> 3) \<or>
    bs = [9, cls, 0] @ rest \<or> bs = [10, cls, 0] @ rest" and "holds b bs"
  shows "extractSccp fuel P [Sccp] b s = Inl AssertFail"
proof -
  have mt: "rd8 (unat (getOffset b)) b = Inr (hd bs)"
    using assms holds_rd8 [of b "[]" "hd bs" "tl bs"] by auto
  from assms(1) show ?thesis
  proof (elim disjE exE conjE)
    fix r0 r1 r2 assume bs: "bs = [1, r0, r1, r2, cls] @ rest" and c: "cls \<noteq> 2" "cls \<noteq> 3"
    have "rd8 (getWithOffset 4 b) b = Inr cls"
      by (rule rd_at [of b "[1, r0, r1, r2]" cls rest]) (use assms(2) bs in simp_all)
    with mt bs c show ?thesis
      by (simp add: extractSccp_def hdr_def sccp_type_of_def sccp_codes_def extract_CR_def sccp_lengths)
  next
    fix r0 r1 r2 r3 r4 r5 assume bs: "bs = [2, r0, r1, r2, r3, r4, r5, cls] @ rest" and c: "cls \<noteq> 2" "cls \<noteq> 3"
    have "rd8 (getWithOffset 7 b) b = Inr cls"
      by (rule rd_at [of b "[2, r0, r1, r2, r3, r4, r5]" cls rest]) (use assms(2) bs in simp_all)
    with mt bs c show ?thesis
      by (simp add: extractSccp_def hdr_def sccp_type_of_def sccp_codes_def extract_CC_def sccp_lengths)
  next
    assume bs: "bs = [9, cls, 0] @ rest"
    have "rd8 (getWithOffset 2 b) b = Inr 0" by (rule rd_at [of b "[9, cls]" 0 rest]) (use assms(2) bs in simp_all)
    with mt bs show ?thesis
      by (simp add: extractSccp_def hdr_def sccp_type_of_def sccp_codes_def extract_UDT_def VARIABLE_PARAMETER_def sccp_lengths)
  next
    assume bs: "bs = [10, cls, 0] @ rest"
    have "rd8 (getWithOffset 2 b) b = Inr 0" by (rule rd_at [of b "[10, cls]" 0 rest]) (use assms(2) bs in simp_all)
    with mt bs show ?thesis
      by (simp add: extractSccp_def hdr_def sccp_type_of_def sccp_codes_def extract_UDT_def VARIABLE_PARAMETER_def sccp_lengths)
  qed
qed

lemma sccp_aborts_on_input_witness:
  "extractSccp 0 ss7_recorder [Sccp] (with_details [1, 0, 0, 7, 0, 2, 0]) [] = Inl AssertFail"
  using sccp_aborts_on_input [of "[1, 0, 0, 7, 0, 2, 0]" 0 "[2, 0]" "with_details [1, 0, 0, 7, 0, 2, 0]" 0 ss7_recorder "[]"]
    holds_details [of "[1, 0, 0, 7, 0, 2, 0]"] by simp

subsection \<open>Termination\<close>

lemma rd8_bound: "rd8 a b = Inr v \<Longrightarrow> a < content_end (packet b)"
  by (simp add: rd8_def split: if_splits)

lemma no_divergence [simp]: "rd8 a b \<noteq> Inl Diverges" "rassert c \<noteq> Inl Diverges" "skip_parameter off b \<noteq> Inl Diverges"
  "VARIABLE_PARAMETER off b \<noteq> Inl Diverges" "getSsn a l b \<noteq> Inl Diverges"
  by (auto simp: rd8_def rassert_def skip_parameter_def VARIABLE_PARAMETER_def getSsn_def rbind_Inl_iff Let_def
      split: if_splits)

text \<open>Every parameter takes at least two octets, so the loop ends, at the end of the allocation at the latest.\<close>

lemma optional_terminates:
  assumes "content_end (packet b) \<le> unat (getOffset b) + 65000"
    and "unat (getOffset b) + unat off \<le> content_end (packet b)"
    and "content_end (packet b) < unat (getOffset b) + unat off + fuel"
  shows "optional_loop fuel name off b \<noteq> Inl Diverges"
  using assms
proof (induction fuel arbitrary: name off)
  case (Suc n)
  have step: "optional_loop n name' (off + 1 + ucast len + 1) b \<noteq> Inl Diverges"
    if "rd8 (getWithOffset (off + 1 + ucast len) b) b = Inr v" for name' v and len :: u8
  proof -
    have "unat (ucast len :: u16) < 256"
    proof -
      have "unat len < 2 ^ 8" using unsigned_less [of len] by simp
      then show ?thesis by (simp add: unsigned_ucast_eq take_bit_nat_eq_self)
    qed
    then have u: "unat (off + 1 + ucast len) = unat off + 1 + unat (ucast len :: u16)"
      "unat (off + 1 + ucast len + 1) = unat off + 2 + unat (ucast len :: u16)"
      using Suc.prems by (simp_all add: u16_add)
    then have "unat (getOffset b) + unat (off + 1 + ucast len) < content_end (packet b)"
      using rd8_bound [OF that] by (simp add: getWithOffset_def)
    with u Suc.prems show ?thesis by (intro Suc.IH) simp_all
  qed
  show ?case
  proof
    assume "optional_loop (Suc n) name off b = Inl Diverges"
    then obtain len :: u8 and v name' where "rd8 (getWithOffset (off + 1 + ucast len) b) b = Inr v"
      "optional_loop n name' (off + 1 + ucast len + 1) b = Inl Diverges"
      by (auto simp: rbind_Inl_iff Let_def sccp_lengths split: if_splits)
    with step show False by blast
  qed
qed simp

lemma got_optional_terminates:
  assumes "content_end (packet b) \<le> unat (getOffset b) + 65000" and "content_end (packet b) < fuel"
  shows "gotOptionalParameter fuel off b s \<noteq> Inl Diverges"
proof -
  have "optional_loop fuel name (off + 1) b \<noteq> Inl Diverges" if "rd8 (getWithOffset off b) b = Inr v" for name v
  proof -
    have "unat (getOffset b) + unat off < content_end (packet b)" using rd8_bound [OF that] by (simp add: getWithOffset_def)
    moreover from this assms(1) have "unat (off + 1) = unat off + 1" by (simp add: u16_add)
    ultimately show ?thesis using assms by (intro optional_terminates) simp_all
  qed
  then show ?thesis by (auto simp: gotOptionalParameter_def rbind_Inl_iff)
qed

text \<open>C22. The walk over an SCCP message ends, with a result or a fault, whatever the octets are, when the message
  begins at most 65000 octets before the end of its allocation: one unit of fuel for every octet of the allocation is
  enough, and the only run that does not end is the application's.\<close>

theorem extractSccp_terminates:
  assumes "content_end (packet b) \<le> unat (getOffset b) + 65000" and "content_end (packet b) < fuel"
    and "\<And>b s. gotTcap P b s \<noteq> Inl Diverges"
  shows "extractSccp fuel P [Sccp] b s \<noteq> Inl Diverges"
proof -
  note opt = got_optional_terminates [OF assms(1,2)]
  have opar: "OPTIONAL_PARAMETER fuel off b s k \<noteq> Inl Diverges" if "k \<noteq> Inl Diverges" for off k and s :: 'a
    using that by (auto simp: OPTIONAL_PARAMETER_def rbind_Inl_iff opt)
  have "extract_CR fuel b s \<noteq> Inl Diverges" by (auto simp: extract_CR_def rbind_Inl_iff Let_def opt)
  moreover have "extract_CC fuel b s \<noteq> Inl Diverges" by (auto simp: extract_CC_def rbind_Inl_iff Let_def opar)
  moreover have "extract_CREF fuel b s \<noteq> Inl Diverges" "extract_RLSD fuel b s \<noteq> Inl Diverges"
    by (simp_all add: extract_CREF_def extract_RLSD_def opar)
  moreover have "extract_DT1 b s \<noteq> Inl Diverges" by (auto simp: extract_DT1_def rbind_Inl_iff)
  moreover have "extract_UDT fuel P [Sccp] t b s \<noteq> Inl Diverges" for t
    using assms(3) by (auto simp: extract_UDT_def rbind_Inl_iff Let_def opt split: if_splits)
  ultimately show ?thesis
    by (auto simp: extractSccp_def hdr_def rbind_Inl_iff split: option.splits)
qed

lemma extractSccp_terminates_witness:
  "extractSccp 200 ss7_recorder [Sccp] (with_details [3, 1, 2, 3, 0, 1, 15, 2, 7, 7, 0]) [] \<noteq> Inl Diverges"
  by (rule extractSccp_terminates) (simp_all add: with_details_def map_packet_def captured_def Packet.extend_def)

text \<open>Without the bound it need not end. The offset has 16 bits: in a message of 65535 octets in which every optional parameter is 254 octets
  long it comes back to where it was.\<close>

lemma optional_cycles:
  assumes "\<And>i. i < 65535 \<Longrightarrow> 5 < i \<Longrightarrow> rd8 (unat (getOffset b) + i) b = Inr 254" and "unat off mod 256 = 7" and "name \<noteq> 0"
  shows "optional_loop n name off b = Inl Diverges"
  using assms(2,3)
proof (induction n arbitrary: name off)
  case (Suc n)
  define k where "k = unat off div 256"
  have off: "unat off = k * 256 + 7" using Suc.prems(1) div_mult_mod_eq [of "unat off" 256] by (simp add: k_def)
  have "unat off < 65536" using unsigned_less [of off, where ?'a = nat] by simp
  then have k: "k \<le> 255" by (simp add: k_def)
  then have b: "unat off \<le> 65287" "7 \<le> unat off" using off by linarith+
  have len: "rd8 (getWithOffset off b) b = Inr 254"
    using assms(1) [of "unat off"] b by (simp add: getWithOffset_def)
  have "unat (off + 255) = (unat off + 255) mod 65536" by (simp add: unat_word_ariths)
  moreover have "(k * 256 + 7 + 255) mod 65536 < 65535 \<and> 5 < (k * 256 + 7 + 255) mod 65536"
  proof (cases "k = 255")
    case False
    then have "k \<le> 254" using k by simp
    then show ?thesis by (simp add: mod_less)
  qed simp
  ultimately have "unat (off + 255) < 65535 \<and> 5 < unat (off + 255)" by (simp only: off)
  then have name: "rd8 (getWithOffset (off + 255) b) b = Inr 254"
    using assms(1) [of "unat (off + 255)"] by (simp add: getWithOffset_def)
  have "unat (off + 256) = (unat off + 256) mod 65536" by (simp add: unat_word_ariths)
  then have "unat (off + 256) mod 256 = (unat off + 256) mod 256" by (simp add: mod_mod_cancel)
  then have "unat (off + 256) mod 256 = 7" using Suc.prems(1) by simp
  with Suc.IH [of "off + 256" 254] have "optional_loop n 254 (off + 256) b = Inl Diverges" by simp
  moreover have "off + 1 + 254 = off + 255" "off + 255 + 1 = off + 256" by simp_all
  ultimately show ?case using len name Suc.prems(2) by (simp add: P_END_def sccp_lengths Let_def add.assoc)
qed simp

text \<open>C20. A connection refused whose octets behind the pointer are all 254 keeps the walk in the loop for ever.\<close>

theorem extractSccp_never_ends:
  assumes "length refs = 4" and "ptr \<noteq> 0" and "holds b (3 # refs @ ptr # replicate 65529 254)"
  shows "\<forall>fuel. extractSccp fuel P [Sccp] b s = Inl Diverges"
proof
  fix fuel
  let ?bs = "3 # refs @ ptr # replicate 65529 254"
  have at: "rd8 (unat (getOffset b) + i) b = Inr (?bs ! i)" if "i < 65535" for i
    using assms(1,3) that by (simp add: holds_def rd8_def)
  have rest: "rd8 (unat (getOffset b) + i) b = Inr 254" if "i < 65535" "5 < i" for i
  proof -
    have "?bs = (3 # refs @ [ptr]) @ replicate 65529 254" by simp
    then have "?bs ! i = 254" using that assms(1) by (simp only: nth_append) simp
    with at [OF that(1)] show ?thesis by simp
  qed
  have "rd8 (unat (getOffset b)) b = Inr 3" using at [of 0] by simp
  moreover have "?bs ! 5 = ptr" using assms(1) by (simp add: nth_append)
  then have "rd8 (getWithOffset 5 b) b = Inr ptr" using at [of 5] by (simp add: getWithOffset_def)
  moreover have "rd8 (getWithOffset 6 b) b = Inr 254" using rest [of 6] by (simp add: getWithOffset_def)
  moreover have "optional_loop fuel 254 7 b = Inl Diverges" using rest by (intro optional_cycles) simp_all
  ultimately show "extractSccp fuel P [Sccp] b s = Inl Diverges"
    using assms(2) by (simp add: extractSccp_def hdr_def sccp_type_of_def sccp_codes_def extract_CREF_def OPTIONAL_PARAMETER_def
      gotOptionalParameter_def sccp_lengths)
qed

theorem extractSccp_never_ends_witness:
  "extractSccp 100000 ss7_recorder [Sccp] (with_details (3 # [0, 0, 0, 9] @ 1 # replicate 65529 254)) [] = Inl Diverges"
proof -
  have h: "holds (with_details (3 # [0, 0, 0, 9] @ 1 # replicate 65529 254)) (3 # [0, 0, 0, 9] @ 1 # replicate 65529 254)"
    by (rule holds_details)
  have "length [0, 0, 0, 9 :: u8] = 4" by simp
  from spec [OF extractSccp_never_ends [OF this one_neq_zero h]] show ?thesis .
qed

end
