(* ===== verification/Allocator_List.thy ===== *)
theory Allocator_List
  imports Prelude
begin

text \<open>
  \<^verbatim>\<open>lib/libshared/AllocatorList.h\<close>: a fixed pool of equal blocks in shared memory, linked
  into a free list through a pointer in each free block, and
  \<^verbatim>\<open>lib/libstack/PacketAccum.h\<close>, the accumulator that stores packet pointers in blocks of
  such a pool. The pool's contract is the locale \<open>pool\<close>; the accumulator is verified over
  the contract and the contract is discharged for the free list.
\<close>

subsection \<open>The allocator\<close>

text \<open>
  Pointers are byte addresses; \<open>nxt\<close> holds the link field of every block, which means
  something while the block is free. The size of a block is the parameter \<open>sz\<close>
  (\<^verbatim>\<open>sizeof(TYPE)\<close>, the same as \<^verbatim>\<open>sizeof(Entry)\<close>).
\<close>

record AllocatorCtx =
  arr :: nat
  begin_ptr :: nat
  end_ptr :: nat
  cnt :: nat
  overall :: nat
  nxt :: "nat \<Rightarrow> nat option"

definition VIRTUAL_PAGE_SIZE_4KiB :: nat where
  "VIRTUAL_PAGE_SIZE_4KiB = 4096"

definition sizeof_AllocatorCtx :: nat where
  "sizeof_AllocatorCtx = 40"

text \<open>The loop of \<^verbatim>\<open>init\<close>: link \<open>k\<close> blocks from \<open>a\<close> on to their successors.\<close>

fun link_blocks :: "nat \<Rightarrow> nat \<Rightarrow> nat \<Rightarrow> (nat \<Rightarrow> nat option) \<Rightarrow> (nat \<Rightarrow> nat option)" where
  "link_blocks sz a 0 n = n"
| "link_blocks sz a (Suc k) n = link_blocks sz (a + sz) k (n(a := Some (a + sz)))"

text \<open>The context lies at \<open>mem\<close>, in front of the blocks or, where \<^verbatim>\<open>init\<close> put the first block over it, below it. A store of \<open>n\<close> bytes at
  \<open>p\<close> that meets the context changes the fields of the context: \<open>Undefined\<close>.\<close>

definition hits_ctx :: "nat \<Rightarrow> nat \<Rightarrow> nat \<Rightarrow> bool" where
  "hits_ctx mem p n \<longleftrightarrow> p < mem + sizeof_AllocatorCtx \<and> mem < p + n"

text \<open>The link is in the last eight bytes of a block.\<close>

definition hits_link :: "nat \<Rightarrow> nat \<Rightarrow> nat \<Rightarrow> bool" where
  "hits_link sz mem p = hits_ctx mem (p + (sz - 8)) 8"

text \<open>
  \<^verbatim>\<open>init\<close> aligns the array with the value it finds in \<^verbatim>\<open>new_ctx->_array\<close> before
  anything was stored there. Of the links it stores that of the first block is the lowest.
\<close>

definition alloc_init :: "nat \<Rightarrow> nat \<Rightarrow> nat \<Rightarrow> bool \<Rightarrow> AllocatorCtx \<Rightarrow> AllocatorCtx res" where
  "alloc_init sz mem bytes create c =
     (if create
      then rbind (rassert (bytes > VIRTUAL_PAGE_SIZE_4KiB + sizeof_AllocatorCtx)) (\<lambda>_.
        let n = (bytes - VIRTUAL_PAGE_SIZE_4KiB) div sz;
            a = mem + VIRTUAL_PAGE_SIZE_4KiB - arr c mod VIRTUAL_PAGE_SIZE_4KiB;
            last = a + (n - 1) * sz
        in if hits_link sz mem a then Inl Undefined
           else Inr \<lparr>arr = a, begin_ptr = a, end_ptr = last, cnt = n, overall = n,
                     nxt = (link_blocks sz a (n - 1) (nxt c))(last := None)\<rparr>)
      else Inr c)"

text \<open>\<^verbatim>\<open>get\<close> (and \<^verbatim>\<open>allocate\<close>): the last free block is never handed out.\<close>

definition alloc_get :: "AllocatorCtx \<Rightarrow> nat option \<times> AllocatorCtx" where
  "alloc_get c =
     (case nxt c (begin_ptr c) of
        None \<Rightarrow> (None, c)
      | Some e \<Rightarrow> (Some (begin_ptr c), c\<lparr>begin_ptr := e, cnt := cnt c - 1\<rparr>))"

definition alloc_put :: "nat \<Rightarrow> nat \<Rightarrow> nat \<Rightarrow> AllocatorCtx \<Rightarrow> AllocatorCtx res" where
  "alloc_put sz mem p c =
     rbind (rassert (p \<ge> arr c \<and> p < arr c + overall c * sz)) (\<lambda>_.
       if hits_link sz mem p \<or> hits_link sz mem (end_ptr c) then Inl Undefined
       else Inr (c\<lparr>nxt := ((nxt c)(p := None))(end_ptr c := Some p), end_ptr := p, cnt := cnt c + 1\<rparr>))"

text \<open>A client may write anything over a block it holds, the link field included.\<close>

definition scribble :: "nat \<Rightarrow> nat \<Rightarrow> nat \<Rightarrow> nat option \<Rightarrow> AllocatorCtx \<Rightarrow> AllocatorCtx res" where
  "scribble sz mem p v c = (if hits_ctx mem p sz then Inl Undefined else Inr (c\<lparr>nxt := (nxt c)(p := v)\<rparr>))"

subsection \<open>The free list\<close>

fun chain :: "(nat \<Rightarrow> nat option) \<Rightarrow> nat list \<Rightarrow> bool" where
  "chain n [] = False"
| "chain n [p] = (n p = None)"
| "chain n (p # q # ps) = (n p = Some q \<and> chain n (q # ps))"

definition is_block :: "nat \<Rightarrow> AllocatorCtx \<Rightarrow> nat \<Rightarrow> bool" where
  "is_block sz c p \<longleftrightarrow> (\<exists>i < overall c. p = arr c + i * sz)"

definition free_list :: "nat \<Rightarrow> AllocatorCtx \<Rightarrow> nat list \<Rightarrow> bool" where
  "free_list sz c fs \<longleftrightarrow>
     0 < sz \<and> chain (nxt c) fs \<and> hd fs = begin_ptr c \<and> last fs = end_ptr c \<and> distinct fs \<and>
     length fs = cnt c \<and> (\<forall>p \<in> set fs. is_block sz c p)"

lemma chain_not_Nil: "chain n fs \<Longrightarrow> fs \<noteq> []"
  by (cases fs) auto

lemma chain_cong: "chain n fs \<Longrightarrow> (\<And>p. p \<in> set fs \<Longrightarrow> n' p = n p) \<Longrightarrow> chain n' fs"
  by (induction n fs rule: chain.induct) auto

lemma chain_append_link: "chain n fs \<Longrightarrow> n p = None \<Longrightarrow> distinct (fs @ [p]) \<Longrightarrow> l = last fs
    \<Longrightarrow> chain (n(l := Some p)) (fs @ [p])"
proof (induction n fs rule: chain.induct)
  case (3 n a q ps)
  then have "chain (n(l := Some p)) ((q # ps) @ [p])" by (intro "3.IH") auto
  moreover have "a \<noteq> l" using "3.prems" by (metis append_is_Nil_conv butlast.simps(2) distinct.simps(2)
      distinct_append last.simps last_in_set list.distinct(1))
  ultimately show ?case using "3.prems"(1)
    by (simp only: append_Cons chain.simps fun_upd_other simp_thms)
qed auto

lemma chain_snoc:
  "chain n fs \<Longrightarrow> distinct fs \<Longrightarrow> p \<notin> set fs \<Longrightarrow> chain ((n(p := None))(last fs := Some p)) (fs @ [p])"
  by (rule chain_append_link) (auto intro: chain_cong)

lemma link_blocks_below: "0 < sz \<Longrightarrow> x < a \<Longrightarrow> link_blocks sz a k n x = n x"
  by (induction k arbitrary: a n) auto

lemma link_blocks_in:
  "0 < sz \<Longrightarrow> i < k \<Longrightarrow> link_blocks sz a k n (a + i * sz) = Some (a + Suc i * sz)"
proof (induction k arbitrary: a n i)
  case (Suc k)
  show ?case
  proof (cases i)
    case 0
    then show ?thesis using Suc.prems by (simp add: link_blocks_below)
  next
    case (Suc j)
    with Suc.prems have "link_blocks sz (a + sz) k (n(a := Some (a + sz))) (a + sz + j * sz)
        = Some (a + sz + Suc j * sz)"
      by (intro Suc.IH) auto
    then show ?thesis using Suc by (simp add: add.assoc)
  qed
qed simp

lemma chain_upt:
  assumes "\<And>i. i < k \<Longrightarrow> n (f i) = Some (f (Suc i))" and "n (f k) = None" and "j \<le> k"
  shows "chain n (map f [j ..< Suc k])"
  using assms(3)
proof (induction "k - j" arbitrary: j)
  case 0
  with assms(2) show ?case by simp
next
  case (Suc d)
  then have "chain n (map f [Suc j ..< Suc k])" by (intro Suc.hyps(1)) auto
  moreover have "[j ..< Suc k] = j # [Suc j ..< Suc k]" "[Suc j ..< Suc k] = Suc j # [Suc (Suc j) ..< Suc k]"
    using Suc.hyps(2) by (auto simp: upt_rec)
  ultimately show ?case using assms(1) [of j] Suc.hyps(2) by simp
qed

lemma alloc_init_free_list:
  assumes "0 < sz" and "VIRTUAL_PAGE_SIZE_4KiB + sz \<le> bytes" and "alloc_init sz mem bytes True c0 = Inr c"
  shows "free_list sz c (map (\<lambda>i. arr c + i * sz) [0 ..< overall c])"
proof -
  define n a where d: "n = (bytes - VIRTUAL_PAGE_SIZE_4KiB) div sz"
    "a = mem + VIRTUAL_PAGE_SIZE_4KiB - arr c0 mod VIRTUAL_PAGE_SIZE_4KiB"
  have n0: "0 < n" using assms(1,2) by (simp add: d div_greater_zero_iff)
  then obtain k where k: "n = Suc k" by (cases n) auto
  have c: "c = \<lparr>arr = a, begin_ptr = a, end_ptr = a + k * sz, cnt = n, overall = n,
      nxt = (link_blocks sz a k (nxt c0))(a + k * sz := None)\<rparr>"
    using assms(3) k by (auto simp: alloc_init_def d [symmetric] Let_def rbind_Inr_iff split: if_splits)
  have "chain (nxt c) (map (\<lambda>i. a + i * sz) [0 ..< Suc k])"
    using assms(1) by (intro chain_upt) (auto simp: c link_blocks_in)
  moreover have "distinct (map (\<lambda>i. a + i * sz) [0 ..< Suc k])"
    using assms(1) by (auto simp: distinct_map inj_on_def)
  ultimately show ?thesis
    using assms(1) by (auto simp: free_list_def c k is_block_def hd_map last_map simp del: upt_Suc)
qed

lemma alloc_get_some:
  assumes "free_list sz c (p # q # ps)"
  shows "\<exists>c'. alloc_get c = (Some p, c') \<and> free_list sz c' (q # ps)"
  using assms by (auto simp: free_list_def alloc_get_def is_block_def)

lemma alloc_get_none: "free_list sz c [p] \<Longrightarrow> alloc_get c = (None, c)"
  by (auto simp: free_list_def alloc_get_def)

text \<open>Blocks that begin behind the context do not meet it.\<close>

lemma block_clear:
  assumes "is_block sz c p" and "mem + sizeof_AllocatorCtx \<le> arr c"
  shows "\<not> hits_ctx mem p n" and "\<not> hits_link sz mem p"
  using assms by (auto simp: is_block_def hits_link_def hits_ctx_def)

lemma alloc_put_ok:
  assumes "free_list sz c fs" and "is_block sz c p" and "p \<notin> set fs" and "mem + sizeof_AllocatorCtx \<le> arr c"
  shows "\<exists>c'. alloc_put sz mem p c = Inr c' \<and> free_list sz c' (fs @ [p])"
proof -
  have "fs \<noteq> []" using assms(1) chain_not_Nil by (auto simp: free_list_def)
  then have "end_ptr c \<in> set fs" using assms(1) last_in_set [of fs] by (simp add: free_list_def)
  then have "is_block sz c (end_ptr c)" using assms(1) by (simp add: free_list_def)
  then have clear: "\<not> hits_link sz mem p" "\<not> hits_link sz mem (end_ptr c)" using assms(2,4) block_clear(2) by blast+
  from assms(2) obtain i where "i < overall c" "p = arr c + i * sz" by (auto simp: is_block_def)
  moreover from assms(1) have "0 < sz" by (simp add: free_list_def)
  ultimately have r: "p \<ge> arr c \<and> p < arr c + overall c * sz" by simp
  moreover have "hd (fs @ [p]) = hd fs" using assms(1) by (auto simp: free_list_def dest: chain_not_Nil)
  ultimately show ?thesis
    using assms(1-3) clear chain_snoc [of "nxt c" fs p] by (auto simp: alloc_put_def free_list_def is_block_def)
qed

lemma scribble_free_list:
  "free_list sz c fs \<Longrightarrow> p \<notin> set fs \<Longrightarrow> scribble sz mem p v c = Inr c' \<Longrightarrow> free_list sz c' fs"
  by (auto simp: free_list_def scribble_def is_block_def split: if_splits intro: chain_cong)

subsection \<open>The accumulator\<close>

text \<open>
  A block is an array of \<open>B\<close> (\<^verbatim>\<open>BLOCKCNT\<close>) entries, a union of a packet pointer and the
  link to the next block; \<open>ents b i\<close> is entry \<open>i\<close> of the block at \<open>b\<close>.

  The blocks come from the template parameter \<^verbatim>\<open>ALLOCATOR\<close>, whose \<^verbatim>\<open>allocate(1)\<close> is called without an object: it
  has to be a static function, which neither \<^verbatim>\<open>AllocatorList\<close> nor \<^verbatim>\<open>std::allocator\<close>, the default, has. The allocator is
  a parameter \<open>alloc\<close> of the model; a call gives a block or null.
\<close>

datatype 'x Entry = Uninit | Pkt 'x | Next nat

record 'x PacketAccum =
  first_block :: "nat option"
  curr_block :: "nat option"
  packets_total :: nat
  packets_curr :: nat
  ents :: "nat \<Rightarrow> nat \<Rightarrow> 'x Entry"

definition set_entry :: "nat \<Rightarrow> nat \<Rightarrow> 'x Entry \<Rightarrow> 'x PacketAccum \<Rightarrow> 'x PacketAccum" where
  "set_entry b i e pa = pa\<lparr>ents := (ents pa)(b := (ents pa b)(i := e))\<rparr>"

definition accum_store :: "'x \<Rightarrow> nat \<Rightarrow> 'x PacketAccum \<Rightarrow> 'x PacketAccum" where
  "accum_store x b pa =
     (set_entry b (packets_curr pa) (Pkt x) pa)
       \<lparr>packets_curr := packets_curr pa + 1, packets_total := packets_total pa + 1\<rparr>"

definition accum_put :: "('s \<Rightarrow> nat option \<times> 's) \<Rightarrow> nat \<Rightarrow> 'x \<Rightarrow> 'x PacketAccum \<Rightarrow> 's
    \<Rightarrow> bool \<times> 'x PacketAccum \<times> 's" where
  "accum_put alloc B x pa s =
     (case curr_block pa of
        None \<Rightarrow>
          (case alloc s of
             (None, s') \<Rightarrow> (False, pa, s')
           | (Some b, s') \<Rightarrow>
               (True, accum_store x b (pa\<lparr>first_block := Some b, curr_block := Some b\<rparr>), s'))
      | Some c \<Rightarrow>
          if packets_curr pa = B - 1
          then (case alloc s of
                  (None, s') \<Rightarrow> (False, pa, s')
                | (Some b, s') \<Rightarrow>
                    (True, accum_store x b ((set_entry c (B - 1) (Next b) pa)
                             \<lparr>curr_block := Some b, packets_curr := 0\<rparr>), s'))
          else (True, accum_store x c pa, s))"

definition accum_empty :: "(nat \<Rightarrow> nat \<Rightarrow> 'x Entry) \<Rightarrow> 'x PacketAccum" where
  "accum_empty e = \<lparr>first_block = None, curr_block = None, packets_total = 0, packets_curr = 0, ents = e\<rparr>"

definition accum_size :: "'x PacketAccum \<Rightarrow> nat" where
  "accum_size pa = packets_total pa"

fun accum_puts :: "('s \<Rightarrow> nat option \<times> 's) \<Rightarrow> nat \<Rightarrow> 'x list \<Rightarrow> 'x PacketAccum \<Rightarrow> 's
    \<Rightarrow> bool list \<times> 'x PacketAccum \<times> 's" where
  "accum_puts alloc B [] pa s = ([], pa, s)"
| "accum_puts alloc B (x # xs) pa s =
     (case accum_put alloc B x pa s of (ok, pa', s') \<Rightarrow>
        case accum_puts alloc B xs pa' s' of (oks, pa'', s'') \<Rightarrow> (ok # oks, pa'', s''))"

text \<open>The packets that the chained blocks \<open>bs\<close> hold, the last one filled up to \<open>i\<close>.\<close>

fun blocks_hold :: "nat \<Rightarrow> (nat \<Rightarrow> nat \<Rightarrow> 'x Entry) \<Rightarrow> nat list \<Rightarrow> nat \<Rightarrow> 'x list \<Rightarrow> bool" where
  "blocks_hold B e [] i xs = False"
| "blocks_hold B e [b] i xs = (length xs = i \<and> (\<forall>k < i. e b k = Pkt (xs ! k)))"
| "blocks_hold B e (b # c # bs) i xs =
     (e b (B - 1) = Next c \<and> length xs \<ge> B - 1 \<and> (\<forall>k < B - 1. e b k = Pkt (xs ! k)) \<and>
      blocks_hold B e (c # bs) i (drop (B - 1) xs))"

definition accum_repr :: "nat \<Rightarrow> 'x PacketAccum \<Rightarrow> nat list \<Rightarrow> 'x list \<Rightarrow> bool" where
  "accum_repr B pa bs xs \<longleftrightarrow>
     packets_total pa = length xs \<and> distinct bs \<and>
     (if bs = [] then first_block pa = None \<and> curr_block pa = None \<and> packets_curr pa = 0 \<and> xs = []
      else first_block pa = Some (hd bs) \<and> curr_block pa = Some (last bs) \<and>
           packets_curr pa \<le> B - 1 \<and> blocks_hold B (ents pa) bs (packets_curr pa) xs)"

lemma blocks_hold_cong:
  "blocks_hold B e bs i xs \<Longrightarrow> (\<And>b. b \<in> set bs \<Longrightarrow> e' b = e b) \<Longrightarrow> blocks_hold B e' bs i xs"
  by (induction B e bs i xs rule: blocks_hold.induct) auto

lemma blocks_hold_store:
  assumes "blocks_hold B e bs i xs" and "distinct bs" and "i < B - 1"
  shows "blocks_hold B (e(last bs := (e (last bs))(i := Pkt x))) bs (i + 1) (xs @ [x])"
  using assms
proof (induction B e bs i xs rule: blocks_hold.induct)
  case (2 B e b i xs)
  then show ?case by (auto simp: nth_append)
next
  case (3 B e b c bs i xs)
  let ?e = "e(last (c # bs) := (e (last (c # bs)))(i := Pkt x))"
  have "blocks_hold B ?e (c # bs) (i + 1) (drop (B - 1) xs @ [x])" using 3 by (intro "3.IH") auto
  moreover have "?e b = e b" using "3.prems"(2) by (metis distinct.simps(2) fun_upd_other last_in_set list.distinct(1))
  moreover have "last (b # c # bs) = last (c # bs)" by simp
  ultimately show ?case using "3.prems"(1)
    by (simp only: blocks_hold.simps) (auto simp: nth_append)
qed simp

lemma blocks_hold_extend:
  assumes "blocks_hold B e bs (B - 1) xs" and "distinct bs" and "n \<notin> set bs"
  shows "blocks_hold B (e(last bs := (e (last bs))(B - 1 := Next n))) (bs @ [n]) 0 xs"
  using assms
proof (induction B e bs "B - 1" xs rule: blocks_hold.induct)
  case (3 B e b c bs xs)
  let ?e = "e(last (c # bs) := (e (last (c # bs)))(B - 1 := Next n))"
  have "blocks_hold B ?e ((c # bs) @ [n]) 0 (drop (B - 1) xs)" using 3 by (intro "3.hyps") auto
  moreover have "?e b = e b" using "3.prems"(2) by (metis distinct.simps(2) fun_upd_other last_in_set list.distinct(1))
  moreover have "last (b # c # bs) = last (c # bs)" by simp
  ultimately show ?case using "3.prems"(1)
    by (simp only: blocks_hold.simps append_Cons simp_thms) blast
qed auto

subsection \<open>The contract of a pool and its client\<close>

text \<open>
  A pool whose free blocks, in the order they will be handed out, are related to its state
  by \<open>avail\<close>: a request takes the first one, except that the last one is kept back.
\<close>

locale pool =
  fixes alloc :: "'s \<Rightarrow> nat option \<times> 's"
    and avail :: "'s \<Rightarrow> nat list \<Rightarrow> bool"
  assumes avail_distinct: "avail s fs \<Longrightarrow> distinct fs \<and> fs \<noteq> []"
    and alloc_first: "avail s (p # q # fs) \<Longrightarrow> \<exists>s'. alloc s = (Some p, s') \<and> avail s' (q # fs)"
    and alloc_last: "avail s [p] \<Longrightarrow> alloc s = (None, s)"

definition accum_room :: "nat \<Rightarrow> 'x PacketAccum \<Rightarrow> nat list \<Rightarrow> nat" where
  "accum_room B pa fs =
     (length fs - 1) * (B - 1) + (if curr_block pa = None then 0 else B - 1 - packets_curr pa)"

context pool begin

definition client_inv :: "nat set \<Rightarrow> nat \<Rightarrow> 'x PacketAccum \<Rightarrow> 's \<Rightarrow> nat list \<Rightarrow> nat list \<Rightarrow> 'x list \<Rightarrow> bool" where
  "client_inv A B pa s bs fs xs \<longleftrightarrow> avail s fs \<and> accum_repr B pa bs xs \<and> set bs \<inter> set fs = {} \<and> set bs \<union> set fs = A"

lemma put_no_room:
  assumes "client_inv A B pa s bs fs xs" and "accum_room B pa fs = 0" and "2 \<le> B"
  shows "accum_put alloc B x pa s = (False, pa, s)"
proof -
  from assms(1) have fs: "fs \<noteq> []" by (auto simp: client_inv_def dest: avail_distinct)
  with assms(2,3) have "length fs = 1" by (cases fs) (auto simp: accum_room_def)
  then obtain p where "fs = [p]" by (cases fs) auto
  with assms(1) have "avail s [p]" by (simp add: client_inv_def)
  then have "alloc s = (None, s)" by (rule alloc_last)
  with assms show ?thesis
    by (auto simp: accum_put_def accum_room_def client_inv_def accum_repr_def split: option.splits if_splits)
qed

lemma put_first:
  assumes "client_inv A B pa s [] (p # q # fs) xs" and "2 \<le> B"
  shows "\<exists>pa' s'. accum_put alloc B x pa s = (True, pa', s') \<and>
    client_inv A B pa' s' [p] (q # fs) (xs @ [x]) \<and> packets_curr pa' = 1 \<and> curr_block pa' \<noteq> None"
proof -
  from assms(1) obtain s' where s': "alloc s = (Some p, s')" "avail s' (q # fs)"
    by (auto simp: client_inv_def dest: alloc_first)
  from assms(1) have "distinct (p # q # fs)" by (auto simp: client_inv_def dest: avail_distinct)
  with s' assms show ?thesis
    by (auto simp: accum_put_def client_inv_def accum_repr_def accum_store_def set_entry_def)
qed

lemma put_same_block:
  assumes "client_inv A B pa s bs fs xs" and "bs \<noteq> []" and "packets_curr pa < B - 1"
  shows "\<exists>pa'. accum_put alloc B x pa s = (True, pa', s) \<and> client_inv A B pa' s bs fs (xs @ [x]) \<and>
    packets_curr pa' = packets_curr pa + 1 \<and> curr_block pa' \<noteq> None"
  using assms blocks_hold_store [of B "ents pa" bs "packets_curr pa" xs x]
  by (auto simp: accum_put_def client_inv_def accum_repr_def accum_store_def set_entry_def)

lemma put_next_block:
  assumes "client_inv A B pa s bs (p # q # fs) xs" and "bs \<noteq> []" and "packets_curr pa = B - 1" and "2 \<le> B"
  shows "\<exists>pa' s'. accum_put alloc B x pa s = (True, pa', s') \<and>
    client_inv A B pa' s' (bs @ [p]) (q # fs) (xs @ [x]) \<and> packets_curr pa' = 1 \<and> curr_block pa' \<noteq> None"
proof -
  from assms(1) obtain s' where s': "alloc s = (Some p, s')" "avail s' (q # fs)"
    by (auto simp: client_inv_def dest: alloc_first)
  from assms(1) have d: "distinct (p # q # fs)" "p \<notin> set bs" "distinct bs"
    by (auto simp: client_inv_def accum_repr_def dest: avail_distinct)
  let ?e = "(ents pa)(last bs := (ents pa (last bs))(B - 1 := Next p))"
  have "blocks_hold B ?e (bs @ [p]) 0 xs"
    using assms(1-3) d by (intro blocks_hold_extend) (auto simp: client_inv_def accum_repr_def)
  from blocks_hold_store [OF this, of x] d assms(4)
  have "blocks_hold B (?e(p := (?e p)(0 := Pkt x))) (bs @ [p]) 1 (xs @ [x])" by simp
  with s' d assms show ?thesis
    by (auto simp: accum_put_def client_inv_def accum_repr_def accum_store_def set_entry_def)
qed

lemma put_room:
  assumes "client_inv A B pa s bs fs xs" and "0 < accum_room B pa fs" and "2 \<le> B"
  shows "\<exists>pa' s' bs' fs'. accum_put alloc B x pa s = (True, pa', s') \<and>
    client_inv A B pa' s' bs' fs' (xs @ [x]) \<and> accum_room B pa' fs' + 1 = accum_room B pa fs"
proof -
  have ne: "fs \<noteq> []" using assms(1) by (auto simp: client_inv_def dest: avail_distinct)
  have curr: "curr_block pa = None \<longleftrightarrow> bs = []" and le: "packets_curr pa \<le> B - 1"
    using assms(1) by (auto simp: client_inv_def accum_repr_def split: if_splits)
  show ?thesis
  proof (cases "bs \<noteq> [] \<and> packets_curr pa < B - 1")
    case True
    with put_same_block [OF assms(1), of x] obtain pa' where
      "accum_put alloc B x pa s = (True, pa', s)" "client_inv A B pa' s bs fs (xs @ [x])"
      "packets_curr pa' = packets_curr pa + 1" "curr_block pa' \<noteq> None" by auto
    with True curr show ?thesis by (auto simp: accum_room_def intro!: exI)
  next
    case False
    with le curr assms(2) have "1 < length fs" by (auto simp: accum_room_def split: if_splits)
    then obtain p q gs where fs: "fs = p # q # gs" by (cases fs; cases "tl fs") auto
    have "\<exists>pa' s' bs'. accum_put alloc B x pa s = (True, pa', s') \<and>
        client_inv A B pa' s' bs' (q # gs) (xs @ [x]) \<and> packets_curr pa' = 1 \<and> curr_block pa' \<noteq> None"
    proof (cases "bs = []")
      case True
      then show ?thesis using put_first [of A B pa s p q gs xs x] assms(1,3) fs by blast
    next
      case False
      then have "packets_curr pa = B - 1" using \<open>\<not> (bs \<noteq> [] \<and> packets_curr pa < B - 1)\<close> le by simp
      then show ?thesis using put_next_block [of A B pa s bs p q gs xs x] False assms(1,3) fs by blast
    qed
    then obtain pa' s' bs' where r: "accum_put alloc B x pa s = (True, pa', s')"
      "client_inv A B pa' s' bs' (q # gs) (xs @ [x])" "packets_curr pa' = 1" "curr_block pa' \<noteq> None"
      by blast
    have "accum_room B pa fs = (length gs + 1) * (B - 1)"
      using False curr le fs by (auto simp: accum_room_def)
    moreover have "accum_room B pa' (q # gs) + 1 = length gs * (B - 1) + (B - 1)"
      using r assms(3) by (auto simp: accum_room_def)
    ultimately show ?thesis using r by (auto intro!: exI)
  qed
qed

lemma puts_stored:
  assumes "client_inv A B pa s bs fs xs" and "2 \<le> B"
  shows "\<exists>pa' s' bs' fs'. accum_puts alloc B ys pa s =
      (map (\<lambda>i. i < accum_room B pa fs) [0 ..< length ys], pa', s') \<and>
    client_inv A B pa' s' bs' fs' (xs @ take (accum_room B pa fs) ys)"
  using assms(1)
proof (induction ys arbitrary: pa s bs fs xs)
  case Nil
  then show ?case by auto
next
  case (Cons y ys)
  let ?r = "accum_room B pa fs"
  have map_Suc: "map f [0 ..< Suc n] = f 0 # map (\<lambda>i. f (Suc i)) [0 ..< n]" for f :: "nat \<Rightarrow> bool" and n
    by (simp add: map_upt_Suc del: upt_Suc)
  show ?case
  proof (cases ?r)
    case 0
    with put_no_room [OF Cons.prems _ assms(2)] have p: "accum_put alloc B y pa s = (False, pa, s)" by simp
    from Cons.IH [OF Cons.prems] obtain pa' s' bs' fs' where
      "accum_puts alloc B ys pa s = (map (\<lambda>i. i < ?r) [0 ..< length ys], pa', s')"
      "client_inv A B pa' s' bs' fs' (xs @ take ?r ys)" by blast
    with p 0 show ?thesis by (auto simp: map_Suc simp del: upt_Suc intro!: exI)
  next
    case (Suc r)
    with put_room [OF Cons.prems _ assms(2), of y] obtain pa1 s1 bs1 fs1 where
      p: "accum_put alloc B y pa s = (True, pa1, s1)" "client_inv A B pa1 s1 bs1 fs1 (xs @ [y])"
         "accum_room B pa1 fs1 = r" by auto
    from Cons.IH [OF p(2)] obtain pa' s' bs' fs' where
      "accum_puts alloc B ys pa1 s1 = (map (\<lambda>i. i < r) [0 ..< length ys], pa', s')"
      "client_inv A B pa' s' bs' fs' ((xs @ [y]) @ take r ys)" using p(3) by blast
    with p(1) Suc show ?thesis by (auto simp: map_Suc simp del: upt_Suc intro!: exI)
  qed
qed

end

interpretation blocks: pool alloc_get "free_list sz" for sz
proof unfold_locales
  fix s fs assume "free_list sz s fs"
  then show "distinct fs \<and> fs \<noteq> []" by (auto simp: free_list_def dest: chain_not_Nil)
qed (auto intro: alloc_get_some alloc_get_none)

subsection \<open>Clients of the allocator that keep to the blocks they hold\<close>

datatype alloc_op = Get | Put nat | Scribble nat "nat option"

text \<open>Requests, releases and overwrites of blocks by a client that tracks what it holds.\<close>

fun alloc_step :: "nat \<Rightarrow> nat \<Rightarrow> alloc_op \<Rightarrow> AllocatorCtx \<times> nat list \<Rightarrow> (AllocatorCtx \<times> nat list) res" where
  "alloc_step sz mem Get (c, held) =
     (case alloc_get c of (None, c') \<Rightarrow> Inr (c', held) | (Some p, c') \<Rightarrow> Inr (c', p # held))"
| "alloc_step sz mem (Put p) (c, held) =
     (if p \<in> set held then rbind (alloc_put sz mem p c) (\<lambda>c'. Inr (c', remove1 p held))
      else Inr (c, held))"
| "alloc_step sz mem (Scribble p v) (c, held) =
     (if p \<in> set held then rbind (scribble sz mem p v c) (\<lambda>c'. Inr (c', held)) else Inr (c, held))"

fun alloc_run :: "nat \<Rightarrow> nat \<Rightarrow> alloc_op list \<Rightarrow> AllocatorCtx \<times> nat list \<Rightarrow> (AllocatorCtx \<times> nat list) res" where
  "alloc_run sz mem [] st = Inr st"
| "alloc_run sz mem (x # xs) st = rbind (alloc_step sz mem x st) (alloc_run sz mem xs)"

definition all_blocks :: "nat \<Rightarrow> AllocatorCtx \<Rightarrow> nat set" where
  "all_blocks sz c = (\<lambda>i. arr c + i * sz) ` {..< overall c}"

definition alloc_inv :: "nat \<Rightarrow> nat \<Rightarrow> nat set \<Rightarrow> AllocatorCtx \<times> nat list \<Rightarrow> bool" where
  "alloc_inv sz mem A st \<longleftrightarrow>
     mem + sizeof_AllocatorCtx \<le> arr (fst st) \<and>
     (\<exists>fs. free_list sz (fst st) fs \<and> all_blocks sz (fst st) = A \<and>
           distinct (fs @ snd st) \<and> set (fs @ snd st) = A)"

lemma all_blocks_is_block: "p \<in> all_blocks sz c \<longleftrightarrow> is_block sz c p"
  by (auto simp: all_blocks_def is_block_def)

lemma alloc_geometry:
  "alloc_get c = (r, c') \<Longrightarrow> arr c' = arr c \<and> overall c' = overall c"
  "alloc_put sz mem p c = Inr c' \<Longrightarrow> arr c' = arr c \<and> overall c' = overall c"
  "scribble sz mem p v c = Inr c' \<Longrightarrow> arr c' = arr c \<and> overall c' = overall c"
  by (auto simp: alloc_get_def alloc_put_def scribble_def rbind_Inr_iff split: option.splits if_splits)

lemma alloc_invI:
  assumes "alloc_inv sz mem A (c, held)" and "arr c' = arr c \<and> overall c' = overall c" and "free_list sz c' fs"
    and "distinct (fs @ held')" and "set (fs @ held') = A"
  shows "alloc_inv sz mem A (c', held')"
  using assms by (auto simp: alloc_inv_def all_blocks_def)

lemma alloc_invE:
  assumes "alloc_inv sz mem A (c, held)"
  obtains fs where "free_list sz c fs" "distinct (fs @ held)" "set (fs @ held) = A" "A = all_blocks sz c"
    "mem + sizeof_AllocatorCtx \<le> arr c"
  using assms by (auto simp: alloc_inv_def)

lemma alloc_get_inv:
  assumes "alloc_inv sz mem A (c, held)"
  shows "\<exists>st. alloc_step sz mem Get (c, held) = Inr st \<and> alloc_inv sz mem A st"
proof -
  from assms obtain fs where fs: "free_list sz c fs" "distinct (fs @ held)" "set (fs @ held) = A" by (rule alloc_invE)
  then obtain p ps where p: "fs = p # ps" by (cases fs) (auto simp: free_list_def)
  show ?thesis
  proof (cases ps)
    case Nil
    with fs p assms show ?thesis by (simp add: alloc_get_none)
  next
    case (Cons q qs)
    with alloc_get_some [of sz c p q qs] fs(1) p obtain c' where
      c': "alloc_get c = (Some p, c')" "free_list sz c' (q # qs)" by auto
    have "alloc_inv sz mem A (c', p # held)"
      using assms alloc_geometry(1) [OF c'(1)] c'(2) by (rule alloc_invI) (use fs p Cons in auto)
    with c'(1) show ?thesis by simp
  qed
qed

lemma alloc_put_inv:
  assumes "alloc_inv sz mem A (c, held)"
  shows "\<exists>st. alloc_step sz mem (Put p) (c, held) = Inr st \<and> alloc_inv sz mem A st"
proof (cases "p \<in> set held")
  case True
  from assms obtain fs where fs: "free_list sz c fs" "distinct (fs @ held)" "set (fs @ held) = A" "A = all_blocks sz c"
    and clear: "mem + sizeof_AllocatorCtx \<le> arr c" by (rule alloc_invE)
  have p: "is_block sz c p" "p \<notin> set fs" using True fs by (auto simp flip: all_blocks_is_block)
  from alloc_put_ok [OF fs(1) p clear] obtain c' where c': "alloc_put sz mem p c = Inr c'" "free_list sz c' (fs @ [p])"
    by blast
  have "set (remove1 p held) = set held - {p}" using fs(2) by simp
  then have "alloc_inv sz mem A (c', remove1 p held)"
    using True fs by (intro alloc_invI [OF assms alloc_geometry(2) [OF c'(1)] c'(2)]) auto
  with True c'(1) show ?thesis by simp
next
  case False
  with assms show ?thesis by simp
qed

lemma alloc_scribble_inv:
  assumes "alloc_inv sz mem A (c, held)"
  shows "\<exists>st. alloc_step sz mem (Scribble p v) (c, held) = Inr st \<and> alloc_inv sz mem A st"
proof (cases "p \<in> set held")
  case True
  from assms obtain fs where fs: "free_list sz c fs" "distinct (fs @ held)" "set (fs @ held) = A" "A = all_blocks sz c"
    and clear: "mem + sizeof_AllocatorCtx \<le> arr c" by (rule alloc_invE)
  have p: "is_block sz c p" "p \<notin> set fs" using True fs by (auto simp flip: all_blocks_is_block)
  obtain c' where c': "scribble sz mem p v c = Inr c'" using block_clear(1) [OF p(1) clear] by (simp add: scribble_def)
  have "alloc_inv sz mem A (c', held)"
    using fs by (intro alloc_invI [OF assms alloc_geometry(3) [OF c'] scribble_free_list [OF fs(1) p(2) c']]) auto
  with True c' show ?thesis by simp
qed (use assms in simp)

lemma alloc_run_inv: "alloc_inv sz mem A st \<Longrightarrow> \<exists>st'. alloc_run sz mem xs st = Inr st' \<and> alloc_inv sz mem A st'"
proof (induction xs arbitrary: st)
  case (Cons x xs)
  obtain c held where st: "st = (c, held)" by (cases st)
  with Cons.prems have "\<exists>st1. alloc_step sz mem x st = Inr st1 \<and> alloc_inv sz mem A st1"
    by (cases x) (use alloc_get_inv alloc_put_inv alloc_scribble_inv in blast)+
  with Cons.IH show ?case by auto
qed simp

lemma alloc_init_inv:
  assumes "0 < sz" and "VIRTUAL_PAGE_SIZE_4KiB + sz \<le> bytes" and "alloc_init sz mem bytes True c0 = Inr c"
    and "mem + sizeof_AllocatorCtx \<le> arr c"
  shows "alloc_inv sz mem (all_blocks sz c) (c, [])"
  unfolding alloc_inv_def
proof (intro conjI exI [of _ "map (\<lambda>i. arr c + i * sz) [0 ..< overall c]"])
  show "mem + sizeof_AllocatorCtx \<le> arr (fst (c, []))" using assms(4) by simp
qed (use alloc_init_free_list [OF assms(1-3)] in \<open>auto simp: free_list_def all_blocks_def atLeast0LessThan\<close>)

text \<open>Where the array begins.\<close>

lemma alloc_init_arr:
  assumes "alloc_init sz mem bytes True c0 = Inr c"
  shows "arr c = mem + VIRTUAL_PAGE_SIZE_4KiB - arr c0 mod VIRTUAL_PAGE_SIZE_4KiB" and
    "overall c = (bytes - VIRTUAL_PAGE_SIZE_4KiB) div sz" and "VIRTUAL_PAGE_SIZE_4KiB + sizeof_AllocatorCtx < bytes"
  using assms by (auto simp: alloc_init_def rbind_Inr_iff Let_def split: if_splits)

lemma alloc_init_clear:
  assumes "alloc_init sz mem bytes True c0 = Inr c"
  shows "mem + sizeof_AllocatorCtx \<le> arr c \<longleftrightarrow> arr c0 mod VIRTUAL_PAGE_SIZE_4KiB \<le> VIRTUAL_PAGE_SIZE_4KiB - sizeof_AllocatorCtx"
proof -
  have "arr c0 mod 4096 < 4096" by simp
  then show ?thesis
    using alloc_init_arr(1) [OF assms] by (auto simp: VIRTUAL_PAGE_SIZE_4KiB_def sizeof_AllocatorCtx_def)
qed

subsection \<open>Properties of the allocator and the accumulator\<close>

lemma alloc_init_placement_mem: "alloc_init sz mem bytes True c0 = Inr c \<Longrightarrow> mem < arr c"
  using mod_less_divisor [of VIRTUAL_PAGE_SIZE_4KiB "arr c0"] alloc_init_arr(1) [of sz mem bytes c0 c]
  by (simp add: VIRTUAL_PAGE_SIZE_4KiB_def)

text \<open>C5. No block is ever handed out twice, on a pool whose first block begins behind the allocator's own context, which
  is so unless the uninitialised \<^verbatim>\<open>_array\<close> field that \<^verbatim>\<open>init\<close> reads holds a value of more than 4056 modulo 4096: after any sequence
  of requests, releases of held blocks and overwrites of whole held blocks on the fresh pool, the blocks held by the client and the
  blocks of the free list are pairwise different and together are exactly the blocks of the
  array; no assertion fires on the way, and nothing is stored over the context.\<close>

theorem alloc_partition:
  assumes "0 < sz" and "VIRTUAL_PAGE_SIZE_4KiB + sz \<le> bytes"
    and "alloc_init sz mem bytes True c0 = Inr c"
    and "arr c0 mod VIRTUAL_PAGE_SIZE_4KiB \<le> VIRTUAL_PAGE_SIZE_4KiB - sizeof_AllocatorCtx"
  shows "\<exists>c' held fs. alloc_run sz mem xs (c, []) = Inr (c', held) \<and> free_list sz c' fs \<and>
           distinct (fs @ held) \<and> set (fs @ held) = all_blocks sz c"
  using alloc_run_inv [OF alloc_init_inv [OF assms(1-3)], of xs] assms(4) alloc_init_clear [OF assms(3)]
  by (auto simp: alloc_inv_def)

definition demo_ctx :: AllocatorCtx where
  "demo_ctx = \<lparr>arr = 0, begin_ptr = 0, end_ptr = 0, cnt = 0, overall = 0, nxt = (\<lambda>_. None)\<rparr>"

theorem alloc_partition_witness:
  "\<exists>c' held fs. alloc_run 64 0 [Get, Scribble 4160 None, Get, Put 4160, Get]
       (projr (alloc_init 64 0 4352 True demo_ctx), []) = Inr (c', held) \<and> free_list 64 c' fs \<and>
     distinct (fs @ held) \<and> set (fs @ held) = {4096, 4160, 4224, 4288}"
  using alloc_partition [of 64 4352 0 demo_ctx "projr (alloc_init 64 0 4352 True demo_ctx)"
      "[Get, Scribble 4160 None, Get, Put 4160, Get]"]
  by (simp add: alloc_init_def VIRTUAL_PAGE_SIZE_4KiB_def sizeof_AllocatorCtx_def demo_ctx_def
      all_blocks_def hits_link_def hits_ctx_def lessThan_nat_numeral lessThan_Suc insert_commute)

text \<open>An allocator that gives the blocks \<open>bs\<close> one after the other and then null.\<close>

fun hands_out :: "('s \<Rightarrow> nat option \<times> 's) \<Rightarrow> 's \<Rightarrow> nat list \<Rightarrow> bool" where
  "hands_out alloc s [] = (alloc s = (None, s))"
| "hands_out alloc s (b # bs) = (case alloc s of (None, _) \<Rightarrow> False | (Some b', s') \<Rightarrow> b' = b \<and> hands_out alloc s' bs)"

interpretation handed: pool alloc "\<lambda>s fs. fs \<noteq> [] \<and> distinct fs \<and> last fs = p \<and> hands_out alloc s (butlast fs)" for alloc p
proof unfold_locales
  fix s q r fs
  assume "q # r # fs \<noteq> [] \<and> distinct (q # r # fs) \<and> last (q # r # fs) = p \<and> hands_out alloc s (butlast (q # r # fs))"
  then show "\<exists>s'. alloc s = (Some q, s') \<and> r # fs \<noteq> [] \<and> distinct (r # fs) \<and> last (r # fs) = p \<and> hands_out alloc s' (butlast (r # fs))"
    by (cases "alloc s"; cases "fst (alloc s)") auto
qed auto

text \<open>The free list is such an allocator, but for its last block.\<close>

lemma free_list_hands_out: "free_list sz c fs \<Longrightarrow> hands_out alloc_get c (butlast fs)"
proof (induction fs arbitrary: c)
  case (Cons p ps)
  show ?case
  proof (cases ps)
    case Nil
    with Cons.prems show ?thesis by (simp add: alloc_get_none)
  next
    case (Cons q qs)
    with alloc_get_some [of sz c p q qs] Cons.prems Cons.IH show ?thesis by auto
  qed
qed (auto simp: free_list_def)

text \<open>C36. The accumulator over any allocator whose calls give \<open>n\<close> different blocks of \<open>B\<close> entries, two at least, and then
  null stores the packets in the order of the puts, follows its links to them, and accepts exactly the first
  \<open>n * (B - 1)\<close>: each block keeps one entry for the link. Later puts return false and change nothing.\<close>

theorem accum_stores_in_order:
  assumes "hands_out alloc s blks" and "distinct blks" and "2 \<le> B"
  shows "\<exists>pa s' bs. accum_puts alloc B xs (accum_empty e) s =
      (map (\<lambda>i. i < length blks * (B - 1)) [0 ..< length xs], pa, s') \<and>
    set bs \<subseteq> set blks \<and> accum_repr B pa bs (take (length blks * (B - 1)) xs) \<and>
    accum_size pa = min (length xs) (length blks * (B - 1))"
proof -
  obtain p where p: "p \<notin> set blks" using ex_new_if_finite [of "set blks"] by auto
  let ?fs = "blks @ [p]"
  have "handed.client_inv p alloc (set ?fs) B (accum_empty e) s [] ?fs []"
    using assms(1,2) p by (simp add: handed.client_inv_def accum_repr_def accum_empty_def)
  from handed.puts_stored [OF this assms(3), of xs] obtain pa s' bs fs where
    run: "accum_puts alloc B xs (accum_empty e) s = (map (\<lambda>i. i < accum_room B (accum_empty e) ?fs) [0 ..< length xs], pa, s')"
    "handed.client_inv p alloc (set ?fs) B pa s' bs fs ([] @ take (accum_room B (accum_empty e) ?fs) xs)" by blast
  have room: "accum_room B (accum_empty e) ?fs = length blks * (B - 1)"
    by (simp add: accum_room_def accum_empty_def)
  have ends: "fs \<noteq> []" "last fs = p" "set bs \<inter> set fs = {}" "set bs \<union> set fs = set ?fs"
    using run(2) by (simp_all add: handed.client_inv_def)
  then have "p \<notin> set bs" using last_in_set [of fs] by blast
  then have "set bs \<subseteq> set blks" using ends(4) by auto
  then show ?thesis
    using run unfolding room
    by (intro exI [of _ pa] exI [of _ s'] exI [of _ bs])
       (auto simp: handed.client_inv_def accum_size_def accum_repr_def)
qed

text \<open>A list of blocks that are given one after the other.\<close>

definition next_block :: "nat list \<Rightarrow> nat option \<times> nat list" where
  "next_block bs = (case bs of [] \<Rightarrow> (None, []) | b # bs \<Rightarrow> (Some b, bs))"

theorem accum_stores_in_order_witness:
  "\<exists>pa s' bs. accum_puts next_block 3 ''abcde'' (accum_empty (\<lambda>_ _. Uninit)) [7, 5] =
      ([True, True, True, True, False], pa, s') \<and>
    accum_repr 3 pa bs ''abcd'' \<and> accum_size pa = length ''abcd''"
proof -
  have "hands_out next_block [7, 5] [7, 5]" by (simp add: next_block_def)
  from accum_stores_in_order [OF this, of 3 "''abcde''" "\<lambda>_ _. Uninit"] show ?thesis
    by (auto simp: upt_rec simp del: accum_puts.simps)
qed

text \<open>Where \<open>init\<close> puts the array: never past the end of the memory, but it depends on the
  bytes found in the uninitialised \<^verbatim>\<open>_array\<close> field, and for some of them the first block
  overlaps the allocator's own context.\<close>

theorem alloc_init_placement:
  assumes "0 < sz" and "alloc_init sz mem bytes True c0 = Inr c"
  shows "mem < arr c \<and> arr c + overall c * sz \<le> mem + bytes \<and>
         (arr c < mem + sizeof_AllocatorCtx \<longleftrightarrow> 4056 < arr c0 mod 4096)"
proof -
  note c = alloc_init_arr [OF assms(2), unfolded VIRTUAL_PAGE_SIZE_4KiB_def sizeof_AllocatorCtx_def]
  have arith: "mem < a \<and> a + k \<le> mem + bytes \<and> (a < mem + 40 \<longleftrightarrow> 4056 < r)"
    if "a + r = mem + 4096" "r < 4096" "k \<le> bytes - 4096" for a k r :: nat
    using that c(3) by auto
  have "arr c + arr c0 mod 4096 = mem + 4096" using c(1) mod_less_divisor [of 4096 "arr c0"] by linarith
  then show ?thesis
    unfolding sizeof_AllocatorCtx_def c(2)
    by (rule arith) (simp_all add: div_times_less_eq_dividend)
qed

theorem alloc_init_placement_witness:
  "arr (projr (alloc_init 64 0 8192 True (demo_ctx\<lparr>arr := 4095\<rparr>))) < 0 + sizeof_AllocatorCtx"
  using alloc_init_placement [of 64 0 8192 "demo_ctx\<lparr>arr := 4095\<rparr>" "projr (alloc_init 64 0 8192 True (demo_ctx\<lparr>arr := 4095\<rparr>))"]
  by (simp add: alloc_init_def VIRTUAL_PAGE_SIZE_4KiB_def sizeof_AllocatorCtx_def hits_link_def hits_ctx_def)

text \<open>A pool that \<^verbatim>\<open>init\<close> puts over its own context does not outlive the first block: where the field \<^verbatim>\<open>_array\<close> held more than 4056
  modulo 4096, either \<^verbatim>\<open>init\<close> itself stores the link of the first block over the context, or the client that is given the first
  block and fills it does.\<close>

theorem first_block_over_context:
  assumes "8 \<le> sz" and "VIRTUAL_PAGE_SIZE_4KiB + 2 * sz \<le> bytes" and "VIRTUAL_PAGE_SIZE_4KiB + sizeof_AllocatorCtx < bytes"
    and "VIRTUAL_PAGE_SIZE_4KiB - sizeof_AllocatorCtx < arr c0 mod VIRTUAL_PAGE_SIZE_4KiB"
  shows "rbind (alloc_init sz mem bytes True c0) (\<lambda>c. alloc_run sz mem [Get, Scribble (arr c) v] (c, [])) = Inl Undefined"
proof (cases "alloc_init sz mem bytes True c0")
  case (Inl e)
  with assms(3) show ?thesis by (auto simp: alloc_init_def Let_def split: if_splits)
next
  case (Inr c)
  have sz: "0 < sz" "VIRTUAL_PAGE_SIZE_4KiB + sz \<le> bytes" using assms(1,2) by simp_all
  have "2 \<le> overall c"
    using alloc_init_arr(2) [OF Inr] assms(1,2) by (simp add: less_eq_div_iff_mult_less_eq)
  then have "map (\<lambda>i. arr c + i * sz) [0 ..< overall c] = arr c # (arr c + sz) # map (\<lambda>i. arr c + i * sz) [2 ..< overall c]"
    by (simp add: upt_conv_Cons numeral_2_eq_2)
  with alloc_init_free_list [OF sz Inr] have fl: "free_list sz c (arr c # (arr c + sz) # map (\<lambda>i. arr c + i * sz) [2 ..< overall c])"
    by simp
  from alloc_get_some [OF this] obtain c' where c': "alloc_get c = (Some (arr c), c')" by blast
  have "hits_ctx mem (arr c) sz"
    using alloc_init_clear [OF Inr] assms(4) alloc_init_placement_mem [OF Inr] by (simp add: hits_ctx_def)
  with c' Inr show ?thesis by (simp add: scribble_def)
qed

theorem first_block_over_context_witness:
  "alloc_run 64 0 [Get, Scribble 1 None] (projr (alloc_init 64 0 8192 True (demo_ctx\<lparr>arr := 4095\<rparr>)), []) = Inl Undefined"
proof -
  obtain c where c: "alloc_init 64 0 8192 True (demo_ctx\<lparr>arr := 4095\<rparr>) = Inr c" "arr c = 1"
    by (simp add: alloc_init_def VIRTUAL_PAGE_SIZE_4KiB_def sizeof_AllocatorCtx_def hits_link_def hits_ctx_def)
  from first_block_over_context [of 64 8192 "demo_ctx\<lparr>arr := 4095\<rparr>" 0 None] c show ?thesis
    by (simp add: VIRTUAL_PAGE_SIZE_4KiB_def sizeof_AllocatorCtx_def del: alloc_run.simps)
qed

end
