(* ===== verification/Allocator_Attach.thy ===== *)
theory Allocator_Attach
  imports Allocator_List
begin

text \<open>
  The allocator interface of \<^verbatim>\<open>lib/libshared/AllocatorList.h\<close>, as a container calls it, and its second constructor argument: with
  \<^verbatim>\<open>create == false\<close> a process takes over a pool that another one has made. Each process sees the shared memory at an
  address of its own, the links in it are addresses of the one that made the pool. What lies outside of a process's view is
  \<open>OutOfBounds\<close>.
\<close>

text \<open>Where a process sees the memory: its address and size. \<^verbatim>\<open>AllocatorList(mem, size, false)\<close> stores the address only.\<close>

type_synonym view = "nat \<times> nat"

definition in_view :: "view \<Rightarrow> nat \<Rightarrow> nat \<Rightarrow> bool" where
  "in_view v p n \<longleftrightarrow> fst v \<le> p \<and> p + n \<le> fst v + snd v"

text \<open>\<^verbatim>\<open>AllocatorList(mem, size, create)\<close>\<close>

definition new_AllocatorList :: "nat \<Rightarrow> view \<Rightarrow> bool \<Rightarrow> AllocatorCtx \<Rightarrow> AllocatorCtx res" where
  "new_AllocatorList sz v create c = alloc_init sz (fst v) (snd v) create c"

text \<open>One block whatever number of elements is asked for; null when there is none.\<close>

definition allocate :: "nat \<Rightarrow> view \<Rightarrow> nat \<Rightarrow> AllocatorCtx \<Rightarrow> (nat option \<times> AllocatorCtx) res" where
  "allocate sz v n c = (if in_view v (begin_ptr c) sz then Inr (alloc_get c) else Inl OutOfBounds)"

definition deallocate :: "nat \<Rightarrow> view \<Rightarrow> nat \<Rightarrow> nat \<Rightarrow> AllocatorCtx \<Rightarrow> AllocatorCtx res" where
  "deallocate sz v p n c =
     rbind (alloc_put sz (fst v) p c) (\<lambda>c'. if in_view v p sz \<and> in_view v (end_ptr c) sz then Inr c' else Inl OutOfBounds)"

definition getDataOffset :: nat where
  "getDataOffset = sizeof_AllocatorCtx"

lemma block_in_view:
  assumes "is_block sz c p" and "fst v \<le> arr c" and "arr c + overall c * sz \<le> fst v + snd v"
  shows "in_view v p sz"
proof -
  obtain i where i: "i < overall c" "p = arr c + i * sz" using assms(1) by (auto simp: is_block_def)
  have "Suc i * sz \<le> overall c * sz" using i(1) by (intro mult_le_mono1) simp
  with i(2) assms(2,3) show ?thesis by (simp add: in_view_def)
qed

text \<open>A pool serves the process that made it, and no other that sees the memory somewhere else: there the first request
  follows a link that leads outside, however many blocks are free, and so does every return of a block of the pool.\<close>

theorem attached_elsewhere:
  assumes "free_list sz c fs" and "fst v \<le> arr c" and "arr c + overall c * sz \<le> fst v + snd v"
    and "fst v + snd v \<le> fst v' \<or> fst v' + snd v' \<le> fst v" and "is_block sz c p"
    and "8 \<le> sz" and "sizeof_AllocatorCtx \<le> snd v'"
  shows "new_AllocatorList sz v' False c = Inr c \<and> allocate sz v n c = Inr (alloc_get c) \<and>
    allocate sz v' n c = Inl OutOfBounds \<and> deallocate sz v p n c = alloc_put sz (fst v) p c \<and> deallocate sz v' p n c = Inl OutOfBounds"
proof -
  have fs: "fs \<noteq> []" "hd fs = begin_ptr c" "last fs = end_ptr c" "\<forall>p \<in> set fs. is_block sz c p" "0 < sz"
    using assms(1) chain_not_Nil by (auto simp: free_list_def)
  have seen: "in_view v q sz \<and> \<not> in_view v' q sz" if "is_block sz c q" for q
    using block_in_view [OF that assms(2,3)] assms(4) fs(5) by (auto simp: in_view_def)
  have "is_block sz c (begin_ptr c)" "is_block sz c (end_ptr c)" using fs(1-4) by (metis hd_in_set, metis last_in_set)
  note in_pool = seen [OF this(1)] seen [OF this(2)] seen [OF assms(5)]
  obtain i where "i < overall c" "p = arr c + i * sz" using assms(5) by (auto simp: is_block_def)
  then have "arr c \<le> p \<and> p < arr c + overall c * sz" using fs(5) by simp
  moreover have "\<not> hits_link sz (fst v') q" if "is_block sz c q" for q
    using block_in_view [OF that assms(2,3)] assms(4,6,7) by (auto simp: hits_link_def hits_ctx_def in_view_def)
  then have "\<not> hits_link sz (fst v') p \<and> \<not> hits_link sz (fst v') (end_ptr c)" using assms(5) \<open>is_block sz c (end_ptr c)\<close> by blast
  ultimately obtain c' where "alloc_put sz (fst v') p c = Inr c'" by (simp add: alloc_put_def rassert_def)
  moreover have "rbind x Inr = x" for x :: "AllocatorCtx res" by (cases x) simp_all
  ultimately show ?thesis using in_pool by (simp add: new_AllocatorList_def alloc_init_def allocate_def deallocate_def)
qed

theorem attached_elsewhere_witness:
  "\<exists>c. new_AllocatorList 64 (0x10000, 8192) True \<lparr>arr = 0, begin_ptr = 0, end_ptr = 0, cnt = 0, overall = 0, nxt = (\<lambda>_. None)\<rparr> = Inr c \<and>
     allocate 64 (0x10000, 8192) 1 c = Inr (alloc_get c) \<and> allocate 64 (0x20000, 8192) 1 c = Inl OutOfBounds"
proof -
  let ?c0 = "\<lparr>arr = 0, begin_ptr = 0, end_ptr = 0, cnt = 0, overall = 0, nxt = (\<lambda>_. None)\<rparr>"
  obtain c where c: "alloc_init 64 0x10000 8192 True ?c0 = Inr c" "arr c = 0x11000" "overall c = 64"
    by (simp add: alloc_init_def rassert_def VIRTUAL_PAGE_SIZE_4KiB_def sizeof_AllocatorCtx_def hits_link_def hits_ctx_def Let_def)
  have "free_list 64 c (map (\<lambda>i. arr c + i * 64) [0 ..< overall c])"
    by (rule alloc_init_free_list [OF _ _ c(1)]) (simp_all add: VIRTUAL_PAGE_SIZE_4KiB_def)
  moreover have "is_block 64 c 0x11000" using c(2,3) by (auto simp: is_block_def)
  ultimately show ?thesis
    using attached_elsewhere [where sz = 64 and c = c and v = "(0x10000, 8192)" and v' = "(0x20000, 8192)" and p = "0x11000" and n = 1] c by (simp add: new_AllocatorList_def sizeof_AllocatorCtx_def)
qed

end
