(* ===== verification/Flow_Block.thy ===== *)
theory Flow_Block
  imports Prelude
begin

text \<open>
  The blocks of the flow table: \<^verbatim>\<open>lib/libstack/Block.h\<close> (\<open>Block\<close> and the \<open>BlockL4Wrapper\<close> that lays a
  second header over it) and the keys of \<^verbatim>\<open>lib/libshared/SharedFlowAccum.h\<close>.

  Every read of the clock within one operation gives the same \<open>now\<close>.
\<close>

subsection \<open>Blocks\<close>

definition MAX_DATA_SIZE :: nat where
  "MAX_DATA_SIZE = 256 * 32"

definition DEFAULT_BLOCK_EXPIRATION_TIME_MS :: u64 where
  "DEFAULT_BLOCK_EXPIRATION_TIME_MS = 100"

datatype BlockType = UNKNOWN | ADDR | L3_PAYLOAD | L4_PAYLOAD | L7_PAYLOAD | START_FLOW | END_FLOW

fun block_type_code :: "BlockType \<Rightarrow> u32" where
  "block_type_code UNKNOWN = 0"
| "block_type_code ADDR = 1"
| "block_type_code L3_PAYLOAD = 2"
| "block_type_code L4_PAYLOAD = 3"
| "block_type_code L7_PAYLOAD = 4"
| "block_type_code START_FLOW = 5"
| "block_type_code END_FLOW = 6"

text \<open>
  The structure is packed: \<open>btype\<close> is at offset 0, \<open>block_size\<close> at 4. \<open>bdata\<close> holds the bytes
  below \<^verbatim>\<open>data_len\<close>.
\<close>

record Block =
  btype :: u32
  block_size :: u32
  is_complete :: bool
  update_timestamp :: u64
  bdata :: "u8 list"

definition new_block :: "BlockType \<Rightarrow> Block" where
  "new_block t = \<lparr>btype = block_type_code t, block_size = 0, is_complete = False, update_timestamp = 0, bdata = []\<rparr>"

definition data_len :: "Block \<Rightarrow> nat" where
  "data_len b = length (bdata b)"

definition update_ts :: "u64 \<Rightarrow> Block \<Rightarrow> Block" where
  "update_ts now b = b\<lparr>update_timestamp := now\<rparr>"

definition hasSpace :: "nat \<Rightarrow> Block \<Rightarrow> bool" where
  "hasSpace n b \<longleftrightarrow> data_len b + n + n > MAX_DATA_SIZE"

definition expired :: "u64 \<Rightarrow> Block \<Rightarrow> bool" where
  "expired now b \<longleftrightarrow> update_timestamp b \<noteq> 0 \<and> now - update_timestamp b > DEFAULT_BLOCK_EXPIRATION_TIME_MS"

definition size_bytes :: "nat \<Rightarrow> u8 list" where
  "size_bytes n = (let w = word_of_nat n :: u32 in [ucast w, ucast (drop_bit 8 w), ucast (drop_bit 16 w), ucast (drop_bit 24 w)])"

text \<open>Two copies behind the data: past the 8192 bytes they leave the array.\<close>

definition block_push :: "u64 \<Rightarrow> u8 list \<Rightarrow> Block \<Rightarrow> Block res" where
  "block_push now new_data b =
     (if data_len b + 4 + length new_data > MAX_DATA_SIZE then Inl OutOfBounds
      else Inr (update_ts now (b\<lparr>bdata := bdata b @ size_bytes (length new_data) @ new_data\<rparr>)))"

definition block_reset :: "Block \<Rightarrow> Block" where
  "block_reset b = b\<lparr>bdata := [], is_complete := False, update_timestamp := 0\<rparr>"

definition block_empty :: "Block \<Rightarrow> bool" where
  "block_empty b \<longleftrightarrow> data_len b = 0"

subsection \<open>The L4 header\<close>

datatype Code = Ok | NoBlock | NoSpace | InconsistentSeq | BlockClosed | PushError

text \<open>\<^verbatim>\<open>hdr = (L4Hdr* )block\<close>: the initial sequence number is the type of the block, the last one its size.\<close>

definition get_isn :: "Block \<Rightarrow> u32" where "get_isn b = btype b"
definition getLastSeqInBlock :: "Block \<Rightarrow> u32" where "getLastSeqInBlock b = block_size b"

text \<open>The constructor: \<^verbatim>\<open>(block, curr_seq, create, isn)\<close>.\<close>

definition l4_wrap :: "Block \<Rightarrow> u32 \<Rightarrow> bool \<Rightarrow> u32 \<Rightarrow> Block" where
  "l4_wrap b curr_seq create isn = (if create then b\<lparr>btype := isn, block_size := 0\<rparr> else b)"

text \<open>None is the null block.\<close>

definition l4_push :: "u64 \<Rightarrow> u8 list \<Rightarrow> u32 \<Rightarrow> Block option \<Rightarrow> (Code \<times> Block option) res" where
  "l4_push now new_data new_seq mb =
     (case mb of
        None \<Rightarrow> Inr (NoBlock, None)
      | Some b \<Rightarrow>
          if is_complete b then Inr (BlockClosed, Some b)
          else if \<not> hasSpace (length new_data) b
          then Inr (NoSpace, Some (update_ts now (b\<lparr>is_complete := True\<rparr>)))
          else if block_empty b \<or> new_seq > getLastSeqInBlock b + 1 \<or> new_seq = 0 \<and> getLastSeqInBlock b = -1
          then rbind (block_push now new_data b) (\<lambda>b. Inr (Ok, Some (b\<lparr>block_size := new_seq\<rparr>)))
          else Inr (PushError, Some b))"

subsection \<open>Keys\<close>

record FlowSeqKeyCtx =
  seq :: u32
  idx :: u32
  side :: bool

definition prepare_key :: "u32 \<Rightarrow> u32 \<Rightarrow> bool \<Rightarrow> u64 res" where
  "prepare_key sq ix sd =
     rbind (rassert (ix < 0x7FFFFFFF)) (\<lambda>_.
       Inr (push_bit 32 (ucast (ix OR push_bit 31 (of_bool sd))) OR ucast sq))"

definition key_prepare :: "FlowSeqKeyCtx \<Rightarrow> u64 res" where
  "key_prepare k = prepare_key (seq k) (idx k) (side k)"

definition getFlowIdx :: "u64 \<Rightarrow> u32" where
  "getFlowIdx key = ucast (drop_bit 32 key AND 0x7FFFFFFF)"

definition getFlowSide :: "u64 \<Rightarrow> bool" where
  "getFlowSide key \<longleftrightarrow> drop_bit 32 (key AND 0x80000000) \<noteq> 0"

definition getSeq :: "u64 \<Rightarrow> u32" where
  "getSeq key = ucast (key AND 0xFFFFFFFF)"

subsection \<open>What the keys tell\<close>

lemma mask31: "(0x7FFFFFFF :: 'a::len word) = mask 31"
  by (simp add: mask_eq_exp_minus_1)

lemma mask32: "(0xFFFFFFFF :: 'a::len word) = mask 32"
  by (simp add: mask_eq_exp_minus_1)

lemma bit31: "(ix :: u32) < 0x7FFFFFFF \<Longrightarrow> \<not> bit ix 31"
proof
  assume ix: "ix < 0x7FFFFFFF" and "bit ix 31"
  have "unat ix < 2147483647" using ix by (simp add: word_less_nat_alt)
  then have "unat ix div 2 ^ 31 = 0" by simp
  then have "\<not> bit (unat ix) 31" by (simp add: bit_iff_odd)
  with \<open>bit ix 31\<close> show False by (simp add: bit_unsigned_iff)
qed

text \<open>A key gives back the flow and the sequence number it was made of, never the side: \<^verbatim>\<open>getFlowSide\<close> is
  false for every key, because it masks bit 31 of the key, not of its upper half, and
  shifts it out.\<close>

theorem key_parts:
  assumes "prepare_key sq ix sd = Inr key"
  shows "getSeq key = sq \<and> getFlowIdx key = ix \<and> \<not> getFlowSide key \<and> bit key 63 = sd"
proof -
  have ix: "ix < 0x7FFFFFFF" and key: "key = push_bit 32 (ucast (ix OR push_bit 31 (of_bool sd))) OR ucast sq"
    using assms by (auto simp: prepare_key_def rbind_Inr_iff)
  have "getSeq key = sq"
    by (rule bit_word_eqI) (auto simp: key getSeq_def mask32 bit_simps)
  moreover have "getFlowIdx key = ix"
  proof (rule bit_word_eqI)
    fix n assume "n < LENGTH(32)"
    then consider "n < 31" | "n = 31" by fastforce
    then show "bit (getFlowIdx key) n = bit ix n"
      using bit31 [OF ix] by cases (auto simp: key getFlowIdx_def mask31 bit_simps dest: bit_imp_le_length)
  qed
  moreover have "\<not> getFlowSide key"
  proof -
    have "drop_bit 32 (key AND 0x80000000) = 0"
      by (rule bit_word_eqI) (auto simp: bit_simps numeral_eq_Suc)
    then show ?thesis by (simp add: getFlowSide_def)
  qed
  moreover have "bit key 63 = sd"
    using bit31 [OF ix] by (auto simp: key bit_simps dest: bit_imp_le_length)
  ultimately show ?thesis by blast
qed

theorem key_parts_witness:
  "getSeq (projr (prepare_key 7 9 True)) = 7 \<and> getFlowIdx (projr (prepare_key 7 9 True)) = 9 \<and>
   \<not> getFlowSide (projr (prepare_key 7 9 True))"
proof -
  have "prepare_key 7 9 True = Inr (projr (prepare_key 7 9 True))" by code_simp
  from key_parts [OF this] show ?thesis by blast
qed

lemma key_unat:
  assumes "prepare_key sq ix sd = Inr key"
  shows "unat key = of_bool sd * 2 ^ 63 + unat ix * 2 ^ 32 + unat sq" and "unat ix < 2 ^ 31"
proof -
  have ix: "ix < 0x7FFFFFFF" and key: "key = push_bit 32 (ucast (ix OR push_bit 31 (of_bool sd))) OR ucast sq"
    using assms by (auto simp: prepare_key_def rbind_Inr_iff)
  show ixn: "unat ix < 2 ^ 31" using ix by (simp add: word_less_nat_alt)
  have sq: "unat sq < 2 ^ 32" using unsigned_less [of sq] by simp
  have bound: "of_bool sd * 2 ^ 63 + unat ix * 2 ^ 32 + unat sq < 2 ^ LENGTH(64)"
    using ixn sq by (cases sd) simp_all
  have "key = push_bit 63 (of_bool sd) OR push_bit 32 (ucast ix) OR ucast sq"
    by (rule bit_word_eqI) (auto simp: key bit_simps bit31 [OF ix])
  also have "\<dots> = push_bit 63 (of_bool sd) + (push_bit 32 (ucast ix) + ucast sq)"
  proof -
    have "push_bit 32 (ucast ix :: u64) OR ucast sq = push_bit 32 (ucast ix) + ucast sq"
      by (rule disjunctive_add [symmetric]) (auto simp: bit_simps dest: bit_imp_le_length)
    moreover have "push_bit 63 (of_bool sd) OR (push_bit 32 (ucast ix :: u64) OR ucast sq) =
        push_bit 63 (of_bool sd) + (push_bit 32 (ucast ix) OR ucast sq)"
      by (rule disjunctive_add [symmetric]) (auto simp: bit_simps bit31 [OF ix] dest: bit_imp_le_length)
    ultimately show ?thesis by (simp add: or.assoc)
  qed
  also have "\<dots> = word_of_nat (of_bool sd * 2 ^ 63 + unat ix * 2 ^ 32 + unat sq)"
    by (simp add: push_bit_eq_mult mult.commute)
  finally show "unat key = of_bool sd * 2 ^ 63 + unat ix * 2 ^ 32 + unat sq"
    by (simp only: unat_word_of_nat [OF bound])
qed

subsection \<open>What a push does\<close>

text \<open>The space test is inverted: on an open block, data that fit (with twice their size) are
  refused and close the block as it is; data are stored only if they do not fit by that measure, which
  on an empty block means 4097 to 8188 bytes, behind their length; more than that leaves the
  array. The code \<open>InconsistentSeq\<close> is never returned.\<close>

theorem push_inverted:
  assumes "\<not> is_complete b" and "block_empty b"
  shows "l4_push now new_data sq (Some b) =
    (if 2 * length new_data \<le> 8192 then Inr (NoSpace, Some (b\<lparr>is_complete := True, update_timestamp := now\<rparr>))
     else if length new_data \<le> 8188
     then Inr (Ok, Some (b\<lparr>bdata := size_bytes (length new_data) @ new_data, update_timestamp := now, block_size := sq\<rparr>))
     else Inl OutOfBounds) \<and>
   (case l4_push now2 new_data2 sq2 mb of Inl _ \<Rightarrow> True | Inr (code, _) \<Rightarrow> code \<noteq> InconsistentSeq)"
proof -
  have "bdata b = []" using assms(2) by (simp add: block_empty_def data_len_def)
  moreover have "case l4_push now2 new_data2 sq2 mb of Inl _ \<Rightarrow> True | Inr (code, _) \<Rightarrow> code \<noteq> InconsistentSeq"
    by (cases mb) (auto simp: l4_push_def block_push_def)
  ultimately show ?thesis using assms
    by (auto simp: l4_push_def hasSpace_def block_push_def data_len_def MAX_DATA_SIZE_def update_ts_def)
qed

theorem push_inverted_witness:
  "l4_push 3 [1, 2] 7 (Some (new_block L4_PAYLOAD)) =
     Inr (NoSpace, Some ((new_block L4_PAYLOAD)\<lparr>is_complete := True, update_timestamp := 3\<rparr>))"
  using push_inverted [of "new_block L4_PAYLOAD" 3 "[1, 2]" 7]
  by (simp add: new_block_def block_empty_def data_len_def)

end
