(* ===== verification/Ordered_Multimap.thy ===== *)
theory Ordered_Multimap
  imports Prelude
begin

text \<open>
  What the program relies on in the ordered multimaps it uses, the Boost one in the shared segment and
  \<^verbatim>\<open>std::multimap\<close>: an interface with its consequences, interpreted where the maps are modelled.
\<close>

text \<open>
  \<open>items\<close> lists a multimap in order, \<open>add\<close> puts a pair behind the keys that are not greater. What
  a reader may rely on after any insertions follows from that.
\<close>

locale ordered_multimap =
  fixes items :: "'m \<Rightarrow> ('k :: linorder \<times> 'v) list"
    and add :: "'k \<Rightarrow> 'v \<Rightarrow> 'm \<Rightarrow> 'm"
  assumes items_add: "items (add k v m) =
    takeWhile (\<lambda>(j, _). j \<le> k) (items m) @ (k, v) # dropWhile (\<lambda>(j, _). j \<le> k) (items m)"
begin

definition in_order :: "'m \<Rightarrow> bool" where
  "in_order m \<longleftrightarrow> sorted (map fst (items m))"

lemma set_around:
  "set (takeWhile (\<lambda>(j, _). j \<le> k) xs @ (k :: 'k, v) # dropWhile (\<lambda>(j, _). j \<le> k) xs) = insert (k, v) (set xs)"
proof -
  have "set xs = set (takeWhile (\<lambda>(j, _). j \<le> k) xs) \<union> set (dropWhile (\<lambda>(j, _). j \<le> k) xs)"
    by (metis set_append takeWhile_dropWhile_id)
  then show ?thesis by auto
qed

lemma add_set: "set (items (add k v m)) = insert (k, v) (set (items m))"
  unfolding items_add by (rule set_around)

lemma sorted_around:
  "sorted (map fst xs) \<Longrightarrow>
     sorted (map fst (takeWhile (\<lambda>(j, _). j \<le> k) xs @ (k :: 'k, v) # dropWhile (\<lambda>(j, _). j \<le> k) xs))"
proof (induction xs)
  case (Cons p xs)
  let ?ys = "takeWhile (\<lambda>(j, _). j \<le> k) xs @ (k, v) # dropWhile (\<lambda>(j, _). j \<le> k) xs"
  show ?case
  proof (cases "fst p \<le> k")
    case True
    have "\<forall>x \<in> set ?ys. fst p \<le> fst x" unfolding set_around using True Cons.prems by auto
    with Cons True show ?thesis by (cases p) (auto simp: ball_Un)
  next
    case False
    with Cons.prems show ?thesis by (cases p) auto
  qed
qed simp

lemma add_in_order: "in_order m \<Longrightarrow> in_order (add k v m)"
  unfolding in_order_def items_add by (rule sorted_around)

text \<open>Values of one key stay in the order they were added.\<close>

lemma filter_around:
  "sorted (map fst xs) \<Longrightarrow>
     filter (\<lambda>(j, _). j = i) (takeWhile (\<lambda>(j, _). j \<le> k) xs @ (k :: 'k, v) # dropWhile (\<lambda>(j, _). j \<le> k) xs) =
     filter (\<lambda>(j, _). j = i) xs @ (if i = k then [(k, v)] else [])"
proof (induction xs)
  case (Cons p xs)
  show ?case
  proof (cases "fst p \<le> k")
    case True
    with Cons show ?thesis by (cases p) auto
  next
    case False
    with Cons.prems have "\<forall>x \<in> set (p # xs). k < fst x" by auto
    then have "filter (\<lambda>(j, _). j = k) (p # xs) = []" by (auto simp: filter_empty_conv)
    with False show ?thesis by (cases p) auto
  qed
qed simp

lemma add_stable:
  "in_order m \<Longrightarrow> filter (\<lambda>(j, _). j = i) (items (add k v m)) =
     filter (\<lambda>(j, _). j = i) (items m) @ (if i = k then [(k, v)] else [])"
  unfolding in_order_def items_add by (rule filter_around)

text \<open>The first pair at or above a key has the least such key.\<close>

lemma first_least:
  assumes "in_order m" and "find (\<lambda>(j, _). k \<le> j) (items m) = Some (j, v)"
  shows "(j, v) \<in> set (items m) \<and> k \<le> j \<and> (\<forall>(i, w) \<in> set (items m). k \<le> i \<longrightarrow> j \<le> i)"
proof -
  from assms(2) obtain n where "n < length (items m)" "(j, v) = items m ! n" "k \<le> fst (items m ! n)"
    "\<forall>l < n. \<not> k \<le> fst (items m ! l)"
    unfolding find_Some_iff by (auto simp: case_prod_beta)
  then have n: "n < length (items m)" "items m ! n = (j, v)" "k \<le> j" "\<forall>l < n. \<not> k \<le> fst (items m ! l)"
    by (metis, metis, metis fst_conv, metis)
  have "j \<le> i" if i: "(i, w) \<in> set (items m)" "k \<le> i" for i w
  proof -
    from i(1) obtain l where l: "l < length (items m)" "items m ! l = (i, w)" by (auto simp: in_set_conv_nth)
    have "\<not> l < n" using n(4) l(2) i(2) by (metis fst_conv)
    then have "n \<le> l" by simp
    with assms(1) l(1) have "map fst (items m) ! n \<le> map fst (items m) ! l"
      by (intro sorted_nth_mono) (auto simp: in_order_def)
    with l n(1,2) show ?thesis by simp
  qed
  with n show ?thesis by (auto simp: in_set_conv_nth)
qed

end

end
