(* ===== verification/Flow_Accum.thy ===== *)
theory Flow_Accum
  imports Flow_Block Ordered_Multimap
begin

text \<open>
  \<^verbatim>\<open>lib/libshared/SharedFlowAccum.cpp\<close> over \<^verbatim>\<open>SharedMap.h\<close>: the table of flow blocks in shared memory,
  with the writer (\<open>put\<close>) and the reader (\<open>get\<close>, \<open>getLowerBoundBlock\<close>, \<open>getNextBlock\<close>), and the loop of
  \<^verbatim>\<open>app/SharedFlowHandler.cpp\<close> over it.

  The Boost multimap is a list of numbered nodes in key order, equal keys in the order they
  were inserted; an iterator is the number of its node, or \<open>End\<close>. The mutex in the segment is not
  recursive: locking it twice never returns, which is \<open>Deadlock\<close>.
\<close>

subsection \<open>The multimap\<close>

datatype iter = End | Node nat

record SharedMultimap =
  nodes :: "(nat \<times> u64 \<times> Block) list"
  next_node :: nat
  locked :: bool

definition mm_lock :: "SharedMultimap \<Rightarrow> SharedMultimap res" where
  "mm_lock m = (if locked m then Inl Deadlock else Inr (m\<lparr>locked := True\<rparr>))"

definition mm_unlock :: "SharedMultimap \<Rightarrow> SharedMultimap" where
  "mm_unlock m = m\<lparr>locked := False\<rparr>"

definition mm_begin :: "SharedMultimap \<Rightarrow> iter" where
  "mm_begin m = (case nodes m of [] \<Rightarrow> End | (n, _, _) # _ \<Rightarrow> Node n)"

fun after_node :: "nat \<Rightarrow> (nat \<times> u64 \<times> Block) list \<Rightarrow> iter res" where
  "after_node n [] = Inl BadIterator"
| "after_node n ((k, _, _) # ns) = (if k = n then Inr (case ns of [] \<Rightarrow> End | (j, _, _) # _ \<Rightarrow> Node j) else after_node n ns)"

definition mm_next :: "iter \<Rightarrow> SharedMultimap \<Rightarrow> iter res" where
  "mm_next it m = (case it of End \<Rightarrow> Inl BadIterator | Node n \<Rightarrow> after_node n (nodes m))"

definition mm_prev :: "iter \<Rightarrow> SharedMultimap \<Rightarrow> iter res" where
  "mm_prev it m =
     (let before = (case it of End \<Rightarrow> nodes m | Node n \<Rightarrow> takeWhile (\<lambda>(k, _). k \<noteq> n) (nodes m))
      in if before = [] then Inl BadIterator else Inr (Node (fst (last before))))"

definition mm_deref :: "iter \<Rightarrow> SharedMultimap \<Rightarrow> (u64 \<times> Block) res" where
  "mm_deref it m =
     (case it of End \<Rightarrow> Inl BadIterator
      | Node n \<Rightarrow> (case map_of (nodes m) n of None \<Rightarrow> Inl BadIterator | Some kb \<Rightarrow> Inr kb))"

definition mm_store :: "iter \<Rightarrow> Block \<Rightarrow> SharedMultimap \<Rightarrow> SharedMultimap res" where
  "mm_store it b m =
     rbind (mm_deref it m) (\<lambda>_.
       Inr (m\<lparr>nodes := map (\<lambda>(n, k, c). if it = Node n then (n, k, b) else (n, k, c)) (nodes m)\<rparr>))"

definition mm_add :: "u64 \<Rightarrow> Block \<Rightarrow> SharedMultimap \<Rightarrow> iter \<times> SharedMultimap" where
  "mm_add key b m =
     (Node (next_node m),
      m\<lparr>nodes := takeWhile (\<lambda>(_, k, _). k \<le> key) (nodes m) @ (next_node m, key, b) #
                 dropWhile (\<lambda>(_, k, _). k \<le> key) (nodes m),
        next_node := next_node m + 1\<rparr>)"

text \<open>\<^verbatim>\<open>insert\<close> and \<^verbatim>\<open>emplace\<close> take the lock themselves.\<close>

definition mm_emplace :: "u64 \<Rightarrow> Block \<Rightarrow> SharedMultimap \<Rightarrow> (iter \<times> SharedMultimap) res" where
  "mm_emplace key b m =
     rbind (mm_lock m) (\<lambda>m. let (it, m) = mm_add key b m in Inr (it, mm_unlock m))"

definition mm_insert :: "u64 \<times> Block \<Rightarrow> SharedMultimap \<Rightarrow> (iter \<times> SharedMultimap) res" where
  "mm_insert kb m = mm_emplace (fst kb) (snd kb) m"

definition mm_erase_key :: "u64 \<Rightarrow> SharedMultimap \<Rightarrow> SharedMultimap" where
  "mm_erase_key key m = m\<lparr>nodes := filter (\<lambda>(_, k, _). k \<noteq> key) (nodes m)\<rparr>"

definition mm_erase :: "iter \<Rightarrow> SharedMultimap \<Rightarrow> SharedMultimap res" where
  "mm_erase it m = rbind (mm_deref it m) (\<lambda>_.
     Inr (m\<lparr>nodes := filter (\<lambda>(n, _). it \<noteq> Node n) (nodes m)\<rparr>))"

definition mm_lower_bound :: "u64 \<Rightarrow> SharedMultimap \<Rightarrow> iter" where
  "mm_lower_bound key m =
     (case find (\<lambda>(_, k, _). key \<le> k) (nodes m) of None \<Rightarrow> End | Some (n, _) \<Rightarrow> Node n)"

text \<open>\<^verbatim>\<open>find\<close>: the range of nodes with the key.\<close>

definition mm_find :: "u64 \<Rightarrow> SharedMultimap \<Rightarrow> iter \<times> iter" where
  "mm_find key m =
     (mm_lower_bound key m,
      case find (\<lambda>(_, k, _). key < k) (nodes m) of None \<Rightarrow> End | Some (n, _) \<Rightarrow> Node n)"

subsection \<open>The accumulator\<close>

record ActiveFlowContext =
  af_it :: iter
  af_isn :: u32
  af_last_seq :: u32
  af_update_ts :: u64

text \<open>\<open>it_read\<close> is None until it is first assigned: the member is never initialised.\<close>

record SharedFlowAccum =
  mmap :: SharedMultimap
  active :: "u32 \<Rightarrow> ActiveFlowContext option"
  it_read :: "iter option"

record tcp_packet =
  tp_sequence :: u32
  tp_syn :: bool
  tp_data :: "u8 list"

definition with_map :: "(SharedMultimap \<Rightarrow> SharedMultimap res) \<Rightarrow> SharedFlowAccum \<Rightarrow> SharedFlowAccum res" where
  "with_map f s = rbind (f (mmap s)) (\<lambda>m. Inr (s\<lparr>mmap := m\<rparr>))"

definition set_active :: "u32 \<Rightarrow> ActiveFlowContext \<Rightarrow> SharedFlowAccum \<Rightarrow> SharedFlowAccum" where
  "set_active i c s = s\<lparr>active := (active s)(i := Some c)\<rparr>"

definition start_seq :: "tcp_packet \<Rightarrow> u32" where
  "start_seq p = LS_ntohl (tp_sequence p) + (if tp_syn p then 1 else 0)"

text \<open>
  The wrapper is called as \<^verbatim>\<open>(block, true, isn, seq)\<close>: the flow's initial number is the flag
  \<open>create\<close>, the packet's number is the initial number of the block.
\<close>

definition create_flow_block :: "u64 \<Rightarrow> u32 \<Rightarrow> ActiveFlowContext \<Rightarrow> FlowSeqKeyCtx \<Rightarrow> SharedFlowAccum
    \<Rightarrow> (ActiveFlowContext \<times> SharedFlowAccum) res" where
  "create_flow_block now i c key s =
     rbind (with_map mm_lock s) (\<lambda>s.
     rbind (key_prepare key) (\<lambda>k.
     rbind (mm_emplace k (new_block L4_PAYLOAD) (mmap s)) (\<lambda>(it, m).
       let s = s\<lparr>mmap := mm_unlock m\<rparr>;
           c = c\<lparr>af_it := it\<rparr>
       in rbind (mm_deref it (mmap s)) (\<lambda>(_, b).
          rbind (mm_store it (update_ts now (l4_wrap b 1 (af_isn c \<noteq> 0) (seq key))) (mmap s)) (\<lambda>m.
            let c = c\<lparr>af_last_seq := seq key\<rparr>
            in Inr (c, set_active i c (s\<lparr>mmap := m\<rparr>)))))))"

definition close_block_and_open_new :: "u64 \<Rightarrow> u32 \<Rightarrow> ActiveFlowContext \<Rightarrow> FlowSeqKeyCtx \<Rightarrow> SharedFlowAccum
    \<Rightarrow> (ActiveFlowContext \<times> SharedFlowAccum) res" where
  "close_block_and_open_new now i c key s =
     rbind (mm_deref (af_it c) (mmap s)) (\<lambda>(_, b).
     rbind (mm_store (af_it c) (update_ts now (b\<lparr>is_complete := True\<rparr>)) (mmap s)) (\<lambda>m.
       create_flow_block now i c key (s\<lparr>mmap := m\<rparr>)))"

definition put_start_flow_block :: "u64 \<Rightarrow> tcp_packet \<Rightarrow> FlowSeqKeyCtx \<Rightarrow> SharedFlowAccum
    \<Rightarrow> (ActiveFlowContext \<times> SharedFlowAccum) res" where
  "put_start_flow_block now p key s =
     rbind (with_map mm_lock s) (\<lambda>s.
     rbind (key_prepare key) (\<lambda>k.
     rbind (mm_emplace k (new_block L4_PAYLOAD) (mmap s)) (\<lambda>(it, m).
       let s = s\<lparr>mmap := mm_unlock m\<rparr>
       in rbind (mm_deref it (mmap s)) (\<lambda>(_, b).
          rbind (mm_store it (update_ts now (b\<lparr>is_complete := True\<rparr>)) (mmap s)) (\<lambda>m.
            let c = \<lparr>af_it = End, af_isn = start_seq p, af_last_seq = start_seq p, af_update_ts = now\<rparr>
            in Inr (c, set_active (idx key) c (s\<lparr>mmap := m\<rparr>)))))))"

text \<open>
  The search for an earlier block to put out-of-order data in: the result tells whether a new
  block is needed. One unit of fuel for each turn.
\<close>

fun find_previous :: "nat \<Rightarrow> u64 \<Rightarrow> tcp_packet \<Rightarrow> FlowSeqKeyCtx \<Rightarrow> iter \<Rightarrow> iter \<Rightarrow> SharedMultimap
    \<Rightarrow> (bool \<times> SharedMultimap) res" where
  "find_previous 0 now p key it0 it m = Inl Diverges"
| "find_previous (Suc fuel) now p key it0 it m =
     (if it = mm_begin m then Inr (True, m)
      else rbind (mm_prev it m) (\<lambda>it.
        if it = it0 then Inr (True, m)
        else rbind (mm_deref it m) (\<lambda>(k, b).
          if getFlowIdx k \<noteq> idx key \<or> getFlowSide k \<noteq> side key
          then rbind (prepare_key (-1) (idx key) (side key)) (\<lambda>kmax.
                 case mm_lower_bound kmax m of
                   End \<Rightarrow> Inr (True, m)
                 | Node n \<Rightarrow> find_previous fuel now p key it0 (Node n) m)
          else if getSeq k \<le> seq key \<and> seq key \<le> getLastSeqInBlock b then Inr (False, m)
          else if getSeq k \<le> seq key \<and> seq key > getLastSeqInBlock b \<and> \<not> is_complete b \<and> hasSpace (length (tp_data p)) b
          then rbind (l4_push now (tp_data p) (seq key) (Some b)) (\<lambda>(code, mb).
                 case mb of
                   None \<Rightarrow> Inl BadIterator
                 | Some b' \<Rightarrow> rbind (mm_store it b' m) (\<lambda>m.
                     if code \<noteq> Ok then Inr (True, m) else find_previous fuel now p key it0 it m))
          else find_previous fuel now p key it0 it m)))"

text \<open>\<open>attempts\<close> is 1 for the first call and 0 for the retry.\<close>

fun push_data_to_block :: "nat \<Rightarrow> nat \<Rightarrow> u64 \<Rightarrow> ActiveFlowContext \<Rightarrow> tcp_packet \<Rightarrow> FlowSeqKeyCtx \<Rightarrow> SharedFlowAccum
    \<Rightarrow> SharedFlowAccum res" where
  "push_data_to_block attempts fuel now c p key s =
     rbind (mm_deref (af_it c) (mmap s)) (\<lambda>(_, b).
     rbind (l4_push now (tp_data p) (seq key) (Some b)) (\<lambda>(code, mb).
     rbind (case mb of None \<Rightarrow> Inl BadIterator | Some b' \<Rightarrow> mm_store (af_it c) b' (mmap s)) (\<lambda>m.
       let s = s\<lparr>mmap := m\<rparr>
       in case code of
            InconsistentSeq \<Rightarrow>
              rbind (find_previous fuel now p key (af_it c) (af_it c) (mmap s)) (\<lambda>(fresh, m).
                if fresh
                then rbind (key_prepare key) (\<lambda>k.
                     rbind (mm_emplace k (new_block L4_PAYLOAD) m) (\<lambda>(it, m).
                     rbind (l4_push now (tp_data p) (seq key)
                              (Some (l4_wrap (new_block L4_PAYLOAD) 1 (af_isn c \<noteq> 0) (seq key)))) (\<lambda>(_, nb).
                     case nb of None \<Rightarrow> Inl BadIterator
                     | Some b' \<Rightarrow> rbind (mm_store it (update_ts now b') m) (\<lambda>m. Inr (s\<lparr>mmap := m\<rparr>)))))
                else Inr (s\<lparr>mmap := m\<rparr>))
          | PushError \<Rightarrow> Inr s
          | Ok \<Rightarrow> Inr s
          | _ \<Rightarrow>
              rbind (close_block_and_open_new now (idx key) c key s) (\<lambda>(c, s).
                case attempts of 0 \<Rightarrow> Inr s | Suc n \<Rightarrow> push_data_to_block n fuel now c p key s))))"

declare push_data_to_block.simps [simp del]

definition accum_put :: "nat \<Rightarrow> u64 \<Rightarrow> tcp_packet \<Rightarrow> u32 \<Rightarrow> bool \<Rightarrow> SharedFlowAccum \<Rightarrow> SharedFlowAccum res" where
  "accum_put fuel now p i sd s =
     (let key = \<lparr>seq = start_seq p, idx = i, side = sd\<rparr>
      in rbind (with_map mm_lock s) (\<lambda>s.
         rbind (case active s i of Some c \<Rightarrow> Inr (c, s) | None \<Rightarrow> put_start_flow_block now p key s) (\<lambda>(c, s).
         rbind (if af_it c = End
                then rbind (key_prepare key) (\<lambda>k.
                     rbind (mm_emplace k (new_block L4_PAYLOAD) (mmap s)) (\<lambda>(it, m).
                     rbind (mm_deref it m) (\<lambda>(_, b).
                     rbind (mm_store (af_it c) b m) (\<lambda>m. Inr (s\<lparr>mmap := m\<rparr>)))))
                else Inr s) (\<lambda>s.
         rbind (mm_deref (af_it c) (mmap s)) (\<lambda>(_, b).
         rbind (if is_complete b \<or> expired now b then close_block_and_open_new now i c key s else Inr (c, s)) (\<lambda>(c, s).
         rbind (push_data_to_block 1 fuel now c p key s) (\<lambda>s.
           Inr (s\<lparr>mmap := mm_unlock (mmap s)\<rparr>))))))))"

subsection \<open>The reader\<close>

text \<open>\<open>n\<close> turns are left; the loop ends when it is back where it started.\<close>

fun get_loop :: "nat \<Rightarrow> u64 \<Rightarrow> iter \<Rightarrow> iter \<Rightarrow> SharedMultimap \<Rightarrow> (iter \<times> bool \<times> iter) res" where
  "get_loop 0 now start it m = Inl Diverges"
| "get_loop (Suc n) now start it m =
     (let it = (if it = End then mm_begin m else it)
      in rbind (mm_deref it m) (\<lambda>(_, b).
           let hit = is_complete b \<and> expired now b
           in rbind (mm_next it m) (\<lambda>it'.
                if hit then Inr (it, True, it')
                else if it' = start then Inr (End, False, it')
                else get_loop n now start it' m)))"

text \<open>The early return on an empty map does not unlock.\<close>

definition accum_get :: "nat \<Rightarrow> u64 \<Rightarrow> SharedFlowAccum \<Rightarrow> (iter \<times> bool \<times> SharedFlowAccum) res" where
  "accum_get fuel now s =
     rbind (with_map mm_lock s) (\<lambda>s.
       if nodes (mmap s) = [] then Inr (End, False, s)
       else case it_read s of
              None \<Rightarrow> Inl BadIterator
            | Some it \<Rightarrow> rbind (get_loop fuel now it it (mmap s)) (\<lambda>(r, got, it').
                Inr (r, got, s\<lparr>it_read := Some it', mmap := mm_unlock (mmap s)\<rparr>)))"

definition accum_erase :: "iter \<Rightarrow> SharedFlowAccum \<Rightarrow> SharedFlowAccum res" where
  "accum_erase it s =
     rbind (with_map mm_lock s) (\<lambda>s. rbind (with_map (mm_erase it) s) (\<lambda>s.
       Inr (s\<lparr>mmap := mm_unlock (mmap s)\<rparr>)))"

text \<open>The test looks at \<open>it_read\<close>, not at the block it is about.\<close>

fun mark_loop :: "u64 \<Rightarrow> iter option \<Rightarrow> nat list \<Rightarrow> SharedMultimap \<Rightarrow> SharedMultimap res" where
  "mark_loop now rd [] m = Inr m"
| "mark_loop now rd (n # ns) m =
     rbind (mm_deref (Node n) m) (\<lambda>(_, b).
     rbind (if is_complete b then Inr m
            else case rd of
                   None \<Rightarrow> Inl BadIterator
                 | Some it \<Rightarrow> rbind (mm_deref it m) (\<lambda>(_, br).
                     if expired now br then mm_store (Node n) (update_ts now (b\<lparr>is_complete := True\<rparr>)) m
                     else Inr m)) (mark_loop now rd ns))"

definition markExpiredBlocks :: "u64 \<Rightarrow> SharedFlowAccum \<Rightarrow> SharedFlowAccum res" where
  "markExpiredBlocks now s =
     rbind (with_map mm_lock s) (\<lambda>s.
     rbind (mark_loop now (it_read s) (map fst (nodes (mmap s))) (mmap s)) (\<lambda>m.
       Inr (s\<lparr>mmap := mm_unlock m\<rparr>)))"

definition getLowerBoundBlock :: "u64 \<Rightarrow> SharedFlowAccum \<Rightarrow> (iter \<times> bool \<times> SharedFlowAccum) res" where
  "getLowerBoundBlock key s =
     rbind (with_map mm_lock s) (\<lambda>s.
       if nodes (mmap s) = [] then Inr (End, False, s)
       else let it = mm_lower_bound key (mmap s)
            in Inr (it, it \<noteq> End, s\<lparr>mmap := mm_unlock (mmap s)\<rparr>))"

definition getNextBlock :: "iter \<Rightarrow> SharedFlowAccum \<Rightarrow> (iter \<times> bool \<times> SharedFlowAccum) res" where
  "getNextBlock it s =
     rbind (with_map mm_lock s) (\<lambda>s.
       if nodes (mmap s) = [] then Inr (End, False, s)
       else rbind (mm_next it (mmap s)) (\<lambda>nx.
              let nx = (if nx = End then mm_begin (mmap s) else nx)
              in Inr (nx, nx \<noteq> it, s\<lparr>mmap := mm_unlock (mmap s)\<rparr>)))"

subsection \<open>The handler's loop\<close>

text \<open>
  \<^verbatim>\<open>SharedFlowHandler::run\<close>, the part for one flow: each block is erased and the next one
  asked for through the erased iterator.
\<close>

fun handler_loop :: "nat \<Rightarrow> iter \<Rightarrow> SharedFlowAccum \<Rightarrow> SharedFlowAccum res" where
  "handler_loop 0 it s = Inl Diverges"
| "handler_loop (Suc n) it s =
     rbind (accum_erase it s) (\<lambda>s. rbind (getNextBlock it s) (\<lambda>(it', got, s).
       if got then handler_loop n it' s else Inr s))"

definition handle_flow :: "nat \<Rightarrow> u32 \<Rightarrow> SharedFlowAccum \<Rightarrow> SharedFlowAccum res" where
  "handle_flow fuel i s =
     rbind (getLowerBoundBlock (push_bit 32 (ucast i)) s) (\<lambda>(it, got, s).
       if got then handler_loop fuel it s else Inr s)"

text \<open>The handler's own table of flows. \<open>exired\<close> tests for the flow the wrong way round.\<close>

record FlowContext =
  fc_isn :: u32
  fc_last_seq :: u32
  fc_update_time :: u64

type_synonym flow_ctx_map = "u32 \<Rightarrow> FlowContext option"

definition flow_context :: "u64 \<Rightarrow> u32 \<Rightarrow> FlowContext" where
  "flow_context now isn = \<lparr>fc_isn = isn, fc_last_seq = isn, fc_update_time = now\<rparr>"

definition updateLastSeq :: "u64 \<Rightarrow> u32 \<Rightarrow> FlowContext \<Rightarrow> FlowContext" where
  "updateLastSeq now new_seq c = c\<lparr>fc_last_seq := new_seq, fc_update_time := now\<rparr>"

definition handler_push :: "u64 \<Rightarrow> u64 \<times> Block \<Rightarrow> flow_ctx_map \<Rightarrow> flow_ctx_map" where
  "handler_push now kb m =
     (let i = getFlowIdx (fst kb)
      in case m i of Some _ \<Rightarrow> m | None \<Rightarrow> m(i := Some (flow_context now (get_isn (l4_wrap (snd kb) 0 False 0)))))"

definition FLOW_EXPIRATION_INVERVAL :: u64 where
  "FLOW_EXPIRATION_INVERVAL = 10 * 1000000"

definition handler_exired :: "u64 \<Rightarrow> u32 \<Rightarrow> flow_ctx_map \<Rightarrow> bool res" where
  "handler_exired now i m =
     (case m i of
        Some _ \<Rightarrow> Inr True
      | None \<Rightarrow> Inl BadIterator)"

definition handler_remove :: "u32 \<Rightarrow> flow_ctx_map \<Rightarrow> flow_ctx_map" where
  "handler_remove i m = m(i := None)"

subsection \<open>The map of blocks as an ordered multimap\<close>

definition mm_items :: "SharedMultimap \<Rightarrow> (u64 \<times> nat \<times> Block) list" where
  "mm_items m = map (\<lambda>(n, k, b). (k, n, b)) (nodes m)"

text \<open>The code's map, each value with the number of its node.\<close>

definition mm_put :: "u64 \<Rightarrow> nat \<times> Block \<Rightarrow> SharedMultimap \<Rightarrow> SharedMultimap" where
  "mm_put k nb m = snd (mm_add k (snd nb) (m\<lparr>next_node := fst nb\<rparr>))"

interpretation flow_map: ordered_multimap mm_items mm_put
proof
  fix k :: u64 and v :: "nat \<times> Block" and m
  have t: "map (\<lambda>(n, k, b). (k, n, b)) (takeWhile (\<lambda>(_, j, _). j \<le> k) ns) =
      takeWhile (\<lambda>(j, _). j \<le> k) (map (\<lambda>(n, k, b). (k, n, b)) ns)"
    "map (\<lambda>(n, k, b). (k, n, b)) (dropWhile (\<lambda>(_, j, _). j \<le> k) ns) =
      dropWhile (\<lambda>(j, _). j \<le> k) (map (\<lambda>(n, k, b). (k, n, b)) ns)" for ns :: "(nat \<times> u64 \<times> Block) list"
    by (induction ns) auto
  show "mm_items (mm_put k v m) =
      takeWhile (\<lambda>(j, _). j \<le> k) (mm_items m) @ (k, v) # dropWhile (\<lambda>(j, _). j \<le> k) (mm_items m)"
    by (simp add: mm_items_def mm_put_def mm_add_def t)
qed

subsection \<open>The writer\<close>

lemma mm_lock_twice: "rbind (mm_lock m) (\<lambda>m. rbind (mm_lock m) f) = Inl Deadlock"
  by (simp add: mm_lock_def)

lemma emplace_locked [simp]: "locked m \<Longrightarrow> mm_emplace k b m = Inl Deadlock"
  by (simp add: mm_emplace_def mm_lock_def)

text \<open>Both functions that open a block lock the map and then insert through it.\<close>

lemma create_never:
  "create_flow_block now i c key s \<noteq> Inr r" "put_start_flow_block now p key s \<noteq> Inr r"
  by (auto simp: create_flow_block_def put_start_flow_block_def with_map_def mm_lock_def key_prepare_def
      prepare_key_def rbind_Inr_iff split: if_splits)

lemma close_never: "close_block_and_open_new now i c key s \<noteq> Inr r"
  by (auto simp: close_block_and_open_new_def rbind_Inr_iff create_never)

definition node_keys :: "SharedMultimap \<Rightarrow> (nat \<times> u64) list" where
  "node_keys m = map (\<lambda>(n, k, _). (n, k)) (nodes m)"

lemma mm_store_keys:
  assumes "mm_store it b m = Inr m'"
  shows "node_keys m' = node_keys m \<and> locked m' = locked m"
  using assms by (auto simp: mm_store_def rbind_Inr_iff node_keys_def case_prod_beta)

lemma l4_push_code: "l4_push now d q mb = Inr (code, r) \<Longrightarrow> code \<noteq> InconsistentSeq"
  by (auto simp: l4_push_def rbind_Inr_iff split: option.splits if_splits)

lemma push_data_keys:
  assumes "push_data_to_block n fuel now c p key s = Inr s'"
  shows "node_keys (mmap s') = node_keys (mmap s)"
proof -
  note run = assms [unfolded push_data_to_block.simps [of n]]
  from run obtain k b where kb: "mm_deref (af_it c) (mmap s) = Inr (k, b)"
    by (auto simp: rbind_Inr_iff)
  from run kb obtain code mb where push: "l4_push now (tp_data p) (seq key) (Some b) = Inr (code, mb)"
    by (auto simp: rbind_Inr_iff)
  from run kb push obtain m where
    m: "(case mb of None \<Rightarrow> Inl BadIterator | Some b' \<Rightarrow> mm_store (af_it c) b' (mmap s)) = Inr m"
    by (auto simp: rbind_Inr_iff)
  have "s' = s\<lparr>mmap := m\<rparr>"
    using run kb push m l4_push_code [OF push]
    by (cases code) (auto simp: rbind_Inr_iff [of "close_block_and_open_new _ _ _ _ _"] Let_def close_never)
  moreover from m have "node_keys m = node_keys (mmap s)" using mm_store_keys by (auto split: option.splits)
  ultimately show ?thesis by simp
qed

text \<open>The writer never adds a block: \<^verbatim>\<open>put\<close> holds the mutex of the map while every path that needs a new
  block locks it again, so it returns only for a flow whose open block takes the data (or
  drops it), and then the map has the blocks it had. The first packet of any flow never returns.\<close>

theorem put_never_adds:
  "(case accum_put fuel now p i sd s of Inl _ \<Rightarrow> True | Inr s' \<Rightarrow> node_keys (mmap s') = node_keys (mmap s)) \<and>
   (case active s j of None \<Rightarrow> accum_put fuel2 now2 q j sd2 s = Inl Deadlock | Some _ \<Rightarrow> True)"
proof
  show "case active s j of None \<Rightarrow> accum_put fuel2 now2 q j sd2 s = Inl Deadlock | Some _ \<Rightarrow> True"
    by (auto simp: accum_put_def put_start_flow_block_def with_map_def mm_lock_def Let_def split: option.splits)
  show "case accum_put fuel now p i sd s of Inl _ \<Rightarrow> True | Inr s' \<Rightarrow> node_keys (mmap s') = node_keys (mmap s)"
  proof (cases "accum_put fuel now p i sd s")
    case (Inr s')
    let ?key = "\<lparr>seq = start_seq p, idx = i, side = sd\<rparr>"
    let ?s = "s\<lparr>mmap := (mmap s)\<lparr>locked := True\<rparr>\<rparr>"
    from Inr have free: "\<not> locked (mmap s)"
      by (auto simp: accum_put_def with_map_def mm_lock_def Let_def split: if_splits)
    from Inr free obtain c s1 where c: "(case active s i of Some c \<Rightarrow> Inr (c, ?s) | None \<Rightarrow> put_start_flow_block now p ?key ?s) = Inr (c, s1)"
      by (auto simp: accum_put_def with_map_def mm_lock_def rbind_Inr_iff Let_def)
    then have s1: "s1 = ?s" using create_never(2) by (auto split: option.splits)
    from Inr free c s1 obtain s2 where "push_data_to_block 1 fuel now c p ?key ?s = Inr s2"
      and s': "s' = s2\<lparr>mmap := mm_unlock (mmap s2)\<rparr>"
      by (auto simp: accum_put_def with_map_def mm_lock_def rbind_Inr_iff Let_def close_never split: if_splits)
    from push_data_keys [OF this(1)] s' Inr show ?thesis by (simp add: node_keys_def mm_unlock_def)
  qed simp
qed

subsection \<open>The reader's view\<close>

text \<open>The first \<^verbatim>\<open>get\<close> fails: the iterator it starts from is never initialised, so on a map with blocks
  it is used as it is; on an empty map \<^verbatim>\<open>get\<close> returns nothing and leaves the mutex locked, after which
  \<^verbatim>\<open>get\<close>, \<^verbatim>\<open>put\<close> and \<^verbatim>\<open>erase\<close> never return.\<close>

theorem first_get_fails:
  assumes "it_read s = None" and "\<not> locked (mmap s)"
  shows "if nodes (mmap s) = []
    then \<exists>s'. accum_get fuel now s = Inr (End, False, s') \<and> accum_get fuel2 now2 s' = Inl Deadlock \<and>
      accum_put fuel2 now2 p i sd s' = Inl Deadlock \<and> accum_erase it s' = Inl Deadlock
    else accum_get fuel now s = Inl BadIterator"
  using assms
  by (auto simp: accum_get_def accum_put_def accum_erase_def with_map_def mm_lock_def Let_def)

definition empty_accum :: SharedFlowAccum where
  "empty_accum = \<lparr>mmap = \<lparr>nodes = [], next_node = 0, locked = False\<rparr>, active = (\<lambda>_. None), it_read = None\<rparr>"

definition demo_block :: Block where
  "demo_block = new_block L4_PAYLOAD"

text \<open>Two blocks of flow 5 and one each of the flows 4 and 6.\<close>

definition demo_accum :: SharedFlowAccum where
  "demo_accum = empty_accum\<lparr>mmap := \<lparr>nodes =
     [(3, 4 * 2 ^ 32 + 9, demo_block), (0, 5 * 2 ^ 32 + 1, demo_block), (2, 5 * 2 ^ 32 + 8, demo_block),
      (1, 6 * 2 ^ 32 + 2, demo_block)], next_node = 4, locked = False\<rparr>\<rparr>"

theorem first_get_fails_witness:
  "(\<exists>s'. accum_get 1 9 empty_accum = Inr (End, False, s') \<and> accum_get 1 9 s' = Inl Deadlock) \<and>
   accum_get 1 9 demo_accum = Inl BadIterator"
proof
  have "it_read empty_accum = None" "\<not> locked (mmap empty_accum)" "nodes (mmap empty_accum) = []"
    by (simp_all add: empty_accum_def)
  with first_get_fails [of empty_accum 1 9 1 9 undefined 0 False End]
  show "\<exists>s'. accum_get 1 9 empty_accum = Inr (End, False, s') \<and> accum_get 1 9 s' = Inl Deadlock" by auto
  have "it_read demo_accum = None" "\<not> locked (mmap demo_accum)" "nodes (mmap demo_accum) \<noteq> []"
    by (simp_all add: demo_accum_def empty_accum_def)
  with first_get_fails [of demo_accum 1 9 1 9 undefined 0 False End]
  show "accum_get 1 9 demo_accum = Inl BadIterator" by simp
qed

lemma key_of_word:
  assumes "unat k div 2 ^ 32 = unat i" and "unat (i :: u32) < 2 ^ 31"
  shows "getFlowIdx k = i" and "unat (getSeq k) = unat k mod 2 ^ 32"
proof -
  have "unat (take_bit 31 (drop_bit 32 k)) = unat i"
    using assms by (simp only: unat_take_bit unat_drop_bit) simp
  moreover have "take_bit 32 (unat i) = unat i" using assms(2) by (intro take_bit_nat_eq_self) simp
  ultimately show "getFlowIdx k = i"
    by (simp add: word_unat_eq_iff getFlowIdx_def mask31 unsigned_ucast_eq flip: take_bit_eq_mask)
  have "unat (take_bit 32 k) = unat k mod 2 ^ 32" by (simp only: unat_take_bit)
  then show "unat (getSeq k) = unat k mod 2 ^ 32"
    by (simp add: getSeq_def mask32 unsigned_ucast_eq take_bit_eq_mod flip: take_bit_eq_mask)
qed

lemma find_items:
  "find (\<lambda>(j, _). key \<le> j) (mm_items m) = Some (k, n, b) \<Longrightarrow> mm_lower_bound key m = Node n"
proof -
  have "find (\<lambda>(j, _). key \<le> j) (map (\<lambda>(n, k, b). (k, n, b)) ns) = Some (k, n, b) \<Longrightarrow>
      find (\<lambda>(_, k, _). key \<le> k) ns = Some (n, k, b)" for ns :: "(nat \<times> u64 \<times> Block) list"
    by (induction ns) (auto split: if_splits)
  then show "find (\<lambda>(j, _). key \<le> j) (mm_items m) = Some (k, n, b) \<Longrightarrow> mm_lower_bound key m = Node n"
    by (auto simp: mm_lower_bound_def mm_items_def)
qed

text \<open>A handler that asks for the lower bound of a flow's number in the upper half of the key gets
  that flow's oldest block: on an ordered map in which flow \<open>i\<close> has a block of the source side, the
  block returned is of flow \<open>i\<close> and no block of the flow and side has a smaller sequence
  number.\<close>

theorem lower_bound_oldest:
  assumes "flow_map.in_order (mmap s)" and "\<not> locked (mmap s)"
    and "(n1, k1, b1) \<in> set (nodes (mmap s))" and "prepare_key q1 i False = Inr k1"
  shows "\<exists>n k b. getLowerBoundBlock (push_bit 32 (ucast i)) s = Inr (Node n, True, s) \<and>
    (n, k, b) \<in> set (nodes (mmap s)) \<and> getFlowIdx k = i \<and>
    (\<forall>q n' k' b'. (n', k', b') \<in> set (nodes (mmap s)) \<and> prepare_key q i False = Inr k' \<longrightarrow> getSeq k \<le> q)"
proof -
  let ?low = "push_bit 32 (ucast i) :: u64"
  have i: "unat i < 2 ^ 31" using key_unat(2) [OF assms(4)] .
  have low: "unat ?low = unat i * 2 ^ 32"
  proof -
    have "prepare_key 0 i False = Inr ?low"
      using assms(4) by (auto simp: prepare_key_def rbind_Inr_iff)
    from key_unat(1) [OF this] show ?thesis by simp
  qed
  have key: "?low \<le> k \<and> unat k = unat i * 2 ^ 32 + unat q" if "prepare_key q i False = Inr k" for q k
    using key_unat(1) [OF that] low by (simp add: word_le_nat_alt)
  have mem: "(k1, n1, b1) \<in> set (mm_items (mmap s))" using assms(3) by (force simp: mm_items_def)
  moreover have "?low \<le> k1" using key [OF assms(4)] by simp
  ultimately have "find (\<lambda>(j, _). ?low \<le> j) (mm_items (mmap s)) \<noteq> None"
    by (auto simp: find_None_iff)
  then obtain k n b where f: "find (\<lambda>(j, _). ?low \<le> j) (mm_items (mmap s)) = Some (k, n, b)"
    by (metis option.exhaust prod_cases3)
  from flow_map.first_least [OF assms(1) f] have k: "(k, n, b) \<in> set (mm_items (mmap s))" "?low \<le> k"
    and least: "\<And>j w. (j, w) \<in> set (mm_items (mmap s)) \<Longrightarrow> ?low \<le> j \<Longrightarrow> k \<le> j" by auto
  have "unat k \<le> unat i * 2 ^ 32 + unat q1"
    using least [OF mem \<open>?low \<le> k1\<close>] key [OF assms(4)] by (simp add: word_le_nat_alt)
  moreover have "unat q1 < 2 ^ 32" using unsigned_less [of q1] by simp
  moreover have "unat i * 2 ^ 32 \<le> unat k" using k(2) low by (simp add: word_le_nat_alt)
  ultimately have div: "unat k div 2 ^ 32 = unat i" by (simp add: div_nat_eqI)
  note parts = key_of_word [OF div i]
  have "getSeq k \<le> q" if q: "prepare_key q i False = Inr k2" "(n2, k2, b2) \<in> set (nodes (mmap s))" for q n2 k2 b2
  proof -
    have "(k2, n2, b2) \<in> set (mm_items (mmap s))" using q(2) by (force simp: mm_items_def)
    from least [OF this] key [OF q(1)] have "unat k \<le> unat i * 2 ^ 32 + unat q" by (simp add: word_le_nat_alt)
    moreover have "unat k = unat i * 2 ^ 32 + unat k mod 2 ^ 32" using div by (metis div_mult_mod_eq)
    ultimately show ?thesis using parts(2) by (simp add: word_le_nat_alt)
  qed
  moreover have "(n, k, b) \<in> set (nodes (mmap s))" using k(1) by (auto simp: mm_items_def)
  moreover have "getLowerBoundBlock ?low s = Inr (Node n, True, s)"
    using find_items [OF f] assms(2,3)
    by (auto simp: getLowerBoundBlock_def with_map_def mm_lock_def mm_unlock_def mm_lower_bound_def)
  ultimately show ?thesis using parts(1) by (intro exI [of _ n] exI [of _ k] exI [of _ b]) auto
qed

lemma demo_accum_order: "flow_map.in_order (mmap demo_accum)"
  by (simp add: flow_map.in_order_def mm_items_def demo_accum_def empty_accum_def)

theorem lower_bound_oldest_witness:
  "\<exists>n k b. getLowerBoundBlock (push_bit 32 (ucast (5 :: u32))) demo_accum = Inr (Node n, True, demo_accum) \<and>
    (n, k, b) \<in> set (nodes (mmap demo_accum)) \<and> getFlowIdx k = 5 \<and> getSeq k \<le> 8"
proof -
  have free: "\<not> locked (mmap demo_accum)"
    and member: "(2, 5 * 2 ^ 32 + 8, demo_block) \<in> set (nodes (mmap demo_accum))"
    by (simp_all add: demo_accum_def empty_accum_def)
  have key: "prepare_key 8 5 False = Inr (5 * 2 ^ 32 + 8)" by code_simp
  from lower_bound_oldest [OF demo_accum_order free member key] member key show ?thesis by blast
qed

lemma after_node_absent: "n \<notin> fst ` set ns \<Longrightarrow> after_node n ns = Inl BadIterator"
  by (induction ns) (auto simp: image_iff)

text \<open>A handler works on an erased block: whenever its flow's lower bound exists, the loop erases that
  block and then asks for the next one through the erased iterator, which fails, except when it was the last
  block of the map; then the loop ends with the mutex locked for good.\<close>

theorem handler_uses_erased_block:
  assumes "getLowerBoundBlock (push_bit 32 (ucast i)) s = Inr (Node n, True, s)" and "\<not> locked (mmap s)"
    and "n \<in> fst ` set (nodes (mmap s))"
  shows "if fst ` set (nodes (mmap s)) = {n}
    then \<exists>s'. handle_flow (Suc fuel) i s = Inr s' \<and> nodes (mmap s') = [] \<and> locked (mmap s')
    else handle_flow (Suc fuel) i s = Inl BadIterator"
proof -
  let ?ns = "filter (\<lambda>(k, _). Node n \<noteq> Node k) (nodes (mmap s))"
  let ?s = "s\<lparr>mmap := (mmap s)\<lparr>nodes := ?ns\<rparr>\<rparr>"
  from assms(3) obtain kb where "map_of (nodes (mmap s)) n = Some kb"
    by (metis map_of_eq_None_iff option.exhaust)
  with assms(2) have erase: "accum_erase (Node n) s = Inr ?s"
    by (cases "mmap s") (simp add: accum_erase_def with_map_def mm_lock_def mm_erase_def mm_deref_def mm_unlock_def)
  have "n \<notin> fst ` set ?ns" by auto
  note gone = after_node_absent [OF this]
  have empty: "?ns = [] \<longleftrightarrow> fst ` set (nodes (mmap s)) = {n}"
    using assms(3) by (force simp: filter_empty_conv)
  have "handle_flow (Suc fuel) i s = rbind (getNextBlock (Node n) ?s) (\<lambda>(it', got, s).
      if got then handler_loop fuel it' s else Inr s)"
    by (simp add: handle_flow_def assms(1) erase)
  then show ?thesis using assms(2) gone empty
    by (auto simp: getNextBlock_def with_map_def mm_lock_def mm_next_def)
qed

theorem handler_uses_erased_block_witness:
  "handle_flow 5 5 demo_accum = Inl BadIterator"
proof -
  have "getLowerBoundBlock (push_bit 32 (ucast (5 :: u32))) demo_accum = Inr (Node 0, True, demo_accum)"
    by (simp add: getLowerBoundBlock_def with_map_def mm_lock_def mm_unlock_def mm_lower_bound_def
        demo_accum_def empty_accum_def)
  from handler_uses_erased_block [OF this, of 4] show ?thesis
    by (simp add: demo_accum_def empty_accum_def)
qed

end
