(* ===== verification/Flow_Distributor.thy ===== *)
theory Flow_Distributor
  imports Flow_Accum
begin

text \<open>
  \<^verbatim>\<open>app/SharedFlowDistributor.cpp\<close>: the thread that asks the flow table for blocks that are ready and
  hands each new flow to one of the handlers, in turn; and what it gets from the table.

  The handlers are a list; an iterator into it is a position, the end is its length. A default constructed
  iterator of a \<^verbatim>\<open>forward_list\<close> is the null pointer, as its end is. The time stamps have no initial
  value in the code: they are arguments of the constructor here.
\<close>

subsection \<open>The distributor\<close>

definition IDLE_INTERVAL :: u64 where "IDLE_INTERVAL = 1 * 1000000"
definition FLOW_HANDLER_EXIPATION_INTERVAL :: u64 where "FLOW_HANDLER_EXIPATION_INTERVAL = 5 * 1000000"

record SharedFlowDistributor =
  idle_check_ts :: u64
  shm_flows :: SharedFlowAccum
  flow_handlers :: "flow_ctx_map list"
  curr_flow_handler :: nat
  flow_handlers_map :: "u32 \<Rightarrow> nat option"
  handlers_ckeck_ts :: u64

definition new_SharedFlowDistributor :: "u64 \<Rightarrow> u64 \<Rightarrow> SharedFlowAccum \<Rightarrow> SharedFlowDistributor" where
  "new_SharedFlowDistributor ts1 ts2 s =
     \<lparr>idle_check_ts = ts1, shm_flows = s, flow_handlers = [], curr_flow_handler = 0,
      flow_handlers_map = (\<lambda>_. None), handlers_ckeck_ts = ts2\<rparr>"

definition dist_idle :: "u64 \<Rightarrow> SharedFlowDistributor \<Rightarrow> SharedFlowDistributor" where
  "dist_idle now d = (if now - idle_check_ts d < IDLE_INTERVAL then d else d\<lparr>idle_check_ts := now\<rparr>)"

text \<open>The handler of a flow: the one it has, or the next in turn.\<close>

definition pick_handler :: "u32 \<Rightarrow> SharedFlowDistributor \<Rightarrow> (nat \<times> SharedFlowDistributor) res" where
  "pick_handler i d =
     (case flow_handlers_map d i of
        Some h \<Rightarrow> Inr (h, d)
      | None \<Rightarrow>
          let c = (if curr_flow_handler d = length (flow_handlers d) then 0 else curr_flow_handler d);
              d = d\<lparr>flow_handlers_map := (flow_handlers_map d)(i \<mapsto> c)\<rparr>
          in if c < length (flow_handlers d) then Inr (c, d\<lparr>curr_flow_handler := c + 1\<rparr>) else Inl BadIterator)"

text \<open>The body of the loop for one block.\<close>

definition distribute :: "u64 \<Rightarrow> u64 \<times> Block \<Rightarrow> SharedFlowDistributor \<Rightarrow> SharedFlowDistributor res" where
  "distribute now kb d =
     (if btype (snd kb) \<noteq> block_type_code START_FLOW then Inr d
      else rbind (pick_handler (getFlowIdx (fst kb)) d) (\<lambda>(h, d).
        if h < length (flow_handlers d)
        then Inr (d\<lparr>flow_handlers := (flow_handlers d)[h := handler_push now kb (flow_handlers d ! h)]\<rparr>)
        else Inl BadIterator))"

fun handlePkts :: "nat \<Rightarrow> nat \<Rightarrow> u64 \<Rightarrow> SharedFlowDistributor \<Rightarrow> SharedFlowDistributor res" where
  "handlePkts 0 fuel now d = Inl Diverges"
| "handlePkts (Suc n) fuel now d =
     rbind (accum_get fuel now (shm_flows d)) (\<lambda>(it_block, got, s).
       let d = d\<lparr>shm_flows := s\<rparr>
       in if \<not> got then Inr d
          else rbind (mm_deref it_block (mmap s)) (\<lambda>kb.
               rbind (distribute now kb d) (\<lambda>d. handlePkts n fuel now d)))"

text \<open>The entries of the hash map in the order it has them.\<close>

fun remove_loop :: "u64 \<Rightarrow> u32 list \<Rightarrow> SharedFlowDistributor \<Rightarrow> SharedFlowDistributor res" where
  "remove_loop now [] d = Inr d"
| "remove_loop now (i # is) d =
     (case flow_handlers_map d i of
        None \<Rightarrow> remove_loop now is d
      | Some h \<Rightarrow>
          if h < length (flow_handlers d)
          then rbind (handler_exired now i (flow_handlers d ! h)) (\<lambda>e.
                 remove_loop now is (if e then d\<lparr>flow_handlers_map := (flow_handlers_map d)(i := None)\<rparr> else d))
          else Inl BadIterator)"

definition removeOldFlows :: "u64 \<Rightarrow> u32 list \<Rightarrow> SharedFlowDistributor \<Rightarrow> SharedFlowDistributor res" where
  "removeOldFlows now order d =
     (if now - handlers_ckeck_ts d < FLOW_HANDLER_EXIPATION_INTERVAL then Inr d
      else rbind (remove_loop now order d) (\<lambda>d. Inr (d\<lparr>handlers_ckeck_ts := now\<rparr>)))"

subsection \<open>What the table delivers\<close>

definition block_ready :: "u64 \<Rightarrow> SharedMultimap \<Rightarrow> nat \<Rightarrow> bool" where
  "block_ready now m h \<longleftrightarrow> is_complete (snd (snd (nodes m ! h))) \<and> expired now (snd (snd (nodes m ! h)))"

text \<open>The iterator at a position, the last of them the end.\<close>

definition iter_at :: "SharedMultimap \<Rightarrow> nat \<Rightarrow> iter" where
  "iter_at m j = (if j < length (nodes m) then Node (fst (nodes m ! j)) else End)"

definition nodes_ok :: "SharedMultimap \<Rightarrow> bool" where
  "nodes_ok m \<longleftrightarrow> distinct (map fst (nodes m)) \<and> nodes m \<noteq> []"

lemma iter_at_inj:
  "nodes_ok m \<Longrightarrow> i \<le> length (nodes m) \<Longrightarrow> j \<le> length (nodes m) \<Longrightarrow> iter_at m i = iter_at m j \<longleftrightarrow> i = j"
  by (auto simp: nodes_ok_def iter_at_def distinct_conv_nth nth_eq_iff_index_eq)

lemma deref_at: "nodes_ok m \<Longrightarrow> h < length (nodes m) \<Longrightarrow> mm_deref (iter_at m h) m = Inr (snd (nodes m ! h))"
  by (simp add: mm_deref_def iter_at_def nodes_ok_def map_of_is_SomeI [of _ _ "snd (nodes m ! h)"])

lemma after_at:
  "distinct (map fst ns) \<Longrightarrow> h < length ns \<Longrightarrow>
     after_node (fst (ns ! h)) ns = Inr (if h + 1 < length ns then Node (fst (ns ! (h + 1))) else End)"
proof (induction ns arbitrary: h)
  case (Cons p ns)
  obtain k x y where p: "p = (k, x, y)" by (cases p)
  show ?case
  proof (cases h)
    case 0
    then show ?thesis using p by (cases ns) auto
  next
    case (Suc g)
    with Cons p have "fst (ns ! g) \<noteq> k" by (force simp: image_iff)
    with Suc Cons p show ?thesis by auto
  qed
qed simp

lemma next_at: "nodes_ok m \<Longrightarrow> h < length (nodes m) \<Longrightarrow> mm_next (iter_at m h) m = Inr (iter_at m (h + 1))"
  using after_at [of "nodes m" h] by (simp add: mm_next_def iter_at_def nodes_ok_def)

lemma begin_at: "nodes_ok m \<Longrightarrow> mm_begin m = iter_at m 0"
  by (cases "nodes m") (auto simp: mm_begin_def iter_at_def nodes_ok_def)

declare get_loop.simps [simp del]

text \<open>One turn of the reader's loop, by position.\<close>

lemma get_turn:
  assumes "nodes_ok m" and "h < length (nodes m)" and "j = h \<or> j = length (nodes m) \<and> h = 0"
  shows "get_loop (Suc n) now start (iter_at m j) m =
    (if block_ready now m h then Inr (iter_at m h, True, iter_at m (h + 1))
     else if iter_at m (h + 1) = start then Inr (End, False, iter_at m (h + 1))
     else get_loop n now start (iter_at m (h + 1)) m)"
proof -
  have "(if iter_at m j = End then mm_begin m else iter_at m j) = iter_at m h"
    using assms begin_at [OF assms(1)] by (auto simp: iter_at_def)
  then show ?thesis
    using assms(1,2) deref_at [OF assms(1,2)] next_at [OF assms(1,2)]
    by (auto simp: get_loop.simps Let_def block_ready_def case_prod_beta)
qed

lemma get_walk:
  assumes "nodes_ok m" and "j \<le> k" and "k \<le> length (nodes m)" and "\<forall>h. j \<le> h \<and> h < k \<longrightarrow> \<not> block_ready now m h"
    and "s \<le> length (nodes m)" and "s \<le> j \<or> k < s"
  shows "get_loop (k - j + n) now (iter_at m s) (iter_at m j) m = get_loop n now (iter_at m s) (iter_at m k) m"
  using assms(2,3,4,6)
proof (induction "k - j" arbitrary: j)
  case (Suc d)
  then have j: "j < length (nodes m)" "\<not> block_ready now m j" "s \<noteq> j + 1" "Suc j \<le> k" "k - Suc j = d" "k - j = Suc d" by auto
  have "get_loop (k - j + n) now (iter_at m s) (iter_at m j) m = get_loop (k - (j + 1) + n) now (iter_at m s) (iter_at m (j + 1)) m"
    using get_turn [OF assms(1) j(1), of j "d + n"] j iter_at_inj [OF assms(1), of "j + 1" s] assms(5)
    by (simp)
  also have "\<dots> = get_loop n now (iter_at m s) (iter_at m k) m"
  proof -
    have "s \<le> j + 1 \<or> k < s" using Suc.prems(4) by auto
    with Suc.hyps(1) [of "j + 1"] Suc.prems j show ?thesis by simp
  qed
  finally show ?case .
qed simp

text \<open>The first ready position, looking from \<open>p\<close> to the end and then from the start.\<close>

definition first_ready :: "u64 \<Rightarrow> SharedMultimap \<Rightarrow> nat \<Rightarrow> nat option" where
  "first_ready now m p = find (block_ready now m) ([p ..< length (nodes m)] @ [0 ..< p])"

lemma get_loop_ready:
  assumes "nodes_ok m" and "p \<le> length (nodes m)" and "first_ready now m p = Some h" and "length (nodes m) < fuel"
  shows "get_loop fuel now (iter_at m p) (iter_at m p) m = Inr (iter_at m h, True, iter_at m (h + 1))"
proof -
  let ?len = "length (nodes m)" and ?st = "iter_at m p"
  let ?xs = "[p ..< ?len] @ [0 ..< p]"
  from assms(3) obtain i where i: "i < length ?xs" "block_ready now m h" "h = ?xs ! i"
    and before: "\<forall>j < i. \<not> block_ready now m (?xs ! j)"
    unfolding first_ready_def find_Some_iff by auto
  show ?thesis
  proof (cases "i < ?len - p")
    case True
    with i have h: "h = p + i" "h < ?len" by (auto simp: nth_append)
    have "\<forall>j. p \<le> j \<and> j < h \<longrightarrow> \<not> block_ready now m j"
    proof (intro allI impI)
      fix j assume j: "p \<le> j \<and> j < h"
      then have "j - p < i" using h by arith
      with j before [rule_format, of "j - p"] True h show "\<not> block_ready now m j" by (auto simp: nth_append)
    qed
    moreover define n where "n = fuel - i - 1"
    have fuel: "fuel = (h - p) + Suc n" using h assms(4) by (simp add: n_def)
    ultimately have "get_loop fuel now ?st ?st m = get_loop (Suc n) now ?st (iter_at m h) m"
      unfolding fuel by (intro get_walk [OF assms(1)]) (use h assms(2) in auto)
    with get_turn [OF assms(1) h(2), of h] i show ?thesis by simp
  next
    case False
    with i have h: "h = i - (?len - p)" "h < p" by (auto simp: nth_append)
    have 1: "\<forall>j. p \<le> j \<and> j < ?len \<longrightarrow> \<not> block_ready now m j"
    proof (intro allI impI)
      fix j assume j: "p \<le> j \<and> j < ?len"
      then have "j - p < i" "j - p < ?len - p" using False by arith+
      with j before [rule_format, of "j - p"] False show "\<not> block_ready now m j" by (auto simp: nth_append)
    qed
    have 2: "\<forall>j. 0 \<le> j \<and> j < h \<longrightarrow> \<not> block_ready now m j"
    proof (intro allI impI)
      fix j assume j: "0 \<le> j \<and> j < h"
      with before [rule_format, of "j + (?len - p)"] h False show "\<not> block_ready now m j"
        by (auto simp: nth_append)
    qed
    define n where "n = fuel - (?len - p) - h - 1"
    have fuel: "fuel = (?len - p) + ((h - 0) + Suc n)" using h assms(2,4) by (simp add: n_def)
    have len: "0 < ?len" using assms(1) by (simp add: nodes_ok_def)
    have wrap: "get_loop (Suc k) now ?st (iter_at m ?len) m = get_loop (Suc k) now ?st (iter_at m 0) m" for k
      using get_turn [OF assms(1) len, of ?len k] get_turn [OF assms(1) len, of 0 k] by (simp)
    have "get_loop fuel now ?st ?st m = get_loop ((h - 0) + Suc n) now ?st (iter_at m ?len) m"
      unfolding fuel by (rule get_walk [OF assms(1)]) (use 1 assms(2) in auto)
    also have "\<dots> = get_loop ((h - 0) + Suc n) now ?st (iter_at m 0) m" using wrap [of "h + n"] by simp
    also have "\<dots> = get_loop (Suc n) now ?st (iter_at m h) m"
      by (rule get_walk [OF assms(1)]) (use 2 h assms(2) in auto)
    also have "\<dots> = Inr (iter_at m h, True, iter_at m (h + 1))"
      using get_turn [OF assms(1), of h h] h assms(2) i by (simp)
    finally show ?thesis .
  qed
qed

lemma first_ready_None: "p \<le> length (nodes m) \<Longrightarrow> first_ready now m p = None \<longleftrightarrow> (\<forall>h < length (nodes m). \<not> block_ready now m h)"
  by (auto simp: first_ready_def find_None_iff)

lemma get_loop_none:
  assumes "nodes_ok m" and "p \<le> length (nodes m)" and "0 < p" and "first_ready now m p = None" and "length (nodes m) < fuel"
  shows "get_loop fuel now (iter_at m p) (iter_at m p) m = Inr (End, False, iter_at m p)"
proof -
  let ?len = "length (nodes m)" and ?st = "iter_at m p"
  have nr: "\<forall>h < ?len. \<not> block_ready now m h" using assms(2,4) first_ready_None by blast
  define n where "n = fuel - ?len"
  have fuel: "fuel = (?len - p) + ((p - 1 - 0) + Suc n)" using assms by (simp add: n_def)
  have len: "0 < ?len" using assms(1) by (simp add: nodes_ok_def)
  have wrap: "get_loop (Suc k) now ?st (iter_at m ?len) m = get_loop (Suc k) now ?st (iter_at m 0) m" for k
    using get_turn [OF assms(1) len, of ?len k] get_turn [OF assms(1) len, of 0 k] by (simp)
  have "get_loop fuel now ?st ?st m = get_loop ((p - 1 - 0) + Suc n) now ?st (iter_at m ?len) m"
    unfolding fuel by (rule get_walk [OF assms(1)]) (use nr assms(2) in auto)
  also have "\<dots> = get_loop ((p - 1 - 0) + Suc n) now ?st (iter_at m 0) m" using wrap [of "p - 1 + n"] by simp
  also have "\<dots> = get_loop (Suc n) now ?st (iter_at m (p - 1)) m"
    by (rule get_walk [OF assms(1)]) (use nr assms(2,3) in auto)
  also have "\<dots> = Inr (End, False, iter_at m p)"
    using get_turn [OF assms(1), of "p - 1" "p - 1"] assms(2,3) nr by (simp)
  finally show ?thesis .
qed

lemma get_loop_spins:
  assumes "nodes_ok m" and "\<forall>h < length (nodes m). \<not> block_ready now m h" and "j \<le> length (nodes m)"
  shows "get_loop n now (iter_at m 0) (iter_at m j) m = Inl Diverges"
  using assms(3)
proof (induction n arbitrary: j)
  case (Suc n)
  let ?h = "if j < length (nodes m) then j else 0"
  have len: "0 < length (nodes m)" using assms(1) by (simp add: nodes_ok_def)
  then have h: "?h < length (nodes m)" by simp
  have "iter_at m (?h + 1) \<noteq> iter_at m 0" using iter_at_inj [OF assms(1), of "?h + 1" 0] h by simp
  moreover have "j = ?h \<or> j = length (nodes m) \<and> ?h = 0" using Suc.prems by auto
  ultimately show ?case
    using get_turn [OF assms(1) h, of j] Suc.IH [of "?h + 1"] h assms(2) by (simp)
qed (simp add: get_loop.simps)

lemma locked_irrelevant [simp]:
  "nodes_ok (m\<lparr>locked := l\<rparr>) = nodes_ok m" "iter_at (m\<lparr>locked := l\<rparr>) = iter_at m"
  "block_ready now (m\<lparr>locked := l\<rparr>) = block_ready now m" "first_ready now (m\<lparr>locked := l\<rparr>) = first_ready now m"
  by (auto simp: nodes_ok_def iter_at_def block_ready_def first_ready_def fun_eq_iff cong: if_cong)
     (simp_all add: block_ready_def [abs_def])

lemma get_ready:
  assumes "nodes_ok (mmap s)" and "\<not> locked (mmap s)" and "it_read s = Some (iter_at (mmap s) p)"
    and "p \<le> length (nodes (mmap s))" and "length (nodes (mmap s)) < fuel"
  shows "accum_get fuel now s =
    (case first_ready now (mmap s) p of
       Some h \<Rightarrow> Inr (iter_at (mmap s) h, True, s\<lparr>it_read := Some (iter_at (mmap s) (h + 1))\<rparr>)
     | None \<Rightarrow> if p = 0 then Inl Diverges else Inr (End, False, s))"
proof -
  let ?m = "(mmap s)\<lparr>locked := True\<rparr>"
  have ok: "nodes_ok ?m" "p \<le> length (nodes ?m)" "length (nodes ?m) < fuel" using assms by simp_all
  have m: "\<not> locked m \<Longrightarrow> m\<lparr>locked := False\<rparr> = m" for m by (cases m) simp
  have get: "accum_get fuel now s = rbind (get_loop fuel now (iter_at ?m p) (iter_at ?m p) ?m) (\<lambda>(r, got, it').
      Inr (r, got, s\<lparr>it_read := Some it'\<rparr>))"
    using assms by (cases s) (simp add: accum_get_def with_map_def mm_lock_def mm_unlock_def m nodes_ok_def)
  show ?thesis
  proof (cases "first_ready now (mmap s) p")
    case (Some h)
    with get get_loop_ready [OF ok(1,2) _ ok(3), of now h] show ?thesis by simp
  next
    case None
    show ?thesis
    proof (cases "p = 0")
      case True
      with None first_ready_None [of p "mmap s" now] get_loop_spins [OF ok(1), of now 0 fuel]
      show ?thesis by (simp add: get)
    next
      case False
      with None get get_loop_none [OF ok(1,2) _ _ ok(3), of now] assms(3) show ?thesis by simp
    qed
  qed
qed

text \<open>The reader's contract, from wherever it stopped: \<^verbatim>\<open>get\<close> delivers the first block that is complete and
  expired, looking around the whole map once, and goes on behind it the next time; when no block is
  ready it reports so and stays where it was, except at the first block of the map: there it
  never returns, and holds the mutex.\<close>

theorem get_next_ready:
  assumes "nodes_ok (mmap s)" and "\<not> locked (mmap s)" and "it_read s = Some (iter_at (mmap s) p)"
    and "p \<le> length (nodes (mmap s))" and "length (nodes (mmap s)) < fuel"
  shows "accum_get fuel now s =
    (case first_ready now (mmap s) p of
       Some h \<Rightarrow> Inr (iter_at (mmap s) h, True, s\<lparr>it_read := Some (iter_at (mmap s) (h + 1))\<rparr>)
     | None \<Rightarrow> if p = 0 then Inl Diverges else Inr (End, False, s))"
  using assms by (rule get_ready)

definition ready_block :: Block where
  "ready_block = \<lparr>btype = 5, block_size = 0, is_complete = True, update_timestamp = 1, bdata = []\<rparr>"

text \<open>Three blocks, the first of them the start of flow 4 and ready, and a reader that is at the second.\<close>

definition demo_reader :: SharedFlowAccum where
  "demo_reader = demo_accum\<lparr>mmap := \<lparr>nodes = [(3, 4 * 2 ^ 32 + 9, ready_block), (0, 5 * 2 ^ 32 + 1, demo_block),
     (2, 5 * 2 ^ 32 + 8, demo_block)], next_node = 4, locked = False\<rparr>, it_read := Some (Node 0)\<rparr>"

lemma demo_reader_simps:
  "nodes_ok (mmap demo_reader)" "\<not> locked (mmap demo_reader)" "it_read demo_reader = Some (iter_at (mmap demo_reader) 1)"
  "length (nodes (mmap demo_reader)) = 3" "first_ready 200 (mmap demo_reader) 1 = Some 0"
  "iter_at (mmap demo_reader) 0 = Node 3"
  by (simp_all add: nodes_ok_def demo_reader_def iter_at_def first_ready_def block_ready_def ready_block_def
      demo_block_def new_block_def expired_def DEFAULT_BLOCK_EXPIRATION_TIME_MS_def upt_rec)

theorem get_next_ready_witness:
  "accum_get 4 200 demo_reader = Inr (Node 3, True, demo_reader\<lparr>it_read := Some (iter_at (mmap demo_reader) 1)\<rparr>)"
  using get_next_ready [OF demo_reader_simps(1-3), of 4 200] by (simp add: demo_reader_simps demo_reader_simps [unfolded One_nat_def])

subsection \<open>The thread's loop\<close>

text \<open>\<open>handlePkts\<close> never erases what it was given, so it is given it again and again.\<close>

lemma distribute_flows: "distribute now kb d = Inr d' \<Longrightarrow> shm_flows d' = shm_flows d"
  by (auto simp: distribute_def pick_handler_def rbind_Inr_iff Let_def split: if_splits option.splits)

lemma first_ready_less: "first_ready now m p = Some h \<Longrightarrow> p \<le> length (nodes m) \<Longrightarrow> h < length (nodes m)"
proof -
  assume "first_ready now m p = Some h" and p: "p \<le> length (nodes m)"
  then have "h \<in> set ([p ..< length (nodes m)] @ [0 ..< p])" unfolding first_ready_def find_Some_iff by (metis nth_mem)
  with p show ?thesis by auto
qed

lemma handlePkts_spins:
  assumes "nodes_ok m" and "\<not> locked m" and "h < length (nodes m)" and "block_ready now m h" and "length (nodes m) < fuel"
  shows "mmap (shm_flows d) = m \<Longrightarrow> it_read (shm_flows d) = Some (iter_at m p) \<Longrightarrow> p \<le> length (nodes m) \<Longrightarrow>
    handlePkts n fuel now d \<noteq> Inr d'"
proof (induction n arbitrary: p d)
  case (Suc n)
  let ?s = "shm_flows d"
  obtain k where k: "first_ready now m p = Some k"
    using assms(3,4) Suc.prems(3) first_ready_None by (metis option.exhaust)
  have k': "k < length (nodes m)" by (rule first_ready_less [OF k Suc.prems(3)])
  let ?s' = "?s\<lparr>it_read := Some (iter_at m (k + 1))\<rparr>" and ?kb = "snd (nodes m ! k)"
  have "accum_get fuel now ?s = Inr (iter_at m k, True, ?s')"
    using get_ready [of ?s p fuel now] assms Suc.prems k by simp
  then have run: "handlePkts (Suc n) fuel now d =
      rbind (distribute now ?kb (d\<lparr>shm_flows := ?s'\<rparr>)) (\<lambda>d. handlePkts n fuel now d)"
    using deref_at [OF assms(1) k'] Suc.prems(1) by simp
  show ?case
  proof (cases "distribute now ?kb (d\<lparr>shm_flows := ?s'\<rparr>)")
    case (Inr d1)
    from distribute_flows [OF this] have "shm_flows d1 = ?s'" by simp
    with Suc.IH [of d1 "k + 1"] Suc.prems(1) k' run Inr show ?thesis by simp
  next
    case (Inl e)
    then show ?thesis unfolding run by simp
  qed
qed simp

text \<open>As long as one block of the table is ready, \<^verbatim>\<open>handlePkts\<close> does not come back: it does not take the
  blocks out, and the reader always finds a ready one.\<close>

theorem handlePkts_never_returns:
  assumes "nodes_ok (mmap (shm_flows d))" and "\<not> locked (mmap (shm_flows d))"
    and "it_read (shm_flows d) = Some (iter_at (mmap (shm_flows d)) p)" and "p \<le> length (nodes (mmap (shm_flows d)))"
    and "h < length (nodes (mmap (shm_flows d)))" and "block_ready now (mmap (shm_flows d)) h"
    and "length (nodes (mmap (shm_flows d))) < fuel"
  shows "handlePkts n fuel now d \<noteq> Inr d'"
  by (rule handlePkts_spins [OF assms(1,2,5,6,7) refl assms(3,4)])

definition demo_distributor :: SharedFlowDistributor where
  "demo_distributor = (new_SharedFlowDistributor 0 0 demo_reader)
     \<lparr>flow_handlers := [\<lambda>_. None, \<lambda>_. None], curr_flow_handler := 2\<rparr>"

theorem handlePkts_never_returns_witness:
  "handlePkts 7 4 200 demo_distributor \<noteq> Inr demo_distributor"
proof -
  have s: "shm_flows demo_distributor = demo_reader"
    by (simp add: demo_distributor_def new_SharedFlowDistributor_def)
  have "block_ready 200 (mmap demo_reader) 0"
    by (simp add: demo_reader_def block_ready_def ready_block_def expired_def DEFAULT_BLOCK_EXPIRATION_TIME_MS_def)
  with demo_reader_simps show ?thesis
    using handlePkts_never_returns [of demo_distributor 1 0 200 4 7 demo_distributor, unfolded s] by simp
qed

subsection \<open>The distributor as it is constructed\<close>

text \<open>No code adds a handler, so that a flow that starts is given to none: the null iterator is incremented.\<close>

definition starts :: "SharedMultimap \<Rightarrow> nat \<Rightarrow> bool" where
  "starts m h \<longleftrightarrow> btype (snd (snd (nodes m ! h))) = block_type_code START_FLOW"

lemma distribute_none:
  "distribute now kb (new_SharedFlowDistributor t1 t2 s) =
     (if btype (snd kb) = block_type_code START_FLOW then Inl BadIterator else Inr (new_SharedFlowDistributor t1 t2 s))"
  by (simp add: distribute_def pick_handler_def new_SharedFlowDistributor_def)

lemma shm_flows_new [simp]:
  "shm_flows (new_SharedFlowDistributor t1 t2 s) = s"
  "(new_SharedFlowDistributor t1 t2 s)\<lparr>shm_flows := s'\<rparr> = new_SharedFlowDistributor t1 t2 s'"
  by (simp_all add: new_SharedFlowDistributor_def)

lemma handlePkts_round:
  assumes "nodes_ok m" and "\<not> locked m" and "mmap s = m" and "it_read s = Some (iter_at m p)" and "p \<le> length (nodes m)"
    and "length (nodes m) < fuel"
  shows "handlePkts (Suc n) fuel now (new_SharedFlowDistributor t1 t2 s) =
    (case first_ready now m p of
       None \<Rightarrow> if p = 0 then Inl Diverges else Inr (new_SharedFlowDistributor t1 t2 s)
     | Some h \<Rightarrow> if starts m h then Inl BadIterator
                 else handlePkts n fuel now (new_SharedFlowDistributor t1 t2 (s\<lparr>it_read := Some (iter_at m (h + 1))\<rparr>)))"
proof (cases "first_ready now m p")
  case None
  with get_ready [of s p fuel now] assms show ?thesis by simp
next
  case (Some h)
  with first_ready_less assms(5) have "h < length (nodes m)" by blast
  with Some get_ready [of s p fuel now] assms deref_at [OF assms(1)] show ?thesis
    by (simp add: distribute_none starts_def)
qed

lemma handlePkts_no_start:
  assumes "nodes_ok m" and "\<not> locked m" and "length (nodes m) < fuel" and "h < length (nodes m)" and "block_ready now m h"
    and "\<forall>h < length (nodes m). \<not> (block_ready now m h \<and> starts m h)"
  shows "mmap s = m \<Longrightarrow> it_read s = Some (iter_at m p) \<Longrightarrow> p \<le> length (nodes m) \<Longrightarrow>
    handlePkts n fuel now (new_SharedFlowDistributor t1 t2 s) = Inl Diverges"
proof (induction n arbitrary: s p)
  case (Suc n)
  obtain k where k: "first_ready now m p = Some k"
    using assms(4,5) Suc.prems(3) first_ready_None by (metis option.exhaust)
  have k': "k < length (nodes m)" by (rule first_ready_less [OF k Suc.prems(3)])
  moreover have "block_ready now m k" using k by (simp add: first_ready_def find_Some_iff) metis
  ultimately have "\<not> starts m k" using assms(6) by blast
  with handlePkts_round [OF assms(1,2) Suc.prems assms(3)] k k' Suc.IH [of "s\<lparr>it_read := Some (iter_at m (k + 1))\<rparr>" "k + 1"] Suc.prems(1)
  show ?case by simp
qed simp

text \<open>How many blocks lie between a position and a block, around the map.\<close>

definition around :: "nat \<Rightarrow> nat \<Rightarrow> nat \<Rightarrow> nat" where
  "around len p k = (if p \<le> k then k - p else len - p + k)"

lemma around_le: "p \<le> len \<Longrightarrow> k < len \<Longrightarrow> around len p k \<le> len"
  unfolding around_def by (cases "p \<le> k") (simp, arith)

lemma around_first:
  assumes "first_ready now m p = Some h" and "p \<le> length (nodes m)" and "k < length (nodes m)" and "block_ready now m k" and "h \<noteq> k"
  shows "around (length (nodes m)) (h + 1) k < around (length (nodes m)) p k"
proof -
  let ?len = "length (nodes m)"
  let ?xs = "[p ..< ?len] @ [0 ..< p]" and ?d = "around ?len p k"
  from assms(1) obtain i where i: "i < length ?xs" "h = ?xs ! i" "\<forall>j < i. \<not> block_ready now m (?xs ! j)"
    unfolding first_ready_def find_Some_iff by blast
  have "?d < length ?xs" "?xs ! ?d = k" using assms(2,3) by (auto simp: around_def nth_append)
  with i assms(4,5) have "i < ?d" by (metis linorder_neqE_nat)
  with i(1,2) assms(2,3) show ?thesis by (auto simp: around_def nth_append split: if_splits)
qed

lemma handlePkts_start:
  assumes "nodes_ok m" and "\<not> locked m" and "length (nodes m) < fuel" and "k < length (nodes m)" and "block_ready now m k" and "starts m k"
  shows "mmap s = m \<Longrightarrow> it_read s = Some (iter_at m p) \<Longrightarrow> p \<le> length (nodes m) \<Longrightarrow> around (length (nodes m)) p k < n \<Longrightarrow>
    handlePkts n fuel now (new_SharedFlowDistributor t1 t2 s) = Inl BadIterator"
proof (induction n arbitrary: s p)
  case (Suc n)
  obtain h where h: "first_ready now m p = Some h"
    using assms(4,5) Suc.prems(3) first_ready_None by (metis option.exhaust)
  have h': "h < length (nodes m)" by (rule first_ready_less [OF h Suc.prems(3)])
  note round = handlePkts_round [OF assms(1,2) Suc.prems(1-3) assms(3), of n now t1 t2]
  show ?case
  proof (cases "starts m h")
    case True
    with round h show ?thesis by simp
  next
    case False
    with assms(6) around_first [OF h Suc.prems(3) assms(4,5)] Suc.prems(4) have "around (length (nodes m)) (h + 1) k < n" by fastforce
    with Suc.IH [of "s\<lparr>it_read := Some (iter_at m (h + 1))\<rparr>" "h + 1"] Suc.prems(1) h' round h False show ?thesis by simp
  qed
qed simp



end
