(* ===== verification/Time_Handler.thy ===== *)
theory Time_Handler
  imports Prelude "HOL-Library.Signed_Division"
begin

text \<open>
  \<^verbatim>\<open>lib/TimeHandler.h\<close>: microseconds since the epoch from the processor's tick counter. A ring
  of ten time points holds pairs of a wall clock reading and a tick count with the frequency
  measured up to it; the time of a tick count is extrapolated from the current one.

  What the code reads from the machine (\<^verbatim>\<open>rdtsc\<close>, \<^verbatim>\<open>gettimeofday\<close>, the files under
  \<^verbatim>\<open>/sys\<close>) is an argument. Overflow of a signed product or quotient and a division by zero
  have no defined result in the language: \<open>Undefined\<close>. The variant for \<^verbatim>\<open>VIRTUAL_MACHINE_MODE\<close> is
  in \<open>Cpu_Info\<close>.
\<close>

subsection \<open>Wall clock values\<close>

text \<open>Both members of \<^verbatim>\<open>timeval\<close> are signed 64-bit numbers, here their bits.\<close>

record timeval =
  tv_sec :: u64
  tv_usec :: u64

definition USECS_IN_SECS :: u64 where
  "USECS_IN_SECS = 1000000"

definition usecs_to_timeval :: "u64 \<Rightarrow> timeval" where
  "usecs_to_timeval usecs = \<lparr>tv_sec = usecs div USECS_IN_SECS, tv_usec = usecs mod USECS_IN_SECS\<rparr>"

definition timeval_to_usecs :: "timeval \<Rightarrow> u64" where
  "timeval_to_usecs tv = tv_sec tv * USECS_IN_SECS + tv_usec tv"

definition timeval_diff :: "u64 \<Rightarrow> u64 \<Rightarrow> int" where
  "timeval_diff usecs_l usecs_r = sint (usecs_l - usecs_r)"

definition timeval_diff_tv :: "timeval \<Rightarrow> timeval \<Rightarrow> int" where
  "timeval_diff_tv tv_l tv_r = timeval_diff (timeval_to_usecs tv_l) (timeval_to_usecs tv_r)"

subsection \<open>The ring of time points\<close>

record TimePoint =
  usecs :: u64
  ticks :: u64

record TimeData =
  tp :: TimePoint
  freq :: u64

record TimeHandler =
  index :: u32
  timedatas :: "TimeData list"
  cpu_freq :: u64

definition TIMEDATAS :: nat where
  "TIMEDATAS = 10"

definition current :: "TimeHandler \<Rightarrow> TimeData res" where
  "current th = (if unat (index th) < TIMEDATAS then Inr (timedatas th ! unat (index th)) else Inl OutOfBounds)"

text \<open>Signed 64-bit arithmetic.\<close>

definition int64 :: "int \<Rightarrow> int res" where
  "int64 n = (if - (2 ^ 63) \<le> n \<and> n < 2 ^ 63 then Inr n else Inl Undefined)"

definition sdiv64 :: "int \<Rightarrow> int \<Rightarrow> int res" where
  "sdiv64 a b = (if b = 0 then Inl Undefined else int64 (a sdiv b))"

definition get_time_impl :: "u64 \<Rightarrow> TimeHandler \<Rightarrow> u64 res" where
  "get_time_impl cpu_ticks th =
     rbind (current th) (\<lambda>td.
       let ticks_div = sint (cpu_ticks - ticks (tp td))
       in rbind (int64 (ticks_div * sint USECS_IN_SECS)) (\<lambda>prod.
          rbind (sdiv64 prod (sint (freq td))) (\<lambda>usecs_div.
          Inr (usecs (tp td) + word_of_int usecs_div))))"

definition get_time_usecs :: "u64 \<Rightarrow> TimeHandler \<Rightarrow> u64 res" where
  "get_time_usecs cpu_ticks th = get_time_impl cpu_ticks th"

definition get_time :: "u64 \<Rightarrow> TimeHandler \<Rightarrow> timeval res" where
  "get_time cpu_ticks th = rbind (get_time_usecs cpu_ticks th) (\<lambda>u. Inr (usecs_to_timeval u))"

definition set_current_timepoint :: "u64 \<Rightarrow> timeval \<Rightarrow> u64 \<Rightarrow> TimePoint" where
  "set_current_timepoint tks_1 tv tks_2 = \<lparr>usecs = timeval_to_usecs tv, ticks = tks_1 div 2 + tks_2 div 2\<rparr>"

text \<open>
  What one call of \<open>update_time\<close> reads: \<^verbatim>\<open>rdtsc\<close> for the initial value of its static
  \<^verbatim>\<open>prev\<close> (the first call only), for \<^verbatim>\<open>curr\<close>, around the wall clock, and at the end.
\<close>

record readings =
  r_first :: u64
  r_curr :: u64
  r_tks_1 :: u64
  r_tv :: timeval
  r_tks_2 :: u64
  r_last :: u64

definition udiv64 :: "u64 \<Rightarrow> u64 \<Rightarrow> u64 res" where
  "udiv64 a b = (if b = 0 then Inl Undefined else Inr (a div b))"

definition store_timepoint :: "TimePoint \<Rightarrow> u64 \<Rightarrow> TimeHandler \<Rightarrow> TimeHandler" where
  "store_timepoint now f th =
     (let update_index = (if 10 \<le> index th + 1 then 0 else index th + 1)
      in th\<lparr>timedatas := (timedatas th)[unat update_index := \<lparr>tp = now, freq = f\<rparr>], index := update_index\<rparr>)"

definition update_time :: "readings \<Rightarrow> u64 option \<Rightarrow> TimeHandler \<Rightarrow> (u64 option \<times> TimeHandler) res" where
  "update_time r prev th =
     rbind (case prev of Some p \<Rightarrow> Inr p | None \<Rightarrow> get_time_usecs (r_first r) th) (\<lambda>prev.
     rbind (get_time_usecs (r_curr r) th) (\<lambda>curr.
       if timeval_diff curr prev < 1000000 then Inr (Some prev, th)
       else rbind (current th) (\<lambda>td.
         let now = set_current_timepoint (r_tks_1 r) (r_tv r) (r_tks_2 r)
         in rbind (udiv64 ((ticks now - ticks (tp td)) * USECS_IN_SECS) (usecs now - usecs (tp td))) (\<lambda>f.
            let th = store_timepoint now ((freq td + f) div 2) th
            in rbind (get_time_usecs (r_last r) th) (\<lambda>prev. Inr (Some prev, th))))))"

subsection \<open>Start\<close>

text \<open>\<^verbatim>\<open>fgets\<close> into a buffer of 255, and \<^verbatim>\<open>atol\<close>, which is undefined outside its type.\<close>

definition first_line :: "string \<Rightarrow> string" where
  "first_line s = (let l = takeWhile (\<lambda>c. c \<noteq> CHR 0x0A) s in take 254 (if length l < length s then l @ [CHR 0x0A] else l))"

definition is_space :: "char \<Rightarrow> bool" where
  "is_space c \<longleftrightarrow> c \<in> {CHR '' '', CHR 0x09, CHR 0x0A, CHR 0x0B, CHR 0x0C, CHR 0x0D}"

definition is_digit :: "char \<Rightarrow> bool" where
  "is_digit c \<longleftrightarrow> 48 \<le> (of_char c :: nat) \<and> (of_char c :: nat) \<le> 57"

definition atol :: "string \<Rightarrow> int res" where
  "atol s = (let s = dropWhile is_space s
     in case s of
          [] \<Rightarrow> Inr 0
        | c # cs \<Rightarrow>
            if c = CHR ''-'' then int64 (- int (undec (takeWhile is_digit cs)))
            else if c = CHR ''+'' then int64 (int (undec (takeWhile is_digit cs)))
            else int64 (int (undec (takeWhile is_digit s))))"

text \<open>The contents of the file, \<open>None\<close> when it cannot be opened.\<close>

definition read_cpu_value :: "string option \<Rightarrow> u64 \<Rightarrow> u64 res" where
  "read_cpu_value file coef =
     (case file of
        None \<Rightarrow> Inr 0
      | Some s \<Rightarrow>
          let res = s \<noteq> []
          in rbind (if res then atol (first_line s) else Inr 0) (\<lambda>val. Inr (word_of_int val * coef)))"

text \<open>The files \<^verbatim>\<open>scaling_min_freq\<close> and \<^verbatim>\<open>scaling_max_freq\<close>.\<close>

definition get_cpu_freq :: "string option \<Rightarrow> TimeHandler \<Rightarrow> (bool \<times> TimeHandler) res" where
  "get_cpu_freq max_file th =
     rbind (read_cpu_value max_file 1000) (\<lambda>f. Inr (f \<noteq> 0, th\<lparr>cpu_freq := f\<rparr>))"

definition check_scaling :: "string option \<Rightarrow> string option \<Rightarrow> bool res" where
  "check_scaling min_file max_file =
     rbind (read_cpu_value min_file 1) (\<lambda>a. rbind (read_cpu_value max_file 1) (\<lambda>b. Inr (a = b)))"

text \<open>The constructor: the result of \<open>check_scaling\<close> only decides on a message in the log.\<close>

definition new_TimeHandler ::
  "string option \<Rightarrow> string option \<Rightarrow> u64 \<Rightarrow> timeval \<Rightarrow> u64 \<Rightarrow> TimeData list \<Rightarrow> TimeHandler res" where
  "new_TimeHandler min_file max_file tks_1 tv tks_2 raw =
     (let th = \<lparr>index = 0, timedatas = raw, cpu_freq = 0\<rparr>
      in rbind (get_cpu_freq max_file th) (\<lambda>(ok, th).
         if \<not> ok then Inl Thrown
         else rbind (check_scaling min_file max_file) (\<lambda>_.
           Inr (th\<lparr>timedatas := (timedatas th)[unat (index th) :=
             \<lparr>tp = set_current_timepoint tks_1 tv tks_2, freq = cpu_freq th\<rparr>]\<rparr>))))"

subsection \<open>Wall clock values\<close>

text \<open>Microseconds survive the way to a \<^verbatim>\<open>timeval\<close> and back, and its second member is
  below one million.\<close>

theorem usecs_roundtrip:
  "timeval_to_usecs (usecs_to_timeval u) = u \<and> unat (tv_usec (usecs_to_timeval u)) < 1000000"
proof
  show "timeval_to_usecs (usecs_to_timeval u) = u"
    unfolding timeval_to_usecs_def usecs_to_timeval_def timeval.simps by (rule div_mult_mod_eq)
  show "unat (tv_usec (usecs_to_timeval u)) < 1000000"
    by (simp add: usecs_to_timeval_def USECS_IN_SECS_def unat_mod)
qed

subsection \<open>Extrapolation\<close>

lemma sdiv_close:
  fixes n f :: int
  assumes "0 < f"
  shows "\<bar>(n sdiv f) * f - n\<bar> < f"
proof -
  have "n smod f = n - (n sdiv f) * f" by (simp add: minus_sdiv_mult_eq_smod)
  moreover have "\<bar>n smod f\<bar> < f" using assms by (simp add: signed_modulo_int_def abs_mult abs_sgn_eq)
  ultimately show ?thesis by linarith
qed

lemma sdiv_range:
  fixes n f :: int
  assumes "0 < f" and "- (2 ^ 63) \<le> n" and "n < 2 ^ 63"
  shows "int64 (n sdiv f) = Inr (n sdiv f)"
proof -
  have "\<bar>n\<bar> div f \<le> \<bar>n\<bar>" using assms(1) zdiv_mono2 [of "\<bar>n\<bar>" 1 f] by simp
  then have "\<bar>n sdiv f\<bar> \<le> \<bar>n\<bar>" "n < 0 \<longrightarrow> n sdiv f \<le> 0" "0 \<le> n \<longrightarrow> 0 \<le> n sdiv f"
    using assms(1) by (auto simp: signed_divide_int_def abs_mult sgn_if div_int_pos_iff)
  with assms(2,3) show ?thesis by (auto simp: int64_def)
qed

lemma USECS_sint: "sint USECS_IN_SECS = 1000000"
  by (simp add: USECS_IN_SECS_def)

lemma get_time_current:
  assumes "current th = Inr td" and "0 < sint (freq td)"
  shows "get_time_usecs t th =
    (let n = sint (t - ticks (tp td)) * 1000000
     in if - (2 ^ 63) \<le> n \<and> n < 2 ^ 63 then Inr (usecs (tp td) + word_of_int (n sdiv sint (freq td)))
        else Inl Undefined)"
  using assms sdiv_range [of "sint (freq td)"]
  by (auto simp: get_time_usecs_def get_time_impl_def USECS_sint Let_def sdiv64_def int64_def)

text \<open>C34. The time of a tick count is the current time point's time plus the distance in ticks over
  the frequency, with an error below one microsecond, as long as the distance is at most
  9223372036854 ticks (51 minutes at 3 GHz); from there on the product overflows and the result
  is undefined.\<close>

theorem time_extrapolates:
  assumes "current th = Inr td" and "0 < sint (freq td)"
  shows "let d = sint (t - ticks (tp td)) in
    if \<bar>d\<bar> \<le> 9223372036854
    then \<exists>q. get_time_usecs t th = Inr (usecs (tp td) + word_of_int q) \<and>
      \<bar>q * sint (freq td) - d * 1000000\<bar> < sint (freq td)
    else get_time_usecs t th = Inl Undefined"
  using get_time_current [OF assms, of t] sdiv_close [OF assms(2), of "sint (t - ticks (tp td)) * 1000000"]
  by (auto simp: Let_def)

definition demo_th :: TimeHandler where
  "demo_th = \<lparr>index = 9, timedatas = replicate 10 \<lparr>tp = \<lparr>usecs = 5000000, ticks = 300\<rparr>, freq = 2000\<rparr>, cpu_freq = 2000\<rparr>"

lemma demo_current: "current demo_th = Inr \<lparr>tp = \<lparr>usecs = 5000000, ticks = 300\<rparr>, freq = 2000\<rparr>"
  by (simp add: current_def demo_th_def TIMEDATAS_def)

lemma time_extrapolates_witness:
  "\<exists>q. get_time_usecs 307 demo_th = Inr (5000000 + word_of_int q) \<and> \<bar>q * 2000 - 7000000\<bar> < 2000"
  using time_extrapolates [OF demo_current, of 307] by simp

subsection \<open>Updating the ring\<close>

definition ring_ok :: "TimeHandler \<Rightarrow> bool" where
  "ring_ok th \<longleftrightarrow> unat (index th) < TIMEDATAS \<and> length (timedatas th) = TIMEDATAS"

lemma next_index: "unat i < 10 \<Longrightarrow> unat (if 10 \<le> i + 1 then 0 else i + 1 :: u32) = (unat i + 1) mod 10"
proof -
  assume i: "unat i < 10"
  then have "unat (i + 1) = unat i + 1" by (simp add: unat_word_ariths)
  moreover have "10 \<le> i + 1 \<longleftrightarrow> unat i = 9" using calculation i by (auto simp: word_le_nat_alt)
  ultimately show ?thesis using i by (cases "unat i = 9") auto
qed

lemma current_ok: "ring_ok th \<Longrightarrow> current th = Inr (timedatas th ! unat (index th))"
  by (simp add: current_def ring_ok_def)

lemma store_timepoint_ok:
  assumes "ring_ok th"
  shows "ring_ok (store_timepoint now f th)" and "unat (index (store_timepoint now f th)) = (unat (index th) + 1) mod 10"
    and "current (store_timepoint now f th) = Inr \<lparr>tp = now, freq = f\<rparr>"
    and "cpu_freq (store_timepoint now f th) = cpu_freq th"
    and "i \<noteq> unat (index (store_timepoint now f th)) \<Longrightarrow> timedatas (store_timepoint now f th) ! i = timedatas th ! i"
proof -
  have i: "unat (if 10 \<le> index th + 1 then 0 else index th + 1) = (unat (index th) + 1) mod 10"
    using assms by (intro next_index) (simp add: ring_ok_def TIMEDATAS_def)
  then show ix: "unat (index (store_timepoint now f th)) = (unat (index th) + 1) mod 10"
    by (simp add: store_timepoint_def Let_def)
  show ok: "ring_ok (store_timepoint now f th)"
    using assms ix by (simp add: ring_ok_def TIMEDATAS_def) (simp add: store_timepoint_def Let_def)
  have tds: "timedatas (store_timepoint now f th) =
    (timedatas th)[unat (index (store_timepoint now f th)) := \<lparr>tp = now, freq = f\<rparr>]"
    by (simp add: store_timepoint_def Let_def)
  show "current (store_timepoint now f th) = Inr \<lparr>tp = now, freq = f\<rparr>"
    using ok by (simp add: current_ok) (simp add: ring_ok_def tds)
  show "cpu_freq (store_timepoint now f th) = cpu_freq th" by (simp add: store_timepoint_def Let_def)
  show "i \<noteq> unat (index (store_timepoint now f th)) \<Longrightarrow> timedatas (store_timepoint now f th) ! i = timedatas th ! i"
    by (simp add: tds)
qed

lemma get_time_undefined: "ring_ok th \<Longrightarrow> get_time_usecs t th = Inl e \<Longrightarrow> e = Undefined"
  by (auto simp: get_time_usecs_def get_time_impl_def current_ok Let_def int64_def sdiv64_def split: if_splits)

lemma update_time_alt:
  assumes "ring_ok th"
  shows "update_time r prev th =
     rbind (case prev of Some p \<Rightarrow> Inr p | None \<Rightarrow> get_time_usecs (r_first r) th) (\<lambda>prev.
     rbind (get_time_usecs (r_curr r) th) (\<lambda>curr.
       if timeval_diff curr prev < 1000000 then Inr (Some prev, th)
       else let td = timedatas th ! unat (index th); now = set_current_timepoint (r_tks_1 r) (r_tv r) (r_tks_2 r)
         in rbind (udiv64 ((ticks now - ticks (tp td)) * USECS_IN_SECS) (usecs now - usecs (tp td))) (\<lambda>f.
            let th = store_timepoint now ((freq td + f) div 2) th
            in rbind (get_time_usecs (r_last r) th) (\<lambda>prev. Inr (Some prev, th)))))"
  unfolding update_time_def current_ok [OF assms] rbind_simps Let_def ..

lemma update_cases:
  assumes "ring_ok th"
  shows "case update_time r prev th of Inl e \<Rightarrow> e = Undefined
    | Inr (x, th') \<Rightarrow> th' = th \<or>
        (\<exists>f. th' = store_timepoint (set_current_timepoint (r_tks_1 r) (r_tv r) (r_tks_2 r)) f th)"
proof (cases "update_time r prev th")
  case (Inl e)
  then have "e = Undefined"
    using get_time_undefined [OF assms] get_time_undefined [OF store_timepoint_ok(1) [OF assms]]
    by (auto simp: update_time_alt [OF assms] rbind_Inl_iff Let_def udiv64_def split: option.splits if_splits)
  with Inl show ?thesis by simp
next
  case (Inr z)
  then show ?thesis
    by (cases z) (auto simp: update_time_alt [OF assms] rbind_Inr_iff Let_def split: option.splits if_splits)
qed

text \<open>C33. \<open>update_time\<close> keeps the ring: it changes nothing, or it advances the index by one modulo
  ten and writes the new time point there, leaving every other slot alone; it is never out of
  bounds.\<close>

theorem update_keeps_ring:
  assumes "ring_ok th"
  shows "case update_time r prev th of
      Inl e \<Rightarrow> e = Undefined
    | Inr (prev', th') \<Rightarrow> th' = th \<or>
        (ring_ok th' \<and> unat (index th') = (unat (index th) + 1) mod 10 \<and> cpu_freq th' = cpu_freq th \<and>
         tp (timedatas th' ! unat (index th')) = set_current_timepoint (r_tks_1 r) (r_tv r) (r_tks_2 r) \<and>
         (\<forall>i. i = unat (index th') \<or> timedatas th' ! i = timedatas th ! i))"
proof -
  let ?now = "set_current_timepoint (r_tks_1 r) (r_tv r) (r_tks_2 r)"
  have new: "tp (timedatas (store_timepoint ?now f th) ! unat (index (store_timepoint ?now f th))) = ?now" for f
    using store_timepoint_ok(3) [OF assms] current_ok [OF store_timepoint_ok(1) [OF assms]] by simp
  have old: "i = unat (index (store_timepoint ?now f th)) \<or>
      timedatas (store_timepoint ?now f th) ! i = timedatas th ! i" for f i
    using store_timepoint_ok(5) [OF assms] by blast
  show ?thesis
    using update_cases [OF assms, of r prev] new old store_timepoint_ok(1,2,4) [OF assms]
    by (cases "update_time r prev th") (fastforce simp del: One_nat_def)+
qed

definition step_back :: readings where
  "step_back = \<lparr>r_first = 0, r_curr = 4300, r_tks_1 = 4300, r_tv = \<lparr>tv_sec = 3, tv_usec = 0\<rparr>, r_tks_2 = 4300, r_last = 4300\<rparr>"

lemma demo_index: "index demo_th = 9"
  by (simp add: demo_th_def)

lemma demo_ring: "ring_ok demo_th"
  by (simp add: ring_ok_def demo_th_def TIMEDATAS_def)

lemma demo_update: "update_time step_back (Some 5000000) demo_th =
    Inr (Some 3000000, store_timepoint \<lparr>usecs = 3000000, ticks = 4300\<rparr> 1000 demo_th)"
proof -
  have now: "set_current_timepoint 4300 \<lparr>tv_sec = 3, tv_usec = 0\<rparr> 4300 = \<lparr>usecs = 3000000, ticks = 4300\<rparr>"
    by (simp add: set_current_timepoint_def timeval_to_usecs_def USECS_IN_SECS_def)
  have c: "get_time_usecs 4300 demo_th = Inr 7000000"
    using get_time_current [OF demo_current, of 4300] by (simp add: signed_divide_int_def)
  have l: "get_time_usecs 4300 (store_timepoint \<lparr>usecs = 3000000, ticks = 4300\<rparr> 1000 demo_th) = Inr 3000000"
    using get_time_current [OF store_timepoint_ok(3) [OF demo_ring], of _ 1000 4300] by simp
  have d: "timeval_diff 7000000 5000000 = 2000000" by (simp add: timeval_diff_def)
  show ?thesis
    unfolding update_time_def step_back_def readings.simps option.case rbind_simps c d demo_current
    by (simp add: now udiv64_def USECS_IN_SECS_def l)
qed

lemma update_keeps_ring_witness:
  "case update_time step_back (Some 5000000) demo_th of Inl e \<Rightarrow> False
    | Inr (x, th') \<Rightarrow> unat (index th') = 0 \<and> timedatas th' ! 1 = timedatas demo_th ! 1"
  using update_keeps_ring [OF demo_ring, of step_back "Some 5000000"]
    store_timepoint_ok(2) [OF demo_ring, of "\<lparr>usecs = 3000000, ticks = 4300\<rparr>" 1000]
  by (auto simp: demo_update demo_index)

text \<open>When the wall clock is set back, the unsigned difference of the two readings is huge, the
  measured frequency rounds down to 0 and the stored frequency is half the old one, so the clock runs
  twice as fast; when it reads the same microsecond twice the division is undefined.\<close>

theorem backward_step_halves_frequency:
  assumes "ring_ok th" and "current th = Inr td" and "get_time_usecs (r_curr r) th = Inr c"
    and "1000000 \<le> timeval_diff c p" and "set_current_timepoint (r_tks_1 r) (r_tv r) (r_tks_2 r) = now"
    and "(ticks now - ticks (tp td)) * USECS_IN_SECS < usecs now - usecs (tp td) \<or> usecs now = usecs (tp td)"
  shows "case update_time r (Some p) th of
      Inl e \<Rightarrow> e = Undefined
    | Inr (x, th') \<Rightarrow> usecs now \<noteq> usecs (tp td) \<and> current th' = Inr \<lparr>tp = now, freq = freq td div 2\<rparr>"
proof (cases "usecs now = usecs (tp td)")
  case True
  with assms show ?thesis by (simp add: update_time_alt current_ok Let_def udiv64_def)
next
  case False
  have "a div b = 0" if "a < b" for a b :: u64
    using that by (simp add: word_arith_nat_div word_less_nat_alt)
  with False assms have "update_time r (Some p) th =
      rbind (get_time_usecs (r_last r) (store_timepoint now (freq td div 2) th))
        (\<lambda>prev. Inr (Some prev, store_timepoint now (freq td div 2) th))"
    by (auto simp: update_time_alt current_ok Let_def udiv64_def)
  with False show ?thesis
    using get_time_undefined [OF store_timepoint_ok(1) [OF assms(1)]] store_timepoint_ok(3) [OF assms(1)]
    by (cases "get_time_usecs (r_last r) (store_timepoint now (freq td div 2) th)") auto
qed

lemma backward_step_halves_frequency_witness:
  "case update_time step_back (Some 5000000) demo_th of Inl e \<Rightarrow> e = Undefined
    | Inr (x, th') \<Rightarrow> current th' = Inr \<lparr>tp = \<lparr>usecs = 3000000, ticks = 4300\<rparr>, freq = 1000\<rparr>"
proof -
  have "get_time_usecs (r_curr step_back) demo_th = Inr 7000000"
    using get_time_current [OF demo_current, of 4300] by (simp add: step_back_def signed_divide_int_def)
  from backward_step_halves_frequency [OF demo_ring demo_current this, of 5000000 "\<lparr>usecs = 3000000, ticks = 4300\<rparr>"]
  show ?thesis
    by (auto simp: step_back_def timeval_diff_def set_current_timepoint_def timeval_to_usecs_def USECS_IN_SECS_def
        split: sum.splits)
qed

subsection \<open>Start\<close>

lemma dec_digits: "list_all is_digit (dec n) \<and> dec n \<noteq> []"
proof (induction n rule: dec.induct)
  case (1 n)
  have d: "is_digit (char_of (48 + k))" if "k < 10" for k :: nat
    using that by (simp add: is_digit_def of_char_of)
  show ?case
  proof (cases "n < 10")
    case True
    then show ?thesis using d by (simp add: dec.simps)
  next
    case False
    with 1 d [of "n mod 10"] show ?thesis by (simp add: dec.simps [of n])
  qed
qed

lemma digit_not: "is_digit c \<Longrightarrow> \<not> is_space c \<and> c \<noteq> CHR ''-'' \<and> c \<noteq> CHR ''+'' \<and> c \<noteq> CHR 0x0A"
  by (auto simp: is_digit_def is_space_def)

lemma atol_dec:
  assumes "n < 2 ^ 63"
  shows "atol (first_line (dec n @ CHR 0x0A # rest)) = Inr (int n)"
proof -
  have d: "list_all is_digit (dec n)" "dec n \<noteq> []" using dec_digits by auto
  have nl: "takeWhile (\<lambda>c. c \<noteq> CHR 0x0A) (dec n @ CHR 0x0A # rest) = dec n"
    using d digit_not by (subst takeWhile_append2) (auto simp: list_all_iff)
  have "n < 10 ^ 19" using assms by simp
  then have "length (dec n) \<le> 19" by (rule dec_length) simp
  then have fl: "first_line (dec n @ CHR 0x0A # rest) = dec n @ [CHR 0x0A]"
    by (simp add: first_line_def nl)
  obtain c cs where c: "dec n = c # cs" using d by (cases "dec n") auto
  have tw: "takeWhile is_digit (dec n @ [CHR 0x0A]) = dec n"
    using d by (subst takeWhile_append2) (auto simp: list_all_iff is_digit_def)
  have "is_digit c" using d c by simp
  from digit_not [OF this] have "atol (dec n @ [CHR 0x0A]) = int64 (int (undec (takeWhile is_digit (dec n @ [CHR 0x0A]))))"
    by (simp add: atol_def c)
  also have "\<dots> = Inr (int n)" using assms by (simp only: tw undec_dec) (simp add: int64_def)
  finally show ?thesis by (simp only: fl)
qed

text \<open>The constructor takes the frequency in kHz from the first line of
  \<^verbatim>\<open>scaling_max_freq\<close>, stores it in Hz with the first time point, and the time at that point is
  the wall clock's; a file that says 0, or that cannot be opened, makes it throw.\<close>

theorem start_reads_frequency:
  assumes "n < 2 ^ 50" and "k < 2 ^ 63" and "length raw = TIMEDATAS"
  shows "(case new_TimeHandler (Some (dec k @ CHR 0x0A # rest')) (Some (dec n @ CHR 0x0A # rest)) t1 tv t2 raw of
      Inl e \<Rightarrow> n = 0 \<and> e = Thrown
    | Inr th \<Rightarrow> n \<noteq> 0 \<and> ring_ok th \<and>
        current th = Inr \<lparr>tp = set_current_timepoint t1 tv t2, freq = word_of_nat (n * 1000)\<rparr> \<and>
        get_time_usecs (t1 div 2 + t2 div 2) th = Inr (timeval_to_usecs tv)) \<and>
    new_TimeHandler m None t1 tv t2 raw = Inl Thrown"
proof (rule conjI)
  let ?f = "word_of_nat (n * 1000) :: u64"
  have n63: "n < 2 ^ 63" using assms(1) by simp
  have max: "read_cpu_value (Some (dec n @ CHR 0x0A # rest)) 1000 = Inr ?f"
    by (simp add: read_cpu_value_def atol_dec [OF n63])
  have lt: "n * 1000 < 2 ^ 63" using assms(1) by simp
  then have uf: "unat ?f = n * 1000" by (intro unat_word_of_nat) simp
  then have f0: "?f = 0 \<longleftrightarrow> n = 0" by (metis mult_eq_0_iff unat_0 unat_eq_zero zero_neq_numeral)
  have chk: "\<exists>b. check_scaling (Some (dec k @ CHR 0x0A # rest')) (Some (dec n @ CHR 0x0A # rest)) = Inr b"
    by (simp add: check_scaling_def read_cpu_value_def atol_dec [OF n63] atol_dec [OF assms(2)])
  show "case new_TimeHandler (Some (dec k @ CHR 0x0A # rest')) (Some (dec n @ CHR 0x0A # rest)) t1 tv t2 raw of
      Inl e \<Rightarrow> n = 0 \<and> e = Thrown
    | Inr th \<Rightarrow> n \<noteq> 0 \<and> ring_ok th \<and>
        current th = Inr \<lparr>tp = set_current_timepoint t1 tv t2, freq = ?f\<rparr> \<and>
        get_time_usecs (t1 div 2 + t2 div 2) th = Inr (timeval_to_usecs tv)"
  proof (cases "n = 0")
    case True
    with max f0 show ?thesis by (simp add: new_TimeHandler_def get_cpu_freq_def Let_def)
  next
    case False
    let ?td = "\<lparr>tp = set_current_timepoint t1 tv t2, freq = ?f\<rparr>"
    define th where "th = \<lparr>index = 0, timedatas = raw[0 := ?td], cpu_freq = ?f\<rparr>"
    from False max f0 chk
    have new: "new_TimeHandler (Some (dec k @ CHR 0x0A # rest')) (Some (dec n @ CHR 0x0A # rest)) t1 tv t2 raw = Inr th"
      by (auto simp: new_TimeHandler_def get_cpu_freq_def Let_def th_def)
    have ok: "ring_ok th" using assms(3) by (simp add: ring_ok_def th_def TIMEDATAS_def)
    then have cur: "current th = Inr ?td" using assms(3) by (simp add: current_ok) (simp add: th_def TIMEDATAS_def)
    have "uint ?f = int (n * 1000)" by (simp only: uint_nat uf)
    moreover have "int (n * 1000) < 2 ^ 63" using assms(1) by simp
    ultimately have "sint ?f = int (n * 1000)"
      by (simp only: sint_uint) (rule signed_take_bit_int_eq_self, simp_all)
    with False have "0 < sint (freq ?td)" by simp
    from get_time_current [OF cur this, of "t1 div 2 + t2 div 2"]
    have "get_time_usecs (t1 div 2 + t2 div 2) th = Inr (timeval_to_usecs tv)"
      by (simp add: set_current_timepoint_def)
    with new ok cur False show ?thesis by simp
  qed
  show "new_TimeHandler m None t1 tv t2 raw = Inl Thrown"
    by (simp add: new_TimeHandler_def get_cpu_freq_def read_cpu_value_def Let_def)
qed

lemma start_reads_frequency_witness:
  "case new_TimeHandler (Some (dec 800000 @ CHR 0x0A # [])) (Some (dec 3000000 @ CHR 0x0A # [])) 40
      \<lparr>tv_sec = 1, tv_usec = 7\<rparr> 60 (replicate 10 \<lparr>tp = \<lparr>usecs = 0, ticks = 0\<rparr>, freq = 0\<rparr>) of
      Inl e \<Rightarrow> False
    | Inr th \<Rightarrow> get_time_usecs 50 th = Inr 1000007"
  using start_reads_frequency [where n = 3000000 and k = 800000 and ?t1.0 = 40 and ?t2.0 = 60 and rest = "[]" and rest' = "[]" and
      raw = "replicate 10 \<lparr>tp = \<lparr>usecs = 0, ticks = 0\<rparr>, freq = 0\<rparr>" and tv = "\<lparr>tv_sec = 1, tv_usec = 7\<rparr>"]
  by (auto simp: TIMEDATAS_def timeval_to_usecs_def USECS_IN_SECS_def split: sum.splits)

end
