(* ===== verification/System_Config.thy ===== *)
theory System_Config
  imports Ordered_Multimap "HOL-Library.List_Lexorder" "HOL-Library.Char_ord"
begin

text \<open>
  \<^verbatim>\<open>src/common/ConfigParser.h\<close> and \<^verbatim>\<open>src/core/System.h\<close>: the registered parameters, the configuration file,
  the command line (arguments of the form \<^verbatim>\<open>module{name:value,name:"value"}\<close>) and the clock.

  A position in a string is a \<^verbatim>\<open>size_t\<close>; \<open>npos\<close> is its largest value, and the code computes with it, so
  additions and differences wrap. Storing a value has no defined outcome in this program, see \<open>putValue\<close>, so that
  what matters is which parameters are asked to store one.
\<close>

subsection \<open>Parameters\<close>

record 'v ConfigParam =
  cp_prefix :: string
  cp_name :: string
  cp_value :: 'v

text \<open>The characters of a string up to its terminating zero.\<close>

definition cstr :: "string \<Rightarrow> string" where
  "cstr s = takeWhile (\<lambda>c. c \<noteq> CHR 0x00) s"

text \<open>
  \<open>cp_value\<close> is what \<^verbatim>\<open>CONFIG_COLUMN\<close> passes, a pointer to a member of a \<^verbatim>\<open>Config\<close>. \<^verbatim>\<open>putValue\<close> reads
  the text into that pointer, for which there is no extraction operator, and is a \<^verbatim>\<open>bool\<close> function that ends without
  a \<^verbatim>\<open>return\<close>, which is undefined behaviour whenever it is called: it has no result.
\<close>

definition putValue :: "string \<Rightarrow> 'v ConfigParam \<Rightarrow> 'v ConfigParam res" where
  "putValue v p = Inl Undefined"

fun putConfig :: "string \<Rightarrow> string \<Rightarrow> 'v ConfigParam list \<Rightarrow> 'v ConfigParam list res" where
  "putConfig name v [] = Inr []"
| "putConfig name v (p # ps) = rbind (if cstr (cp_name p) = name then putValue v p else Inr p) (\<lambda>p.
     rbind (putConfig name v ps) (\<lambda>ps. Inr (p # ps)))"

definition registerParam :: "'v ConfigParam list \<Rightarrow> 'v ConfigParam list \<Rightarrow> 'v ConfigParam list" where
  "registerParam columns ps = ps @ columns"

subsection \<open>The configuration file\<close>

definition is_blank :: "char \<Rightarrow> bool" where
  "is_blank c \<longleftrightarrow> c = CHR '' '' \<or> c = CHR 0x09"

definition isspace :: "char \<Rightarrow> bool" where
  "isspace c \<longleftrightarrow> c \<in> {CHR '' '', CHR 0x09, CHR 0x0A, CHR 0x0B, CHR 0x0C, CHR 0x0D}"

text \<open>\<^verbatim>\<open>*ptr\<close>\<close>

definition cur :: "string \<Rightarrow> char" where
  "cur ptr = (case ptr of [] \<Rightarrow> CHR 0x00 | c # _ \<Rightarrow> c)"

text \<open>\<^verbatim>\<open>sscanf(ptr, "%127s", name)\<close>\<close>

definition scan_name :: "string \<Rightarrow> string" where
  "scan_name ptr = take 127 (takeWhile (\<lambda>c. \<not> isspace c) (dropWhile isspace ptr))"

text \<open>
  The lines as \<^verbatim>\<open>fgets\<close> delivers them into 1024 bytes: up to a line feed, at most 1023 characters.
\<close>

definition fgets_line :: "string \<Rightarrow> string" where
  "fgets_line s = (let l = takeWhile (\<lambda>c. c \<noteq> CHR 0x0A) (take 1023 s)
     in if length l < length (take 1023 s) then l @ [CHR 0x0A] else l)"

lemma fgets_line_pos: "s \<noteq> [] \<Longrightarrow> fgets_line s \<noteq> []"
  by (cases s) (auto simp: fgets_line_def Let_def)

function fgets_lines :: "string \<Rightarrow> string list" where
  "fgets_lines s = (if s = [] then [] else fgets_line s # fgets_lines (drop (length (fgets_line s)) s))"
  by auto
termination
  by (relation "measure length") (use fgets_line_pos in auto)

declare fgets_lines.simps [simp del]

text \<open>The loop over the value never moves the pointer: \<open>c\<close> is the character it stands at.\<close>

fun value_loop :: "nat \<Rightarrow> bool \<Rightarrow> bool \<Rightarrow> char \<Rightarrow> bool \<Rightarrow> string \<Rightarrow> string res" where
  "value_loop 0 quota dquota c backslash v = Inl Diverges"
| "value_loop (Suc n) quota dquota c backslash v =
     (if c \<noteq> CHR 0x00 \<and> \<not> (c = CHR 0x27 \<and> quota) \<and> (\<not> (c = CHR 0x22 \<and> dquota) \<or> backslash) \<and>
         length v < 1024 - 128 - 1
      then if dquota \<and> c = CHR 0x5C then value_loop n quota dquota c True v
           else if \<not> quota \<and> dquota \<and> c = CHR '' '' then Inr v
           else value_loop n quota dquota c False (v @ [c])
      else Inr v)"

definition config_line :: "nat \<Rightarrow> string \<Rightarrow> 'v ConfigParam list \<Rightarrow> 'v ConfigParam list res" where
  "config_line fuel line ps =
     (let ptr = dropWhile is_blank (cstr line)
      in if cur ptr = CHR ''#'' then Inr ps
         else let name = scan_name ptr; ptr = dropWhile is_blank ptr
              in if cur ptr \<noteq> CHR ''='' then Inr ps
                 else let ptr = dropWhile is_blank (tl ptr);
                          quota = (cur ptr = CHR 0x27); ptr = (if quota then tl ptr else ptr);
                          dquota = (cur ptr = CHR 0x22); ptr = (if dquota then tl ptr else ptr)
                      in rbind (value_loop fuel quota dquota (cur ptr) False [])
                           (\<lambda>v. putConfig name v ps))"

fun config_lines :: "nat \<Rightarrow> string list \<Rightarrow> 'v ConfigParam list \<Rightarrow> 'v ConfigParam list res" where
  "config_lines fuel [] ps = Inr ps"
| "config_lines fuel (l # ls) ps = rbind (config_line fuel l ps) (config_lines fuel ls)"

text \<open>The file's contents, \<open>None\<close> when it cannot be opened.\<close>

definition loadConfigFromFile ::
  "nat \<Rightarrow> string option \<Rightarrow> 'v ConfigParam list \<Rightarrow> 'v ConfigParam list res" where
  "loadConfigFromFile fuel file ps =
     (case file of None \<Rightarrow> Inl Thrown | Some s \<Rightarrow> config_lines fuel (fgets_lines s) ps)"

subsection \<open>Strings\<close>

definition npos :: nat where "npos = 2 ^ 64 - 1"

definition size_add :: "nat \<Rightarrow> nat \<Rightarrow> nat" where "size_add a b = (a + b) mod 2 ^ 64"
definition size_sub :: "nat \<Rightarrow> nat \<Rightarrow> nat" where "size_sub a b = (a + 2 ^ 64 - b) mod 2 ^ 64"

definition str_find :: "char \<Rightarrow> string \<Rightarrow> nat \<Rightarrow> nat" where
  "str_find c s pos = (let k = pos + length (takeWhile (\<lambda>d. d \<noteq> c) (drop pos s)) in if k < length s then k else npos)"

definition substr :: "string \<Rightarrow> nat \<Rightarrow> nat \<Rightarrow> string res" where
  "substr s pos n = (if pos \<le> length s then Inr (take n (drop pos s)) else Inl Thrown)"

definition char_at :: "string \<Rightarrow> nat \<Rightarrow> char res" where
  "char_at s pos = (if pos < length s then Inr (s ! pos) else if pos = length s then Inr (CHR 0x00) else Inl OutOfBounds)"

subsection \<open>The command line\<close>

type_synonym props = "string \<Rightarrow> string option"

text \<open>\<^verbatim>\<open>insert\<close> keeps the value that is there.\<close>

definition props_insert :: "string \<Rightarrow> string \<Rightarrow> props \<Rightarrow> props" where
  "props_insert n v m = (case m n of Some _ \<Rightarrow> m | None \<Rightarrow> m(n := Some v))"

fun parse_params :: "nat \<Rightarrow> string \<Rightarrow> nat \<Rightarrow> nat \<Rightarrow> props \<Rightarrow> props res" where
  "parse_params 0 params pos index m = Inl Diverges"
| "parse_params (Suc n) params pos index m =
     (if \<not> pos < length params then Inr m
      else let index = str_find (CHR '':'') params index
           in rbind (if index \<noteq> npos then substr params pos (size_sub index pos) else Inr []) (\<lambda>name.
              let pos = size_add index 1
              in rbind (char_at params pos) (\<lambda>c.
                 if c = CHR 0x22
                 then let pos = size_add pos 1; index = str_find (CHR 0x22) params pos
                      in rbind (substr params pos (size_sub index pos)) (\<lambda>v.
                         parse_params n params (size_add index 1) index (props_insert name v m))
                 else let index = str_find (CHR '','') params index
                      in if index \<noteq> npos
                         then rbind (substr params pos (size_sub index pos)) (\<lambda>v.
                              parse_params n params (size_add index 1) index (props_insert name v m))
                         else rbind (substr params pos npos) (\<lambda>v.
                              parse_params n params (size_add pos (length v)) index (props_insert name v m)))))"

record 'v System =
  config_file :: string
  cmdlineConfig :: "(string \<times> props) list"
  config_list :: "'v ConfigParam list"

text \<open>\<^verbatim>\<open>std::multimap::insert\<close>: behind the entries whose key is not greater.\<close>

definition cmdline_add :: "string \<Rightarrow> props \<Rightarrow> (string \<times> props) list \<Rightarrow> (string \<times> props) list" where
  "cmdline_add k v m = takeWhile (\<lambda>(j, _). j \<le> k) m @ (k, v) # dropWhile (\<lambda>(j, _). j \<le> k) m"

definition process_arg :: "nat \<Rightarrow> string \<Rightarrow> 'v System \<Rightarrow> 'v System res" where
  "process_arg fuel cmd s =
     (let offs = str_find (CHR 0x7B) cmd 0
      in if offs \<noteq> npos \<and> last cmd = CHR 0x7D
         then let cmd = butlast cmd
              in rbind (substr cmd 0 offs) (\<lambda>module.
                 rbind (substr cmd (size_add offs 1) npos) (\<lambda>params.
                 rbind (parse_params fuel params 0 0 (\<lambda>_. None)) (\<lambda>m.
                 Inr (s\<lparr>cmdlineConfig := cmdline_add module m (cmdlineConfig s)\<rparr>))))
         else Inr s)"

fun process_args_loop :: "nat \<Rightarrow> string list \<Rightarrow> 'v System \<Rightarrow> 'v System res" where
  "process_args_loop fuel [] s = Inr s"
| "process_args_loop fuel (cmd # cmds) s = rbind (process_arg fuel cmd s) (process_args_loop fuel cmds)"

text \<open>\<^verbatim>\<open>printf("%s", M_VERSION)\<close> takes a \<^verbatim>\<open>double\<close> for a string.\<close>

definition processArgs :: "nat \<Rightarrow> string list \<Rightarrow> 'v System \<Rightarrow> (bool \<times> 'v System) res" where
  "processArgs fuel argv s =
     (if length argv = 2 \<and> argv ! 1 = ''-v'' then Inl Undefined
      else if length argv < 1 then Inr (False, s)
      else rbind (process_args_loop fuel (tl argv) (s\<lparr>config_file := hd argv\<rparr>)) (\<lambda>s. Inr (True, s)))"

text \<open>One command line entry over all parameters.\<close>

fun put_props :: "string \<Rightarrow> props \<Rightarrow> 'v ConfigParam list \<Rightarrow> 'v ConfigParam list res" where
  "put_props moduleName m [] = Inr []"
| "put_props moduleName m (p # ps) =
     rbind (case m (cp_name p) of Some v \<Rightarrow> if cp_prefix p = moduleName then putValue (cstr v) p else Inr p
              | None \<Rightarrow> Inr p) (\<lambda>p.
     rbind (put_props moduleName m ps) (\<lambda>ps. Inr (p # ps)))"

text \<open>\<^verbatim>\<open>find\<close> and the loop behind it: from the first entry of the module on, while the module stays the same.\<close>

definition module_entries :: "string \<Rightarrow> (string \<times> props) list \<Rightarrow> (string \<times> props) list" where
  "module_entries moduleName m = takeWhile (\<lambda>(k, _). k = moduleName) (dropWhile (\<lambda>(k, _). k \<noteq> moduleName) m)"

fun put_entries :: "string \<Rightarrow> (string \<times> props) list \<Rightarrow> 'v ConfigParam list \<Rightarrow> 'v ConfigParam list res" where
  "put_entries moduleName [] ps = Inr ps"
| "put_entries moduleName ((_, m) # es) ps = rbind (put_props moduleName m ps) (put_entries moduleName es)"

definition loadConfig :: "string \<Rightarrow> 'v ConfigParam list \<Rightarrow> 'v System \<Rightarrow> 'v System res" where
  "loadConfig moduleName columns s =
     rbind (put_entries moduleName (module_entries moduleName (cmdlineConfig s)) (registerParam columns (config_list s)))
       (\<lambda>ps. Inr (s\<lparr>config_list := ps\<rparr>))"

subsection \<open>The clock\<close>

definition SYSTEM_CLOCK_SEC :: nat where "SYSTEM_CLOCK_SEC = 1048576"

text \<open>Seconds and nanoseconds as \<^verbatim>\<open>clock_gettime\<close> gives them.\<close>

definition getClock :: "nat \<Rightarrow> nat \<Rightarrow> u64" where
  "getClock sec nsec = word_of_nat sec * word_of_nat SYSTEM_CLOCK_SEC + word_of_nat nsec div (1000000000 div word_of_nat SYSTEM_CLOCK_SEC)"

interpretation cmdline: ordered_multimap "\<lambda>m. m" cmdline_add
  by unfold_locales (simp add: cmdline_add_def)

subsection \<open>The arguments as they are read\<close>

text \<open>A list of parameters as a user writes it: name, whether the value is quoted, value.\<close>

type_synonym setting = "string \<times> bool \<times> string"

fun render_value :: "bool \<Rightarrow> string \<Rightarrow> string" where
  "render_value q v = (if q then CHR 0x22 # v @ [CHR 0x22] else v)"

fun render :: "setting list \<Rightarrow> string" where
  "render [] = []"
| "render ((n, q, v) # ps) = n @ CHR '':'' # render_value q v @ (if ps = [] then [] else CHR '','' # render ps)"

fun setting_ok :: "setting \<Rightarrow> bool" where
  "setting_ok (n, q, v) \<longleftrightarrow> CHR '':'' \<notin> set n \<and>
     (if q then CHR 0x22 \<notin> set v else CHR '','' \<notin> set v \<and> take 1 v \<noteq> [CHR 0x22])"

text \<open>What becomes of the names: after a quoted value the comma belongs to the next name.\<close>

fun read_names :: "string \<Rightarrow> setting list \<Rightarrow> (string \<times> string) list" where
  "read_names gap [] = []"
| "read_names gap ((n, q, v) # ps) = (gap @ n, v) # read_names (if q then '','' else []) ps"

lemma str_find_at:
  assumes "i \<le> length a" and "c \<notin> set (drop i a)"
  shows "str_find c (a @ c # b) i = length a"
proof -
  have "takeWhile (\<lambda>d. d \<noteq> c) (drop i (a @ c # b)) = drop i a"
    using assms by (subst drop_append, simp, subst takeWhile_append2) auto
  with assms(1) show ?thesis by (simp add: str_find_def)
qed

lemma str_find_none: "c \<notin> set (drop i s) \<Longrightarrow> str_find c s i = npos"
proof -
  assume "c \<notin> set (drop i s)"
  then have t: "takeWhile (\<lambda>d. d \<noteq> c) (drop i s) = drop i s" by (intro takeWhile_eq_all_conv [THEN iffD2]) auto
  show ?thesis unfolding str_find_def Let_def t by simp arith
qed

lemma size_arith [simp]:
  "a + b < npos \<Longrightarrow> size_add a b = a + b" "b \<le> a \<Longrightarrow> a < npos \<Longrightarrow> size_sub a b = a - b" "size_add npos 1 = 0"
  by (auto simp: size_add_def size_sub_def npos_def mod_if)

lemma substr_mid: "pos = length a \<Longrightarrow> n = length b \<Longrightarrow> substr (a @ b @ c) pos n = Inr b"
  by (simp add: substr_def)

lemma props_insert_map_of: "map_of xs ++ props_insert n v m = map_of ((n, v) # xs) ++ m"
  by (auto simp: props_insert_def map_add_def fun_eq_iff split: option.splits)

declare parse_params.simps [simp del]

lemma parse_params_end: "0 < fuel \<Longrightarrow> \<not> pos < length params \<Longrightarrow> parse_params fuel params pos index m = Inr m"
  by (cases fuel) (auto simp: parse_params.simps)

lemma parse_quoted:
  assumes "i \<le> length front" and "CHR '':'' \<notin> set (drop i front @ gap @ n)" and "CHR 0x22 \<notin> set v"
    and "s = front @ gap @ n @ CHR '':'' # CHR 0x22 # v @ CHR 0x22 # tail" and "length s < npos"
  shows "parse_params (Suc fuel) s (length front) i m =
    parse_params fuel s (length (front @ gap @ n @ CHR '':'' # CHR 0x22 # v @ [CHR 0x22]))
      (length (front @ gap @ n @ CHR '':'' # CHR 0x22 # v)) (props_insert (gap @ n) v m)"
proof -
  let ?k = "length (front @ gap @ n)" and ?p = "length (front @ gap @ n @ CHR '':'' # CHR 0x22 # v)"
  have f1: "str_find (CHR '':'') s i = ?k"
    using str_find_at [of i "front @ gap @ n" "CHR '':''" "CHR 0x22 # v @ CHR 0x22 # tail"] assms by simp
  have f2: "str_find (CHR 0x22) s (?k + 2) = ?p"
    using str_find_at [of "?k + 2" "front @ gap @ n @ CHR '':'' # CHR 0x22 # v" "CHR 0x22" tail] assms by simp
  have len: "?p < npos" "?k < npos" "?p \<noteq> npos" "?k \<noteq> npos" using assms(4,5) by simp_all
  have name: "substr s (length front) (size_sub ?k (length front)) = Inr (gap @ n)"
    using substr_mid [of "length front" front "length (gap @ n)" "gap @ n" "CHR '':'' # CHR 0x22 # v @ CHR 0x22 # tail"] len
    by (simp add: assms(4))
  have val: "substr s (?k + 2) (size_sub ?p (?k + 2)) = Inr v"
    using substr_mid [of "?k + 2" "front @ gap @ n @ [CHR '':'', CHR 0x22]" "length v" v "CHR 0x22 # tail"] len
    by (simp add: assms(4))
  have c: "char_at s (?k + 1) = Inr (CHR 0x22)" by (simp add: char_at_def assms(4) nth_append)
  have lt: "length front < length s" by (simp add: assms(4))
  show ?thesis
    using lt len f1 f2 name val c assms(4,5) by (simp add: parse_params.simps Let_def add.assoc)
qed

lemma parse_plain:
  assumes "i \<le> length front" and "CHR '':'' \<notin> set (drop i front @ gap @ n)" and "CHR '','' \<notin> set v" and "take 1 v \<noteq> [CHR 0x22]"
    and "s = front @ gap @ n @ CHR '':'' # v @ tail" and "length s < npos"
    and "tail = [] \<or> (\<exists>rest. tail = CHR '','' # rest)"
  shows "parse_params (Suc fuel) s (length front) i m =
    parse_params fuel s (length (front @ gap @ n @ CHR '':'' # v @ take 1 tail))
      (if tail = [] then npos else length (front @ gap @ n @ CHR '':'' # v)) (props_insert (gap @ n) v m)"
proof -
  let ?k = "length (front @ gap @ n)" and ?p = "length (front @ gap @ n @ CHR '':'' # v)"
  have f1: "str_find (CHR '':'') s i = ?k"
    using str_find_at [of i "front @ gap @ n" "CHR '':''" "v @ tail"] assms by simp
  have f2: "str_find (CHR '','') s ?k = (if tail = [] then npos else ?p)"
  proof (cases tail)
    case Nil
    with assms show ?thesis by (auto intro!: str_find_none)
  next
    case (Cons c rest)
    with assms(7) have "c = CHR '',''" by auto
    with Cons str_find_at [of ?k "front @ gap @ n @ CHR '':'' # v" "CHR '',''" rest] assms(3,5) show ?thesis by simp
  qed
  have len: "?p < npos" "?k < npos" "?p \<noteq> npos" "?k \<noteq> npos" using assms(5,6) by simp_all
  have name: "substr s (length front) (size_sub ?k (length front)) = Inr (gap @ n)"
    using substr_mid [of "length front" front "length (gap @ n)" "gap @ n" "CHR '':'' # v @ tail"] len by (simp add: assms(5))
  have val: "substr s (?k + 1) (size_sub ?p (?k + 1)) = Inr v"
    using substr_mid [of "?k + 1" "front @ gap @ n @ [CHR '':'']" "length v" v tail] len by (simp add: assms(5))
  have all: "tail = [] \<Longrightarrow> substr s (?k + 1) npos = Inr v"
    using assms(5,6) by (simp add: substr_def)
  obtain c where c: "char_at s (?k + 1) = Inr c" "c \<noteq> CHR 0x22"
    using assms(4,5,7) by (cases v) (auto simp: char_at_def nth_append)
  have lt: "length front < length s" by (simp add: assms(5))
  show ?thesis
    using lt len f1 f2 name val all c assms(5-7) by (cases tail) (auto simp: parse_params.simps Let_def add.assoc)
qed

lemma parse_render:
  "list_all setting_ok ps \<Longrightarrow> ps \<noteq> [] \<Longrightarrow> i \<le> length front \<Longrightarrow> CHR '':'' \<notin> set (drop i front @ gap) \<Longrightarrow>
   length (front @ gap @ render ps) < npos \<Longrightarrow> length ps < fuel \<Longrightarrow>
   parse_params fuel (front @ gap @ render ps) (length front) i m = Inr (map_of (read_names gap ps) ++ m)"
proof (induction ps arbitrary: front gap i m fuel)
  case (Cons p ps)
  obtain n q v where p: "p = (n, q, v)" by (cases p)
  obtain f where fuel: "fuel = Suc f" "length ps < f" using Cons.prems(6) by (cases fuel) auto
  let ?tail = "if ps = [] then [] else CHR '','' # render ps"
  let ?s = "front @ gap @ render (p # ps)"
  have n: "CHR '':'' \<notin> set (drop i front @ gap @ n)" using Cons.prems(1,4) p by auto
  show ?case
  proof (cases q)
    case True
    let ?front = "front @ gap @ n @ CHR '':'' # CHR 0x22 # v @ [CHR 0x22]"
    have step: "parse_params fuel ?s (length front) i m =
        parse_params f ?s (length ?front) (length ?front - 1) (props_insert (gap @ n) v m)"
      using parse_quoted [OF Cons.prems(3) n, of v ?s ?tail f m] Cons.prems(1,5) p True fuel(1) by simp
    show ?thesis
    proof (cases "ps = []")
      case True
      with step p \<open>q\<close> fuel show ?thesis
        by (subst step, subst parse_params_end) (auto simp: props_insert_map_of [of "[]", simplified])
    next
      case False
      with Cons.IH [of "length ?front - 1" ?front "'',''" f "props_insert (gap @ n) v m"] Cons.prems p True fuel step
      show ?thesis by (simp add: props_insert_map_of fun_upd_def)
    qed
  next
    case False
    let ?front = "front @ gap @ n @ CHR '':'' # v @ take 1 ?tail"
    have step: "parse_params fuel ?s (length front) i m =
        parse_params f ?s (length ?front) (if ?tail = [] then npos else length ?front - 1) (props_insert (gap @ n) v m)"
      using parse_plain [OF Cons.prems(3) n, of v ?s ?tail f m] Cons.prems(1,5) p False fuel(1) by simp
    show ?thesis
    proof (cases "ps = []")
      case True
      with step p False fuel show ?thesis
        by (subst step, subst parse_params_end) (auto simp: props_insert_map_of [of "[]", simplified])
    next
      case ps: False
      with Cons.IH [of "length ?front - 1" ?front "[]" f "props_insert (gap @ n) v m"] Cons.prems p False fuel step
      show ?thesis by (simp add: props_insert_map_of fun_upd_def)
    qed
  qed
qed simp

lemma process_arg_splits:
  assumes "CHR 0x7B \<notin> set module" and "length module + length params + 2 < npos"
  shows "process_arg fuel (module @ CHR 0x7B # params @ [CHR 0x7D]) s =
    rbind (parse_params fuel params 0 0 (\<lambda>_. None)) (\<lambda>m. Inr (s\<lparr>cmdlineConfig := cmdline_add module m (cmdlineConfig s)\<rparr>))"
proof -
  let ?cmd = "module @ CHR 0x7B # params @ [CHR 0x7D]"
  have f: "str_find (CHR 0x7B) ?cmd 0 = length module"
    using str_find_at [of 0 module "CHR 0x7B" "params @ [CHR 0x7D]"] assms(1) by simp
  have b: "butlast ?cmd = module @ CHR 0x7B # params" by (simp add: butlast_append)
  have "substr (module @ CHR 0x7B # params) 0 (length module) = Inr module"
    "substr (module @ CHR 0x7B # params) (length module + 1) npos = Inr params"
    using assms(2) by (simp_all add: substr_def)
  then show ?thesis using assms(2) by (simp add: process_arg_def f b Let_def)
qed

text \<open>An argument of the command line: a module and its settings.\<close>

fun render_arg :: "string \<times> setting list \<Rightarrow> string" where
  "render_arg (module, ps) = module @ CHR 0x7B # render ps @ [CHR 0x7D]"

fun arg_ok :: "nat \<Rightarrow> string \<times> setting list \<Rightarrow> bool" where
  "arg_ok fuel (module, ps) \<longleftrightarrow> CHR 0x7B \<notin> set module \<and> list_all setting_ok ps \<and>
     length (render_arg (module, ps)) < npos \<and> length ps < fuel"

fun read_arg :: "string \<times> setting list \<Rightarrow> string \<times> props" where
  "read_arg (module, ps) = (module, map_of (read_names [] ps))"

lemma process_arg_rendered:
  assumes "arg_ok fuel a"
  shows "process_arg fuel (render_arg a) s = Inr (s\<lparr>cmdlineConfig := (case read_arg a of (k, m) \<Rightarrow> cmdline_add k m (cmdlineConfig s))\<rparr>)"
proof -
  obtain module ps where a: "a = (module, ps)" by (cases a)
  with assms have ok: "CHR 0x7B \<notin> set module" "list_all setting_ok ps" "length module + length (render ps) + 2 < npos" "length ps < fuel"
    by simp_all
  have "parse_params fuel (render ps) 0 0 (\<lambda>_. None) = Inr (map_of (read_names [] ps))"
  proof (cases "ps = []")
    case True
    with ok(4) show ?thesis by (simp add: parse_params_end)
  next
    case False
    with parse_render [OF ok(2) False, of 0 "[]" "[]" fuel "\<lambda>_. None"] ok(3,4) show ?thesis by simp
  qed
  with process_arg_splits [OF ok(1,3), of fuel s] show ?thesis by (simp add: a)
qed

lemma module_entries_filter:
  "sorted (map fst m) \<Longrightarrow> module_entries k m = filter (\<lambda>(j, _). j = k) m"
proof (induction m)
  case (Cons p m)
  show ?case
  proof (cases "fst p = k")
    case True
    have "sorted (map fst m) \<Longrightarrow> \<forall>x \<in> set m. k \<le> fst x \<Longrightarrow> takeWhile (\<lambda>(j, _). j = k) m = filter (\<lambda>(j, _). j = k) m" for m :: "(string \<times> props) list"
    proof (induction m)
      case (Cons q m)
      show ?case
      proof (cases "fst q = k")
        case True
        with Cons show ?thesis by (cases q) simp
      next
        case False
        with Cons.prems have "\<forall>x \<in> set (q # m). k < fst x" by (cases q) force
        then have "filter (\<lambda>(j, _). j = k) (q # m) = []" by (auto simp: filter_empty_conv)
        with False show ?thesis by (cases q) simp
      qed
    qed simp
    with Cons.prems True show ?thesis by (cases p) (simp add: module_entries_def)
  next
    case False
    with Cons show ?thesis by (cases p) (simp add: module_entries_def)
  qed
qed (simp add: module_entries_def)

lemma process_args_rendered:
  "list_all (arg_ok fuel) args \<Longrightarrow> cmdline.in_order (cmdlineConfig s) \<Longrightarrow>
   \<exists>m. process_args_loop fuel (map render_arg args) s = Inr (s\<lparr>cmdlineConfig := m\<rparr>) \<and> cmdline.in_order m \<and>
     (\<forall>k. filter (\<lambda>(j, _). j = k) m = filter (\<lambda>(j, _). j = k) (cmdlineConfig s) @ filter (\<lambda>(j, _). j = k) (map read_arg args))"
proof (induction args arbitrary: s)
  case Nil
  then show ?case by (intro exI [of _ "cmdlineConfig s"]) simp
next
  case (Cons a args)
  obtain k m where r: "read_arg a = (k, m)" by (cases "read_arg a")
  let ?s = "s\<lparr>cmdlineConfig := cmdline_add k m (cmdlineConfig s)\<rparr>"
  have step: "process_arg fuel (render_arg a) s = Inr ?s" using process_arg_rendered [of fuel a s] Cons.prems r by simp
  have "cmdline.in_order (cmdlineConfig ?s)" using cmdline.add_in_order Cons.prems(2) by simp
  from Cons.IH [of ?s] this Cons.prems(1) obtain m' where
    "process_args_loop fuel (map render_arg args) ?s = Inr (s\<lparr>cmdlineConfig := m'\<rparr>)" "cmdline.in_order m'"
    "\<forall>i. filter (\<lambda>(j, _). j = i) m' = filter (\<lambda>(j, _). j = i) (cmdline_add k m (cmdlineConfig s)) @ filter (\<lambda>(j, _). j = i) (map read_arg args)"
    by auto
  with step cmdline.add_stable [OF Cons.prems(2)] r show ?case by (intro exI [of _ m']) simp
qed

lemma command_line_read:
  assumes "list_all (arg_ok fuel) args" and "cmdlineConfig s = []"
  shows "\<exists>m. processArgs fuel (prog # map render_arg args) s = Inr (True, s\<lparr>config_file := prog, cmdlineConfig := m\<rparr>) \<and>
    (\<forall>k. module_entries k m = filter (\<lambda>(j, _). j = k) (map read_arg args))"
proof -
  have v: "render_arg a \<noteq> ''-v''" for a
  proof
    assume "render_arg a = ''-v''"
    then have "last (render_arg a) = last ''-v''" by (rule arg_cong)
    then show False by (cases a) simp
  qed
  have "cmdline.in_order (cmdlineConfig (s\<lparr>config_file := prog\<rparr>))" using assms(2) by (simp add: cmdline.in_order_def)
  from process_args_rendered [OF assms(1) this] obtain m where
    m: "process_args_loop fuel (map render_arg args) (s\<lparr>config_file := prog\<rparr>) = Inr (s\<lparr>config_file := prog, cmdlineConfig := m\<rparr>)"
      "cmdline.in_order m" "\<forall>k. filter (\<lambda>(j, _). j = k) m = filter (\<lambda>(j, _). j = k) (map read_arg args)"
    using assms(2) by auto
  have "\<not> (length (prog # map render_arg args) = 2 \<and> (prog # map render_arg args) ! 1 = ''-v'')"
    using v by (cases args) auto
  with m module_entries_filter show ?thesis
    by (intro exI [of _ m]) (simp add: processArgs_def cmdline.in_order_def)
qed

text \<open>C24. The command line is read module by module: from any list of arguments, each a module and any
  settings, plain or quoted, the entries that \<^verbatim>\<open>loadConfig\<close> finds for a module are the arguments of
  that module in the order they were given, each mapping a name to the first value given for it. The name of a
  parameter behind a quoted value is read with the comma in front of it. No module contains an opening
  brace, no name a colon, no plain value a comma or a double quote in front, no quoted value a double quote, and no argument has
  \<open>npos\<close> or more characters; the fuel is above the number of settings of each argument.\<close>

theorem command_line_per_module:
  assumes "list_all (arg_ok fuel) args" and "cmdlineConfig s = []"
  shows "\<exists>s'. processArgs fuel (prog # map render_arg args) s = Inr (True, s') \<and>
    config_file s' = prog \<and> config_list s' = config_list s \<and>
    (\<forall>module. module_entries module (cmdlineConfig s') =
       map (\<lambda>(_, ps). (module, map_of (read_names [] ps))) (filter (\<lambda>(k, _). k = module) args))"
proof -
  have "filter (\<lambda>(j, _). j = k) (map read_arg as) = map (\<lambda>(_, ps). (k, map_of (read_names [] ps))) (filter (\<lambda>(j, _). j = k) as)" for k as
    by (induction as) auto
  with command_line_read [OF assms, of prog] show ?thesis by auto
qed

definition demo_columns :: "string ConfigParam list" where
  "demo_columns = [\<lparr>cp_prefix = ''M'', cp_name = ''a'', cp_value = ''0''\<rparr>, \<lparr>cp_prefix = ''M'', cp_name = ''c'', cp_value = ''0''\<rparr>,
     \<lparr>cp_prefix = ''N'', cp_name = ''a'', cp_value = ''0''\<rparr>]"

definition demo_system :: "string System" where
  "demo_system = \<lparr>config_file = [], cmdlineConfig = [], config_list = []\<rparr>"

text \<open>\<^verbatim>\<open>N{a:1,b:"x",c:2}\<close>, \<^verbatim>\<open>M{d:3}\<close> and \<^verbatim>\<open>N{a:4,a:5}\<close>: \<open>N\<close> has two entries, with \<open>a\<close> and \<open>b\<close> in the first and not \<open>c\<close>.\<close>

theorem command_line_per_module_witness:
  "\<exists>s'. processArgs 4 [''prog'', ''N{a:1,b:'' @ CHR 0x22 # ''x'' @ CHR 0x22 # '',c:2}'', ''M{d:3}'', ''N{a:4,a:5}''] demo_system = Inr (True, s') \<and>
     module_entries ''N'' (cmdlineConfig s') = [(''N'', [''a'' \<mapsto> ''1'', ''b'' \<mapsto> ''x'', '',c'' \<mapsto> ''2'']), (''N'', [''a'' \<mapsto> ''4''])]"
proof -
  let ?args = "[(''N'', [(''a'', False, ''1''), (''b'', True, ''x''), (''c'', False, ''2'')]), (''M'', [(''d'', False, ''3'')]),
     (''N'', [(''a'', False, ''4''), (''a'', False, ''5'')])]"
  have "list_all (arg_ok 4) ?args" "cmdlineConfig demo_system = []"
    by (simp_all add: npos_def demo_system_def)
  from command_line_per_module [OF this, of "''prog''"] obtain s' where
    "processArgs 4 (''prog'' # map render_arg ?args) demo_system = Inr (True, s')"
    "module_entries ''N'' (cmdlineConfig s') = map (\<lambda>(_, ps). (''N'', map_of (read_names [] ps))) (filter (\<lambda>(k, _). k = ''N'') ?args)"
    by blast
  then show ?thesis by (intro exI [of _ s']) (auto simp: fun_eq_iff)
qed

text \<open>What becomes of the entries: a parameter that one of them names is asked to store a value, which has no
  defined outcome; otherwise the columns are registered and nothing else changes.\<close>

definition asked :: "string \<Rightarrow> props \<Rightarrow> 'v ConfigParam \<Rightarrow> bool" where
  "asked moduleName m p \<longleftrightarrow> cp_prefix p = moduleName \<and> m (cp_name p) \<noteq> None"

lemma put_props_result:
  "put_props moduleName m ps = (if list_ex (asked moduleName m) ps then Inl Undefined else Inr ps)"
  by (induction ps) (auto simp: asked_def putValue_def split: option.splits)

lemma put_entries_result:
  "put_entries moduleName es ps = (if list_ex (\<lambda>(_, m). list_ex (asked moduleName m) ps) es then Inl Undefined else Inr ps)"
  by (induction es) (auto simp: put_props_result)

lemma loadConfig_result:
  "loadConfig moduleName columns s =
     (if list_ex (\<lambda>(_, m). list_ex (asked moduleName m) (config_list s @ columns)) (module_entries moduleName (cmdlineConfig s))
      then Inl Undefined else Inr (s\<lparr>config_list := config_list s @ columns\<rparr>))"
  by (simp add: loadConfig_def put_entries_result registerParam_def)

lemma parse_quote_spins:
  assumes "CHR 0x22 \<notin> set v" and "CHR '':'' \<notin> set v" and "length v + 1 < npos"
  shows "index = 0 \<or> index = npos \<Longrightarrow> parse_params fuel (CHR 0x22 # v) 0 index m = Inl Diverges"
proof (induction fuel arbitrary: index m)
  case (Suc n)
  let ?s = "CHR 0x22 # v"
  have 1: "str_find (CHR '':'') ?s index = npos"
    using assms(2,3) Suc.prems by (intro str_find_none) (auto dest: in_set_dropD)
  have 2: "str_find (CHR 0x22) ?s (Suc 0) = npos" using assms(1) by (intro str_find_none) simp
  have "substr ?s (Suc 0) (size_sub npos (Suc 0)) = Inr (take (size_sub npos (Suc 0)) v)" by (simp add: substr_def)
  moreover have "size_add 0 1 = Suc 0" "size_add npos 1 = 0" by (simp_all add: npos_def size_add_def)
  ultimately show ?case using 1 2 Suc.IH [of npos] by (simp add: parse_params.simps(2) char_at_def Let_def)
qed (simp add: parse_params.simps)

text \<open>An argument with a quote that is opened first and not closed, as \<^verbatim>\<open>M{"x}\<close>, hangs the program: the
  search fails, the position behind \<open>npos\<close> is the start again, and so for ever.\<close>

theorem unterminated_quote_hangs:
  assumes "CHR 0x7B \<notin> set module" and "CHR 0x22 \<notin> set v" and "CHR '':'' \<notin> set v" and "length module + length v + 3 < npos"
  shows "process_arg fuel (module @ CHR 0x7B # (CHR 0x22 # v) @ [CHR 0x7D]) s = Inl Diverges"
  using process_arg_splits [OF assms(1), of "CHR 0x22 # v" fuel s] parse_quote_spins [OF assms(2,3), of 0 fuel] assms(4)
  by simp

theorem unterminated_quote_hangs_witness:
  "process_arg 1000 (''M{'' @ CHR 0x22 # ''x}'') demo_system = Inl Diverges"
  using unterminated_quote_hangs [of "''M''" "''x''" 1000 demo_system] by (simp add: npos_def)

subsection \<open>The file\<close>

lemma value_loop_ends:
  "\<not> (dquota \<and> c = CHR 0x5C) \<Longrightarrow> length v \<le> 895 \<Longrightarrow> 895 < fuel + length v \<Longrightarrow>
     \<exists>v'. value_loop fuel quota dquota c b v = Inr v'"
proof (induction fuel arbitrary: b v)
  case (Suc n)
  show ?case
  proof (cases "length v = 895")
    case False
    with Suc show ?thesis by auto
  qed simp
qed simp

lemma value_loop_hangs: "length v < 895 \<Longrightarrow> value_loop fuel quota True (CHR 0x5C) b v = Inl Diverges"
  by (induction fuel arbitrary: b) auto

definition line_hangs :: "string \<Rightarrow> bool" where
  "line_hangs line \<longleftrightarrow>
     (let p = dropWhile is_blank (cstr line); q = dropWhile is_blank (tl p)
      in cur p = CHR ''='' \<and> take 2 (if cur q = CHR 0x27 then tl q else q) = [CHR 0x22, CHR 0x5C])"

lemma putConfig_foreign:
  assumes "\<forall>p \<in> set ps. take 1 (cp_name p) \<noteq> ''=''" and "cur ptr = CHR ''=''"
  shows "putConfig (scan_name ptr) v ps = Inr ps"
proof -
  obtain r where "ptr = CHR ''='' # r" using assms(2) by (cases ptr) (auto simp: cur_def)
  then have "take 1 (scan_name ptr) = ''=''" by (simp add: scan_name_def isspace_def)
  moreover have "take 1 (cstr s) = ''='' \<Longrightarrow> take 1 s = ''=''" for s
    by (cases s) (auto simp: cstr_def split: if_splits)
  ultimately have "cstr (cp_name p) \<noteq> scan_name ptr" if "p \<in> set ps" for p using assms(1) that by metis
  then show ?thesis by (induction ps) auto
qed

lemma config_line_foreign:
  assumes "\<forall>p \<in> set ps. take 1 (cp_name p) \<noteq> ''=''" and "895 < fuel"
  shows "config_line fuel line ps = (if line_hangs line then Inl Diverges else Inr ps)"
proof -
  let ?p = "dropWhile is_blank (cstr line)"
  let ?q = "dropWhile is_blank (tl ?p)"
  let ?r = "if cur ?q = CHR 0x27 then tl ?q else ?q"
  let ?t = "if cur ?r = CHR 0x22 then tl ?r else ?r"
  show ?thesis
  proof (cases "cur ?p = CHR ''=''")
    case False
    then show ?thesis by (simp add: config_line_def line_hangs_def Let_def dropWhile_idem)
  next
    case True
    let ?v = "value_loop fuel (cur ?q = CHR 0x27) (cur ?r = CHR 0x22) (cur ?t) False []"
    have "dropWhile is_blank ?p = ?p" by (rule dropWhile_idem)
    then have run: "config_line fuel line ps = rbind ?v (\<lambda>v. Inr ps)"
      using True putConfig_foreign [OF assms(1) True] by (simp add: config_line_def Let_def)
    have t: "line_hangs line \<longleftrightarrow> cur ?r = CHR 0x22 \<and> cur ?t = CHR 0x5C"
    proof -
      have "take 2 s = [CHR 0x22, CHR 0x5C] \<longleftrightarrow> cur s = CHR 0x22 \<and> cur (tl s) = CHR 0x5C" for s
        by (cases s; cases "tl s") (auto simp: cur_def)
      then show ?thesis using True by (simp add: line_hangs_def Let_def)
    qed
    show ?thesis
    proof (cases "line_hangs line")
      case hangs: True
      with t have "cur ?r = CHR 0x22" "cur ?t = CHR 0x5C" by blast+
      then show ?thesis using value_loop_hangs [of "[]" fuel "cur ?q = CHR 0x27" False] hangs by (simp add: run)
    next
      case False
      with t value_loop_ends [of "cur ?r = CHR 0x22" "cur ?t" "[]" fuel "cur ?q = CHR 0x27" False] assms(2)
      obtain v where "?v = Inr v" by auto
      with False show ?thesis by (simp only: run rbind_simps if_False)
    qed
  qed
qed

text \<open>The file is never used: a line whose first character is not an equals sign is skipped, and what is
  read from one that starts with it has a name that starts with it. So no parameter changes,
  whatever the file holds; only a backslash behind the opening double quote of such a line hangs
  the loop.\<close>

theorem config_file_ignored:
  assumes "\<forall>p \<in> set ps. take 1 (cp_name p) \<noteq> ''=''" and "895 < fuel"
  shows "loadConfigFromFile fuel (Some content) ps =
    (if \<exists>line \<in> set (fgets_lines content). line_hangs line then Inl Diverges else Inr ps)"
proof -
  have "config_lines fuel ls ps = (if \<exists>line \<in> set ls. line_hangs line then Inl Diverges else Inr ps)" for ls
    by (induction ls) (auto simp: config_line_foreign [OF assms])
  then show ?thesis by (simp add: loadConfigFromFile_def)
qed

theorem config_file_ignored_witness:
  "loadConfigFromFile 896 (Some (''a = 5'' @ [CHR 0x0A] @ ''=c'')) demo_columns = Inr demo_columns"
proof -
  have lines: "fgets_lines (''a = 5'' @ [CHR 0x0A] @ ''=c'') = [''a = 5'' @ [CHR 0x0A], ''=c'']"
    by (simp add: fgets_lines.simps fgets_line_def Let_def)
  have "\<not> line_hangs (''a = 5'' @ [CHR 0x0A])" "\<not> line_hangs ''=c''"
    by (simp_all add: line_hangs_def cstr_def is_blank_def cur_def Let_def)
  with config_file_ignored [of demo_columns 896 "''a = 5'' @ [CHR 0x0A] @ ''=c''"]
  show ?thesis unfolding lines by (simp add: demo_columns_def)
qed

subsection \<open>Time\<close>

text \<open>The clock counts in units of the second's part in 1048576, rounded so that a second holds up to
  1049317 of them: in the last 706119 nanoseconds of every second it is ahead of the start of the
  next one, so it goes back there.\<close>

theorem clock_goes_back:
  assumes "sec < 2 ^ 43" and "nsec < 1000000000"
  shows "unat (getClock sec nsec) = sec * 1048576 + nsec div 953 \<and>
    (getClock (sec + 1) 0 < getClock sec nsec \<longleftrightarrow> 999293881 \<le> nsec)"
proof -
  have clock: "unat (getClock s n) = s * 1048576 + n div 953" if "s \<le> 2 ^ 43" "n < 1000000000" for s n
  proof -
    have d: "1000000000 div word_of_nat SYSTEM_CLOCK_SEC = (953 :: u64)" by (simp add: SYSTEM_CLOCK_SEC_def)
    have n: "unat (word_of_nat n :: u64) = n" using that(2) by (intro unat_word_of_nat) simp
    have m: "unat (word_of_nat (n div 953) :: u64) = n div 953" using that(2) by (intro unat_word_of_nat) simp
    have q: "word_of_nat n div 953 = (word_of_nat (n div 953) :: u64)"
      by (simp only: word_unat_eq_iff unat_div n m) simp
    have "getClock s n = word_of_nat (s * 1048576 + n div 953)"
      unfolding getClock_def d q by (simp add: SYSTEM_CLOCK_SEC_def)
    moreover have "s * 1048576 + n div 953 < 2 ^ LENGTH(64)" using that by simp
    ultimately show ?thesis by (simp only: unat_word_of_nat)
  qed
  from clock [of sec nsec] clock [of "sec + 1" 0] assms show ?thesis
    by (auto simp: word_less_nat_alt)
qed

theorem clock_goes_back_witness:
  "unat (getClock 7 999999999) = 8389349 \<and> getClock (7 + 1) 0 < getClock 7 999999999"
  using clock_goes_back [of 7 999999999] by simp

end
