(* ===== verification/Cpu_Info.thy ===== *)
theory Cpu_Info
  imports System_Config Time_Handler
begin

text \<open>
  \<^verbatim>\<open>read_cpu_value\<close> of \<^verbatim>\<open>lib/TimeHandler.h\<close> as it is compiled with \<^verbatim>\<open>VIRTUAL_MACHINE_MODE\<close>: whatever file it is asked for, it
  takes the frequency from the line with index 7 of \<^verbatim>\<open>/proc/cpuinfo\<close>.

  \<open>line\<close> is the buffer of 1024 bytes, which \<^verbatim>\<open>fgets\<close> fills up to the zero behind the line it read; what is
  behind that is from longer lines before, at first uninitialised memory. \<open>hertz\<close> stands for the conversion of a text by \<^verbatim>\<open>atof\<close>,
  the product with a million and the conversion to \<^verbatim>\<open>uint64_t\<close>.
\<close>

definition fill_line :: "string \<Rightarrow> string \<Rightarrow> string" where
  "fill_line l line = l @ CHR 0x00 # drop (length l + 1) line"

text \<open>\<^verbatim>\<open>while (line[freq_index] != ':') ++freq_index;\<close> and the like for the spaces; the result is the text behind the character.\<close>

definition scan_freq :: "(string \<Rightarrow> u64) \<Rightarrow> string \<Rightarrow> u64 res" where
  "scan_freq hertz line =
     (case dropWhile (\<lambda>c. c \<noteq> CHR '':'') line of
        [] \<Rightarrow> Inl OutOfBounds
      | _ # rest \<Rightarrow> (case dropWhile (\<lambda>c. c = CHR '' '') rest of
          [] \<Rightarrow> Inl OutOfBounds
        | text \<Rightarrow> Inr (hertz (cstr text))))"

text \<open>\<open>raw\<close> is what \<^verbatim>\<open>cpu_freq\<close> holds uninitialised; it is returned when there is no such line.\<close>

fun cpuinfo_lines :: "(string \<Rightarrow> u64) \<Rightarrow> nat \<Rightarrow> string \<Rightarrow> u64 \<Rightarrow> string list \<Rightarrow> u64 res" where
  "cpuinfo_lines hertz line_index line raw [] = Inr raw"
| "cpuinfo_lines hertz line_index line raw (l # ls) =
     (if line_index = 7 then scan_freq hertz (fill_line l line)
      else cpuinfo_lines hertz (line_index + 1) (fill_line l line) raw ls)"

text \<open>Without the file the function ends without a value.\<close>

definition read_cpu_value_vm :: "(string \<Rightarrow> u64) \<Rightarrow> string option \<Rightarrow> string \<Rightarrow> u64 \<Rightarrow> u64 res" where
  "read_cpu_value_vm hertz cpuinfo line raw =
     (case cpuinfo of None \<Rightarrow> Inl Undefined | Some s \<Rightarrow> cpuinfo_lines hertz 0 line raw (fgets_lines s))"

lemma cpuinfo_lines_nth:
  "line_index \<le> 7 \<Longrightarrow> 7 < line_index + length ls \<Longrightarrow>
   \<exists>line'. cpuinfo_lines hertz line_index line f ls = scan_freq hertz (fill_line (ls ! (7 - line_index)) line')"
proof (induction ls arbitrary: line_index line)
  case (Cons l ls)
  show ?case
  proof (cases "line_index = 7")
    case False
    with Cons.prems have "7 - line_index = Suc (7 - (line_index + 1))" by simp
    with Cons.IH [of "line_index + 1" "fill_line l line"] Cons.prems False show ?thesis by auto
  qed auto
qed simp

lemma cpuinfo_lines_short:
  "line_index + length ls \<le> 7 \<Longrightarrow> cpuinfo_lines hertz line_index line f ls = Inr f"
  by (induction ls arbitrary: line_index line) auto

text \<open>The frequency is the number behind the colon of the eighth line, whatever the buffer held; with fewer lines
  it is uninitialised memory, and without the file nothing is returned.\<close>

theorem cpuinfo_eighth_line:
  assumes "7 < length (fgets_lines s)" and "fgets_lines s ! 7 = key @ CHR '':'' # replicate n (CHR '' '') @ v"
    and "CHR '':'' \<notin> set key" and "v \<noteq> []" and "hd v \<noteq> CHR '' ''" and "CHR 0x00 \<notin> set v" and "length (fgets_lines t) \<le> 7"
  shows "read_cpu_value_vm hertz (Some s) line f = Inr (hertz v) \<and> read_cpu_value_vm hertz (Some t) line f = Inr f \<and>
    read_cpu_value_vm hertz None line f = Inl Undefined"
proof -
  obtain line' where "read_cpu_value_vm hertz (Some s) line f = scan_freq hertz (fill_line (fgets_lines s ! 7) line')"
    using cpuinfo_lines_nth [of 0 "fgets_lines s" hertz line f] assms(1) by (auto simp: read_cpu_value_vm_def)
  moreover obtain rest where rest: "fill_line (fgets_lines s ! 7) line' = key @ CHR '':'' # replicate n (CHR '' '') @ v @ CHR 0x00 # rest"
    unfolding fill_line_def assms(2) by auto
  have "dropWhile (\<lambda>c. c \<noteq> CHR '':'') (key @ CHR '':'' # replicate n (CHR '' '') @ v @ CHR 0x00 # rest) =
      CHR '':'' # replicate n (CHR '' '') @ v @ CHR 0x00 # rest"
    using assms(3) by (subst dropWhile_append2) auto
  moreover have "dropWhile (\<lambda>c. c = CHR '' '') (replicate n (CHR '' '') @ v @ CHR 0x00 # rest) = v @ CHR 0x00 # rest"
    using assms(4,5) by (subst dropWhile_append2) (auto simp: neq_Nil_conv)
  moreover have "cstr (v @ CHR 0x00 # rest) = v"
    unfolding cstr_def using assms(6) by (subst takeWhile_append2) auto
  ultimately have "read_cpu_value_vm hertz (Some s) line f = Inr (hertz v)"
    using rest by (cases "v @ CHR 0x00 # rest") (simp_all add: scan_freq_def)
  with cpuinfo_lines_short [of 0 "fgets_lines t" hertz line f] assms(7) show ?thesis by (simp add: read_cpu_value_vm_def)
qed

text \<open>A line without a colon: the number is taken from what an earlier, longer line left in the buffer.\<close>

lemma stale_colon:
  "scan_freq hertz (fill_line ''cpu'' (fill_line ''MHz : 2400'' (replicate 1024 (CHR 0x00)))) = Inr (hertz ''2400'')"
  by (simp add: fill_line_def scan_freq_def cstr_def numeral_eq_Suc)

end
