(* ===== verification/Os_Windows.thy ===== *)
theory Os_Windows
  imports Packet_Details
begin

unbundle bit_operations_syntax

text \<open>
  The half of \<^verbatim>\<open>src/core/Os.h\<close> for Windows. What \<^verbatim>\<open>GetSystemTime\<close> and \<^verbatim>\<open>SystemTimeToFileTime\<close> answer is an argument: the
  milliseconds of the one and the two halves of the other. \<open>long\<close> has 32 bits there. The bit scans are the intrinsics of the
  compiler: \<open>None\<close> where they return 0 and leave the index as it is.
\<close>

subsection \<open>The time of day\<close>

definition EPOCH :: u64 where
  "EPOCH = 116444736000000000"

definition os_gettimeofday :: "u16 \<Rightarrow> u32 \<times> u32 \<Rightarrow> int \<times> int" where
  "os_gettimeofday wMilliseconds file_time =
     (let time = (ucast (fst file_time) :: u64);
          time = time + push_bit 32 (ucast (snd file_time))
      in (sint (ucast ((time - EPOCH) div 10000000) :: 32 word), int (unat wMilliseconds) * 1000))"

text \<open>
  Both calls describe the same moment, \<open>ms\<close> milliseconds after the first of January 1601: \<^verbatim>\<open>FILETIME\<close> counts units of 100 ns
  and \<^verbatim>\<open>SYSTEMTIME\<close> has no finer field than the millisecond.
\<close>

definition same_moment :: "nat \<Rightarrow> u16 \<Rightarrow> u32 \<times> u32 \<Rightarrow> bool" where
  "same_moment ms wMilliseconds file_time \<longleftrightarrow>
     unat (fst file_time) + 2 ^ 32 * unat (snd file_time) = 10000 * ms \<and> unat wMilliseconds = ms mod 1000"

definition epoch_ms :: nat where
  "epoch_ms = 11644473600000"

lemma file_time_value:
  "unat ((ucast lo :: u64) + push_bit 32 (ucast hi)) = unat (lo :: u32) + 2 ^ 32 * unat (hi :: u32)"
proof -
  have lo: "unat lo < 2 ^ 32" and hi: "unat hi < 2 ^ 32"
    using unsigned_less [of lo, where ?'a = nat] unsigned_less [of hi, where ?'a = nat] by simp_all
  have cast: "unat (ucast lo :: u64) = unat lo" "unat (ucast hi :: u64) = unat hi"
    using lo hi by (simp_all add: unsigned_ucast_eq take_bit_nat_eq_self)
  have "unat (push_bit 32 (ucast hi :: u64)) = take_bit 64 (push_bit 32 (unat hi))"
    by (simp add: unsigned_push_bit_eq cast(2))
  also have "\<dots> = 2 ^ 32 * unat hi"
    using hi by (simp add: push_bit_eq_mult take_bit_nat_eq_self mult.commute)
  finally have push: "unat (push_bit 32 (ucast hi :: u64)) = 2 ^ 32 * unat hi" .
  have "unat lo + 2 ^ 32 * unat hi < 2 ^ LENGTH(64)" using lo hi by simp
  then show ?thesis using cast(1) push by (subst unat_add_lem [THEN iffD1]) simp_all
qed

lemma sint_word32:
  assumes "n < 2 ^ 32"
  shows "sint (word_of_nat n :: 32 word) = int n - (if n < 2 ^ 31 then 0 else 2 ^ 32)"
proof -
  have "sint (word_of_nat n :: 32 word) = (int n + 2 ^ 31) mod 2 ^ 32 - 2 ^ 31"
    by (simp add: signed_of_nat signed_take_bit_eq_take_bit_shift take_bit_eq_mod)
  moreover have "(int n + 2 ^ 31) mod 2 ^ 32 = (if n < 2 ^ 31 then int n + 2 ^ 31 else int n - 2 ^ 31)"
  proof (cases "n < 2 ^ 31")
    case False
    then have "(int n + 2 ^ 31) mod 2 ^ 32 = (int n - 2 ^ 31 + 2 ^ 32) mod 2 ^ 32" by (simp add: add.commute)
    also have "\<dots> = int n - 2 ^ 31" using assms False by (subst mod_add_self2) (simp add: mod_pos_pos_trivial)
    finally show ?thesis using False by simp
  qed simp
  ultimately show ?thesis by simp
qed

text \<open>C35. The seconds and microseconds of every moment from 1970 on are exact, as far as the millisecond goes, until the
  seconds no longer fit 31 bits in January 2038; for the next 68 years after that they are those of a moment \<open>2 ^ 32\<close>
  seconds earlier.\<close>

theorem os_gettimeofday_exact:
  assumes "same_moment ms wms ft" and "epoch_ms \<le> ms" and "ms < epoch_ms + 1000 * 2 ^ 32"
  shows "let (sec, usec) = os_gettimeofday wms ft
    in 0 \<le> usec \<and> usec < 1000000 \<and>
       sec * 1000000 + usec = int (ms - epoch_ms) * 1000 - (if ms < epoch_ms + 1000 * 2 ^ 31 then 0 else 2 ^ 32 * 1000000)"
proof -
  define k where "k = ms - epoch_ms"
  have k: "ms = epoch_ms + k" "k < 1000 * 2 ^ 32" using assms(2,3) by (simp_all add: k_def)
  obtain lo hi where ft: "ft = (lo, hi)" by (cases ft)
  let ?t = "(ucast lo :: u64) + push_bit 32 (ucast hi)"
  have t: "unat ?t = 10000 * (epoch_ms + k)" using assms(1) k(1) by (simp add: same_moment_def ft file_time_value)
  have E: "unat EPOCH = 10000 * epoch_ms" by (simp add: EPOCH_def epoch_ms_def)
  have "EPOCH \<le> ?t" using t E by (simp add: word_le_nat_alt)
  then have d: "unat (?t - EPOCH) = 10000 * k" using t E by (simp add: unat_sub)
  then have sec: "unat ((?t - EPOCH) div 10000000) = k div 1000" by (simp add: unat_div)
  have w: "(ucast ((?t - EPOCH) div 10000000) :: 32 word) = word_of_nat (k div 1000)"
    by (rule word_unat_eq_iff [THEN iffD2]) (simp add: unsigned_ucast_eq sec unsigned_of_nat)
  have q: "k div 1000 < 2 ^ 32" using k(2) by simp
  have "sint (word_of_nat (k div 1000) :: 32 word) = int (k div 1000) - (if k div 1000 < 2 ^ 31 then 0 else 2 ^ 32)"
    using q by (rule sint_word32)
  moreover have "k div 1000 < 2 ^ 31 \<longleftrightarrow> ms < epoch_ms + 1000 * 2 ^ 31" using k(1) by auto
  moreover have "unat wms = k mod 1000"
    using assms(1) k(1) mod_mult_self3 [of 11644473600 1000 k] by (simp add: same_moment_def epoch_ms_def)
  moreover have "int (k div 1000) * 1000000 + int (k mod 1000) * 1000 = int k * 1000"
  proof -
    have "int (k div 1000) * 1000 + int (k mod 1000) = int k"
      by (metis div_mult_mod_eq of_nat_add of_nat_mult of_nat_numeral)
    then show ?thesis by simp
  qed
  moreover have "0 \<le> int (k mod 1000) * 1000 \<and> int (k mod 1000) * 1000 < 1000000" by auto
  ultimately show ?thesis
    by (cases "ms < epoch_ms + 1000 * 2 ^ 31") (simp_all add: os_gettimeofday_def Let_def ft w flip: k_def)
qed

text \<open>One second into 2000, and the second in January 2038 in which the seconds wrap around.\<close>

lemma sec_usec:
  assumes "sec * 1000000 + usec = (t :: int)" and "0 \<le> usec" and "usec < 1000000"
  shows "sec = t div 1000000 \<and> usec = t mod 1000000"
  using assms by (auto simp: div_pos_pos_trivial mod_pos_pos_trivial)

theorem os_gettimeofday_exact_witness:
  "os_gettimeofday 250 (word_of_nat (125911584012500000 mod 2 ^ 32), word_of_nat (125911584012500000 div 2 ^ 32)) = (946684801, 250000) \<and>
   fst (os_gettimeofday 0 (word_of_nat (137919572480000000 mod 2 ^ 32), word_of_nat (137919572480000000 div 2 ^ 32))) = - (2 ^ 31)"
proof -
  have low: "unat (word_of_nat (n mod 2 ^ 32) :: u32) = n mod 2 ^ 32" for n by (intro unat_word_of_nat) simp
  have high: "unat (word_of_nat (n div 2 ^ 32) :: u32) = n div 2 ^ 32" if "n < 2 ^ 64" for n
    using that by (intro unat_word_of_nat) simp
  have halves: "unat (word_of_nat (n mod 2 ^ 32) :: u32) + 2 ^ 32 * unat (word_of_nat (n div 2 ^ 32) :: u32) = n"
    if "n < 2 ^ 64" for n
    unfolding low high [OF that] by (rule mod_mult_div_eq)
  have moment: "same_moment ms wms (word_of_nat (10000 * ms mod 2 ^ 32), word_of_nat (10000 * ms div 2 ^ 32))"
    if "10000 * ms < 2 ^ 64" "unat wms = ms mod 1000" for ms wms
    unfolding same_moment_def fst_conv snd_conv using halves [OF that(1)] that(2) by blast
  have "same_moment 12591158401250 250 (word_of_nat (125911584012500000 mod 2 ^ 32), word_of_nat (125911584012500000 div 2 ^ 32))"
    "same_moment 13791957248000 0 (word_of_nat (137919572480000000 mod 2 ^ 32), word_of_nat (137919572480000000 div 2 ^ 32))"
    using moment [of 12591158401250 250] moment [of 13791957248000 0] by simp_all
  from os_gettimeofday_exact [OF this(1)] os_gettimeofday_exact [OF this(2)] show ?thesis
    by (auto simp: epoch_ms_def Let_def split: prod.splits dest!: sec_usec)
qed

subsection \<open>The bit scans\<close>

definition win_bitScanForward :: "u32 \<Rightarrow> nat option" where
  "win_bitScanForward w = find (bit w) [0 ..< 32]"

definition win_bitScanReverse :: "u32 \<Rightarrow> nat option" where
  "win_bitScanReverse w = find (bit w) (rev [0 ..< 32])"

text \<open>The two addresses under a mask, as \<open>PacketDetails\<close> computes them with these scans.\<close>

definition win_masked_addrs :: "mem \<Rightarrow> nat \<Rightarrow> u32 \<Rightarrow> (u32 \<times> u32) res" where
  "win_masked_addrs m a msk =
     (case (win_bitScanForward msk, win_bitScanReverse msk) of
        (Some indStart, Some indEnd) \<Rightarrow>
          let shiftedMask = drop_bit indStart msk
          in Inr (drop_bit indStart (ld32 m a) AND shiftedMask, drop_bit indEnd (ld32 m a) AND shiftedMask)
      | _ \<Rightarrow> Inl Undefined)"

text \<open>The two ports agree on the first bit and differ by one on the last.\<close>

theorem scans_of_ports:
  "(case win_bitScanForward w of None \<Rightarrow> w = 0 | Some i \<Rightarrow> bitScanForward w = i) \<and>
   (case win_bitScanReverse w of None \<Rightarrow> bitScanReverse w = Inl Undefined | Some i \<Rightarrow> bitScanReverse w = Inr (i + 1))"
proof -
  have "w = 0" if "find (bit w) [0 ..< 32] = None"
    using that by (intro bit_word_eqI) (auto simp: find_None_iff)
  then show ?thesis
    by (auto simp: win_bitScanForward_def win_bitScanReverse_def bitScanForward_def bitScanReverse_def split: option.splits)
qed

text \<open>So the second point code of a layer whose mask is the low byte is its neighbour on Linux, and on Windows the neighbour
  moved up by one bit, with the highest bit of the first address below.\<close>

theorem windows_second_address:
  "masked_addrs m a 0xFF = Inr (ucast (m a), ucast (m (a + 1)))"
  "win_masked_addrs m a 0xFF = Inr (ucast (m a), ucast (push_bit 1 (m (a + 1)) OR drop_bit 7 (m a)))"
proof -
  have scans: "find (bit (0xFF :: u32)) (rev [0 ..< 32]) = Some 7" "find (bit (0xFF :: u32)) [0 ..< 32] = Some 0" by code_simp+
  have ff: "x AND 0xFF = take_bit 8 x" for x :: u32
  proof -
    have "0xFF = (mask 8 :: u32)" by code_simp
    then show ?thesis by (simp only: take_bit_eq_mask)
  qed
  have le: "bit (b :: u8) n \<Longrightarrow> n < 8" for b n using bit_imp_le_length [of b n] by simp
  have lo: "ld32 m a AND 0xFF = ucast (m a)"
    unfolding ff by (rule bit_word_eqI) (auto simp: ld32_def ld16_def bit_simps dest: le)
  have hi: "drop_bit 8 (ld32 m a) AND 0xFF = ucast (m (a + 1))"
    unfolding ff by (rule bit_word_eqI) (auto simp: ld32_def ld16_def bit_simps dest: le)
  have shifted: "drop_bit 7 (ld32 m a) AND 0xFF = ucast (push_bit 1 (m (a + 1)) OR drop_bit 7 (m a))"
    unfolding ff by (rule bit_word_eqI) (auto simp: ld32_def ld16_def bit_simps simp del: push_bit_Suc dest: le)
  show "masked_addrs m a 0xFF = Inr (ucast (m a), ucast (m (a + 1)))"
    using lo hi by (simp add: masked_addrs_def bitScanForward_def bitScanReverse_def scans)
  show "win_masked_addrs m a 0xFF = Inr (ucast (m a), ucast (push_bit 1 (m (a + 1)) OR drop_bit 7 (m a)))"
    using lo shifted by (simp add: win_masked_addrs_def win_bitScanForward_def win_bitScanReverse_def scans)
qed

end
