(* ===== verification/Capture.thy ===== *)
theory Capture
  imports Packet_Chain Time_Handler
begin

text \<open>
  \<^verbatim>\<open>src/drivers\<close>: packets from libpcap. \<^verbatim>\<open>Capture.h\<close> asks its drivers in turn for packets and has them written into
  one array; \<^verbatim>\<open>DriverPcap\<close> is the only driver, for interfaces and files; \<^verbatim>\<open>DriverOffline\<close> holds the packets
  of a file back until as much time has passed as between their time stamps.

  The library is a parameter: the record of a driver holds \<open>pcap_dispatch\<close> and \<open>pcap_datalink\<close> of its handle. What is
  relied on is its documentation: with a positive count, at most so many packets are
  given to the callback. \<open>now\<close> is what the clock says during a call and \<open>tks\<close> the tick counter; an arriving
  packet carries the address \<^verbatim>\<open>malloc\<close> gives for it and what the memory there holds.
\<close>

subsection \<open>Memory\<close>

text \<open>Packets, their data, and the array of packet pointers.\<close>

record memory =
  pkts :: heap
  pkt_bytes :: "nat \<Rightarrow> mem"
  bulk :: "nat option list"

definition store_bulk :: "nat \<Rightarrow> nat \<Rightarrow> memory \<Rightarrow> memory res" where
  "store_bulk i a m = (if i < length (bulk m) then Inr (m\<lparr>bulk := (bulk m)[i := Some a]\<rparr>) else Inl OutOfBounds)"

record arrival =
  ar_ts :: timeval
  ar_caplen :: u32
  ar_data :: "u8 list"
  ar_addr :: nat
  ar_raw :: PacketDetails

subsection \<open>Files in their own time\<close>

record DriverOffline =
  off_pkt :: "nat option"
  pkt_time :: u64
  pkt_sent :: u64

definition new_DriverOffline :: DriverOffline where
  "new_DriverOffline = \<lparr>off_pkt = None, pkt_time = 0, pkt_sent = 0\<rparr>"

definition offlinePkt :: "DriverOffline \<Rightarrow> nat option" where
  "offlinePkt w = off_pkt w"

definition offlineProcess :: "u64 \<Rightarrow> nat \<Rightarrow> timeval \<Rightarrow> DriverOffline \<Rightarrow> (bool \<times> DriverOffline) res" where
  "offlineProcess cur_time pkt ts w =
     rbind (rassert (off_pkt w = None)) (\<lambda>_.
       let t = timeval_to_usecs ts;
           diff = (if pkt_time w \<noteq> 0 \<and> t > pkt_time w then t - pkt_time w else 0);
           w = w\<lparr>pkt_time := t, pkt_sent := pkt_sent w + diff\<rparr>;
           w = (if pkt_sent w = 0 then w\<lparr>pkt_sent := cur_time\<rparr> else w);
           w = (if pkt_sent w > cur_time then w\<lparr>off_pkt := Some pkt\<rparr> else w)
       in Inr (off_pkt w \<noteq> None, w))"

definition offlineHandle :: "u64 \<Rightarrow> u64 \<Rightarrow> nat \<Rightarrow> DriverOffline \<times> memory \<Rightarrow> (nat \<times> DriverOffline \<times> memory) res" where
  "offlineHandle cur_time tks pos = (\<lambda>(w, m).
     case off_pkt w of
       None \<Rightarrow> Inl AssertFail
     | Some a \<Rightarrow>
         if pkt_sent w \<le> cur_time
         then rbind (deref a (pkts m)) (\<lambda>p.
              rbind (store_bulk pos a (m\<lparr>pkts := (pkts m)(a := Some (Packet_Chain.update_time tks p))\<rparr>)) (\<lambda>m.
              Inr (1, w\<lparr>off_pkt := None\<rparr>, m)))
         else Inr (0, w, m))"

subsection \<open>The driver\<close>

record DriverStatistic =
  rx_bytes :: u64
  rx_packs :: u64
  rx_drop :: u64
  rx_bytes_prev :: u64
  rx_packs_prev :: u64

record 'h DriverPcap = DriverOffline +
  handle :: 'h
  pcap_dispatch :: "'h \<Rightarrow> int \<Rightarrow> int \<times> arrival list \<times> 'h"
  pcap_datalink :: "'h \<Rightarrow> int"
  currPkts :: nat
  currBulk :: nat
  offline :: bool
  finished :: bool
  prev :: timeval
  stat :: DriverStatistic

definition no_stat :: DriverStatistic where
  "no_stat = \<lparr>rx_bytes = 0, rx_packs = 0, rx_drop = 0, rx_bytes_prev = 0, rx_packs_prev = 0\<rparr>"

text \<open>The constructor: \<open>opened\<close> is what \<^verbatim>\<open>pcap_open_offline\<close> or \<^verbatim>\<open>pcap_open_live\<close> gives.\<close>

definition new_DriverPcap :: "string \<Rightarrow> (bool \<Rightarrow> 'h option) \<Rightarrow> ('h \<Rightarrow> int \<Rightarrow> int \<times> arrival list \<times> 'h) \<Rightarrow> ('h \<Rightarrow> int) \<Rightarrow> timeval
    \<Rightarrow> 'h DriverPcap res" where
  "new_DriverPcap iface opened disp dl now =
     (let file = (take 5 iface = ''file='')
      in case opened file of
           None \<Rightarrow> Inl Thrown
         | Some h \<Rightarrow> Inr (DriverOffline.extend new_DriverOffline
             (DriverPcap.fields h disp dl 0 0 file False now no_stat)))"

text \<open>The link types of the library that the callback names.\<close>

definition DLT_MTP2 :: int where "DLT_MTP2 = 140"
definition DLT_MTP3 :: int where "DLT_MTP3 = 141"
definition DLT_LAPD :: int where "DLT_LAPD = 203"

definition link_type :: "int \<Rightarrow> ptype2" where
  "link_type dl = (if dl = DLT_MTP2 then L2Mtp else if dl = DLT_MTP3 then L2Mtp3 else if dl = DLT_LAPD then L2Lapd else L2Eth)"

text \<open>The packet: allocated, copied, its lengths and type set.\<close>

definition new_packet :: "u64 \<Rightarrow> arrival \<Rightarrow> int \<Rightarrow> memory \<Rightarrow> memory res" where
  "new_packet tks a dl m =
     (let pkt = ar_addr a; len = unat (ar_caplen a); h = allocPacket tks (ar_raw a) pkt len (pkts m)
      in rbind (deref pkt h) (\<lambda>p.
         let p = p\<lparr>caplen := ucast (ar_caplen a), plength := ucast (ar_caplen a), pk_type := link_type dl\<rparr>
         in Inr (m\<lparr>pkts := h(pkt := Some p),
                   pkt_bytes := (pkt_bytes m)(pkt := memcpy 0 (take len (ar_data a)) (pkt_bytes m pkt))\<rparr>)))"

definition count_packet :: "u32 \<Rightarrow> 'h DriverPcap \<Rightarrow> 'h DriverPcap" where
  "count_packet n drv = drv\<lparr>stat := (stat drv)\<lparr>rx_bytes := rx_bytes (stat drv) + ucast (ucast n :: u16),
     rx_packs := rx_packs (stat drv) + 1\<rparr>\<rparr>"

definition put_packet :: "nat \<Rightarrow> 'h DriverPcap \<Rightarrow> memory \<Rightarrow> ('h DriverPcap \<times> memory) res" where
  "put_packet pkt drv m = rbind (store_bulk (currBulk drv + currPkts drv) pkt m) (\<lambda>m. Inr (drv\<lparr>currPkts := currPkts drv + 1\<rparr>, m))"

definition pcapHandler :: "u64 \<Rightarrow> u64 \<Rightarrow> arrival \<Rightarrow> 'h DriverPcap \<times> memory \<Rightarrow> ('h DriverPcap \<times> memory) res" where
  "pcapHandler now tks a = (\<lambda>(drv, m).
     if ar_caplen a \<ge> 65536 then Inr (drv, m)
     else rbind (new_packet tks a (pcap_datalink drv (handle drv)) m) (\<lambda>m.
       let drv = count_packet (ar_caplen a) drv
       in if offline drv
          then rbind (offlineProcess now (ar_addr a) (ar_ts a) (DriverOffline.truncate drv)) (\<lambda>(held, w).
               let drv = drv\<lparr>off_pkt := off_pkt w, pkt_time := pkt_time w, pkt_sent := pkt_sent w\<rparr>
               in if held then Inr (drv, m) else put_packet (ar_addr a) drv m)
          else put_packet (ar_addr a) drv m))"

fun pcap_callbacks :: "u64 \<Rightarrow> u64 \<Rightarrow> arrival list \<Rightarrow> 'h DriverPcap \<times> memory \<Rightarrow> ('h DriverPcap \<times> memory) res" where
  "pcap_callbacks now tks [] s = Inr s"
| "pcap_callbacks now tks (a # as) s = rbind (pcapHandler now tks a s) (pcap_callbacks now tks as)"

text \<open>A count is handed to the library as a 32-bit \<^verbatim>\<open>int\<close>.\<close>

definition to_int :: "nat \<Rightarrow> int" where
  "to_int n = sint (word_of_nat n :: u32)"

definition pcap_getPackets :: "u64 \<Rightarrow> u64 \<Rightarrow> nat \<Rightarrow> nat \<Rightarrow> 'h DriverPcap \<Rightarrow> memory
    \<Rightarrow> (nat \<times> 'h DriverPcap \<times> memory) res" where
  "pcap_getPackets now tks pos bulkLimit drv m =
     (let drv = drv\<lparr>currPkts := 0, currBulk := pos\<rparr>
      in case offlinePkt (DriverOffline.truncate drv) of
           Some _ \<Rightarrow>
             rbind (rassert (offline drv)) (\<lambda>_.
             rbind (offlineHandle now tks (currBulk drv + currPkts drv) (DriverOffline.truncate drv, m)) (\<lambda>(n, w, m).
               let drv = drv\<lparr>off_pkt := off_pkt w, currPkts := currPkts drv + n\<rparr>
               in Inr (currPkts drv, drv, m)))
         | None \<Rightarrow>
             let (r, as, h) = pcap_dispatch drv (handle drv) (if offline drv then 1 else to_int bulkLimit)
             in rbind (pcap_callbacks now tks as (drv, m)) (\<lambda>(drv, m).
                let drv = drv\<lparr>handle := h\<rparr>
                in if r < 0 then Inr (0, drv, m)
                   else let drv = (if offline drv \<and> currPkts drv = 0 \<and> off_pkt drv = None then drv\<lparr>finished := True\<rparr> else drv)
                        in Inr (currPkts drv, drv, m)))"

definition pcap_idle :: "timeval \<Rightarrow> 'h DriverPcap \<Rightarrow> 'h DriverPcap" where
  "pcap_idle tv drv =
     (if timeval_diff_tv tv (prev drv) > 500000
      then let st = stat drv
           in drv\<lparr>prev := tv, stat := st\<lparr>rx_bytes_prev := rx_bytes st, rx_packs_prev := rx_packs st\<rparr>\<rparr>
      else drv)"

subsection \<open>The capture\<close>

text \<open>
  The drivers behind their common interface: \<open>get\<close> is the virtual \<^verbatim>\<open>getPackets\<close>. Each driver comes with
  the answer of its lock to \<^verbatim>\<open>try_to_lock\<close>.
\<close>

fun capture_loop :: "(nat \<Rightarrow> nat \<Rightarrow> 'd \<Rightarrow> memory \<Rightarrow> (nat \<times> 'd \<times> memory) res) \<Rightarrow> nat \<Rightarrow> (bool \<times> 'd) list \<Rightarrow> nat \<Rightarrow> memory
    \<Rightarrow> (nat \<times> 'd list \<times> memory) res" where
  "capture_loop get limit [] got m = Inr (got, [], m)"
| "capture_loop get limit ((owns, d) # ds) got m =
     (if owns
      then rbind (get got limit d m) (\<lambda>(n, d, m). rbind (capture_loop get limit ds (got + n) m) (\<lambda>(got, ds, m). Inr (got, d # ds, m)))
      else rbind (capture_loop get limit ds got m) (\<lambda>(got, ds, m). Inr (got, d # ds, m)))"

definition capture_getPackets :: "(nat \<Rightarrow> nat \<Rightarrow> 'd \<Rightarrow> memory \<Rightarrow> (nat \<times> 'd \<times> memory) res) \<Rightarrow> nat \<Rightarrow> (bool \<times> 'd) list \<Rightarrow> memory
    \<Rightarrow> (nat \<times> 'd list \<times> memory) res" where
  "capture_getPackets get bulkLimit ds m = capture_loop get (bulkLimit div length ds) ds 0 m"

definition capture_finished :: "('d \<Rightarrow> bool) \<Rightarrow> 'd list \<Rightarrow> bool" where
  "capture_finished fin ds = fold (\<lambda>d finished. if \<not> fin d then False else finished) ds True"

fun capture_idle :: "(nat \<Rightarrow> 'd \<Rightarrow> 'd) \<Rightarrow> nat \<Rightarrow> 'd list \<Rightarrow> 'd list" where
  "capture_idle idle i [] = []"
| "capture_idle idle i (d # ds) = idle i d # capture_idle idle (i + 1) ds"

subsection \<open>The contract of a driver\<close>

text \<open>\<open>[a, b)\<close> of the array holds packets, and what lies outside of \<open>[a, b)\<close> is as it was.\<close>

definition filled :: "nat \<Rightarrow> nat \<Rightarrow> memory \<Rightarrow> bool" where
  "filled a b m \<longleftrightarrow> (\<forall>i. a \<le> i \<and> i < b \<longrightarrow> bulk m ! i \<noteq> None)"

definition same_outside :: "nat \<Rightarrow> nat \<Rightarrow> memory \<Rightarrow> memory \<Rightarrow> bool" where
  "same_outside a b m m' \<longleftrightarrow> length (bulk m') = length (bulk m) \<and>
     (\<forall>i. i < a \<or> b \<le> i \<longrightarrow> bulk m' ! i = bulk m ! i) \<and> dom (pkts m) \<subseteq> dom (pkts m')"

lemma same_outside_refl [simp]: "same_outside a b m m"
  by (simp add: same_outside_def)

lemma same_outside_trans:
  "same_outside a b m m' \<Longrightarrow> same_outside c d m' m'' \<Longrightarrow> e \<le> a \<Longrightarrow> e \<le> c \<Longrightarrow> b \<le> f \<Longrightarrow> d \<le> f \<Longrightarrow> same_outside e f m m''"
  by (auto simp: same_outside_def iff del: domIff)

lemma filled_join: "filled a b m \<Longrightarrow> same_outside b d m m' \<Longrightarrow> filled b c m' \<Longrightarrow> filled a c m'"
  unfolding filled_def same_outside_def by (metis not_le)

text \<open>A driver that is asked for at most \<open>limit\<close> packets puts no more into the array, from \<open>pos\<close> on without a gap.\<close>

locale packet_driver =
  fixes get :: "nat \<Rightarrow> nat \<Rightarrow> 'd \<Rightarrow> memory \<Rightarrow> (nat \<times> 'd \<times> memory) res" and ok :: "'d \<Rightarrow> memory \<Rightarrow> bool"
  assumes get_ok: "ok d m \<Longrightarrow> 0 < limit \<Longrightarrow> limit < 2 ^ 31 \<Longrightarrow> pos + limit \<le> length (bulk m) \<Longrightarrow>
      \<exists>n d' m'. get pos limit d m = Inr (n, d', m') \<and> ok d' m' \<and> n \<le> limit \<and> same_outside pos (pos + limit) m m' \<and>
        filled pos (pos + n) m'"
    and ok_mono: "ok d m \<Longrightarrow> dom (pkts m) \<subseteq> dom (pkts m') \<Longrightarrow> ok d m'"
begin

lemma loop_ok:
  "(\<And>d. d \<in> snd ` set ds \<Longrightarrow> ok d m) \<Longrightarrow> 0 < limit \<Longrightarrow> limit < 2 ^ 31 \<Longrightarrow> got + length ds * limit \<le> length (bulk m) \<Longrightarrow>
   filled 0 got m \<Longrightarrow>
   \<exists>n ds' m'. capture_loop get limit ds got m = Inr (n, ds', m') \<and> n \<le> got + length ds * limit \<and> filled 0 n m' \<and>
     same_outside got (got + length ds * limit) m m' \<and> (\<forall>d \<in> set ds'. ok d m')"
proof (induction ds arbitrary: got m)
  case (Cons p ds)
  obtain owns d where p: "p = (owns, d)" by (cases p)
  show ?case
  proof (cases owns)
    case False
    have "ok d m" using Cons.prems(1) p by simp
    from Cons.IH [of m got] Cons.prems obtain n ds' m' where r: "capture_loop get limit ds got m = Inr (n, ds', m')"
      "n \<le> got + length ds * limit" "filled 0 n m'" "same_outside got (got + length ds * limit) m m'" "\<forall>d \<in> set ds'. ok d m'"
      by auto
    moreover from r(4) have "same_outside got (got + length (p # ds) * limit) m m'"
      by (rule same_outside_trans [OF _ same_outside_refl]) auto
    moreover have "ok d m'" using ok_mono [OF \<open>ok d m\<close>] r(4) by (simp add: same_outside_def)
    ultimately show ?thesis using p False by auto
  next
    case True
    from get_ok [of d m limit got] Cons.prems p obtain n d' m1 where g: "get got limit d m = Inr (n, d', m1)" "ok d' m1" "n \<le> limit"
      "same_outside got (got + limit) m m1" "filled got (got + n) m1" by auto
    have mono: "dom (pkts m) \<subseteq> dom (pkts m1)" and len: "length (bulk m1) = length (bulk m)"
      using g(4) by (auto simp: same_outside_def)
    have f: "filled 0 (got + n) m1" by (rule filled_join [OF Cons.prems(5) g(4,5)])
    have "\<And>e. e \<in> snd ` set ds \<Longrightarrow> ok e m1" using Cons.prems(1) by (intro ok_mono [OF _ mono]) simp
    from Cons.IH [OF this Cons.prems(2,3) _ f] Cons.prems(4) g(3) len obtain k ds' m' where
      r: "capture_loop get limit ds (got + n) m1 = Inr (k, ds', m')" "k \<le> got + n + length ds * limit" "filled 0 k m'"
      "same_outside (got + n) (got + n + length ds * limit) m1 m'" "\<forall>d \<in> set ds'. ok d m'" by auto
    have "same_outside got (got + length (p # ds) * limit) m m'"
      by (rule same_outside_trans [OF g(4) r(4)]) (use g(3) in auto)
    moreover have "ok d' m'" using ok_mono [OF g(2)] r(4) by (simp add: same_outside_def)
    ultimately show ?thesis using p True g r by auto
  qed
qed auto

end

subsection \<open>The driver keeps the contract\<close>

text \<open>What the library documents: with a positive count at most so many packets.\<close>

definition dispatch_ok :: "('h \<Rightarrow> int \<Rightarrow> int \<times> arrival list \<times> 'h) \<Rightarrow> bool" where
  "dispatch_ok f \<longleftrightarrow> (\<forall>h cnt. 0 < cnt \<longrightarrow> int (length (fst (snd (f h cnt)))) \<le> cnt)"

text \<open>Between calls, a driver that holds a packet reads a file, and the packet is there.\<close>

definition pcap_ok :: "'h DriverPcap \<Rightarrow> memory \<Rightarrow> bool" where
  "pcap_ok drv m \<longleftrightarrow> dispatch_ok (pcap_dispatch drv) \<and> (\<forall>a. off_pkt drv = Some a \<longrightarrow> offline drv \<and> a \<in> dom (pkts m))"

text \<open>Up to \<open>k\<close> callbacks took packets from \<open>(d, m)\<close> to \<open>(d', m')\<close>.\<close>

definition took :: "nat \<Rightarrow> 'h DriverPcap \<Rightarrow> memory \<Rightarrow> 'h DriverPcap \<Rightarrow> memory \<Rightarrow> bool" where
  "took k d m d' m' \<longleftrightarrow> offline d' = offline d \<and> currBulk d' = currBulk d \<and> pcap_dispatch d' = pcap_dispatch d \<and>
     currPkts d \<le> currPkts d' \<and> currPkts d' \<le> currPkts d + k \<and>
     same_outside (currBulk d + currPkts d) (currBulk d + currPkts d') m m' \<and>
     filled (currBulk d + currPkts d) (currBulk d + currPkts d') m' \<and>
     (\<forall>a. off_pkt d' = Some a \<longrightarrow> offline d \<and> a \<in> dom (pkts m'))"

lemma store_bulk_ok:
  "i < length (bulk m) \<Longrightarrow> store_bulk i a m = Inr (m\<lparr>bulk := (bulk m)[i := Some a]\<rparr>) \<and>
     same_outside i (i + 1) m (m\<lparr>bulk := (bulk m)[i := Some a]\<rparr>) \<and> filled i (i + 1) (m\<lparr>bulk := (bulk m)[i := Some a]\<rparr>)"
  by (auto simp: store_bulk_def same_outside_def filled_def le_less_Suc_eq)

lemma new_packet_ok:
  "\<exists>m1. new_packet tks a dl m = Inr m1 \<and> bulk m1 = bulk m \<and> dom (pkts m1) = insert (ar_addr a) (dom (pkts m))"
  by (simp add: new_packet_def allocPacket_def deref_def Let_def)

lemma put_packet_took:
  assumes "off_pkt d1 = None" and "currBulk d1 + currPkts d1 < length (bulk m1)"
  shows "\<exists>d' m'. put_packet a d1 m1 = Inr (d', m') \<and> took 1 d1 m1 d' m' \<and> off_pkt d' = None"
  using store_bulk_ok [OF assms(2)] assms(1) by (auto simp: put_packet_def took_def add.assoc)

lemma offline_result:
  "off_pkt w = None \<Longrightarrow> \<exists>w'. offlineProcess now a ts w = Inr (off_pkt w' \<noteq> None, w') \<and> off_pkt w' \<in> {None, Some a}"
  by (auto simp: offlineProcess_def Let_def)

lemma took_same: "offline d1 = offline d \<Longrightarrow> currBulk d1 = currBulk d \<Longrightarrow> pcap_dispatch d1 = pcap_dispatch d \<Longrightarrow>
    currPkts d1 = currPkts d \<Longrightarrow> bulk m1 = bulk m \<Longrightarrow> dom (pkts m) \<subseteq> dom (pkts m1) \<Longrightarrow>
    took k d1 m1 d' m' \<Longrightarrow> took k d m d' m'"
  by (auto simp: took_def same_outside_def iff del: domIff)

lemma handler_took:
  assumes "off_pkt d = None" and "currBulk d + currPkts d < length (bulk m)"
  shows "\<exists>d' m'. pcapHandler now tks a (d, m) = Inr (d', m') \<and> took 1 d m d' m' \<and> (\<not> offline d \<longrightarrow> off_pkt d' = None)"
proof (cases "ar_caplen a \<ge> 65536")
  case True
  with assms show ?thesis by (auto simp: pcapHandler_def took_def filled_def)
next
  case False
  from new_packet_ok obtain m1 where m1: "new_packet tks a (pcap_datalink d (handle d)) m = Inr m1" "bulk m1 = bulk m"
    "dom (pkts m1) = insert (ar_addr a) (dom (pkts m))" by blast
  let ?d = "count_packet (ar_caplen a) d"
  have d: "offline ?d = offline d" "currBulk ?d = currBulk d" "currPkts ?d = currPkts d" "pcap_dispatch ?d = pcap_dispatch d"
    "off_pkt ?d = off_pkt d"
    by (simp_all add: count_packet_def)
  show ?thesis
  proof (cases "offline d")
    case False
    from put_packet_took [of ?d m1 "ar_addr a"] assms d m1(2) obtain d' m' where
      "put_packet (ar_addr a) ?d m1 = Inr (d', m')" "took 1 ?d m1 d' m'" "off_pkt d' = None" by auto
    with False \<open>\<not> ar_caplen a \<ge> 65536\<close> m1 d took_same [of ?d d m1 m 1 d' m'] show ?thesis
      by (auto simp: pcapHandler_def Let_def)
  next
    case True
    have "off_pkt (DriverOffline.truncate ?d) = None" using assms(1) d(5) by (simp add: DriverOffline.defs)
    from offline_result [OF this, of now "ar_addr a" "ar_ts a"] obtain w where
      w: "offlineProcess now (ar_addr a) (ar_ts a) (DriverOffline.truncate ?d) = Inr (off_pkt w \<noteq> None, w)"
        "off_pkt w \<in> {None, Some (ar_addr a)}" by blast
    let ?d1 = "?d\<lparr>off_pkt := off_pkt w, pkt_time := pkt_time w, pkt_sent := pkt_sent w\<rparr>"
    have run: "pcapHandler now tks a (d, m) = (if off_pkt w \<noteq> None then Inr (?d1, m1) else put_packet (ar_addr a) ?d1 m1)"
      using True \<open>\<not> ar_caplen a \<ge> 65536\<close> m1(1) d(1) w(1) by (simp add: pcapHandler_def Let_def)
    show ?thesis
    proof (cases "off_pkt w = None")
      case True
      from put_packet_took [of ?d1 m1 "ar_addr a"] True assms d m1(2) obtain d' m' where
        "put_packet (ar_addr a) ?d1 m1 = Inr (d', m')" "took 1 ?d1 m1 d' m'" "off_pkt d' = None" by auto
      with True m1 d took_same [of ?d1 d m1 m 1 d' m'] run show ?thesis by auto
    next
      case False
      with w(2) m1 d \<open>offline d\<close> run show ?thesis
        by (auto simp: took_def same_outside_def filled_def intro!: exI)
    qed
  qed
qed

lemma callbacks_took:
  "off_pkt d = None \<Longrightarrow> currBulk d + currPkts d + length as \<le> length (bulk m) \<Longrightarrow> offline d \<longrightarrow> length as \<le> 1 \<Longrightarrow>
   \<exists>d' m'. pcap_callbacks now tks as (d, m) = Inr (d', m') \<and> took (length as) d m d' m'"
proof (induction as arbitrary: d m)
  case Nil
  then show ?case by (auto simp: took_def filled_def)
next
  case (Cons a as)
  from handler_took [of d m now tks a] Cons.prems obtain d1 m1 where h: "pcapHandler now tks a (d, m) = Inr (d1, m1)"
    "took 1 d m d1 m1" "\<not> offline d \<longrightarrow> off_pkt d1 = None" by auto
  show ?case
  proof (cases as)
    case Nil
    with h show ?thesis by auto
  next
    case (Cons a' as')
    with Cons.prems h have "off_pkt d1 = None" "\<not> offline d1" by (auto simp: took_def)
    with Cons.IH [of d1 m1] h(2) Cons.prems(2) obtain d' m' where
      t: "pcap_callbacks now tks as (d1, m1) = Inr (d', m')" "took (length as) d1 m1 d' m'"
      by (auto simp: took_def same_outside_def)
    have "took (Suc (length as)) d m d' m'"
      using h(2) t(2) unfolding took_def
      by (auto intro: same_outside_trans filled_join)
    with h t show ?thesis by auto
  qed
qed

lemma to_int_small: "n < 2 ^ 31 \<Longrightarrow> to_int n = int n"
  unfolding to_int_def by (simp add: signed_of_nat signed_take_bit_int_eq_self)

lemma pcap_held:
  assumes "pcap_ok d m" and "off_pkt d = Some a" and "pos < length (bulk m)"
  shows "\<exists>n d' m'. pcap_getPackets now tks pos limit d m = Inr (n, d', m') \<and> pcap_ok d' m' \<and> n \<le> 1 \<and>
    same_outside pos (pos + 1) m m' \<and> filled pos (pos + n) m'"
proof -
  from assms(1,2) obtain p where p: "pkts m a = Some p" and off: "offline d" and disp: "dispatch_ok (pcap_dispatch d)"
    by (auto simp: pcap_ok_def)
  let ?m = "m\<lparr>pkts := (pkts m)(a \<mapsto> Packet_Chain.update_time tks p)\<rparr>"
  have m: "bulk ?m = bulk m" "dom (pkts ?m) = dom (pkts m)" using p by auto
  show ?thesis
  proof (cases "pkt_sent d \<le> now")
    case True
    have "pcap_getPackets now tks pos limit d m =
        Inr (1, d\<lparr>currPkts := 1, currBulk := pos, off_pkt := None\<rparr>, ?m\<lparr>bulk := (bulk m)[pos := Some a]\<rparr>)"
      using assms(2,3) off p True
      by (simp add: pcap_getPackets_def offlinePkt_def offlineHandle_def deref_def store_bulk_def DriverOffline.defs Let_def)
    with disp assms(3) m show ?thesis
      by (auto simp: pcap_ok_def same_outside_def filled_def le_less_Suc_eq iff del: domIff)
  next
    case False
    have "pcap_getPackets now tks pos limit d m = Inr (0, d\<lparr>currPkts := 0, currBulk := pos\<rparr>, m)"
      using assms(2) off False
      by (simp add: pcap_getPackets_def offlinePkt_def offlineHandle_def DriverOffline.defs Let_def)
    with assms(1) show ?thesis by (auto simp: pcap_ok_def filled_def)
  qed
qed

lemma pcap_dispatched:
  assumes "pcap_ok d m" and "off_pkt d = None" and "0 < limit" and "limit < 2 ^ 31" and "pos + limit \<le> length (bulk m)"
  shows "\<exists>n d' m'. pcap_getPackets now tks pos limit d m = Inr (n, d', m') \<and> pcap_ok d' m' \<and> n \<le> limit \<and>
    same_outside pos (pos + limit) m m' \<and> filled pos (pos + n) m'"
proof -
  let ?d = "d\<lparr>currPkts := 0, currBulk := pos\<rparr>" and ?cnt = "if offline d then 1 else to_int limit"
  obtain r as h where disp: "pcap_dispatch d (handle d) ?cnt = (r, as, h)" by (cases "pcap_dispatch d (handle d) ?cnt") auto
  have law: "dispatch_ok (pcap_dispatch d)" using assms(1) by (simp add: pcap_ok_def)
  moreover have cnt: "0 < ?cnt" using assms(3,4) by (simp add: to_int_small)
  ultimately have "int (length as) \<le> ?cnt" unfolding dispatch_ok_def using disp by (metis fst_conv snd_conv)
  then have len: "length as \<le> limit" "offline d \<longrightarrow> length as \<le> 1"
    using assms(3,4) by (auto simp: to_int_small split: if_splits)
  with callbacks_took [of ?d as m now tks] assms(2,5) obtain d' m' where
    t: "pcap_callbacks now tks as (?d, m) = Inr (d', m')" "took (length as) ?d m d' m'" by auto
  have run: "pcap_getPackets now tks pos limit d m =
      (let d' = d'\<lparr>handle := h\<rparr> in if r < 0 then Inr (0, d', m')
       else let d' = (if offline d' \<and> currPkts d' = 0 \<and> off_pkt d' = None then d'\<lparr>finished := True\<rparr> else d')
            in Inr (currPkts d', d', m'))"
    using assms(2) disp t(1) by (simp add: pcap_getPackets_def offlinePkt_def DriverOffline.defs Let_def)
  have k: "currPkts d' \<le> limit" "same_outside pos (pos + currPkts d') m m'" "filled pos (pos + currPkts d') m'"
    using t(2) len(1) by (auto simp: took_def)
  have "same_outside pos (pos + limit) m m'"
    by (rule same_outside_trans [OF k(2) same_outside_refl]) (use k(1) in auto)
  moreover have "pcap_ok d' m'" using t(2) law by (auto simp: took_def pcap_ok_def)
  then have "pcap_ok (d'\<lparr>handle := h\<rparr>) m'" "pcap_ok (d'\<lparr>handle := h, finished := True\<rparr>) m'" by (simp_all add: pcap_ok_def)
  ultimately show ?thesis using k by (auto simp: run Let_def filled_def)
qed

interpretation pcap: packet_driver "pcap_getPackets now tks" pcap_ok for now tks
proof unfold_locales
  fix d :: "'a DriverPcap" and m limit pos
  assume h: "pcap_ok d m" "0 < limit" "limit < 2 ^ 31" "pos + limit \<le> length (bulk m)"
  show "\<exists>n d' m'. pcap_getPackets now tks pos limit d m = Inr (n, d', m') \<and> pcap_ok d' m' \<and> n \<le> limit \<and>
      same_outside pos (pos + limit) m m' \<and> filled pos (pos + n) m'"
  proof (cases "off_pkt d")
    case None
    with h show ?thesis by (intro pcap_dispatched)
  next
    case (Some a)
    from pcap_held [OF h(1) Some, of pos now tks limit] h obtain n d' m' where
      r: "pcap_getPackets now tks pos limit d m = Inr (n, d', m')" "pcap_ok d' m'" "n \<le> 1"
      "same_outside pos (pos + 1) m m'" "filled pos (pos + n) m'" by auto
    have "same_outside pos (pos + limit) m m'"
      by (rule same_outside_trans [OF r(4) same_outside_refl]) (use h(2) in auto)
    with r h(2) show ?thesis by auto
  qed
next
  fix d :: "'a DriverPcap" and m m' :: memory
  assume "pcap_ok d m" "dom (pkts m) \<subseteq> dom (pkts m')"
  then show "pcap_ok d m'" by (auto simp: pcap_ok_def iff del: domIff)
qed

text \<open>C27. A bulk never overflows: with at least one slot for each driver, whichever drivers are locked and
  whatever the library delivers, the capture returns at most as many packets as it was asked for, the array
  holds them without a gap from its start, and nothing behind the bulk is written.\<close>

theorem capture_fills_bulk:
  assumes "\<forall>d \<in> snd ` set ds. pcap_ok d m" and "ds \<noteq> []" and "length ds \<le> bulkLimit" and "bulkLimit < 2 ^ 31"
    and "bulkLimit \<le> length (bulk m)"
  shows "\<exists>n ds' m'. capture_getPackets (pcap_getPackets now tks) bulkLimit ds m = Inr (n, ds', m') \<and> n \<le> bulkLimit \<and>
    (\<forall>i < n. bulk m' ! i \<noteq> None) \<and> (\<forall>i \<ge> bulkLimit. bulk m' ! i = bulk m ! i) \<and> (\<forall>d \<in> set ds'. pcap_ok d m')"
proof -
  let ?k = "bulkLimit div length ds"
  have k: "0 < ?k" "length ds * ?k \<le> bulkLimit" "?k < 2 ^ 31"
    using assms(2,3) le_less_trans [OF div_le_dividend assms(4)] by (auto simp: div_greater_zero_iff)
  from pcap.loop_ok [of ds m ?k 0 now tks] assms(1,5) k obtain n ds' m' where
    "capture_loop (pcap_getPackets now tks) ?k ds 0 m = Inr (n, ds', m')" "n \<le> length ds * ?k" "filled 0 n m'"
    "same_outside 0 (length ds * ?k) m m'" "\<forall>d \<in> set ds'. pcap_ok d m'"
    by (auto simp: filled_def)
  moreover from this(2) k(2) have "n \<le> bulkLimit" by (rule le_trans)
  moreover have "length ds * ?k \<le> i" if "bulkLimit \<le> i" for i using k(2) that by (rule le_trans)
  ultimately show ?thesis by (simp add: capture_getPackets_def filled_def same_outside_def del: times_div_less_eq_dividend)
qed

subsection \<open>Pace\<close>

text \<open>A file is read a packet at a time.\<close>

fun file_dispatch :: "arrival list \<Rightarrow> int \<Rightarrow> int \<times> arrival list \<times> arrival list" where
  "file_dispatch [] cnt = (0, [], [])"
| "file_dispatch (a # q) cnt = (1, [a], q)"

text \<open>The calls at the given clock readings, and the packets they return with the time of the call.\<close>

fun replay :: "(u64 \<times> u64) list \<Rightarrow> arrival list DriverPcap \<Rightarrow> memory \<Rightarrow> (u64 \<times> nat) list res" where
  "replay [] d m = Inr []"
| "replay ((now, tks) # cs) d m =
     rbind (pcap_getPackets now tks 0 1 d m) (\<lambda>(n, d, m). rbind (replay cs d m) (\<lambda>r.
     Inr (if n = 1 then (now, the (bulk m ! 0)) # r else r)))"

text \<open>When the packets are due: each as long after the one before it as its time stamp is later.\<close>

fun due :: "nat \<Rightarrow> u64 \<Rightarrow> arrival list \<Rightarrow> (nat \<times> nat) list" where
  "due s t [] = []"
| "due s t (a # q) =
     (let t' = timeval_to_usecs (ar_ts a); s' = s + (if t \<noteq> 0 \<and> t' > t then unat (t' - t) else 0)
      in (s', ar_addr a) # due s' t' q)"

definition in_time :: "(u64 \<times> nat) list \<Rightarrow> (nat \<times> nat) list \<Rightarrow> bool" where
  "in_time r ds \<longleftrightarrow> list_all2 (\<lambda>(c, a) (s, b). a = b \<and> s \<le> unat c) r (take (length r) ds)"

lemma in_time_simps [simp]:
  "in_time [] ds" "in_time ((c, a) # r) ((s, b) # ds) \<longleftrightarrow> a = b \<and> s \<le> unat c \<and> in_time r ds"
  by (simp_all add: in_time_def)

text \<open>A driver in the middle of a file.\<close>

definition reading :: "nat \<Rightarrow> u64 \<Rightarrow> arrival list \<Rightarrow> nat option \<Rightarrow> arrival list DriverPcap \<Rightarrow> bool" where
  "reading s t q p d \<longleftrightarrow> offline d \<and> pcap_dispatch d = file_dispatch \<and> handle d = q \<and> pkt_sent d = word_of_nat s \<and>
     pkt_time d = t \<and> off_pkt d = p"

lemma read_held:
  assumes "reading s t q (Some a) d" and "a \<in> dom (pkts m)" and "bulk m \<noteq> []" and "s < 2 ^ 64"
  shows "\<exists>n d' m'. pcap_getPackets now tks 0 1 d m = Inr (n, d', m') \<and> bulk m' \<noteq> [] \<and> dom (pkts m) \<subseteq> dom (pkts m') \<and>
    (if s \<le> unat now then n = 1 \<and> bulk m' ! 0 = Some a \<and> reading s t q None d' else n = 0 \<and> reading s t q (Some a) d')"
proof -
  from assms(2) obtain p where p: "pkts m a = Some p" by auto
  have "word_of_nat s \<le> now \<longleftrightarrow> s \<le> unat now" using assms(4) by (simp add: word_le_nat_alt unat_word_of_nat)
  with assms(1,3) p show ?thesis
    by (auto simp: reading_def pcap_getPackets_def offlinePkt_def offlineHandle_def deref_def store_bulk_def
        DriverOffline.defs Let_def)
qed

lemma offlineProcess_sent:
  assumes "pkt_sent w + (if pkt_time w \<noteq> 0 \<and> timeval_to_usecs ts > pkt_time w then timeval_to_usecs ts - pkt_time w else 0) = sent"
    and "off_pkt w = None" and "sent \<noteq> 0"
  shows "offlineProcess cur_time a ts w =
    Inr (\<not> sent \<le> cur_time, w\<lparr>off_pkt := if sent \<le> cur_time then None else Some a, pkt_time := timeval_to_usecs ts, pkt_sent := sent\<rparr>)"
  unfolding offlineProcess_def Let_def assms(1) using assms(2,3) by (cases w) (auto simp: assms(1) not_le)

lemma read_next:
  assumes "reading s t (a # q) None d" and "bulk m \<noteq> []" and "ar_caplen a < 65536" and "0 < s"
    and "(s', ar_addr a) = hd (due s t (a # q))" and "s' < 2 ^ 64"
  shows "\<exists>n d' m'. pcap_getPackets now tks 0 1 d m = Inr (n, d', m') \<and> bulk m' \<noteq> [] \<and> ar_addr a \<in> dom (pkts m') \<and>
    (if s' \<le> unat now then n = 1 \<and> bulk m' ! 0 = Some (ar_addr a) \<and> reading s' (timeval_to_usecs (ar_ts a)) q None d'
     else n = 0 \<and> reading s' (timeval_to_usecs (ar_ts a)) q (Some (ar_addr a)) d')"
proof -
  let ?t = "timeval_to_usecs (ar_ts a)" and ?gap = "if t \<noteq> 0 \<and> timeval_to_usecs (ar_ts a) > t then timeval_to_usecs (ar_ts a) - t else 0"
  have s': "s' = s + unat ?gap" using assms(5) by (auto simp: Let_def)
  have w: "word_of_nat s + ?gap = word_of_nat s'" unfolding s' by simp
  have le: "word_of_nat s' \<le> now \<longleftrightarrow> s' \<le> unat now" using assms(6) by (simp add: word_le_nat_alt unat_word_of_nat)
  have "unat (word_of_nat s' :: u64) = s'" by (rule unat_word_of_nat) (use assms(6) in simp)
  moreover have "0 < s'" unfolding s' using assms(4) by simp
  ultimately have nz: "word_of_nat s' \<noteq> (0 :: u64)" by (metis unat_0 less_irrefl)
  from new_packet_ok obtain m1 where m1: "new_packet tks a (pcap_datalink d (a # q)) m = Inr m1" "bulk m1 = bulk m"
    "dom (pkts m1) = insert (ar_addr a) (dom (pkts m))" by blast
  note d = assms(1) [unfolded reading_def]
  have live: "\<not> 65536 \<le> ar_caplen a" using assms(3) by simp
  have process: "offlineProcess now (ar_addr a) (ar_ts a) \<lparr>off_pkt = None, pkt_time = t, pkt_sent = word_of_nat s\<rparr> =
      Inr (\<not> s' \<le> unat now, \<lparr>off_pkt = if s' \<le> unat now then None else Some (ar_addr a), pkt_time = ?t, pkt_sent = word_of_nat s'\<rparr>)"
    by (subst offlineProcess_sent [where sent = "word_of_nat s'"]) (use w nz le in \<open>simp_all split del: if_split cong: if_cong\<close>)
  let ?drv = "d\<lparr>currPkts := 0, currBulk := 0\<rparr>"
  let ?p = "if s' \<le> unat now then None else Some (ar_addr a)"
  let ?d = "(count_packet (ar_caplen a) ?drv)\<lparr>off_pkt := ?p, pkt_time := ?t, pkt_sent := word_of_nat s'\<rparr>"
  have "DriverOffline.truncate (count_packet (ar_caplen a) ?drv) = \<lparr>off_pkt = None, pkt_time = t, pkt_sent = word_of_nat s\<rparr>"
    using d by (simp add: DriverOffline.defs count_packet_def)
  then have handler: "pcapHandler now tks a (?drv, m) = (if s' \<le> unat now then put_packet (ar_addr a) ?d m1 else Inr (?d, m1))"
    using d live m1(1) process by (simp add: pcapHandler_def count_packet_def Let_def)
  have run: "pcap_getPackets now tks 0 1 d m = rbind (pcapHandler now tks a (?drv, m)) (\<lambda>(d, m).
      let d = d\<lparr>handle := q\<rparr>
      in Inr (currPkts d, if offline d \<and> currPkts d = 0 \<and> off_pkt d = None then d\<lparr>finished := True\<rparr> else d, m))"
    using d by (cases "pcapHandler now tks a (?drv, m)")
      (auto simp: pcap_getPackets_def offlinePkt_def DriverOffline.defs Let_def)
  have "0 < length (bulk m)" using assms(2) by simp
  with d m1 show ?thesis
    unfolding run handler by (auto simp: put_packet_def store_bulk_def count_packet_def reading_def Let_def)
qed

lemma read_end:
  assumes "reading s t [] None d" and "bulk m \<noteq> []"
  shows "\<exists>d'. pcap_getPackets now tks 0 1 d m = Inr (0, d', m) \<and> reading s t [] None d'"
  using assms by (auto simp: reading_def pcap_getPackets_def offlinePkt_def DriverOffline.defs Let_def)

lemma replay_in_time:
  "reading s t q p d \<Longrightarrow> 0 < s \<Longrightarrow> bulk m \<noteq> [] \<Longrightarrow> (\<forall>a. p = Some a \<longrightarrow> a \<in> dom (pkts m)) \<Longrightarrow> \<forall>a \<in> set q. ar_caplen a < 65536 \<Longrightarrow>
   s < 2 ^ 64 \<Longrightarrow> \<forall>x \<in> fst ` set (due s t q). x < 2 ^ 64 \<Longrightarrow>
   \<exists>r. replay cs d m = Inr r \<and> in_time r ((case p of None \<Rightarrow> [] | Some a \<Rightarrow> [(s, a)]) @ due s t q)"
proof (induction cs arbitrary: s t q p d m)
  case (Cons c cs)
  obtain now tks where c: "c = (now, tks)" by (cases c)
  show ?case
  proof (cases p)
    case (Some a)
    from read_held [of s t q a d m now tks] Cons.prems Some obtain n d' m' where
      r: "pcap_getPackets now tks 0 1 d m = Inr (n, d', m')" "bulk m' \<noteq> []" "dom (pkts m) \<subseteq> dom (pkts m')"
      "if s \<le> unat now then n = 1 \<and> bulk m' ! 0 = Some a \<and> reading s t q None d' else n = 0 \<and> reading s t q (Some a) d'" by auto
    have a: "a \<in> dom (pkts m')" using Cons.prems(4) Some r(3) by blast
    show ?thesis
    proof (cases "s \<le> unat now")
      case True
      with Cons.IH [of s t q None d' m'] r Cons.prems Some c show ?thesis by auto
    next
      case False
      with Cons.IH [of s t q "Some a" d' m'] r a Cons.prems Some c show ?thesis by auto
    qed
  next
    case None
    show ?thesis
    proof (cases q)
      case Nil
      with read_end [of s t d m now tks] Cons.prems None obtain d' where
        "pcap_getPackets now tks 0 1 d m = Inr (0, d', m)" "reading s t [] None d'" by auto
      with Cons.IH [of s t "[]" None d' m] Cons.prems Nil None c show ?thesis by auto
    next
      case q: (Cons a q')
      let ?t = "timeval_to_usecs (ar_ts a)"
      define s' where "s' = fst (hd (due s t (a # q')))"
      have due: "due s t q = (s', ar_addr a) # due s' ?t q'" by (simp add: q s'_def Let_def)
      have s': "s' < 2 ^ 64" "0 < s'" using Cons.prems(2,7) due by (auto simp: s'_def Let_def)
      from read_next [of s t a q' d m s' now tks] Cons.prems None q due s' obtain n d' m' where
        r: "pcap_getPackets now tks 0 1 d m = Inr (n, d', m')" "bulk m' \<noteq> []" "ar_addr a \<in> dom (pkts m')"
        "if s' \<le> unat now then n = 1 \<and> bulk m' ! 0 = Some (ar_addr a) \<and> reading s' ?t q' None d'
         else n = 0 \<and> reading s' ?t q' (Some (ar_addr a)) d'" by auto
      have rest: "\<forall>a \<in> set q'. ar_caplen a < 65536" "\<forall>x \<in> fst ` set (due s' ?t q'). x < 2 ^ 64"
        using Cons.prems(5,7) due q by auto
      show ?thesis
      proof (cases "s' \<le> unat now")
        case True
        with Cons.IH [of s' ?t q' None d' m'] r s' rest None c due show ?thesis by auto
      next
        case False
        with Cons.IH [of s' ?t q' "Some (ar_addr a)" d' m'] r s' rest None c due show ?thesis by auto
      qed
    qed
  qed
qed simp

text \<open>C28. A file is replayed in its own time: the first packet is returned at once, and every other one, in the
  order of the file and once only, at a call not earlier than the first one's time plus the sum of the
  steps forward between the time stamps up to it, however often and whenever the driver is called.\<close>

theorem offline_keeps_pace:
  assumes "offline d" and "pcap_dispatch d = file_dispatch" and "handle d = a # q" and "off_pkt d = None" and "pkt_time d = 0"
    and "pkt_sent d = 0" and "\<forall>b \<in> set (a # q). ar_caplen b < 65536" and "0 < now" and "bulk m \<noteq> []"
    and "\<forall>x \<in> fst ` set (due (unat now) (timeval_to_usecs (ar_ts a)) q). x < 2 ^ 64"
  shows "\<exists>r. replay ((now, tks) # cs) d m = Inr ((now, ar_addr a) # r) \<and>
    in_time r (due (unat now) (timeval_to_usecs (ar_ts a)) q)"
proof -
  let ?t = "timeval_to_usecs (ar_ts a)"
  let ?drv = "d\<lparr>currPkts := 0, currBulk := 0\<rparr>"
  let ?d = "(count_packet (ar_caplen a) ?drv)\<lparr>off_pkt := None, pkt_time := ?t, pkt_sent := now\<rparr>"
  from new_packet_ok obtain m1 where m1: "new_packet tks a (pcap_datalink d (a # q)) m = Inr m1" "bulk m1 = bulk m"
    "dom (pkts m1) = insert (ar_addr a) (dom (pkts m))" by blast
  have "DriverOffline.truncate (count_packet (ar_caplen a) ?drv) = \<lparr>off_pkt = None, pkt_time = 0, pkt_sent = 0\<rparr>"
    using assms by (simp add: DriverOffline.defs count_packet_def)
  moreover have "offlineProcess now (ar_addr a) (ar_ts a) \<lparr>off_pkt = None, pkt_time = 0, pkt_sent = 0\<rparr> =
      Inr (False, \<lparr>off_pkt = None, pkt_time = ?t, pkt_sent = now\<rparr>)"
    by (simp add: offlineProcess_def Let_def)
  moreover have "\<not> 65536 \<le> ar_caplen a" using assms(7) by (simp add: not_le)
  ultimately have "pcapHandler now tks a (?drv, m) = put_packet (ar_addr a) ?d m1"
    using assms(1-4) m1(1) by (simp add: pcapHandler_def count_packet_def Let_def)
  then obtain d' m' where r: "pcap_getPackets now tks 0 1 d m = Inr (1, d', m')" "bulk m' \<noteq> []" "bulk m' ! 0 = Some (ar_addr a)"
    "reading (unat now) ?t q None d'"
    using assms m1
    by (simp add: pcap_getPackets_def offlinePkt_def DriverOffline.defs put_packet_def store_bulk_def count_packet_def reading_def Let_def)
  have "0 < unat now" using assms(8) by (simp add: word_less_nat_alt)
  with replay_in_time [OF r(4) _ r(2), of cs] assms(7,10) r obtain rest where
    "replay cs d' m' = Inr rest" "in_time rest (due (unat now) ?t q)"
    using unsigned_less [of now] by auto
  with r show ?thesis by simp
qed

subsection \<open>Examples\<close>

definition memory_details :: PacketDetails where
  "memory_details = \<lparr>flowHash = 7, lastIpLayer = 1, lastMtpLayer = 2, lastM3uaLayer = 3, layersCnt = 9, layers2Cnt = 0,
     layers3Cnt = 0, layers4Cnt = 0, more2Layers = True, more3Layers = False, more4Layers = False, layers = (\<lambda>_. 5)\<rparr>"

definition demo_arrival :: "u64 \<Rightarrow> nat \<Rightarrow> arrival" where
  "demo_arrival sec addr = \<lparr>ar_ts = \<lparr>tv_sec = sec, tv_usec = 0\<rparr>, ar_caplen = 2, ar_data = [1, 2], ar_addr = addr,
     ar_raw = memory_details\<rparr>"

text \<open>An interface with packets waiting: all of them are delivered when the count is not positive.\<close>

definition live_dispatch :: "arrival list \<Rightarrow> int \<Rightarrow> int \<times> arrival list \<times> arrival list" where
  "live_dispatch q cnt = (let k = (if 0 < cnt then min (nat cnt) (length q) else length q) in (int k, take k q, drop k q))"

definition demo_driver :: "bool \<Rightarrow> arrival list DriverPcap" where
  "demo_driver file = DriverOffline.extend new_DriverOffline
     (DriverPcap.fields [demo_arrival 100 4096, demo_arrival 103 8192, demo_arrival 101 12288]
        (if file then file_dispatch else live_dispatch) (\<lambda>_. 1) 0 0 file False \<lparr>tv_sec = 0, tv_usec = 0\<rparr> no_stat)"

definition demo_memory :: memory where
  "demo_memory = \<lparr>pkts = (\<lambda>_. None), pkt_bytes = (\<lambda>_ _. 0), bulk = [None, None, None]\<rparr>"

lemmas demo_driver_simps = demo_driver_def new_DriverOffline_def DriverOffline.defs DriverPcap.defs

lemma live_driver_ok: "pcap_ok (demo_driver False) demo_memory"
  by (auto simp: pcap_ok_def dispatch_ok_def live_dispatch_def Let_def demo_driver_simps)

text \<open>Two interfaces, the second one locked, and a bulk of two: one packet each at most.\<close>

theorem capture_fills_bulk_witness:
  "\<exists>n ds' m'. capture_getPackets (pcap_getPackets 5 6) 2 [(True, demo_driver False), (False, demo_driver False)] demo_memory =
      Inr (n, ds', m') \<and> n \<le> 2 \<and> bulk m' ! 2 = None"
  using capture_fills_bulk [of "[(True, demo_driver False), (False, demo_driver False)]" demo_memory 2 5 6] live_driver_ok
  by (auto simp: demo_memory_def)

text \<open>The file has time stamps 100, 103 and 101: with calls at 10, 12, 13 and 14 seconds the second packet comes at 13, the
  third at once after it.\<close>

theorem offline_keeps_pace_witness:
  "\<exists>r. replay [(10000000, 1), (12000000, 1), (13000000, 1), (14000000, 1)] (demo_driver True) demo_memory =
      Inr ((10000000, 4096) # r) \<and> in_time r [(13000000, 8192), (13000000, 12288)]"
proof -
  let ?q = "[demo_arrival 103 8192, demo_arrival 101 12288]"
  have due: "due 10000000 (timeval_to_usecs (ar_ts (demo_arrival 100 4096))) ?q = [(13000000, 8192), (13000000, 12288)]"
    by (simp add: demo_arrival_def timeval_to_usecs_def USECS_IN_SECS_def Let_def)
  have d: "offline (demo_driver True)" "pcap_dispatch (demo_driver True) = file_dispatch"
    "handle (demo_driver True) = demo_arrival 100 4096 # ?q" "off_pkt (demo_driver True) = None"
    "pkt_time (demo_driver True) = 0" "pkt_sent (demo_driver True) = 0" by (simp_all add: demo_driver_simps)
  have small: "\<forall>b \<in> set (demo_arrival 100 4096 # ?q). ar_caplen b < 65536" and m: "bulk demo_memory \<noteq> []"
    by (simp_all add: demo_arrival_def demo_memory_def)
  from offline_keeps_pace [OF d small _ m, of 10000000 1 "[(12000000, 1), (13000000, 1), (14000000, 1)]"] due
  show ?thesis by (simp add: demo_arrival_def)
qed

text \<open>With fewer slots than drivers each of them is asked for none, which the library takes for any number:
  three packets go into an array of two.\<close>

lemma small_bulk_overrun:
  "capture_getPackets (pcap_getPackets 5 6) 1 [(True, demo_driver False), (True, demo_driver False)]
     (demo_memory\<lparr>bulk := [None, None]\<rparr>) = Inl OutOfBounds"
  by (simp add: capture_getPackets_def pcap_getPackets_def offlinePkt_def live_dispatch_def to_int_def demo_driver_simps
      pcapHandler_def demo_arrival_def new_packet_def allocPacket_def deref_def count_packet_def put_packet_def
      store_bulk_def demo_memory_def Let_def)

end
