(* ===== verification/Log_Rotate.thy ===== *)
theory Log_Rotate
  imports Prelude
begin

text \<open>
  \<^verbatim>\<open>src/core/LogRotate.h\<close> and the logging macros of \<^verbatim>\<open>src/core/Debug.h\<close>: the log file that is created on first use,
  replaced after an hour, at a size, or when somebody removed it, and the file before it, which stays open for a
  few seconds.

  A stream of \<^verbatim>\<open>stdio\<close> is a number, the null pointer is \<open>None\<close>. Times are those of \<^verbatim>\<open>std::time\<close>. Whether a file
  can be opened for appending, and the position the new stream then reports, is up to the system: it is an argument
  of the operations that open one. A file that is on the disk can be opened for reading. A second \<^verbatim>\<open>fclose\<close>, a use
  of a closed stream and a read of the member \<open>switchTime\<close> before it is set are \<open>BadIterator\<close>; a stream function
  given null is \<open>Undefined\<close>.
\<close>

subsection \<open>Streams\<close>

record files =
  on_disk :: "string \<Rightarrow> bool"
  stream :: "nat \<Rightarrow> int option"
  next_stream :: nat

definition fopen_append :: "int option \<Rightarrow> string \<Rightarrow> files \<Rightarrow> nat option \<times> files" where
  "fopen_append grant name fs =
     (case grant of None \<Rightarrow> (None, fs)
      | Some pos \<Rightarrow> (Some (next_stream fs), fs\<lparr>on_disk := (on_disk fs)(name := True),
          stream := (stream fs)(next_stream fs := Some pos), next_stream := Suc (next_stream fs)\<rparr>))"

definition fclose :: "nat \<Rightarrow> files \<Rightarrow> files res" where
  "fclose f fs = (if stream fs f = None then Inl BadIterator else Inr (fs\<lparr>stream := (stream fs)(f := None)\<rparr>))"

definition ftell :: "nat \<Rightarrow> files \<Rightarrow> int res" where
  "ftell f fs = (case stream fs f of None \<Rightarrow> Inl BadIterator | Some pos \<Rightarrow> Inr pos)"

definition fflush :: "nat \<Rightarrow> files \<Rightarrow> files res" where
  "fflush f fs = (if stream fs f = None then Inl BadIterator else Inr fs)"

definition fprintf :: "nat option \<Rightarrow> nat \<Rightarrow> files \<Rightarrow> files res" where
  "fprintf f n fs =
     (case f of None \<Rightarrow> Inl Undefined
      | Some f \<Rightarrow> rbind (ftell f fs) (\<lambda>pos. Inr (fs\<lparr>stream := (stream fs)(f := Some (pos + int n))\<rparr>)))"

subsection \<open>The log\<close>

definition LOG_MAX_FILE_SIZE :: int where "LOG_MAX_FILE_SIZE = 1024 * 1024 * 1024"
definition createNewLogInterval :: int where "createNewLogInterval = 3600"
definition closeOldLogTimeout :: int where "closeOldLogTimeout = 5"
definition check_file_exists_count_limit :: int where "check_file_exists_count_limit = 200"

record LogRotate =
  filename :: string
  m_log_path :: string
  activeLog :: "nat option"
  active_logname :: string
  oldLog :: "nat option"
  createTime :: int
  switchTime :: "int option"
  check_file_exists_count :: int

definition new_LogRotate :: "string \<Rightarrow> int \<Rightarrow> LogRotate" where
  "new_LogRotate fname now = \<lparr>filename = fname, m_log_path = ''./'', activeLog = None, active_logname = [], oldLog = None,
     createTime = now, switchTime = None, check_file_exists_count = 0\<rparr>"

definition setFilename :: "string \<Rightarrow> LogRotate \<Rightarrow> LogRotate" where
  "setFilename name l = l\<lparr>filename := name\<rparr>"

text \<open>\<^verbatim>\<open>back()\<close> of an empty string is outside it.\<close>

definition setLogPath :: "string \<Rightarrow> LogRotate \<Rightarrow> LogRotate res" where
  "setLogPath p l =
     (if p = [] then Inl OutOfBounds
      else if last p = CHR ''/'' then Inr (l\<lparr>m_log_path := butlast p\<rparr>) else Inr (l\<lparr>m_log_path := p\<rparr>))"

definition getLogPath :: "LogRotate \<Rightarrow> string" where
  "getLogPath l = m_log_path l"

definition to_string :: "int \<Rightarrow> string" where
  "to_string t = (if t < 0 then CHR ''-'' # dec (nat (- t)) else dec (nat t))"

definition generateName :: "int \<Rightarrow> LogRotate \<Rightarrow> string" where
  "generateName t l = m_log_path l @ ''/'' @ filename l @ ''-'' @ to_string t @ ''.log''"

definition createFile :: "int \<Rightarrow> int option \<Rightarrow> LogRotate \<times> files \<Rightarrow> LogRotate \<times> files" where
  "createFile now grant = (\<lambda>(l, fs).
     let l = l\<lparr>active_logname := generateName now l\<rparr>;
         (f, fs) = fopen_append grant (active_logname l) fs
     in (l\<lparr>activeLog := f, createTime := now\<rparr>, fs))"

text \<open>The conversion to \<^verbatim>\<open>FILE *\<close>; the counter is an \<^verbatim>\<open>int\<close>.\<close>

definition to_FILE :: "int \<Rightarrow> int option \<Rightarrow> LogRotate \<times> files \<Rightarrow> (nat option \<times> LogRotate \<times> files) res" where
  "to_FILE now grant = (\<lambda>(l, fs).
     if check_file_exists_count l \<ge> 2 ^ 31 - 1 then Inl Undefined
     else let l = l\<lparr>check_file_exists_count := check_file_exists_count l + 1\<rparr>;
              (l, fs) =
                (if activeLog l = None then createFile now grant (l, fs)
                 else if check_file_exists_count l \<ge> check_file_exists_count_limit
                 then let (l, fs) =
                        (if \<not> on_disk fs (active_logname l) \<and> oldLog l = None
                         then createFile now grant (l\<lparr>oldLog := activeLog l, switchTime := Some now\<rparr>, fs)
                         else (l, fs))
                      in (l\<lparr>check_file_exists_count := 0\<rparr>, fs)
                 else (l, fs))
          in Inr (activeLog l, l, fs))"

definition switch_log :: "int \<Rightarrow> int option \<Rightarrow> nat \<Rightarrow> LogRotate \<times> files \<Rightarrow> (LogRotate \<times> files) res" where
  "switch_log now grant a = (\<lambda>(l, fs).
     let new_log_name = generateName now l; (newLog, fs) = fopen_append grant new_log_name fs
     in if newLog = None then Inr (l, fs)
        else rbind (fflush a fs) (\<lambda>fs.
             Inr (l\<lparr>oldLog := Some a, activeLog := newLog, createTime := now, switchTime := Some now,
                    active_logname := new_log_name\<rparr>, fs)))"

definition close_old :: "int \<Rightarrow> LogRotate \<times> files \<Rightarrow> (LogRotate \<times> files) res" where
  "close_old now = (\<lambda>(l, fs).
     case oldLog l of None \<Rightarrow> Inr (l, fs)
     | Some old \<Rightarrow>
         (case switchTime l of None \<Rightarrow> Inl BadIterator
          | Some t \<Rightarrow> if now - t > closeOldLogTimeout
                      then rbind (fclose old fs) (\<lambda>fs. Inr (l\<lparr>oldLog := None\<rparr>, fs)) else Inr (l, fs)))"

definition rotation_due :: "int \<Rightarrow> nat \<Rightarrow> LogRotate \<times> files \<Rightarrow> bool res" where
  "rotation_due now a = (\<lambda>(l, fs).
     if oldLog l \<noteq> None then Inr False
     else if now - createTime l > createNewLogInterval then Inr True
     else rbind (ftell a fs) (\<lambda>pos. Inr (pos > LOG_MAX_FILE_SIZE)))"

definition check :: "int \<Rightarrow> int option \<Rightarrow> LogRotate \<times> files \<Rightarrow> (LogRotate \<times> files) res" where
  "check now grant s =
     (case activeLog (fst s) of None \<Rightarrow> Inr s
      | Some a \<Rightarrow>
          rbind (rotation_due now a s) (\<lambda>due.
          rbind (if due then switch_log now grant a s else Inr s) (\<lambda>s.
          rbind (close_old now s) (\<lambda>(l, fs).
          case activeLog l of None \<Rightarrow> Inr (l, fs) | Some f \<Rightarrow> rbind (fflush f fs) (\<lambda>fs. Inr (l, fs))))))"

text \<open>\<^verbatim>\<open>System::idle\<close>\<close>

definition System_idle :: "int \<Rightarrow> int option \<Rightarrow> LogRotate \<times> files \<Rightarrow> (bool \<times> LogRotate \<times> files) res" where
  "System_idle now ts st = rbind (check now ts st) (\<lambda>st. Inr (True, st))"

definition fclose_opt :: "nat option \<Rightarrow> files \<Rightarrow> files res" where
  "fclose_opt f fs = (case f of None \<Rightarrow> Inr fs | Some f \<Rightarrow> fclose f fs)"

definition close :: "LogRotate \<times> files \<Rightarrow> (LogRotate \<times> files) res" where
  "close = (\<lambda>(l, fs).
     rbind (fclose_opt (activeLog l) fs) (\<lambda>fs.
     rbind (fclose_opt (oldLog l) fs) (\<lambda>fs. Inr (l\<lparr>activeLog := None, oldLog := None\<rparr>, fs))))"

text \<open>\<^verbatim>\<open>LOG_MESSAGE(log, ...)\<close>: the time and the text are written, then the stream is flushed; each converts the log again.
  \<^verbatim>\<open>fflush\<close> of null flushes every stream.\<close>

definition log_message ::
  "nat \<Rightarrow> int \<times> int option \<Rightarrow> int \<times> int option \<Rightarrow> int \<times> int option \<Rightarrow> LogRotate \<times> files \<Rightarrow> (LogRotate \<times> files) res" where
  "log_message n c1 c2 c3 s =
     rbind (to_FILE (fst c1) (snd c1) s) (\<lambda>(f, l, fs).
     rbind (fprintf f 21 fs) (\<lambda>fs.
     rbind (to_FILE (fst c2) (snd c2) (l, fs)) (\<lambda>(f, l, fs).
     rbind (fprintf f n fs) (\<lambda>fs.
     rbind (to_FILE (fst c3) (snd c3) (l, fs)) (\<lambda>(f, l, fs).
     case f of None \<Rightarrow> Inr (l, fs) | Some f \<Rightarrow> rbind (fflush f fs) (\<lambda>fs. Inr (l, fs)))))))"

text \<open>\<^verbatim>\<open>LOG_LVL0\<close> to \<^verbatim>\<open>LOG_LVL2\<close> and their filter.\<close>

definition log_enabled :: "nat \<Rightarrow> int \<Rightarrow> u32 \<Rightarrow> nat \<Rightarrow> bool" where
  "log_enabled level g_log_level g_log_mask module \<longleftrightarrow> (level = 0 \<or> g_log_level \<ge> int level) \<and> bit g_log_mask module"

definition log_debug :: "nat \<Rightarrow> int \<Rightarrow> int option \<Rightarrow> LogRotate \<times> files \<Rightarrow> (LogRotate \<times> files) res" where
  "log_debug n now grant s = rbind (to_FILE now grant s) (\<lambda>(f, l, fs). rbind (fprintf f n fs) (\<lambda>fs. Inr (l, fs)))"

subsection \<open>Any use of the log\<close>

text \<open>What the program does with the log, and somebody else removing a file.\<close>

datatype event = Convert int "int option" | Check int "int option" | Debug nat int "int option"
  | Message nat "int \<times> int option" "int \<times> int option" "int \<times> int option"
  | Filename string | LogPath string | Close | Removed string

fun handle :: "event \<Rightarrow> LogRotate \<times> files \<Rightarrow> (LogRotate \<times> files) res" where
  "handle (Convert now grant) s = rbind (to_FILE now grant s) (\<lambda>(f, s). Inr s)"
| "handle (Check now grant) s = check now grant s"
| "handle (Debug n now grant) s = log_debug n now grant s"
| "handle (Message n c1 c2 c3) s = log_message n c1 c2 c3 s"
| "handle (Filename name) (l, fs) = Inr (setFilename name l, fs)"
| "handle (LogPath p) (l, fs) = rbind (setLogPath p l) (\<lambda>l. Inr (l, fs))"
| "handle Close s = close s"
| "handle (Removed name) (l, fs) = Inr (l, fs\<lparr>on_disk := (on_disk fs)(name := False)\<rparr>)"

fun events :: "event list \<Rightarrow> LogRotate \<times> files \<Rightarrow> (LogRotate \<times> files) res" where
  "events [] s = Inr s"
| "events (x # xs) s = rbind (handle x s) (events xs)"

definition no_files :: files where
  "no_files = \<lparr>on_disk = (\<lambda>_. False), stream = (\<lambda>_. None), next_stream = 0\<rparr>"

text \<open>The streams that are open are those of the two members, which differ.\<close>

definition log_ok :: "LogRotate \<times> files \<Rightarrow> bool" where
  "log_ok = (\<lambda>(l, fs).
     dom (stream fs) = set_option (activeLog l) \<union> set_option (oldLog l) \<and>
     (activeLog l = None \<or> activeLog l \<noteq> oldLog l) \<and> (oldLog l \<noteq> None \<longrightarrow> switchTime l \<noteq> None) \<and>
     (\<forall>f \<in> dom (stream fs). f < next_stream fs))"

definition safe :: "(LogRotate \<times> files) res \<Rightarrow> bool" where
  "safe r \<longleftrightarrow> (case r of Inl f \<Rightarrow> f \<in> {OutOfBounds, Undefined} | Inr s \<Rightarrow> log_ok s)"

lemma safe_simps [simp]: "safe (Inl f) \<longleftrightarrow> f \<in> {OutOfBounds, Undefined}" "safe (Inr s) \<longleftrightarrow> log_ok s"
  by (simp_all add: safe_def)

text \<open>\<open>log_ok\<close> without the active log.\<close>

definition old_ok :: "LogRotate \<times> files \<Rightarrow> bool" where
  "old_ok = (\<lambda>(l, fs). dom (stream fs) = set_option (oldLog l) \<and> (oldLog l \<noteq> None \<longrightarrow> switchTime l \<noteq> None) \<and>
     (\<forall>f \<in> dom (stream fs). f < next_stream fs))"

lemma createFile_ok: "old_ok (l, fs) \<Longrightarrow> log_ok (createFile now grant (l, fs))"
  by (cases "oldLog l") (auto simp: old_ok_def log_ok_def createFile_def fopen_append_def Let_def split: option.splits)

lemma log_ok_count [simp]:
  "log_ok (l\<lparr>check_file_exists_count := k\<rparr>, fs) = log_ok (l, fs)"
  "old_ok (l\<lparr>check_file_exists_count := k\<rparr>, fs) = old_ok (l, fs)"
  by (simp_all add: log_ok_def old_ok_def)

lemma log_ok_settings [simp]:
  "log_ok (l\<lparr>filename := name\<rparr>, fs) = log_ok (l, fs)" "log_ok (l\<lparr>m_log_path := name\<rparr>, fs) = log_ok (l, fs)"
  "log_ok (l, fs\<lparr>on_disk := d\<rparr>) = log_ok (l, fs)"
  by (simp_all add: log_ok_def)

lemma to_FILE_ok:
  assumes "log_ok (l, fs)"
  shows "case to_FILE now grant (l, fs) of Inl f \<Rightarrow> f = Undefined | Inr (f, l', fs') \<Rightarrow> log_ok (l', fs') \<and> f = activeLog l'"
proof (cases "activeLog l")
  case None
  let ?l = "l\<lparr>check_file_exists_count := check_file_exists_count l + 1\<rparr>"
  have "old_ok (?l, fs)" using assms None by (auto simp: log_ok_def old_ok_def)
  from createFile_ok [OF this, of now grant] None show ?thesis
    by (auto simp: to_FILE_def Let_def case_prod_unfold)
next
  case (Some a)
  let ?l = "l\<lparr>check_file_exists_count := check_file_exists_count l + 1, oldLog := Some a, switchTime := Some now\<rparr>"
  have "old_ok (?l, fs)" if "oldLog l = None" using assms Some that by (auto simp: log_ok_def old_ok_def)
  from createFile_ok [OF this, of now grant] assms Some show ?thesis
    by (auto simp: to_FILE_def Let_def case_prod_unfold)
qed

lemma log_ok_open:
  assumes "log_ok (l, fs)" and "activeLog l = Some f \<or> oldLog l = Some f"
  shows "\<exists>pos. stream fs f = Some pos"
proof -
  have "f \<in> dom (stream fs)" using assms by (auto simp: log_ok_def)
  then show ?thesis by blast
qed

lemma fprintf_ok:
  assumes "log_ok (l, fs)" and "f = activeLog l"
  shows "case fprintf f n fs of Inl e \<Rightarrow> e = Undefined | Inr fs' \<Rightarrow> log_ok (l, fs')"
proof (cases "activeLog l")
  case (Some a)
  then obtain pos where "stream fs a = Some pos" using log_ok_open [OF assms(1)] by auto
  with assms Some show ?thesis by (simp add: fprintf_def ftell_def log_ok_def insert_absorb)
qed (simp add: assms(2) fprintf_def)

lemma fflush_ok: "log_ok (l, fs) \<Longrightarrow> activeLog l = Some f \<Longrightarrow> fflush f fs = Inr fs"
  using log_ok_open [of l fs f] by (auto simp: fflush_def)

lemma converted_ok:
  assumes "log_ok s" and "\<And>l fs. log_ok (l, fs) \<Longrightarrow> safe (k (activeLog l, l, fs))"
  shows "safe (rbind (to_FILE now grant s) k)"
proof -
  obtain l fs where s: "s = (l, fs)" by (cases s)
  show ?thesis
  proof (cases "to_FILE now grant s")
    case (Inr r)
    with to_FILE_ok [of l fs now grant] assms s show ?thesis by (cases r) auto
  qed (use to_FILE_ok [of l fs now grant] assms(1) s in simp)
qed

lemma printed_ok:
  assumes "log_ok (l, fs)" and "\<And>fs. log_ok (l, fs) \<Longrightarrow> safe (k fs)"
  shows "safe (rbind (fprintf (activeLog l) n fs) k)"
  using fprintf_ok [OF assms(1) refl, of n] assms(2) by (cases "fprintf (activeLog l) n fs") auto

lemma log_message_ok: "log_ok s \<Longrightarrow> safe (log_message n c1 c2 c3 s)"
  unfolding log_message_def
  by (intro converted_ok, assumption, simp only: prod.case, intro printed_ok, assumption,
      intro converted_ok, assumption, simp only: prod.case, intro printed_ok, assumption,
      intro converted_ok, assumption) (auto simp: fflush_ok split: option.splits)

lemma log_debug_ok: "log_ok s \<Longrightarrow> safe (log_debug n now grant s)"
  unfolding log_debug_def
  by (intro converted_ok, assumption, simp only: prod.case, intro printed_ok) auto

lemma switch_log_ok:
  assumes "log_ok (l, fs)" and "activeLog l = Some a" and "oldLog l = None"
  shows "\<exists>l' fs'. switch_log now grant a (l, fs) = Inr (l', fs') \<and> log_ok (l', fs') \<and> activeLog l' \<noteq> None"
proof (cases grant)
  case None
  with assms show ?thesis by (simp add: switch_log_def fopen_append_def)
next
  case (Some pos)
  have d: "dom (stream fs) = {a}" "a < next_stream fs" using assms by (auto simp: log_ok_def)
  then have "stream fs a \<noteq> None" by auto
  with d Some show ?thesis by (auto simp: switch_log_def fopen_append_def fflush_def log_ok_def Let_def)
qed

lemma close_old_ok:
  assumes "log_ok (l, fs)"
  shows "\<exists>l' fs'. close_old now (l, fs) = Inr (l', fs') \<and> log_ok (l', fs') \<and> activeLog l' = activeLog l"
proof (cases "oldLog l")
  case (Some old)
  then obtain t where "switchTime l = Some t" using assms by (auto simp: log_ok_def)
  moreover obtain pos where "stream fs old = Some pos" using log_ok_open [OF assms, of old] Some by auto
  moreover have "activeLog l \<noteq> Some old" using assms Some by (auto simp: log_ok_def)
  ultimately show ?thesis using assms Some
    by (auto simp: close_old_def fclose_def log_ok_def Diff_insert_absorb)
qed (use assms in \<open>simp add: close_old_def\<close>)

lemma rotation_due_ok: "log_ok (l, fs) \<Longrightarrow> activeLog l = Some a \<Longrightarrow> \<exists>b. rotation_due now a (l, fs) = Inr b \<and> (b \<longrightarrow> oldLog l = None)"
  using log_ok_open [of l fs a] by (auto simp: rotation_due_def ftell_def)

lemma check_ok:
  assumes "log_ok s"
  shows "\<exists>s'. check now grant s = Inr s' \<and> log_ok s'"
proof -
  obtain l fs where s: "s = (l, fs)" by (cases s)
  show ?thesis
  proof (cases "activeLog l")
    case (Some a)
    obtain b where b: "rotation_due now a s = Inr b" "b \<longrightarrow> oldLog l = None"
      using rotation_due_ok [of l fs a now] assms s Some by auto
    obtain l1 fs1 where 1: "(if b then switch_log now grant a s else Inr s) = Inr (l1, fs1)" "log_ok (l1, fs1)" "activeLog l1 \<noteq> None"
      using switch_log_ok [of l fs a now grant] assms s Some b by (cases b) auto
    obtain l2 fs2 where 2: "close_old now (l1, fs1) = Inr (l2, fs2)" "log_ok (l2, fs2)" "activeLog l2 = activeLog l1"
      using close_old_ok [OF 1(2)] by blast
    from 1(3) 2(3) obtain f where f: "activeLog l2 = Some f" by auto
    have "check now grant s = Inr (l2, fs2)"
      using Some b(1) 1(1) 2(1) f fflush_ok [OF 2(2) f] unfolding check_def s by (simp del: split_paired_All)
    with 2(2) show ?thesis by blast
  qed (use assms s in \<open>simp add: check_def\<close>)
qed

lemma close_ok:
  assumes "log_ok (l, fs)"
  shows "\<exists>l' fs'. close (l, fs) = Inr (l', fs') \<and> log_ok (l', fs') \<and> stream fs' = Map.empty"
proof -
  have d: "dom (stream fs) = set_option (activeLog l) \<union> set_option (oldLog l)" using assms by (simp add: log_ok_def)
  let ?gone = "Inr (l\<lparr>activeLog := None, oldLog := None\<rparr>, fs\<lparr>stream := Map.empty\<rparr>)"
  have "close (l, fs) = ?gone"
  proof (cases "activeLog l")
    case None
    show ?thesis
    proof (cases "oldLog l")
      case None
      with d \<open>activeLog l = None\<close> have "stream fs = Map.empty" by simp
      then have "fs = fs\<lparr>stream := Map.empty\<rparr>" by simp
      with None \<open>activeLog l = None\<close> show ?thesis by (simp add: close_def fclose_opt_def)
    next
      case (Some b)
      with d None have "dom (stream fs) = {b}" by simp
      then have "stream fs b \<noteq> None" "(stream fs)(b := None) = Map.empty" by (auto simp flip: dom_eq_empty_conv)
      with None Some show ?thesis by (simp add: close_def fclose_opt_def fclose_def)
    qed
  next
    case (Some a)
    show ?thesis
    proof (cases "oldLog l")
      case None
      with d Some have "dom (stream fs) = {a}" by simp
      then have "stream fs a \<noteq> None" "(stream fs)(a := None) = Map.empty" by (auto simp flip: dom_eq_empty_conv)
      with None Some show ?thesis by (simp add: close_def fclose_opt_def fclose_def)
    next
      case old: (Some b)
      with d Some have db: "dom (stream fs) = {a, b}" by auto
      have "a \<noteq> b" using assms old Some by (simp add: log_ok_def)
      moreover have "stream fs a \<noteq> None" "stream fs b \<noteq> None" using db by auto
      moreover have "(stream fs)(a := None, b := None) = Map.empty"
      proof
        fix x
        show "((stream fs)(a := None, b := None)) x = None" using db domI [of "stream fs" x] by (cases "stream fs x") auto
      qed
      ultimately show ?thesis using Some old by (simp add: close_def fclose_opt_def fclose_def)
    qed
  qed
  then show ?thesis by (simp add: log_ok_def)
qed

lemma handle_ok: "log_ok s \<Longrightarrow> safe (handle x s)"
proof (cases x)
  case (Convert now grant)
  assume "log_ok s"
  then show ?thesis unfolding Convert handle.simps by (rule converted_ok) simp
next
  case (Check now grant)
  assume "log_ok s"
  with check_ok [of s now grant] Check show ?thesis by auto
next
  case (LogPath p)
  assume "log_ok s"
  with LogPath show ?thesis by (cases s) (simp add: setLogPath_def)
next
  case Close
  assume "log_ok s"
  with close_ok [of "fst s" "snd s"] Close show ?thesis by auto
qed (cases s; simp add: log_message_ok log_debug_ok setFilename_def)+

subsection \<open>Properties\<close>

lemma events_safe: "log_ok s \<Longrightarrow> safe (events xs s)"
proof (induction xs arbitrary: s)
  case (Cons x xs)
  from handle_ok [OF Cons.prems, of x] Cons.IH show ?case by (cases "handle x s") auto
qed simp

text \<open>C25. Whatever the program does and whatever the system answers, no stream is closed twice or used after it was
  closed: the open streams are exactly those the object holds, at most two, and closing it closes them
  all. Only a path that is empty and a file that cannot be created stop it.\<close>

theorem log_streams_exact:
  "case events xs (new_LogRotate name now, no_files) of Inl f \<Rightarrow> f \<in> {OutOfBounds, Undefined}
   | Inr (l, fs) \<Rightarrow> dom (stream fs) = set_option (activeLog l) \<union> set_option (oldLog l) \<and> card (dom (stream fs)) \<le> 2 \<and>
       (\<exists>l' fs'. close (l, fs) = Inr (l', fs') \<and> stream fs' = Map.empty)"
proof -
  have "log_ok (new_LogRotate name now, no_files)" by (simp add: log_ok_def new_LogRotate_def no_files_def)
  note safe = events_safe [OF this, of xs]
  show ?thesis
  proof (cases "events xs (new_LogRotate name now, no_files)")
    case (Inr s)
    obtain l fs where s: "s = (l, fs)" by (cases s)
    with safe Inr have ok: "log_ok (l, fs)" by simp
    have "card (set_option x \<union> set_option y) \<le> 2" for x y :: "nat option" by (cases x; cases y) (simp_all add: card_insert_if)
    with ok close_ok [OF ok] Inr s show ?thesis by (auto simp: log_ok_def)
  qed (use safe in simp)
qed

text \<open>Conversions below the limit only count.\<close>

lemma conversions_count:
  "activeLog l = Some a \<Longrightarrow> 0 \<le> check_file_exists_count l \<Longrightarrow> check_file_exists_count l + int (length cs) < 200 \<Longrightarrow>
   events (map (\<lambda>(t, g). Convert t g) cs) (l, fs) =
     Inr (l\<lparr>check_file_exists_count := check_file_exists_count l + int (length cs)\<rparr>, fs)"
  by (induction cs arbitrary: l)
    (auto simp: to_FILE_def check_file_exists_count_limit_def Let_def algebra_simps)

lemma events_append: "events (xs @ ys) s = rbind (events xs s) (events ys)"
  by (induction xs arbitrary: s) (auto simp: rbind_def split: sum.splits)

text \<open>A log file that somebody removed is written again, under a new name, with the conversion that makes the count
  200, and not before; the stream of the removed file is kept as the old one.\<close>

theorem removed_log_recreated:
  assumes "activeLog l = Some a" and "oldLog l = None" and "\<not> on_disk fs (active_logname l)"
    and "0 \<le> check_file_exists_count l" and "check_file_exists_count l + int (length cs) = 199"
  shows "\<exists>l1. events (map (\<lambda>(t, g). Convert t g) cs) (l, fs) = Inr (l1, fs) \<and> activeLog l1 = Some a \<and>
    (\<exists>l' fs'. events (map (\<lambda>(t, g). Convert t g) cs @ [Convert now (Some pos)]) (l, fs) = Inr (l', fs') \<and>
       active_logname l' = generateName now l \<and> on_disk fs' (active_logname l') \<and> activeLog l' = Some (next_stream fs) \<and>
       oldLog l' = Some a \<and> check_file_exists_count l' = 0)"
proof -
  let ?l = "l\<lparr>check_file_exists_count := 199\<rparr>"
  have "events (map (\<lambda>(t, g). Convert t g) cs) (l, fs) = Inr (?l, fs)"
    using conversions_count [OF assms(1,4), of cs fs] assms(5) by simp
  moreover have "generateName now (?l\<lparr>check_file_exists_count := k, oldLog := x, switchTime := y\<rparr>) = generateName now l" for k x y
    by (simp add: generateName_def)
  ultimately show ?thesis using assms
    by (simp add: events_append to_FILE_def check_file_exists_count_limit_def createFile_def fopen_append_def Let_def)
qed

definition demo_log :: LogRotate where
  "demo_log = \<lparr>filename = ''x'', m_log_path = ''/l'', activeLog = Some 0, active_logname = ''/l/x-7.log'', oldLog = None,
     createTime = 7, switchTime = None, check_file_exists_count = 198\<rparr>"

definition demo_files :: "bool \<Rightarrow> files" where
  "demo_files present = \<lparr>on_disk = (\<lambda>_. present), stream = [0 \<mapsto> 100], next_stream = 1\<rparr>"

theorem removed_log_recreated_witness:
  "\<exists>l' fs'. events ([Convert 8 None] @ [Convert 9 (Some 0)]) (demo_log, demo_files False) = Inr (l', fs') \<and>
     active_logname l' = ''/l/x-9.log'' \<and> on_disk fs' ''/l/x-9.log'' \<and> oldLog l' = Some 0"
proof -
  have "\<exists>l' fs'. events (map (\<lambda>(t, g). Convert t g) [(8, None)] @ [Convert 9 (Some 0)]) (demo_log, demo_files False) = Inr (l', fs') \<and>
     active_logname l' = generateName 9 demo_log \<and> on_disk fs' (active_logname l') \<and> oldLog l' = Some 0"
    using removed_log_recreated [of demo_log 0 "demo_files False" "[(8, None)]" 9 0]
    by (auto simp: demo_log_def demo_files_def)
  moreover have "generateName 9 demo_log = ''/l/x-9.log''"
    by (simp add: generateName_def demo_log_def to_string_def dec.simps char_of_def bit_0)
  ultimately show ?thesis by auto
qed

text \<open>The new log is written from the first check on, and the old one is closed by the first check more than five
  seconds later; until then there is no other switch, whatever its size and age.\<close>

theorem log_switches_once:
  assumes "log_ok (l, fs)" and "activeLog l = Some a" and "oldLog l = None" and "stream fs a = Some bytes"
    and "now - createTime l > 3600 \<or> bytes > 1024 * 1024 * 1024"
    and "list_all (\<lambda>(t, g). t - now \<le> 5) cs" and "later - now > 5"
  shows "\<exists>l1 fs1. events (Check now (Some pos) # map (\<lambda>(t, g). Check t g) cs) (l, fs) = Inr (l1, fs1) \<and>
    activeLog l1 = Some (next_stream fs) \<and> active_logname l1 = generateName now l \<and> oldLog l1 = Some a \<and>
    dom (stream fs1) = {a, next_stream fs} \<and>
    (\<exists>l2 fs2. check later g (l1, fs1) = Inr (l2, fs2) \<and> activeLog l2 = Some (next_stream fs) \<and> oldLog l2 = None \<and>
       dom (stream fs2) = {next_stream fs})"
proof -
  let ?n = "next_stream fs"
  let ?l = "l\<lparr>oldLog := Some a, activeLog := Some ?n, createTime := now, switchTime := Some now, active_logname := generateName now l\<rparr>"
  let ?fs = "fs\<lparr>on_disk := (on_disk fs)(generateName now l := True), stream := (stream fs)(?n := Some pos), next_stream := Suc ?n\<rparr>"
  have d: "dom (stream fs) = {a}" "a \<noteq> ?n" using assms(1,2,3) by (auto simp: log_ok_def)
  have due: "rotation_due now a (l, fs) = Inr True"
    using assms(3,4,5) by (auto simp: rotation_due_def ftell_def createNewLogInterval_def LOG_MAX_FILE_SIZE_def)
  have first: "check now (Some pos) (l, fs) = Inr (?l, ?fs)"
    using assms(2,4) due d(2)
    by (simp add: check_def switch_log_def fopen_append_def fflush_def close_old_def closeOldLogTimeout_def Let_def)
  have wait: "check t x (?l, ?fs) = Inr (?l, ?fs)" if "t - now \<le> 5" for t x
    using that by (simp add: check_def rotation_due_def close_old_def closeOldLogTimeout_def fflush_def)
  have "events (map (\<lambda>(t, g). Check t g) cs) (?l, ?fs) = Inr (?l, ?fs)"
    using assms(6) by (induction cs) (auto simp: wait)
  then have "events (Check now (Some pos) # map (\<lambda>(t, g). Check t g) cs) (l, fs) = Inr (?l, ?fs)" using first by simp
  moreover have "check later g (?l, ?fs) = Inr (?l\<lparr>oldLog := None\<rparr>, ?fs\<lparr>stream := (stream ?fs)(a := None)\<rparr>)"
    using assms(4,7) d(2) by (simp add: check_def rotation_due_def close_old_def closeOldLogTimeout_def fflush_def fclose_def)
  moreover have "dom ((stream ?fs)(a := None)) = {?n}" "dom (stream ?fs) = {a, ?n}" using d by auto
  ultimately show ?thesis by auto
qed

theorem log_switches_once_witness:
  "\<exists>l1 fs1. events [Check 3608 (Some 0), Check 3613 None] (demo_log, demo_files True) = Inr (l1, fs1) \<and> oldLog l1 = Some 0 \<and>
     (\<exists>l2 fs2. check 3614 None (l1, fs1) = Inr (l2, fs2) \<and> oldLog l2 = None \<and> dom (stream fs2) = {1})"
  using log_switches_once [of demo_log "demo_files True" 0 100 3608 "[(3613, None)]" 3614 0 None]
  by (auto simp: demo_log_def demo_files_def log_ok_def)

text \<open>A message for a log whose file cannot be created is written through a null pointer.\<close>

lemma message_without_file:
  "activeLog l = None \<Longrightarrow> check_file_exists_count l < 200 \<Longrightarrow> log_message n (t, None) c2 c3 (l, fs) = Inl Undefined"
  by (simp add: log_message_def to_FILE_def createFile_def fopen_append_def fprintf_def Let_def)

end
