(* ===== verification/Log_Macros.thy ===== *)
theory Log_Macros
  imports Log_Rotate
begin

text \<open>
  The macros of \<^verbatim>\<open>src/core/Debug.h\<close> and \<^verbatim>\<open>LogRotate.h\<close> through which the program writes to its log and to the console
  (\<^verbatim>\<open>LOG_CONSOLE\<close> is defined, \<^verbatim>\<open>NDEBUG\<close> is not): which message is written, where, and with which text. \<open>Log_Rotate\<close> counts the bytes
  that go into the file; here is what they are, with the copy on the console.
\<close>

subsection \<open>The time stamp\<close>

record tm =
  tm_year :: int
  tm_mon :: int
  tm_mday :: int
  tm_hour :: int
  tm_min :: int
  tm_sec :: int

text \<open>\<^verbatim>\<open>%.2d\<close>: at least two digits, the sign before them.\<close>

definition pad2 :: "int \<Rightarrow> string" where
  "pad2 n = (let ds = dec (nat (abs n)); ds = (if length ds < 2 then CHR ''0'' # ds else ds) in if n < 0 then CHR ''-'' # ds else ds)"

definition printTime :: "tm \<Rightarrow> string" where
  "printTime now = CHR 0x0A # to_string (tm_year now + 1900) @ ''.'' @ pad2 (tm_mon now + 1) @ ''.'' @ pad2 (tm_mday now) @ '' '' @
     pad2 (tm_hour now) @ '':'' @ pad2 (tm_min now) @ '':'' @ pad2 (tm_sec now) @ '' ''"

lemma dec_length_digits: "10 ^ k \<le> n \<Longrightarrow> n < 10 ^ Suc k \<Longrightarrow> length (dec n) = Suc k"
proof (induction k arbitrary: n)
  case (Suc k)
  have "(1 :: nat) \<le> 10 ^ k" by simp
  then have "\<not> n < 10" using Suc.prems(1) unfolding power_Suc by linarith
  moreover have "length (dec (n div 10)) = Suc k"
    using Suc.prems by (intro Suc.IH) (simp_all add: less_mult_imp_div_less mult.commute less_eq_div_iff_mult_less_eq)
  ultimately show ?case by (simp add: dec.simps [of n])
qed (simp add: dec.simps)

lemma pad2_length:
  assumes "0 \<le> n" and "n < 100"
  shows "length (pad2 n) = 2"
proof (cases "n < 10")
  case True
  with assms show ?thesis by (simp add: pad2_def dec.simps)
next
  case False
  then have "length (dec (nat n)) = Suc 1" using assms by (intro dec_length_digits) auto
  with assms show ?thesis by (simp add: pad2_def Let_def)
qed

text \<open>A calendar date of four digits makes the 21 characters that \<open>log_message\<close> counts.\<close>

lemma printTime_length:
  assumes "1000 \<le> tm_year now + 1900" and "tm_year now + 1900 < 10000" and "tm_mon now \<in> {0 .. 11}" and "tm_mday now \<in> {1 .. 31}"
    and "tm_hour now \<in> {0 .. 23}" and "tm_min now \<in> {0 .. 59}" and "tm_sec now \<in> {0 .. 60}"
  shows "length (printTime now) = 21"
proof -
  have "length (dec (nat (tm_year now + 1900))) = Suc 3" using assms(1,2) by (intro dec_length_digits) auto
  then have "length (to_string (tm_year now + 1900)) = 4" using assms(1) by (simp add: to_string_def)
  with assms show ?thesis by (simp add: printTime_def pad2_length)
qed

subsection \<open>Which message is written\<close>

datatype debug_module = DEBUG_SYSTEM | DEBUG_DETAILS | DEBUG_CONFIG | DEBUG_SHARED_SERVER | DEBUG_SHARED_CLIENT
  | DEBUG_APP_EXAMPLE | DEBUG_TCP_ACCUM | DEBUG_CAPTURE | DEBUG_DRIVER | DEBUG_STACK

fun number_of_module :: "debug_module \<Rightarrow> nat" where
  "number_of_module DEBUG_SYSTEM = 0"
| "number_of_module DEBUG_DETAILS = 1"
| "number_of_module DEBUG_CONFIG = 2"
| "number_of_module DEBUG_SHARED_SERVER = 3"
| "number_of_module DEBUG_SHARED_CLIENT = 4"
| "number_of_module DEBUG_APP_EXAMPLE = 5"
| "number_of_module DEBUG_TCP_ACCUM = 6"
| "number_of_module DEBUG_CAPTURE = 7"
| "number_of_module DEBUG_DRIVER = 8"
| "number_of_module DEBUG_STACK = 9"

text \<open>\<^verbatim>\<open>#module\<close> is the name itself.\<close>

fun name_of_module :: "debug_module \<Rightarrow> string" where
  "name_of_module DEBUG_SYSTEM = ''DEBUG_SYSTEM''"
| "name_of_module DEBUG_DETAILS = ''DEBUG_DETAILS''"
| "name_of_module DEBUG_CONFIG = ''DEBUG_CONFIG''"
| "name_of_module DEBUG_SHARED_SERVER = ''DEBUG_SHARED_SERVER''"
| "name_of_module DEBUG_SHARED_CLIENT = ''DEBUG_SHARED_CLIENT''"
| "name_of_module DEBUG_APP_EXAMPLE = ''DEBUG_APP_EXAMPLE''"
| "name_of_module DEBUG_TCP_ACCUM = ''DEBUG_TCP_ACCUM''"
| "name_of_module DEBUG_CAPTURE = ''DEBUG_CAPTURE''"
| "name_of_module DEBUG_DRIVER = ''DEBUG_DRIVER''"
| "name_of_module DEBUG_STACK = ''DEBUG_STACK''"

record log_filter =
  f_level :: int
  f_mask :: u32
  f_param :: int

definition filter_globals :: log_filter where
  "filter_globals = \<lparr>f_level = 0, f_mask = 0, f_param = 0\<rparr>"

datatype log_macro = DEBUG_m | DEBUG1 | DEBUG2 | LOG_LVL0 | LOG_LVL1 | LOG_LVL2 | LOG_LVL2PARAM int | LOG_ERR | LOG_MESS | LOG_WARN

fun written_at :: "log_filter \<Rightarrow> debug_module \<Rightarrow> log_macro \<Rightarrow> bool" where
  "written_at g m DEBUG_m = log_enabled 0 (f_level g) (f_mask g) (number_of_module m)"
| "written_at g m DEBUG1 = log_enabled 1 (f_level g) (f_mask g) (number_of_module m)"
| "written_at g m DEBUG2 = log_enabled 2 (f_level g) (f_mask g) (number_of_module m)"
| "written_at g m LOG_LVL0 = log_enabled 0 (f_level g) (f_mask g) (number_of_module m)"
| "written_at g m LOG_LVL1 = log_enabled 1 (f_level g) (f_mask g) (number_of_module m)"
| "written_at g m LOG_LVL2 = log_enabled 2 (f_level g) (f_mask g) (number_of_module m)"
| "written_at g m (LOG_LVL2PARAM p) = (log_enabled 2 (f_level g) (f_mask g) (number_of_module m) \<and> (p = f_param g \<or> f_param g = -1))"
| "written_at g m _ = True"

subsection \<open>Where it goes\<close>

record console =
  con_out :: string
  con_err :: string

text \<open>The text is the module's name, a separator and the formatted message.\<close>

fun macro_text :: "debug_module \<Rightarrow> log_macro \<Rightarrow> string \<Rightarrow> string" where
  "macro_text m DEBUG1 msg = name_of_module m @ '': '' @ msg"
| "macro_text m DEBUG2 msg = name_of_module m @ '': '' @ msg"
| "macro_text m _ msg = name_of_module m @ '' '' @ msg"

text \<open>A conversion of the log to a stream reads the clock and may open a file; the three of a message are given.\<close>

type_synonym conversions = "(int \<times> int option) \<times> (int \<times> int option) \<times> (int \<times> int option)"

definition LOG_DEBUG :: "string \<Rightarrow> conversions \<Rightarrow> LogRotate \<times> files \<Rightarrow> console \<Rightarrow> ((LogRotate \<times> files) \<times> console) res" where
  "LOG_DEBUG a cs s con =
     (case cs of (c1, _, _) \<Rightarrow> rbind (log_debug (length a) (fst c1) (snd c1) s) (\<lambda>s. Inr (s, con\<lparr>con_out := con_out con @ a\<rparr>)))"

definition LOG_MESSAGE :: "tm \<Rightarrow> string \<Rightarrow> conversions \<Rightarrow> LogRotate \<times> files \<Rightarrow> console \<Rightarrow> ((LogRotate \<times> files) \<times> console) res" where
  "LOG_MESSAGE now a cs s con =
     (case cs of (c1, c2, c3) \<Rightarrow> rbind (log_message (length a) c1 c2 c3 s) (\<lambda>s.
        Inr (s, con\<lparr>con_out := con_out con @ printTime now @ ''MESS: '' @ a\<rparr>)))"

definition LOG_WARNING :: "tm \<Rightarrow> string \<Rightarrow> conversions \<Rightarrow> LogRotate \<times> files \<Rightarrow> console \<Rightarrow> ((LogRotate \<times> files) \<times> console) res" where
  "LOG_WARNING now a cs s con =
     (case cs of (c1, c2, c3) \<Rightarrow> rbind (log_message (length (''WARNING: '' @ a)) c1 c2 c3 s) (\<lambda>s.
        Inr (s, con\<lparr>con_out := con_out con @ printTime now @ ''WARNING: '' @ a\<rparr>)))"

definition LOG_ERROR :: "tm \<Rightarrow> string \<Rightarrow> conversions \<Rightarrow> LogRotate \<times> files \<Rightarrow> console \<Rightarrow> ((LogRotate \<times> files) \<times> console) res" where
  "LOG_ERROR now a cs s con =
     (case cs of (c1, c2, c3) \<Rightarrow> rbind (log_message (length (''ERROR: '' @ a)) c1 c2 c3 s) (\<lambda>s.
        Inr (s, con\<lparr>con_err := con_err con @ printTime now @ ''ERROR: '' @ a\<rparr>)))"

definition log_macro_run ::
  "log_filter \<Rightarrow> tm \<Rightarrow> debug_module \<Rightarrow> log_macro \<Rightarrow> string \<Rightarrow> conversions \<Rightarrow> LogRotate \<times> files \<Rightarrow> console \<Rightarrow> ((LogRotate \<times> files) \<times> console) res" where
  "log_macro_run g now m k msg cs s con =
     (if written_at g m k
      then let a = macro_text m k msg
           in case k of LOG_ERR \<Rightarrow> LOG_ERROR now a cs s con
              | LOG_MESS \<Rightarrow> LOG_MESSAGE now a cs s con
              | LOG_WARN \<Rightarrow> LOG_WARNING now a cs s con
              | _ \<Rightarrow> LOG_DEBUG a cs s con
      else Inr (s, con))"

subsection \<open>What is written\<close>

text \<open>The numbers of the modules are distinct bits of the mask.\<close>

lemma number_of_module_bits: "number_of_module m < 10" "number_of_module m = number_of_module m' \<longleftrightarrow> m = m'"
  by (cases m; simp) (cases m; cases m'; simp)

text \<open>Raising the level, adding modules to the mask and lifting the parameter never hide a message.\<close>

lemma written_mono:
  assumes "written_at g m k" and "f_level g \<le> f_level g'" and "\<And>n. bit (f_mask g) n \<Longrightarrow> bit (f_mask g') n"
    and "f_param g' = f_param g \<or> f_param g' = -1"
  shows "written_at g' m k"
  using assms by (cases k) (auto simp: log_enabled_def)

definition stamp :: "tm \<Rightarrow> log_macro \<Rightarrow> string" where
  "stamp now k = (case k of LOG_ERR \<Rightarrow> printTime now @ ''ERROR: '' | LOG_MESS \<Rightarrow> printTime now @ ''MESS: ''
     | LOG_WARN \<Rightarrow> printTime now @ ''WARNING: '' | _ \<Rightarrow> [])"

text \<open>A message appears on the console exactly when the filter lets it through and the log took it: errors on \<^verbatim>\<open>stderr\<close>, the others
  on \<^verbatim>\<open>stdout\<close>, with time and severity from messages upwards. The streams of the log stay in order, the only failure is a log
  whose file cannot be opened, and a message that is filtered out touches nothing.\<close>

theorem log_macro_effect:
  assumes "log_ok s"
  shows "case log_macro_run g now m k msg cs s con of
      Inl f \<Rightarrow> written_at g m k \<and> f \<in> {OutOfBounds, Undefined}
    | Inr (s', con') \<Rightarrow> log_ok s' \<and>
        (if \<not> written_at g m k then s' = s \<and> con' = con
         else if k = LOG_ERR then con' = con\<lparr>con_err := con_err con @ stamp now k @ macro_text m k msg\<rparr>
         else con' = con\<lparr>con_out := con_out con @ stamp now k @ macro_text m k msg\<rparr>)"
proof -
  obtain c1 c2 c3 where cs: "cs = (c1, c2, c3)" by (cases cs)
  define a where "a = macro_text m k msg"
  define con2 where "con2 = (if k = LOG_ERR then con\<lparr>con_err := con_err con @ stamp now k @ a\<rparr>
    else con\<lparr>con_out := con_out con @ stamp now k @ a\<rparr>)"
  show ?thesis
  proof (cases "written_at g m k")
    case True
    have "\<exists>r. safe r \<and> log_macro_run g now m k msg cs s con = rbind r (\<lambda>s. Inr (s, con2))"
    proof (cases "k \<in> {LOG_ERR, LOG_MESS, LOG_WARN}")
      case big: True
      show ?thesis
        using True big log_message_ok [OF assms]
        by (intro exI [of _ "log_message (length ((if k = LOG_ERR then ''ERROR: '' else if k = LOG_MESS then [] else ''WARNING: '') @ a)) c1 c2 c3 s"])
           (auto simp: log_macro_run_def LOG_ERROR_def LOG_MESSAGE_def LOG_WARNING_def cs con2_def stamp_def a_def)
    next
      case False
      have "log_macro_run g now m k msg cs s con = LOG_DEBUG a cs s con" "con2 = con\<lparr>con_out := con_out con @ a\<rparr>"
        using True False by (cases k; simp add: log_macro_run_def a_def Let_def con2_def stamp_def)+
      with log_debug_ok [OF assms] show ?thesis
        by (intro exI [of _ "log_debug (length a) (fst c1) (snd c1) s"]) (simp add: LOG_DEBUG_def cs)
    qed
    then obtain r where "safe r" "log_macro_run g now m k msg cs s con = rbind r (\<lambda>s. Inr (s, con2))" by blast
    with True show ?thesis by (cases r) (auto simp: con2_def a_def safe_def)
  qed (use assms in \<open>simp add: log_macro_run_def\<close>)
qed

theorem log_macro_effect_witness:
  "\<exists>s'. log_macro_run (filter_globals\<lparr>f_level := 2, f_mask := 0xFFFFFF\<rparr>) \<lparr>tm_year = 125, tm_mon = 0, tm_mday = 9, tm_hour = 7, tm_min = 30, tm_sec = 5\<rparr>
       DEBUG_CAPTURE LOG_WARN ''lost'' ((5, None), (5, None), (5, None)) (demo_log, demo_files True) \<lparr>con_out = [], con_err = []\<rparr> =
     Inr (s', \<lparr>con_out = CHR 0x0A # ''2025.01.09 07:30:05 WARNING: DEBUG_CAPTURE lost'', con_err = []\<rparr>)"
proof -
  let ?now = "\<lparr>tm_year = 125, tm_mon = 0, tm_mday = 9, tm_hour = 7, tm_min = 30, tm_sec = 5\<rparr>"
  let ?r = "log_macro_run (filter_globals\<lparr>f_level := 2, f_mask := 0xFFFFFF\<rparr>) ?now
       DEBUG_CAPTURE LOG_WARN ''lost'' ((5, None), (5, None), (5, None)) (demo_log, demo_files True) \<lparr>con_out = [], con_err = []\<rparr>"
  have "log_ok (demo_log, demo_files True)" by (auto simp: demo_log_def demo_files_def log_ok_def)
  note effect = log_macro_effect [OF this, where g = "filter_globals\<lparr>f_level := 2, f_mask := 0xFFFFFF\<rparr>" and now = ?now
      and m = DEBUG_CAPTURE and k = LOG_WARN and msg = "''lost''" and cs = "((5, None), (5, None), (5, None))"
      and con = "\<lparr>con_out = [], con_err = []\<rparr>"]
  have "case ?r of Inl f \<Rightarrow> False | Inr _ \<Rightarrow> True" by code_simp
  moreover have "stamp ?now LOG_WARN @ macro_text DEBUG_CAPTURE LOG_WARN ''lost'' = CHR 0x0A # ''2025.01.09 07:30:05 WARNING: DEBUG_CAPTURE lost''"
    by code_simp
  ultimately show ?thesis using effect by (cases ?r) (auto simp del: macro_text.simps)
qed

end
