(* ===== verification/Debug_Print.thy ===== *)
theory Debug_Print
  imports Prelude
begin

text \<open>
  \<^verbatim>\<open>Debug::printHex\<close> of \<^verbatim>\<open>src/core/Debug.h\<close>: bytes as hexadecimal digits in a buffer of \<^verbatim>\<open>2 * SIZE + 1\<close>
  characters. \<^verbatim>\<open>snprintf\<close> gets the rest of the buffer as a \<^verbatim>\<open>size_t\<close>, writes at most one character less and a zero,
  and returns the length the text would have. A store behind the buffer is \<open>OutOfBounds\<close>.
\<close>

definition hex_digit :: "nat \<Rightarrow> char" where
  "hex_digit d = char_of (if d < 10 then 48 + d else 87 + d)"

text \<open>\<^verbatim>\<open>"%02x"\<close>\<close>

definition hex2 :: "u8 \<Rightarrow> string" where
  "hex2 b = [hex_digit (unat b div 16), hex_digit (unat b mod 16)]"

definition store_chars :: "nat \<Rightarrow> string \<Rightarrow> string \<Rightarrow> string res" where
  "store_chars pos cs buf =
     (if pos + length cs \<le> length buf then Inr (take pos buf @ cs @ drop (pos + length cs) buf) else Inl OutOfBounds)"

definition snprintf :: "nat \<Rightarrow> u64 \<Rightarrow> string \<Rightarrow> string \<Rightarrow> (nat \<times> string) res" where
  "snprintf pos room s buf =
     (if room = 0 then Inr (length s, buf)
      else rbind (store_chars pos (take (unat room - 1) s @ [CHR 0x00]) buf) (\<lambda>buf. Inr (length s, buf)))"

definition TextBuffer_Size :: "nat \<Rightarrow> nat" where
  "TextBuffer_Size SIZE = SIZE * 2 + 1"

text \<open>The loop from byte \<open>i\<close> on; the room is a difference of \<^verbatim>\<open>int\<close>.\<close>

fun print_loop :: "nat \<Rightarrow> u8 list \<Rightarrow> nat \<Rightarrow> string \<Rightarrow> string res" where
  "print_loop SIZE [] len buf = Inr buf"
| "print_loop SIZE (b # bs) len buf =
     rbind (snprintf len (word_of_int (int (TextBuffer_Size SIZE) - int len)) (hex2 b) buf) (\<lambda>(n, buf).
     print_loop SIZE bs (len + n) buf)"

definition printHex :: "nat \<Rightarrow> u8 list \<Rightarrow> string \<Rightarrow> string res" where
  "printHex SIZE hex buf =
     (let len = length hex; len = (if len > TextBuffer_Size SIZE then TextBuffer_Size SIZE else len)
      in print_loop SIZE (take len hex) 0 buf)"

lemma hex2_length [simp]: "length (hex2 b) = 2"
  by (simp add: hex2_def)

lemma room:
  assumes "k \<le> SIZE" and "SIZE < 2 ^ 30"
  shows "unat (word_of_int (int (TextBuffer_Size SIZE) - int (2 * k)) :: u64) = 2 * (SIZE - k) + 1"
proof -
  have "int (TextBuffer_Size SIZE) - int (2 * k) = int (2 * (SIZE - k) + 1)"
    using assms(1) by (simp add: TextBuffer_Size_def)
  then show ?thesis using assms by (simp only: of_int_of_nat_eq) (rule unat_word_of_nat, simp)
qed

lemma hex2_nonzero: "c \<in> set (hex2 b) \<Longrightarrow> c \<noteq> CHR 0x00"
proof -
  have "hex_digit d \<noteq> CHR 0x00" if "d < 16" for d
  proof
    assume "hex_digit d = CHR 0x00"
    then have "(of_char (hex_digit d) :: nat) = of_char (CHR 0x00)" by (rule arg_cong)
    with that show False by (simp add: hex_digit_def of_char_of split: if_splits)
  qed
  moreover have "unat b div 16 < 16" using unsigned_less [of b, where ?'a = nat] by (simp add: less_mult_imp_div_less)
  moreover have "unat b mod 16 < 16" by simp
  ultimately show "c \<in> set (hex2 b) \<Longrightarrow> c \<noteq> CHR 0x00" unfolding hex2_def by (metis empty_iff insert_iff list.set)
qed

lemma unat_nonzero: "unat (w :: u64) = Suc n \<Longrightarrow> w \<noteq> 0"
  by auto

text \<open>One round inside the buffer, at its end, and behind it.\<close>

lemma snprintf_fits:
  assumes "k < SIZE" and "SIZE < 2 ^ 30" and "length pre = 2 * k" and "length post = 2 * (SIZE - k) + 1"
  shows "\<exists>post'. snprintf (2 * k) (word_of_int (int (TextBuffer_Size SIZE) - int (2 * k))) (hex2 b) (pre @ post) =
    Inr (2, (pre @ hex2 b) @ CHR 0x00 # post') \<and> length post' = 2 * (SIZE - k) - 2"
proof -
  let ?r = "word_of_int (int (TextBuffer_Size SIZE) - int (2 * k)) :: u64"
  have r: "unat ?r = 2 * (SIZE - k) + 1" using assms(1,2) by (intro room) auto
  have "?r \<noteq> 0" by (rule unat_nonzero [of _ "2 * (SIZE - k)"]) (simp only: r Suc_eq_plus1)
  moreover have "take (unat ?r - 1) (hex2 b) = hex2 b" unfolding r using assms(1) by simp
  moreover have "store_chars (2 * k) (hex2 b @ [CHR 0x00]) (pre @ post) = Inr ((pre @ hex2 b) @ CHR 0x00 # drop 3 post)"
    using assms by (simp add: store_chars_def)
  ultimately show ?thesis using assms(4) by (intro exI [of _ "drop 3 post"]) (simp add: snprintf_def)
qed

lemma snprintf_full:
  assumes "SIZE < 2 ^ 30" and "length buf = 2 * SIZE + 1"
  shows "snprintf (2 * SIZE) (word_of_int (int (TextBuffer_Size SIZE) - int (2 * SIZE))) (hex2 b) buf =
    Inr (2, take (2 * SIZE) buf @ [CHR 0x00])"
proof -
  let ?r = "word_of_int (int (TextBuffer_Size SIZE) - int (2 * SIZE)) :: u64"
  have "unat ?r = 1" using room [of SIZE SIZE] assms(1) by simp
  then have "?r = 1" by (metis unat_1 word_unat_eq_iff)
  moreover have "snprintf (2 * SIZE) 1 (hex2 b) buf = Inr (2, take (2 * SIZE) buf @ [CHR 0x00])"
    using assms(2) by (simp add: snprintf_def store_chars_def)
  ultimately show ?thesis by (simp only:)
qed

lemma snprintf_behind:
  assumes "SIZE < 2 ^ 30" and "length buf = 2 * SIZE + 1"
  shows "snprintf (2 * SIZE + 2) (word_of_int (int (TextBuffer_Size SIZE) - int (2 * SIZE + 2))) (hex2 b) buf = Inl OutOfBounds"
proof -
  have "word_of_int (int (TextBuffer_Size SIZE) - int (2 * SIZE + 2)) = (-1 :: u64)" by (simp add: TextBuffer_Size_def)
  moreover have "snprintf (2 * SIZE + 2) (-1) (hex2 b) buf = Inl OutOfBounds"
    using assms(2) by (simp add: snprintf_def store_chars_def)
  ultimately show ?thesis by (simp only:)
qed

lemma print_loop_prefix:
  assumes "SIZE < 2 ^ 30"
  shows "k + length hex \<le> SIZE \<Longrightarrow> length pre = 2 * k \<Longrightarrow> length post = 2 * (SIZE - k) + 1 \<Longrightarrow> (hex = [] \<Longrightarrow> take 1 post = [CHR 0x00]) \<Longrightarrow>
    \<exists>post'. length post' = 2 * (SIZE - k - length hex) \<and>
      (\<forall>rest. print_loop SIZE (hex @ rest) (2 * k) (pre @ post) =
        print_loop SIZE rest (2 * (k + length hex)) (pre @ concat (map hex2 hex) @ CHR 0x00 # post'))"
proof (induction hex arbitrary: k pre post)
  case Nil
  then obtain q where "post = CHR 0x00 # q" by (cases post) auto
  with Nil show ?case by auto
next
  case (Cons b hex)
  then obtain post1 where 1: "snprintf (2 * k) (word_of_int (int (TextBuffer_Size SIZE) - int (2 * k))) (hex2 b) (pre @ post) =
      Inr (2, (pre @ hex2 b) @ CHR 0x00 # post1)" "length post1 = 2 * (SIZE - k) - 2"
    using snprintf_fits [of k SIZE pre post b] assms by auto
  have "length (pre @ hex2 b) = 2 * Suc k" "length (CHR 0x00 # post1) = 2 * (SIZE - Suc k) + 1"
    using Cons.prems 1(2) by simp_all
  from Cons.IH [OF _ this] Cons.prems(1) obtain post' where 2: "length post' = 2 * (SIZE - Suc k - length hex)"
    "\<And>rest. print_loop SIZE (hex @ rest) (2 * Suc k) ((pre @ hex2 b) @ CHR 0x00 # post1) =
      print_loop SIZE rest (2 * (Suc k + length hex)) ((pre @ hex2 b) @ concat (map hex2 hex) @ CHR 0x00 # post')"
    by auto
  have "print_loop SIZE ((b # hex) @ rest) (2 * k) (pre @ post) =
      print_loop SIZE rest (2 * (k + length (b # hex))) (pre @ concat (map hex2 (b # hex)) @ CHR 0x00 # post')" for rest
    using 1(1) 2(2) [of rest] by simp
  with 2(1) show ?case by (intro exI [of _ post']) simp
qed

text \<open>The byte behind the ones that fit, and what comes after it.\<close>

lemma byte_behind:
  assumes "0 < SIZE" and "SIZE < length hex"
  obtains x rest where "take (TextBuffer_Size SIZE) hex = take SIZE hex @ x # rest" and "rest = [] \<longleftrightarrow> length hex \<le> SIZE + 1"
proof -
  have split: "take (TextBuffer_Size SIZE) hex = take SIZE hex @ take (SIZE + 1) (drop SIZE hex)"
    using take_add [of SIZE "SIZE + 1" hex] by (simp add: TextBuffer_Size_def mult_2_right)
  moreover have "take (SIZE + 1) (drop SIZE hex) \<noteq> []" using assms(2) by simp
  ultimately obtain x rest where hex: "take (TextBuffer_Size SIZE) hex = take SIZE hex @ x # rest"
    by (cases "take (SIZE + 1) (drop SIZE hex)") auto
  moreover have "length (take SIZE hex @ x # rest) = min (length hex) (2 * SIZE + 1)"
    using arg_cong [OF hex, of length] by (simp add: TextBuffer_Size_def mult.commute min.commute)
  then have "rest = [] \<longleftrightarrow> length hex \<le> SIZE + 1" using assms by (cases rest) (auto simp: min_def split: if_splits)
  ultimately show thesis using that by blast
qed

text \<open>C40. Up to \<open>SIZE\<close> bytes are printed in full, one more is dropped, and from two more on the text is written
  behind the buffer: the length is limited by the size of the buffer instead of \<open>SIZE\<close>, and the
  room that is left becomes negative, which is a huge \<^verbatim>\<open>size_t\<close>.\<close>

theorem print_hex_exact:
  assumes "0 < SIZE" and "SIZE < 2 ^ 30" and "length buf = 2 * SIZE + 1" and "hex \<noteq> []"
  shows "case printHex SIZE hex buf of Inl f \<Rightarrow> f = OutOfBounds \<and> SIZE + 2 \<le> length hex
    | Inr out \<Rightarrow> length hex \<le> SIZE + 1 \<and> length out = length buf \<and>
        takeWhile (\<lambda>c. c \<noteq> CHR 0x00) out = concat (map hex2 (take SIZE hex))"
proof -
  let ?p = "take SIZE hex"
  have "?p \<noteq> []" using assms(1,4) by simp
  then obtain post where post: "length post = 2 * (SIZE - length ?p)"
    "\<And>rest. print_loop SIZE (?p @ rest) 0 buf = print_loop SIZE rest (2 * length ?p) (concat (map hex2 ?p) @ CHR 0x00 # post)"
    using print_loop_prefix [OF assms(2), of 0 ?p "[]" buf] assms(3) by auto
  have len: "length (concat (map hex2 xs)) = 2 * length xs" for xs by (induction xs) simp_all
  have tw: "takeWhile (\<lambda>c. c \<noteq> CHR 0x00) (concat (map hex2 ?p) @ CHR 0x00 # q) = concat (map hex2 ?p)" for q
    by (subst takeWhile_append2) (use hex2_nonzero in auto)
  show ?thesis
  proof (cases "length hex \<le> SIZE")
    case True
    then have "printHex SIZE hex buf = Inr (concat (map hex2 ?p) @ CHR 0x00 # post)"
      using post(2) [of "[]"] by (simp add: printHex_def TextBuffer_Size_def)
    with True tw post(1) assms(3) len [of ?p] show ?thesis by simp
  next
    case False
    let ?out = "concat (map hex2 ?p) @ [CHR 0x00]"
    have p: "length ?p = SIZE" "post = []" using False post(1) by simp_all
    have out: "length ?out = 2 * SIZE + 1" using len [of ?p] p(1) by simp
    obtain x rest where hex: "take (TextBuffer_Size SIZE) hex = ?p @ x # rest" and rest: "rest = [] \<longleftrightarrow> length hex \<le> SIZE + 1"
      using byte_behind [OF assms(1), of hex] False by (metis not_le)
    have "printHex SIZE hex buf = print_loop SIZE (?p @ x # rest) 0 buf"
      by (simp only: printHex_def Let_def if_distrib [of "\<lambda>n. take n hex"] flip: hex) simp
    also have "\<dots> = print_loop SIZE (x # rest) (2 * SIZE) ?out" using post(2) p by simp
    also have "\<dots> = print_loop SIZE rest (2 * SIZE + 2) ?out"
      using snprintf_full [OF assms(2) out, of x] len [of ?p] p(1) by simp
    finally have run: "printHex SIZE hex buf = print_loop SIZE rest (2 * SIZE + 2) ?out" .
    show ?thesis
    proof (cases rest)
      case Nil
      then have "printHex SIZE hex buf = Inr ?out" using run by simp
      with Nil rest out assms(3) tw [of "[]"] show ?thesis by simp
    next
      case (Cons y ys)
      then have "printHex SIZE hex buf = Inl OutOfBounds" using run snprintf_behind [OF assms(2) out, of y] by simp
      with Cons rest show ?thesis by simp
    qed
  qed
qed

theorem print_hex_exact_witness:
  "takeWhile (\<lambda>c. c \<noteq> CHR 0x00) (projr (printHex 2 [0x0A, 0xF3, 0x55] (replicate 5 CHR ''z''))) = ''0af3'' \<and>
   printHex 2 [0x0A, 0xF3, 0x55, 1] (replicate 5 CHR ''z'') = Inl OutOfBounds"
proof -
  have "concat (map hex2 (take 2 [0x0A, 0xF3, 0x55])) = ''0af3''"
    by code_simp
  with print_hex_exact [of 2 "replicate 5 CHR ''z''" "[0x0A, 0xF3, 0x55]"]
    print_hex_exact [of 2 "replicate 5 CHR ''z''" "[0x0A, 0xF3, 0x55, 1]"]
  show ?thesis by (auto split: sum.splits)
qed

end
