(* ===== verification/Mediaroom.thy ===== *)
theory Mediaroom
  imports Layers Time_Handler
begin

text \<open>
  \<^verbatim>\<open>src/mediaroom.cpp\<close>: the test section that \<^verbatim>\<open>main\<close> runs first, which nests headers over uninitialised memory,
  and the state of its \<^verbatim>\<open>idle\<close> and of its signal handler. The rest of \<^verbatim>\<open>main\<close> is in
  \<open>Main_Loop\<close>.
\<close>

subsection \<open>The test section\<close>

text \<open>\<^verbatim>\<open>PacketPtr<std::unique_ptr<char[]>>\<close> over 1024 bytes, with the length 1500 and the window behind the four
  bytes of \<^verbatim>\<open>PacketHdr\<close>; \<open>m\<close> is what the memory holds.\<close>

definition SIZEOF_PACKETHDR :: nat where "SIZEOF_PACKETHDR = 4"

definition test_packet :: "mem \<Rightarrow> base" where
  "test_packet m = make_ptr (Pkt (Packet.extend zero_packet \<lparr>content = m, content_end = 1024\<rparr>)) 1500 (word_of_nat SIZEOF_PACKETHDR)"

definition set_content :: "mem \<Rightarrow> base \<Rightarrow> base" where
  "set_content m b = (case b of Pkt p \<Rightarrow> Pkt (p\<lparr>content := m\<rparr>) | PktOffset p off \<Rightarrow> PktOffset (p\<lparr>content := m\<rparr>) off)"

text \<open>\<^verbatim>\<open>x->protocol = v\<close>\<close>

definition set_protocol :: "layer list \<Rightarrow> u8 \<Rightarrow> base \<Rightarrow> base res" where
  "set_protocol ls v b = rbind (hdr ls b) (\<lambda>a.
     if a + 9 < content_end (packet b) then Inr (set_content (st8 (a + 9) v (content (packet b))) b) else Inl OutOfBounds)"

definition get_protocol :: "layer list \<Rightarrow> base \<Rightarrow> u8 res" where
  "get_protocol ls b = rbind (hdr ls b) (\<lambda>a. ip_protocol a b)"

definition test_section :: "mem \<Rightarrow> unit res" where
  "test_section m =
     rbind (set_protocol [Ip4, Eth] 1 (test_packet m)) (\<lambda>y.
     rbind (set_protocol [Ip4, Ip4, Eth] 2 y) (\<lambda>y.
     rbind (rebase [Ip4, Ip4, Eth] y) (\<lambda>z.
     rbind (get_protocol [Ip4] z) (\<lambda>p. rassert (p = 2)))))"

subsection \<open>Idle and exit\<close>

text \<open>The static \<^verbatim>\<open>prev\<close>; the result is whether the statistics file is written.\<close>

definition main_idle :: "timeval \<Rightarrow> timeval \<Rightarrow> bool \<times> timeval" where
  "main_idle now prev = (if timeval_diff_tv now prev > 10000000 then (True, now) else (False, prev))"

definition ctrlHandler :: "int \<Rightarrow> bool \<Rightarrow> bool" where
  "ctrlHandler signum gExit = True"

subsection \<open>Properties\<close>

lemma test_packet_simps [simp]:
  "getOffset (test_packet m) = 4" "content (packet (test_packet m)) = m" "content_end (packet (test_packet m)) = 1024"
  by (simp_all add: test_packet_def make_ptr_def SIZEOF_PACKETHDR_def Packet.extend_def)

lemma set_content_simps [simp]:
  "getOffset (set_content m b) = getOffset b" "content (packet (set_content m b)) = m"
  "content_end (packet (set_content m b)) = content_end (packet b)"
  by (cases b; simp add: set_content_def)+

lemma ip4_size_read: "a < content_end (packet b) \<Longrightarrow>
  layer_size Ip4 a b = Inr (push_bit 2 (ucast (take_bit 4 (content (packet b) a))))"
  by (simp add: layer_sizes ip_header_len_def rd8_def)

lemma ihl_small: "unat (push_bit 2 (ucast (take_bit 4 (x :: u8))) :: u16) \<le> 60"
proof -
  have n: "unat (take_bit 4 x) < 16" by (simp add: unat_take_bit)
  then have c: "unat (ucast (take_bit 4 x) :: u16) = unat (take_bit 4 x)"
    by (simp add: unsigned_ucast_eq take_bit_nat_eq_self)
  have "unat (push_bit 2 w) \<le> 60" if "unat w < 16" for w :: u16
    using that by (simp add: push_bit_eq_mult unat_word_ariths)
  then show ?thesis using n c by (simp only:)
qed

lemma test_section_ok: "test_section m = Inr ()"
proof -
  define z where "z = (push_bit 2 (ucast (take_bit 4 (m 18))) :: u16)"
  have z: "unat z \<le> 60" unfolding z_def by (rule ihl_small)
  have sz: "unat (z + 14) = unat z + 14" "unat (4 + (z + 14)) = 18 + unat z"
    using z by (simp_all add: unat_word_ariths)
  let ?m1 = "st8 27 1 m"
  let ?m2 = "st8 (27 + unat z) 2 ?m1"
  let ?y1 = "set_content ?m1 (test_packet m)"
  let ?y2 = "set_content ?m2 ?y1"
  have 1: "set_protocol [Ip4, Eth] 1 (test_packet m) = Inr ?y1" by (simp add: set_protocol_def hdr_def)
  have full: "fullSize [Ip4, Eth] (set_content n b) = Inr (z + 14)"
    if "n 18 = m 18" "getOffset b = 4" "content_end (packet b) = 1024" for n b
    using that by (simp add: ip4_size_read z_def)
  have 2: "set_protocol [Ip4, Ip4, Eth] 2 ?y1 = Inr ?y2"
    using full [of ?m1 "test_packet m"] sz z by (simp add: set_protocol_def hdr_def st8_def)
  have f2: "fullSize [Ip4, Eth] ?y2 = Inr (z + 14)" by (rule full) (simp_all add: st8_def)
  then have h2: "hdr [Ip4, Ip4, Eth] ?y2 = Inr (18 + unat z)" using sz by (simp add: hdr_def)
  then obtain n where n: "getLength [Ip4, Ip4, Eth] ?y2 = Inr n" using z by (simp add: ip_total_length_def rd16_def)
  let ?z = "make_ptr ?y2 (n - (z + 14)) (4 + (z + 14))"
  have 3: "rebase [Ip4, Ip4, Eth] ?y2 = Inr ?z"
    using n f2 by (simp only: rebase_def list.sel rbind_simps) simp
  have "getOffset ?z = 4 + (z + 14)" "content (packet ?z) = ?m2" "content_end (packet ?z) = 1024"
    by (simp_all add: pointer.off_mk pointer.bytes_mk pointer.end_mk)
  then have "get_protocol [Ip4] ?z = Inr 2"
    using sz z by (simp add: get_protocol_def hdr_def ip_protocol_def rd8_def st8_def)
  with 1 2 3 show ?thesis by (simp add: test_section_def)
qed

text \<open>Nesting headers works whatever the memory holds: the test section of \<^verbatim>\<open>main\<close> writes two protocol numbers through
  a stack of three headers, reads the second back through the rebased header, and its assertion
  holds, although the length of the first header is read from uninitialised memory; every access is inside the
  1024 bytes.\<close>

theorem test_section_passes: "test_section m = Inr ()"
  by (rule test_section_ok)

end
