(* ===== verification/Main_Loop.thy ===== *)
theory Main_Loop
  imports Capture Shared_Server System_Config Mediaroom
begin

text \<open>
  \<^verbatim>\<open>main\<close> of \<^verbatim>\<open>src/mediaroom.cpp\<close> from the command line to the end of the program, with the constructors of
  \<^verbatim>\<open>System\<close> and \<^verbatim>\<open>Capture\<close> it calls. A parameter of the configuration is registered with a pointer to a member of
  the class \<^verbatim>\<open>Config\<close>, not with a place in an object: the objects \<^verbatim>\<open>System::config\<close> and \<^verbatim>\<open>Capture::_configs\<close> are members
  of their own, which start as the declarations say and which the constructors only read.

  \<open>put\<close> is \<^verbatim>\<open>Stack::putPackets\<close>, whose class is not in the repository. The array of packets is what
  \<^verbatim>\<open>new Packet*[10]\<close> gives; the \<^verbatim>\<open>make_unique\<close> around it has the wrong type and does not compile.
\<close>

subsection \<open>The system\<close>

record sys_config =
  pcap_collect_mode :: int
  log_level :: int
  log_mask :: int
  log_param :: int
  logPath :: string

definition default_sys_config :: sys_config where
  "default_sys_config = \<lparr>pcap_collect_mode = 0, log_level = 2, log_mask = 0xFFFFFF, log_param = -1, logPath = ''./''\<rparr>"

record 'v machine =
  system :: "'v System"
  sys_conf :: sys_config
  g_log_level :: int
  g_log_mask :: int
  g_log_param :: int

definition config_columns :: "(string \<Rightarrow> 'v) \<Rightarrow> string \<Rightarrow> string list \<Rightarrow> 'v ConfigParam list" where
  "config_columns member module names = map (\<lambda>n. \<lparr>cp_prefix = module, cp_name = n, cp_value = member n\<rparr>) names"

definition system_names :: "string list" where
  "system_names = [''pcap_collect_mode'', ''log_level'', ''log_mask'', ''log_param'', ''logPath'']"

text \<open>The members as they are before the body of the constructor runs.\<close>

definition initial_machine :: "'v machine" where
  "initial_machine = \<lparr>system = \<lparr>config_file = [], cmdlineConfig = [], config_list = []\<rparr>, sys_conf = default_sys_config,
     g_log_level = 0, g_log_mask = 0, g_log_param = 0\<rparr>"

definition machine_loads :: "string \<Rightarrow> 'v ConfigParam list \<Rightarrow> 'v machine \<Rightarrow> 'v machine res" where
  "machine_loads moduleName columns g = rbind (loadConfig moduleName columns (system g)) (\<lambda>s. Inr (g\<lparr>system := s\<rparr>))"

definition new_System :: "(string \<Rightarrow> 'v) \<Rightarrow> nat \<Rightarrow> string list \<Rightarrow> 'v machine \<Rightarrow> 'v machine res" where
  "new_System member fuel argv g =
     rbind (processArgs fuel argv (system g)) (\<lambda>(_, s).
     rbind (machine_loads ''System'' (config_columns member ''System'' system_names) (g\<lparr>system := s\<rparr>)) (\<lambda>g.
       let config = sys_conf g
       in Inr (g\<lparr>g_log_level := log_level config, g_log_mask := log_mask config, g_log_param := log_param config\<rparr>)))"

subsection \<open>The capture\<close>

record capture_config =
  iface :: string
  mtu :: int
  cc_type :: int
  dpdk_cmd :: string
  devices :: string

datatype DriveType = DriverPcapType | LinPacketDriver | SharedIODriver | AstartaDriver | DpdkDriver

text \<open>The conversion of an \<^verbatim>\<open>int\<close> to the enumeration, which has eight bits.\<close>

definition drive_type :: "int \<Rightarrow> DriveType option" where
  "drive_type n = map_of [(1, DriverPcapType), (2, LinPacketDriver), (3, SharedIODriver), (4, AstartaDriver), (5, DpdkDriver)] (word_of_int n :: u8)"

text \<open>A driver that cannot be opened is left out, as are the types without a branch.\<close>

fun open_drivers :: "(string \<Rightarrow> int \<Rightarrow> 'd res) \<Rightarrow> capture_config list \<Rightarrow> 'd list \<Rightarrow> 'd list res" where
  "open_drivers opener [] drivers = Inr drivers"
| "open_drivers opener (c # cs) drivers =
     (if drive_type (cc_type c) = Some DriverPcapType
      then (case opener (iface c) (mtu c) of
              Inr d \<Rightarrow> open_drivers opener cs (drivers @ [d])
            | Inl e \<Rightarrow> if e = Thrown then open_drivers opener cs drivers else Inl e)
      else open_drivers opener cs drivers)"

text \<open>Without a driver the program ends, \<open>None\<close>.\<close>

definition capture_ctor :: "(string \<Rightarrow> int \<Rightarrow> 'd res) \<Rightarrow> capture_config list \<Rightarrow> 'd list \<Rightarrow> 'd list option res" where
  "capture_ctor opener cs ds = rbind (open_drivers opener cs ds) (\<lambda>ds. Inr (if ds = [] then None else Some ds))"

text \<open>The members of a capture. Both vectors have no initializer: they start empty.\<close>

record 'd capture =
  configs :: "capture_config list"
  drivers :: "'d list"

definition initial_capture :: "'d capture" where
  "initial_capture = \<lparr>configs = [], drivers = []\<rparr>"

definition capture_names :: "string list" where
  "capture_names = [''iface'', ''mtu'', ''type'', ''dpdk_cmd'', ''devices'']"

definition new_Capture :: "(string \<Rightarrow> 'v) \<Rightarrow> (string \<Rightarrow> int \<Rightarrow> 'd res) \<Rightarrow> 'd capture \<Rightarrow> 'v machine \<Rightarrow> ('d list option \<times> 'v machine) res" where
  "new_Capture member opener c g =
     rbind (machine_loads ''Capture'' (config_columns member ''Capture'' capture_names) g) (\<lambda>g.
     rbind (capture_ctor opener (configs c) (drivers c)) (\<lambda>r. Inr (r, g)))"

subsection \<open>The loop\<close>

text \<open>What a round finds: the locks of the drivers, the clocks and the time of \<open>idle\<close>.\<close>

record round_env =
  owned :: "nat \<Rightarrow> bool"
  round_now :: u64
  round_tks :: u64
  round_time :: timeval

definition main_round :: "(u64 \<Rightarrow> u64 \<Rightarrow> nat \<Rightarrow> nat \<Rightarrow> 'd \<Rightarrow> memory \<Rightarrow> (nat \<times> 'd \<times> memory) res) \<Rightarrow> (timeval \<Rightarrow> 'd \<Rightarrow> 'd)
    \<Rightarrow> (nat option list \<Rightarrow> 's \<Rightarrow> 's) \<Rightarrow> round_env \<Rightarrow> 'd list \<times> 's \<times> memory \<Rightarrow> ('d list \<times> 's \<times> memory) res" where
  "main_round get idle put e = (\<lambda>(ds, s, m).
     rbind (capture_getPackets (get (round_now e) (round_tks e)) 10 (zip (map (owned e) [0..<length ds]) ds) m) (\<lambda>(got, ds, m).
       let s = (if got \<noteq> 0 then put (take got (bulk m)) s else s)
       in Inr (capture_idle (\<lambda>_. idle (round_time e)) 0 ds, s, m)))"

text \<open>The rounds until a signal sets \<^verbatim>\<open>gExit\<close>.\<close>

fun main_loop :: "(u64 \<Rightarrow> u64 \<Rightarrow> nat \<Rightarrow> nat \<Rightarrow> 'd \<Rightarrow> memory \<Rightarrow> (nat \<times> 'd \<times> memory) res) \<Rightarrow> (timeval \<Rightarrow> 'd \<Rightarrow> 'd)
    \<Rightarrow> (nat option list \<Rightarrow> 's \<Rightarrow> 's) \<Rightarrow> round_env list \<Rightarrow> 'd list \<times> 's \<times> memory \<Rightarrow> ('d list \<times> 's \<times> memory) res" where
  "main_loop get idle put [] st = Inr st"
| "main_loop get idle put (e # es) st = rbind (main_round get idle put e st) (main_loop get idle put es)"

subsection \<open>The program\<close>

datatype ending = Exited int | Returned int

text \<open>The world around the program: the answers of the kernel to the server, the memory of the test section, the rounds
  before a signal, the uninitialised array.\<close>

record 's world =
  server_sock :: int
  server_steps :: "bool list"
  server_before :: SharedServer
  test_memory :: mem
  stack :: 's
  rounds :: "round_env list"
  memory0 :: memory

definition main_program :: "(string \<Rightarrow> 'v) \<Rightarrow> nat \<Rightarrow> (string \<Rightarrow> int \<Rightarrow> 'h DriverPcap res) \<Rightarrow> (nat option list \<Rightarrow> 's \<Rightarrow> 's) \<Rightarrow> 's world
    \<Rightarrow> string list \<Rightarrow> ending res" where
  "main_program member fuel opener put w argv =
     (let body =
        rbind (new_System member fuel argv initial_machine) (\<lambda>g.
        rbind (machine_loads ''Main'' (config_columns member ''Main'' [''driverBulk'']) g) (\<lambda>g.
        rbind (test_section (test_memory w)) (\<lambda>_.
        rbind (server_create (server_sock w) (server_steps w) (server_before w)) (\<lambda>_.
        rbind (new_Capture member opener initial_capture g) (\<lambda>(r, g).
          case r of
            None \<Rightarrow> Inr (Exited (-1))
          | Some ds \<Rightarrow> rbind (main_loop pcap_getPackets pcap_idle put (rounds w) (ds, stack w, memory0 w)) (\<lambda>_. Inr (Returned 0)))))))
      in case body of Inl Thrown \<Rightarrow> Inr (Returned 0) | _ \<Rightarrow> body)"

subsection \<open>Counting packets\<close>

text \<open>A driver that also counts: \<open>seen\<close> is the number of packets it has handed out, modulo \<open>2 ^ 64\<close>.\<close>

locale counting_driver = packet_driver get ok
  for get :: "nat \<Rightarrow> nat \<Rightarrow> 'd \<Rightarrow> memory \<Rightarrow> (nat \<times> 'd \<times> memory) res" and ok :: "'d \<Rightarrow> memory \<Rightarrow> bool" +
  fixes seen :: "'d \<Rightarrow> u64"
  assumes get_seen: "ok d m \<Longrightarrow> get pos limit d m = Inr (n, d', m') \<Longrightarrow> seen d' = seen d + word_of_nat n"
begin

lemma loop_seen:
  "(\<And>d. d \<in> snd ` set ds \<Longrightarrow> ok d m) \<Longrightarrow> 0 < limit \<Longrightarrow> limit < 2 ^ 31 \<Longrightarrow> got + length ds * limit \<le> length (bulk m) \<Longrightarrow>
   capture_loop get limit ds got m = Inr (n, ds', m') \<Longrightarrow>
   length ds' = length ds \<and> (\<Sum>d\<leftarrow>ds'. seen d) + word_of_nat got = (\<Sum>d\<leftarrow>map snd ds. seen d) + word_of_nat n"
proof (induction ds arbitrary: got m ds')
  case (Cons p ds)
  obtain owns d where p: "p = (owns, d)" by (cases p)
  show ?case
  proof (cases owns)
    case False
    with Cons.prems(5) p obtain ds1 where "capture_loop get limit ds got m = Inr (n, ds1, m')" "ds' = d # ds1"
      by (auto simp: rbind_Inr_iff)
    with Cons.IH [of m got ds1] Cons.prems p show ?thesis by (simp add: add.assoc)
  next
    case True
    with Cons.prems(5) p obtain k d1 m1 ds1 where g: "get got limit d m = Inr (k, d1, m1)"
      "capture_loop get limit ds (got + k) m1 = Inr (n, ds1, m')" "ds' = d1 # ds1"
      by (auto simp: rbind_Inr_iff)
    have "ok d m" using Cons.prems(1) p by simp
    with get_ok [of d m limit got] g(1) Cons.prems(2-4) have k: "k \<le> limit" "same_outside got (got + limit) m m1" by auto
    have "\<And>e. e \<in> snd ` set ds \<Longrightarrow> ok e m1"
      using Cons.prems(1) k(2) by (intro ok_mono [of _ m m1]) (auto simp: same_outside_def)
    with Cons.IH [of m1 "got + k" ds1] Cons.prems(2-4) g(2) k have "length ds1 = length ds"
      "(\<Sum>d\<leftarrow>ds1. seen d) + word_of_nat (got + k) = (\<Sum>d\<leftarrow>map snd ds. seen d) + word_of_nat n"
      by (auto simp: same_outside_def)
    then show ?thesis using get_seen [OF \<open>ok d m\<close> g(1)] p g(3) by (simp add: algebra_simps)
  qed
qed auto

lemma bulk_ok:
  assumes "\<And>d. d \<in> snd ` set ds \<Longrightarrow> ok d m" and "ds \<noteq> []" and "length ds \<le> L" and "L < 2 ^ 31" and "L \<le> length (bulk m)"
  shows "\<exists>n ds' m'. capture_getPackets get L ds m = Inr (n, ds', m') \<and> n \<le> L \<and> filled 0 n m' \<and> length (bulk m') = length (bulk m) \<and>
    (\<forall>d \<in> set ds'. ok d m') \<and> length ds' = length ds \<and> (\<Sum>d\<leftarrow>ds'. seen d) = (\<Sum>d\<leftarrow>map snd ds. seen d) + word_of_nat n"
proof -
  let ?k = "L div length ds"
  have k: "0 < ?k" "length ds * ?k \<le> L" "?k < 2 ^ 31"
    using assms(2,3) le_less_trans [OF div_le_dividend assms(4)] by (auto simp: div_greater_zero_iff)
  have room: "0 + length ds * ?k \<le> length (bulk m)" using k(2) assms(5) by linarith
  from loop_ok [OF assms(1) k(1,3) room] obtain n ds' m' where
    r: "capture_loop get ?k ds 0 m = Inr (n, ds', m')" "n \<le> 0 + length ds * ?k" "filled 0 n m'" "\<forall>d \<in> set ds'. ok d m'"
      "same_outside 0 (0 + length ds * ?k) m m'"
    by (auto simp: filled_def)
  have "n \<le> L" using r(2) k(2) by linarith
  with loop_seen [OF assms(1) k(1,3) room r(1)] r show ?thesis
    by (simp add: capture_getPackets_def same_outside_def)
qed

end

text \<open>The library does not fail, and a driver has handed out what it counted less the packet it holds.\<close>

definition dispatch_total :: "('h \<Rightarrow> int \<Rightarrow> int \<times> arrival list \<times> 'h) \<Rightarrow> bool" where
  "dispatch_total f \<longleftrightarrow> (\<forall>h cnt. 0 \<le> fst (f h cnt))"

definition handed_out :: "'h DriverPcap \<Rightarrow> u64" where
  "handed_out d = rx_packs (stat d) - of_bool (off_pkt d \<noteq> None)"

definition pcap_sound :: "'h DriverPcap \<Rightarrow> memory \<Rightarrow> bool" where
  "pcap_sound d m \<longleftrightarrow> pcap_ok d m \<and> dispatch_total (pcap_dispatch d)"

lemma put_packet_handed:
  "put_packet a d m = Inr (d', m') \<Longrightarrow> d' = d\<lparr>currPkts := Suc (currPkts d)\<rparr>"
  by (auto simp: put_packet_def rbind_Inr_iff)

lemma offlineProcess_held:
  "offlineProcess now a ts w = Inr (h, w') \<Longrightarrow> off_pkt w = None \<and> (h \<longleftrightarrow> off_pkt w' \<noteq> None)"
  by (auto simp: offlineProcess_def rbind_Inr_iff Let_def)

lemma handler_handed:
  assumes "pcapHandler now tks a (d, m) = Inr (d', m')"
  shows "handed_out d' - word_of_nat (currPkts d') = handed_out d - word_of_nat (currPkts d) \<and> pcap_dispatch d' = pcap_dispatch d"
proof (cases "ar_caplen a \<ge> 65536")
  case True
  with assms show ?thesis by (simp add: pcapHandler_def)
next
  case False
  let ?d = "count_packet (ar_caplen a) d"
  obtain m1 where "new_packet tks a (pcap_datalink d (handle d)) m = Inr m1" using assms False by (auto simp: pcapHandler_def rbind_Inr_iff)
  with assms False have run: "(if offline ?d
      then rbind (offlineProcess now (ar_addr a) (ar_ts a) (DriverOffline.truncate ?d)) (\<lambda>(held, w).
        let d = ?d\<lparr>off_pkt := off_pkt w, pkt_time := pkt_time w, pkt_sent := pkt_sent w\<rparr>
        in if held then Inr (d, m1) else put_packet (ar_addr a) d m1)
      else put_packet (ar_addr a) ?d m1) = Inr (d', m')"
    by (simp add: pcapHandler_def Let_def)
  show ?thesis
  proof (cases "offline ?d")
    case False
    with run have "d' = ?d\<lparr>currPkts := Suc (currPkts ?d)\<rparr>" by (auto dest: put_packet_handed)
    then show ?thesis by (simp add: handed_out_def count_packet_def)
  next
    case True
    with run obtain w held where w: "offlineProcess now (ar_addr a) (ar_ts a) (DriverOffline.truncate ?d) = Inr (held, w)"
      "(if held then Inr (?d\<lparr>off_pkt := off_pkt w, pkt_time := pkt_time w, pkt_sent := pkt_sent w\<rparr>, m1)
        else put_packet (ar_addr a) (?d\<lparr>off_pkt := off_pkt w, pkt_time := pkt_time w, pkt_sent := pkt_sent w\<rparr>) m1) = Inr (d', m')"
      by (auto simp: rbind_Inr_iff Let_def)
    note h = offlineProcess_held [OF w(1)]
    show ?thesis
      using w(2) h by (auto simp: handed_out_def count_packet_def DriverOffline.defs dest!: put_packet_handed split: if_splits)
  qed
qed

lemma callbacks_handed:
  "pcap_callbacks now tks as (d, m) = Inr (d', m') \<Longrightarrow>
   handed_out d' - word_of_nat (currPkts d') = handed_out d - word_of_nat (currPkts d) \<and> pcap_dispatch d' = pcap_dispatch d"
proof (induction as arbitrary: d m)
  case (Cons a as)
  then obtain d1 m1 where "pcapHandler now tks a (d, m) = Inr (d1, m1)" "pcap_callbacks now tks as (d1, m1) = Inr (d', m')"
    by (auto simp: rbind_Inr_iff)
  with handler_handed Cons.IH show ?case by metis
qed simp

lemma held_handed:
  assumes "off_pkt d = Some a" and "pcap_getPackets now tks pos limit d m = Inr (n, d', m')"
  shows "handed_out d' = handed_out d + word_of_nat n \<and> pcap_dispatch d' = pcap_dispatch d"
  using assms by (auto simp: pcap_getPackets_def offlinePkt_def offlineHandle_def DriverOffline.defs handed_out_def rbind_Inr_iff Let_def
      split: option.splits if_splits)

lemma dispatched_handed:
  assumes "off_pkt d = None" and "dispatch_total (pcap_dispatch d)" and "pcap_getPackets now tks pos limit d m = Inr (n, d', m')"
  shows "handed_out d' = handed_out d + word_of_nat n \<and> pcap_dispatch d' = pcap_dispatch d"
proof -
  let ?d = "d\<lparr>currPkts := 0, currBulk := pos\<rparr>" and ?cnt = "if offline d then 1 else to_int limit"
  obtain r as h where disp: "pcap_dispatch d (handle d) ?cnt = (r, as, h)" by (cases "pcap_dispatch d (handle d) ?cnt") auto
  with assms(2) have r: "\<not> r < 0" unfolding dispatch_total_def by (metis fst_conv not_le)
  obtain d1 where cb: "pcap_callbacks now tks as (?d, m) = Inr (d1, m')"
    and res: "n = currPkts d1" "handed_out d' = handed_out d1" "pcap_dispatch d' = pcap_dispatch d1"
    using assms(1,3) disp r
    by (auto simp: pcap_getPackets_def offlinePkt_def DriverOffline.defs handed_out_def rbind_Inr_iff Let_def split: if_splits)
  have "handed_out ?d = handed_out d" by (simp add: handed_out_def)
  with callbacks_handed [OF cb] res show ?thesis by (simp add: algebra_simps)
qed

lemma pcap_handed:
  "pcap_sound d m \<Longrightarrow> pcap_getPackets now tks pos limit d m = Inr (n, d', m') \<Longrightarrow>
   handed_out d' = handed_out d + word_of_nat n \<and> pcap_dispatch d' = pcap_dispatch d"
  using held_handed dispatched_handed by (cases "off_pkt d") (fastforce simp: pcap_sound_def)+

interpretation pcap_count: counting_driver "pcap_getPackets now tks" pcap_sound handed_out for now tks
proof unfold_locales
  fix d :: "'a DriverPcap" and m limit pos
  assume h: "pcap_sound d m" "0 < limit" "limit < 2 ^ 31" "pos + limit \<le> length (bulk m)"
  then have "pcap_ok d m" by (simp add: pcap_sound_def)
  from pcap.get_ok [OF this h(2-4), of now tks] pcap_handed [OF h(1)] h(1)
  show "\<exists>n d' m'. pcap_getPackets now tks pos limit d m = Inr (n, d', m') \<and> pcap_sound d' m' \<and> n \<le> limit \<and>
      same_outside pos (pos + limit) m m' \<and> filled pos (pos + n) m'"
    by (fastforce simp: pcap_sound_def)
next
  fix d :: "'a DriverPcap" and m m' :: memory
  assume "pcap_sound d m" "dom (pkts m) \<subseteq> dom (pkts m')"
  then show "pcap_sound d m'" using pcap.ok_mono by (auto simp: pcap_sound_def iff del: domIff)
qed (use pcap_handed in blast)

lemma capture_idle_map: "capture_idle (\<lambda>_. f) i ds = map f ds"
  by (induction ds arbitrary: i) simp_all

lemma pcap_idle_keeps [simp]:
  "pcap_sound (pcap_idle t d) m \<longleftrightarrow> pcap_sound d m" "handed_out (pcap_idle t d) = handed_out d"
  by (simp_all add: pcap_idle_def pcap_sound_def pcap_ok_def handed_out_def Let_def)

definition ready :: "'h DriverPcap list \<Rightarrow> memory \<Rightarrow> bool" where
  "ready ds m \<longleftrightarrow> ds \<noteq> [] \<and> length ds \<le> 10 \<and> length (bulk m) = 10 \<and> (\<forall>d \<in> set ds. pcap_sound d m)"

definition good_bulk :: "nat option list \<Rightarrow> bool" where
  "good_bulk b \<longleftrightarrow> b \<noteq> [] \<and> length b \<le> 10 \<and> None \<notin> set b"

lemma round_serves:
  assumes "ready ds m"
  shows "\<exists>b ds' m'. main_round pcap_getPackets pcap_idle put e (ds, s, m) = Inr (ds', if b = [] then s else put b s, m') \<and>
    ready ds' m' \<and> (b \<noteq> [] \<longrightarrow> good_bulk b) \<and> (\<Sum>d\<leftarrow>ds'. handed_out d) = (\<Sum>d\<leftarrow>ds. handed_out d) + word_of_nat (length b)"
proof -
  let ?ds = "zip (map (owned e) [0..<length ds]) ds"
  have ds: "map snd ?ds = ds" "length ?ds = length ds" by simp_all
  then have "snd ` set ?ds = set ds" by (metis list.set_map)
  then have "\<And>d. d \<in> snd ` set ?ds \<Longrightarrow> pcap_sound d m" and "?ds \<noteq> []" "length ?ds \<le> 10" "(10 :: nat) < 2 ^ 31" "10 \<le> length (bulk m)"
    using assms ds(2) by (auto simp: ready_def)
  from pcap_count.bulk_ok [OF this, of "round_now e" "round_tks e"] assms ds obtain n ds' m' where
    r: "capture_getPackets (pcap_getPackets (round_now e) (round_tks e)) 10 ?ds m = Inr (n, ds', m')" "n \<le> 10" "filled 0 n m'"
      "length (bulk m') = 10" "\<forall>d \<in> set ds'. pcap_sound d m'" "length ds' = length ds"
      "(\<Sum>d\<leftarrow>ds'. handed_out d) = (\<Sum>d\<leftarrow>ds. handed_out d) + word_of_nat n"
    unfolding ready_def by metis
  let ?b = "take n (bulk m')"
  have "None \<notin> set ?b" using r(2-4) by (auto simp: filled_def in_set_conv_nth)
  moreover have "length ?b = n" using r(2,4) by simp
  ultimately show ?thesis using r assms
    by (intro exI [of _ ?b] exI [of _ "map (pcap_idle (round_time e)) ds'"] exI [of _ m'])
      (auto simp: main_round_def Let_def capture_idle_map ready_def good_bulk_def comp_def)
qed

lemma loop_serves:
  "ready ds m \<Longrightarrow> \<exists>bulks ds' m'. main_loop pcap_getPackets pcap_idle put es (ds, s, m) = Inr (ds', fold put bulks s, m') \<and>
    list_all good_bulk bulks \<and> (\<Sum>d\<leftarrow>ds'. handed_out d) = (\<Sum>d\<leftarrow>ds. handed_out d) + word_of_nat (length (concat bulks))"
proof (induction es arbitrary: ds s m)
  case Nil
  show ?case by (intro exI [of _ "[]"] exI [of _ ds] exI [of _ m]) simp
next
  case (Cons e es)
  from round_serves [OF Cons.prems, of put e s] obtain b ds1 m1 where
    r: "main_round pcap_getPackets pcap_idle put e (ds, s, m) = Inr (ds1, if b = [] then s else put b s, m1)" "ready ds1 m1"
      "b \<noteq> [] \<longrightarrow> good_bulk b" "(\<Sum>d\<leftarrow>ds1. handed_out d) = (\<Sum>d\<leftarrow>ds. handed_out d) + word_of_nat (length b)" by blast
  from Cons.IH [OF r(2), of "if b = [] then s else put b s"] obtain bulks ds' m' where
    "main_loop pcap_getPackets pcap_idle put es (ds1, if b = [] then s else put b s, m1) =
        Inr (ds', fold put bulks (if b = [] then s else put b s), m')" "list_all good_bulk bulks"
    "(\<Sum>d\<leftarrow>ds'. handed_out d) = (\<Sum>d\<leftarrow>ds1. handed_out d) + word_of_nat (length (concat bulks))" by blast
  with r(1,3,4) show ?case
    by (intro exI [of _ "if b = [] then bulks else b # bulks"] exI [of _ ds'] exI [of _ m']) (simp add: add.assoc)
qed

subsection \<open>Properties\<close>

lemma opened_sound:
  "open_drivers (\<lambda>i n. new_DriverPcap i (opened i n) disp dl now) cs ds0 = Inr ds \<Longrightarrow> dispatch_ok disp \<Longrightarrow> dispatch_total disp \<Longrightarrow>
   (\<forall>d \<in> set ds0. pcap_sound d m \<and> handed_out d = 0) \<Longrightarrow> \<forall>d \<in> set ds. pcap_sound d m \<and> handed_out d = 0"
proof (induction cs arbitrary: ds0)
  case (Cons c cs)
  have new: "pcap_sound d m \<and> handed_out d = 0" if "new_DriverPcap i (opened i n) disp dl now = Inr d" for i n d
    using that Cons.prems(2,3)
    by (auto simp: new_DriverPcap_def pcap_sound_def pcap_ok_def handed_out_def new_DriverOffline_def DriverOffline.defs DriverPcap.defs
        no_stat_def Let_def split: option.splits)
  from Cons.prems(1) obtain ds1 where "open_drivers (\<lambda>i n. new_DriverPcap i (opened i n) disp dl now) cs ds1 = Inr ds"
    "\<forall>d \<in> set ds1. pcap_sound d m \<and> handed_out d = 0"
    using Cons.prems(4) new by (auto split: if_splits sum.splits)
  with Cons.IH Cons.prems(2,3) show ?case by blast
qed auto

text \<open>C26. The loop of \<^verbatim>\<open>main\<close> loses nothing. It starts with one to ten drivers and an array of ten
  packets; a packet that a driver holds back is in the memory and the driver reads a file, and the library never delivers more packets than
  it is asked for nor reports a failure (\<open>pcap_sound\<close>, which every operation keeps). Then the loop runs without
  a fault until the signal, whatever drivers are locked in which round, whatever arrives and whatever the stack does with
  what it is handed: bulks of one to ten packets, none of them null, and together, modulo \<open>2 ^ 64\<close>, as many as the drivers counted
  meanwhile, less the packets the drivers hold back. The program itself ends before this loop, see C39.\<close>

theorem main_loop_serves:
  assumes "ready ds m"
  shows "\<exists>bulks ds' m'. main_loop pcap_getPackets pcap_idle put es (ds, s, m) = Inr (ds', fold put bulks s, m') \<and>
    list_all good_bulk bulks \<and>
    (\<Sum>d\<leftarrow>ds'. handed_out d) = (\<Sum>d\<leftarrow>ds. handed_out d) + word_of_nat (length (concat bulks))"
  by (rule loop_serves [OF assms])

definition demo_round :: "bool \<Rightarrow> round_env" where
  "demo_round b = \<lparr>owned = (\<lambda>_. b), round_now = 5, round_tks = 6, round_time = \<lparr>tv_sec = 1, tv_usec = 0\<rparr>\<rparr>"

definition demo_configs :: "capture_config list" where
  "demo_configs = map (\<lambda>(i, n). \<lparr>iface = i, mtu = 65535, cc_type = n, dpdk_cmd = [], devices = []\<rparr>)
     [(''eth0'', 1), (''none'', 1), (''eth1'', 5)]"

definition demo_opened :: "string \<Rightarrow> int \<Rightarrow> bool \<Rightarrow> arrival list option" where
  "demo_opened i n file = (if i = ''none'' then None else Some [demo_arrival 100 4096, demo_arrival 103 8192])"

text \<open>Three interfaces, one of them opened: its two packets come in the round in which the driver is not locked.\<close>

theorem main_loop_serves_witness:
  "\<exists>ds m. open_drivers (\<lambda>i n. new_DriverPcap i (demo_opened i n) live_dispatch (\<lambda>_. 1) \<lparr>tv_sec = 0, tv_usec = 0\<rparr>) demo_configs [] = Inr ds \<and>
    (\<exists>bulks ds' m'. main_loop pcap_getPackets pcap_idle (\<lambda>b s. s @ [b]) [demo_round False, demo_round True] (ds, [], m) =
      Inr (ds', fold (\<lambda>b s. s @ [b]) bulks [], m') \<and> list_all good_bulk bulks)"
proof -
  let ?m = "demo_memory\<lparr>bulk := replicate 10 None\<rparr>"
  let ?open = "\<lambda>i n. new_DriverPcap i (demo_opened i n) live_dispatch (\<lambda>_. 1) \<lparr>tv_sec = 0, tv_usec = 0\<rparr>"
  let ?d = "projr (?open ''eth0'' 65535)"
  have o: "open_drivers ?open demo_configs [] = Inr [?d]"
    by (simp add: demo_configs_def drive_type_def new_DriverPcap_def demo_opened_def)
  have "dispatch_ok live_dispatch" "dispatch_total live_dispatch"
    by (auto simp: dispatch_ok_def dispatch_total_def live_dispatch_def Let_def)
  with opened_sound [OF o, of ?m] have "ready [?d] ?m" by (simp add: ready_def)
  from main_loop_serves [OF this, of "\<lambda>b s. s @ [b]" "[demo_round False, demo_round True]" "[]"] o show ?thesis by blast
qed

lemma server_create_returns: "fd < FD_SETSIZE \<Longrightarrow> \<exists>r. server_create fd steps srv = Inr r"
  by (cases "list_all (\<lambda>b. b) steps") (auto simp: server_create_def Let_def fd_ok_def)

subsection \<open>The program on a command line\<close>

definition names_param :: "(string \<times> setting list) list \<Rightarrow> string \<Rightarrow> string list \<Rightarrow> bool" where
  "names_param args k names \<longleftrightarrow> list_ex (\<lambda>(j, ps). j = k \<and> list_ex (\<lambda>(n, _). n \<in> set names) (read_names [] ps)) args"

lemma asked_columns:
  "list_ex (asked k (map_of vs)) (config_columns member j names) \<longleftrightarrow> j = k \<and> list_ex (\<lambda>(n, _). n \<in> set names) vs"
  by (force simp: config_columns_def asked_def list_ex_iff map_of_eq_None_iff)

lemma machine_loads_result:
  assumes "module_entries k (cmdlineConfig (system g)) = filter (\<lambda>(j, _). j = k) (map read_arg args)"
    and "\<forall>p \<in> set (config_list (system g)). cp_prefix p \<noteq> k"
  shows "machine_loads k (config_columns member k names) g =
    (if names_param args k names then Inl Undefined
     else Inr (g\<lparr>system := (system g)\<lparr>config_list := config_list (system g) @ config_columns member k names\<rparr>\<rparr>))"
proof -
  have "list_ex (asked k m) (config_list (system g)) = False" for m
    using assms(2) by (auto simp: list_ex_iff asked_def)
  moreover have "list_ex (\<lambda>(_, m). list_ex (asked k m) (config_columns member k names)) (filter (\<lambda>(j, _). j = k) (map read_arg as)) \<longleftrightarrow>
      names_param as k names" for as
    by (induction as) (auto simp: names_param_def asked_columns)
  ultimately show ?thesis by (simp add: machine_loads_def loadConfig_result assms(1))
qed

lemma columns_prefix [simp]: "p \<in> set (config_columns member k names) \<Longrightarrow> cp_prefix p = k"
  by (auto simp: config_columns_def)

text \<open>C39. What the program does with a command line of any number of arguments, each a module and its settings (as in C24), when the descriptor
  of the server's socket is below \<open>FD_SETSIZE\<close>. If an argument of \<^verbatim>\<open>System\<close>, \<^verbatim>\<open>Main\<close> or \<^verbatim>\<open>Capture\<close> names a parameter registered for that
  module, a value is stored through \<^verbatim>\<open>putValue\<close>, which has no defined outcome. Otherwise the program
  exits with -1 before its loop, whatever drivers could be opened: the list of interfaces is a
  member that starts empty, and nothing between its start and the loop over it fills it. The level, the mask and the
  parameter of the log are the defaults, however \<^verbatim>\<open>System\<close> returns.\<close>

theorem program_exits:
  fixes member :: "string \<Rightarrow> 'v"
  assumes "list_all (arg_ok fuel) args" and "server_sock w < FD_SETSIZE"
  shows "main_program member fuel opener put w (prog # map render_arg args) =
      (if names_param args ''System'' system_names \<or> names_param args ''Main'' [''driverBulk''] \<or> names_param args ''Capture'' capture_names
       then Inl Undefined else Inr (Exited (-1))) \<and>
    (case new_System member fuel (prog # map render_arg args) initial_machine of
       Inl e \<Rightarrow> e = Undefined \<and> names_param args ''System'' system_names
     | Inr g \<Rightarrow> g_log_level g = 2 \<and> g_log_mask g = 0xFFFFFF \<and> g_log_param g = -1)"
proof -
  let ?g = "initial_machine :: 'v machine"
  have "cmdlineConfig (system ?g) = []" by (simp add: initial_machine_def)
  from command_line_read [OF assms(1) this, of prog] obtain m where
    m: "processArgs fuel (prog # map render_arg args) (system ?g) = Inr (True, (system ?g)\<lparr>config_file := prog, cmdlineConfig := m\<rparr>)"
      "module_entries k m = filter (\<lambda>(j, _). j = k) (map read_arg args)" for k by blast
  have test: "test_section m = Inr ()" for m by (rule test_section_ok)
  note loads = machine_loads_result [where args = args and member = member]
  have other: "\<forall>p \<in> set (config_columns member ''System'' system_names @ config_columns member ''Main'' [''driverBulk'']). cp_prefix p \<noteq> ''Capture''"
    "\<forall>p \<in> set (config_columns member ''System'' system_names). cp_prefix p \<noteq> ''Main''"
    by auto
  obtain r where "server_create (server_sock w) (server_steps w) (server_before w) = Inr r"
    using server_create_returns [OF assms(2)] by blast
  with m test other show ?thesis
    by (simp add: main_program_def new_System_def new_Capture_def capture_ctor_def default_sys_config_def initial_machine_def
        initial_capture_def loads Let_def del: set_append)
qed

definition demo_world :: "nat world" where
  "demo_world = \<lparr>server_sock = 3, server_steps = [True, True, True, True], server_before = demo_server, test_memory = (\<lambda>_. 0),
     stack = 0, rounds = [demo_round True], memory0 = demo_memory\<rparr>"

text \<open>\<^verbatim>\<open>System{x:"1",log_level:5}\<close> names no parameter, as the second name is read with its comma; \<^verbatim>\<open>Capture{mtu:9}\<close>
  names one.\<close>

theorem program_exits_witness:
  "main_program (\<lambda>n. n) 3 (\<lambda>i n. new_DriverPcap i (demo_opened i n) live_dispatch (\<lambda>_. 1) \<lparr>tv_sec = 0, tv_usec = 0\<rparr>)
     (\<lambda>b n. n + length b) demo_world
     [''mediaroom'', ''System{x:'' @ CHR 0x22 # ''1'' @ CHR 0x22 # '',log_level:5}'', ''Other{mtu:9}''] = Inr (Exited (-1)) \<and>
   main_program (\<lambda>n. n) 3 (\<lambda>i n. new_DriverPcap i (demo_opened i n) live_dispatch (\<lambda>_. 1) \<lparr>tv_sec = 0, tv_usec = 0\<rparr>)
     (\<lambda>b n. n + length b) demo_world [''mediaroom'', ''Capture{mtu:9}''] = Inl Undefined"
proof -
  let ?open = "\<lambda>i n. new_DriverPcap i (demo_opened i n) live_dispatch (\<lambda>_. 1) \<lparr>tv_sec = 0, tv_usec = 0\<rparr>"
  let ?a = "[(''System'', [(''x'', True, ''1''), (''log_level'', False, ''5'')]), (''Other'', [(''mtu'', False, ''9'')])]"
  let ?b = "[(''Capture'', [(''mtu'', False, ''9'')])]"
  have "list_all (arg_ok 3) ?a" "list_all (arg_ok 3) ?b" "server_sock demo_world < FD_SETSIZE"
    by (simp_all add: npos_def demo_world_def FD_SETSIZE_def)
  from program_exits [OF this(1,3), of "\<lambda>n. n" ?open "\<lambda>b n. n + length b" "''mediaroom''"]
    program_exits [OF this(2,3), of "\<lambda>n. n" ?open "\<lambda>b n. n + length b" "''mediaroom''"]
  show ?thesis by (simp add: names_param_def system_names_def capture_names_def)
qed

end
